(* ===== verification/Pman_Prelude.thy ===== *)
theory Pman_Prelude
  imports Main
begin

text \<open>
  Shared vocabulary of the pman development: the exceptions the C++ code throws as values of a
  datatype, results as a sum type, executions of a labelled step function over an explicit
  schedule, and the generic invariant rule every interleaving model instantiates.
\<close>

section \<open>Exceptions and results\<close>

text \<open>
  The standard exception classes the sources throw. \<open>System_error\<close> carries the errno.
\<close>

datatype exn =
    Invalid_argument
  | Logic_error
  | Runtime_error
  | Out_of_range
  | System_error nat

type_synonym 'a result = "exn + 'a"

text \<open>Linux errno values the sources test for.\<close>

definition EINTR :: nat where "EINTR = 4"
definition EAGAIN :: nat where "EAGAIN = 11"
definition ETIMEDOUT :: nat where "ETIMEDOUT = 110"

section \<open>Executions of a step function over a schedule\<close>

text \<open>
  A component whose operations interleave is a step function \<open>next :: 'l \<Rightarrow> 's \<Rightarrow> 's option\<close>: the
  label says which thread moves (and how the kernel resolves its choice), \<open>None\<close> that the label is
  not enabled. \<open>run\<close> executes a whole schedule.
\<close>

primrec run :: "('l \<Rightarrow> 's \<Rightarrow> 's option) \<Rightarrow> 'l list \<Rightarrow> 's \<Rightarrow> 's option" where
  "run nxt [] s = Some s"
| "run nxt (l # ls) s = (case nxt l s of None \<Rightarrow> None | Some s' \<Rightarrow> run nxt ls s')"

definition reachable :: "('l \<Rightarrow> 's \<Rightarrow> 's option) \<Rightarrow> 's \<Rightarrow> 's \<Rightarrow> bool" where
  "reachable nxt s0 s \<longleftrightarrow> (\<exists>ls. run nxt ls s0 = Some s)"

lemma run_append:
  "run nxt (ls @ ks) s = (case run nxt ls s of None \<Rightarrow> None | Some s' \<Rightarrow> run nxt ks s')"
  by (induction ls arbitrary: s) (auto split: option.splits)

lemma run_append_Some:
  "run nxt ls s = Some s' \<Longrightarrow> run nxt (ls @ ks) s = run nxt ks s'"
  by (simp add: run_append)

lemma reachable_refl [simp, intro]: "reachable nxt s s"
  unfolding reachable_def by (rule exI [of _ "[]"]) simp

lemma reachableI: "run nxt ls s0 = Some s \<Longrightarrow> reachable nxt s0 s"
  unfolding reachable_def by blast

lemma run_invariant_on:
  assumes "run nxt ls s = Some s'" and "list_all P ls" and "I s"
    and "\<And>l s s'. P l \<Longrightarrow> nxt l s = Some s' \<Longrightarrow> I s \<Longrightarrow> I s'"
  shows "I s'"
  using assms(1-3)
proof (induction ls arbitrary: s)
  case Nil
  then show ?case by simp
next
  case (Cons l ls)
  then obtain u where u: "nxt l s = Some u" "run nxt ls u = Some s'"
    by (auto split: option.splits)
  with Cons.prems have "I u" by (auto intro: assms(4))
  with u(2) Cons.prems(2) show ?case by (auto intro: Cons.IH)
qed

lemma run_invariant:
  assumes "run nxt ls s = Some s'" and "I s"
    and "\<And>l s s'. nxt l s = Some s' \<Longrightarrow> I s \<Longrightarrow> I s'"
  shows "I s'"
  by (rule run_invariant_on [OF assms(1), where P = "\<lambda>_. True"]) (auto simp: list_all_iff intro: assms(2,3))

text \<open>
  The contract of an interleaving component: an initial state, a step function and a predicate
  that holds at the start and that every step keeps. What it gives is that the predicate holds in
  every reachable state.
\<close>

locale step_system =
  fixes nxt :: "'l \<Rightarrow> 's \<Rightarrow> 's option"
    and s0 :: 's
    and inv :: "'s \<Rightarrow> bool"
  assumes inv_init: "inv s0"
    and inv_step: "nxt l s = Some s' \<Longrightarrow> inv s \<Longrightarrow> inv s'"
begin

lemma inv_run: "run nxt ls s0 = Some s \<Longrightarrow> inv s"
  by (rule run_invariant [where I = inv and nxt = nxt and s = s0]) (auto intro: inv_init inv_step)

lemma inv_reachable: "reachable nxt s0 s \<Longrightarrow> inv s"
  unfolding reachable_def by (blast intro: inv_run)

end

text \<open>
  A lock is a step system with a reading of who holds it, such that the invariant leaves room for
  one holder only. Its clients get mutual exclusion in every reachable state.
\<close>

locale lock_system = step_system nxt s0 inv
  for nxt :: "'l \<Rightarrow> 's \<Rightarrow> 's option" and s0 :: 's and inv :: "'s \<Rightarrow> bool" +
  fixes holds :: "'s \<Rightarrow> 't \<Rightarrow> bool"
  assumes one_holder: "inv s \<Longrightarrow> holds s t \<Longrightarrow> holds s u \<Longrightarrow> t = u"
begin

lemma mutual_exclusion: "reachable nxt s0 s \<Longrightarrow> holds s t \<Longrightarrow> holds s u \<Longrightarrow> t = u"
  by (blast intro: one_holder inv_reachable)

lemma holders_card:
  assumes "reachable nxt s0 s"
  shows "card {t. holds s t} \<le> 1"
proof (cases "\<exists>t. holds s t")
  case True
  then obtain t where "holds s t" by blast
  then have "{t. holds s t} = {t}"
    using mutual_exclusion [OF assms] by blast
  then show ?thesis by simp
next
  case False
  then show ?thesis by simp
qed

end

text \<open>
  The same contract where the schedule obeys a side condition (a bound on the number of threads,
  say): only labels that satisfy \<open>ok\<close> have to keep the invariant.
\<close>

locale guarded_system =
  fixes nxt :: "'l \<Rightarrow> 's \<Rightarrow> 's option"
    and s0 :: 's
    and inv :: "'s \<Rightarrow> bool"
    and ok :: "'l \<Rightarrow> bool"
  assumes guarded_init: "inv s0"
    and guarded_step: "nxt l s = Some s' \<Longrightarrow> ok l \<Longrightarrow> inv s \<Longrightarrow> inv s'"
begin

lemma guarded_run: "run nxt ls s0 = Some s \<Longrightarrow> list_all ok ls \<Longrightarrow> inv s"
  by (rule run_invariant_on [where I = inv and nxt = nxt and s = s0 and P = ok])
    (auto intro: guarded_init guarded_step)

end

sublocale step_system \<subseteq> guarded_system nxt s0 inv "\<lambda>_. True"
  by unfold_locales (auto intro: inv_init inv_step)

text \<open>
  A reader/writer lock: the invariant leaves a writer alone. Its clients get the exclusion in
  every state an admissible schedule reaches.
\<close>

locale rw_lock_system = guarded_system nxt s0 inv ok
  for nxt :: "'l \<Rightarrow> 's \<Rightarrow> 's option" and s0 :: 's and inv :: "'s \<Rightarrow> bool" and ok :: "'l \<Rightarrow> bool" +
  fixes reads writes :: "'s \<Rightarrow> 't \<Rightarrow> bool"
  assumes writer_alone: "inv s \<Longrightarrow> writes s t \<Longrightarrow> \<not> reads s u \<and> (writes s u \<longrightarrow> u = t)"
begin

lemma rw_lock_exclusion:
  "run nxt ls s0 = Some s \<Longrightarrow> list_all ok ls \<Longrightarrow> writes s t \<Longrightarrow>
    \<not> reads s u \<and> (writes s u \<longrightarrow> u = t)"
  using writer_alone [OF guarded_run] by blast

end

section \<open>Sums over threads\<close>

text \<open>
  The sum of a weight over the program counters of all threads, of which finitely many have a weight.
  Invariants that count threads are equations between such sums, and \<open>weigh_upd\<close> says how one step of
  one thread changes them.
\<close>

definition weigh :: "('p \<Rightarrow> int) \<Rightarrow> ('t \<Rightarrow> 'p) \<Rightarrow> int" where
  "weigh f g = (\<Sum>t \<in> {t. f (g t) \<noteq> 0}. f (g t))"

lemma finite_weights:
  assumes "finite {t. g t \<noteq> p0}" "f p0 = (0 :: int)"
  shows "finite {t. f (g t) \<noteq> 0}"
  by (rule finite_subset [OF _ assms(1)]) (use assms(2) in auto)

lemma weigh_superset:
  assumes "finite A" "{t. f (g t) \<noteq> 0} \<subseteq> A"
  shows "weigh f g = (\<Sum>t \<in> A. f (g t))"
  unfolding weigh_def using assms by (intro sum.mono_neutral_left) auto

lemma weigh_upd:
  assumes "finite {t. f (g t) \<noteq> 0}"
  shows "weigh f (g(t := p)) = weigh f g - f (g t) + f p"
proof -
  let ?A = "insert t {t. f (g t) \<noteq> 0}"
  have fin: "finite ?A" using assms by simp
  have "weigh f (g(t := p)) = (\<Sum>u \<in> ?A. f ((g(t := p)) u))" by (rule weigh_superset [OF fin]) auto
  also have "\<dots> = f p + (\<Sum>u \<in> ?A - {t}. f (g u))" using fin by (simp add: sum.remove [of ?A t])
  also have "(\<Sum>u \<in> ?A - {t}. f (g u)) = (\<Sum>u \<in> ?A. f (g u)) - f (g t)" using fin by (simp add: sum.remove [of ?A t])
  also have "(\<Sum>u \<in> ?A. f (g u)) = weigh f g" by (rule weigh_superset [OF fin, symmetric]) auto
  finally show ?thesis by (simp add: fun_upd_def)
qed

lemma weigh_nonneg_on: "(\<And>t. 0 \<le> f (g t)) \<Longrightarrow> 0 \<le> weigh f g"
  unfolding weigh_def by (rule sum_nonneg) auto

lemma weigh_mono:
  assumes "finite {t. f (g t) \<noteq> 0}" "finite {t. h (g t) \<noteq> 0}" "\<And>t. f (g t) \<le> h (g t)"
  shows "weigh f g \<le> weigh h g"
proof -
  let ?A = "{t. f (g t) \<noteq> 0} \<union> {t. h (g t) \<noteq> 0}"
  have fin: "finite ?A" using assms by simp
  have "weigh f g = (\<Sum>t \<in> ?A. f (g t))" by (rule weigh_superset [OF fin]) auto
  also have "\<dots> \<le> (\<Sum>t \<in> ?A. h (g t))" by (rule sum_mono) (rule assms(3))
  also have "\<dots> = weigh h g" by (rule weigh_superset [OF fin, symmetric]) auto
  finally show ?thesis .
qed

lemma weigh_member_le:
  assumes "finite {t. f (g t) \<noteq> 0}" "\<And>t. 0 \<le> f (g t)"
  shows "f (g t) \<le> weigh f g"
proof (cases "f (g t) = 0")
  case True
  then show ?thesis using weigh_nonneg_on [of f g, OF assms(2)] by simp
next
  case False
  then show ?thesis unfolding weigh_def using assms by (intro member_le_sum) auto
qed

lemma weigh_zero: "weigh f (\<lambda>_. p) = 0" if "f p = 0"
  using that by (simp add: weigh_def)

section \<open>Lists and options\<close>

lemma removeAll_singleton_set: "set xs = {u} \<Longrightarrow> removeAll u xs = []"
  by (metis Diff_cancel set_empty set_removeAll)

lemma Suc_length_remove1: "x \<in> set xs \<Longrightarrow> Suc (length (remove1 x xs)) = length xs"
  by (induction xs) auto

lemma in_set_tlD: "x \<in> set (tl xs) \<Longrightarrow> x \<in> set xs"
  by (cases xs) auto

lemma run_replicate_Suc:
  "run nxt (replicate (Suc n) l) s = (case nxt l s of None \<Rightarrow> None | Some s' \<Rightarrow> run nxt (replicate n l) s')"
  by simp

lemma distinct_count_list: "distinct xs \<longleftrightarrow> (\<forall>x. count_list xs x \<le> 1)"
proof (induction xs)
  case (Cons y ys)
  have "count_list (y # ys) x \<le> 1 \<longleftrightarrow> count_list ys x \<le> 1 \<and> (x = y \<longrightarrow> y \<notin> set ys)" for x
    by (auto simp: count_list_0_iff)
  then show ?case using Cons.IH by (auto simp: count_list_0_iff)
qed simp

end
