(* ===== verification/Futex_Mutex.thy ===== *)
theory Futex_Mutex
  imports Pman_Prelude
begin

text \<open>
  \<open>FutexMutex\<close> of src/include/pman/futex.hpp and src/src/futex.cpp as an interleaving of atomic
  operations: every thread has a program counter inside \<open>lock\<close>, \<open>try_lock\<close> or \<open>unlock\<close>, and one
  step is one load, compare-exchange, exchange or futex system call. Memory is sequentially
  consistent. The kernel's futex queue is part of the state; which sleeper a wake picks, signals
  and spurious returns are labels of the schedule.
\<close>

section \<open>State\<close>

datatype fm_word = Unlocked | Locked | Contended

datatype fm_pc =
    Outside
  | Lock_fast
  | Lock_spin nat
  | Lock_cas nat
  | Lock_exchange
  | Lock_wait
  | Lock_asleep
  | Try_cas
  | Holding
  | Unlock_exchange
  | Unlock_wake

record fm =
  fm_state :: fm_word
  fm_waiters :: "nat list"
  fm_pcs :: "nat \<Rightarrow> fm_pc"

datatype fm_act =
    Call_lock
  | Call_try_lock
  | Call_unlock
  | Step
  | Wake nat
  | Wake_nobody
  | Interrupted
  | Spurious

definition fm_init :: fm where
  "fm_init = \<lparr>fm_state = Unlocked, fm_waiters = [], fm_pcs = (\<lambda>_. Outside)\<rparr>"

definition fm_goto :: "nat \<Rightarrow> fm_pc \<Rightarrow> fm \<Rightarrow> fm" where
  "fm_goto t p s = s\<lparr>fm_pcs := (fm_pcs s)(t := p)\<rparr>"

definition fm_spins :: nat where
  "fm_spins = 1000"

section \<open>The operations\<close>

text \<open>
  \<open>state_.compare_exchange_strong(expected = Unlocked, Locked)\<close>, with the program counters for
  success and failure.
\<close>

definition fm_cas :: "nat \<Rightarrow> fm_pc \<Rightarrow> fm_pc \<Rightarrow> fm \<Rightarrow> fm" where
  "fm_cas t ok fail s =
     (if fm_state s = Unlocked then fm_goto t ok (s\<lparr>fm_state := Locked\<rparr>) else fm_goto t fail s)"

text \<open>
  \<open>futex_wait_internal(&state_, Contended)\<close> without a timeout: the kernel compares and sleeps, or
  returns EAGAIN at once. Either way the caller goes on at the head of the spin loop with a fresh
  budget of spins; EINTR repeats the system call.
\<close>

definition fm_futex_wait :: "nat \<Rightarrow> fm \<Rightarrow> fm" where
  "fm_futex_wait t s =
     (if fm_state s = Contended
      then fm_goto t Lock_asleep (s\<lparr>fm_waiters := fm_waiters s @ [t]\<rparr>)
      else fm_goto t (Lock_spin fm_spins) s)"

definition fm_leave_queue :: "nat \<Rightarrow> fm_pc \<Rightarrow> fm \<Rightarrow> fm" where
  "fm_leave_queue u p s = fm_goto u p (s\<lparr>fm_waiters := removeAll u (fm_waiters s)\<rparr>)"

fun fm_lock :: "nat \<Rightarrow> fm \<Rightarrow> fm_pc \<Rightarrow> fm option" where
  "fm_lock t s Lock_fast = Some (fm_cas t Holding (Lock_spin fm_spins) s)"
| "fm_lock t s (Lock_spin 0) = Some (fm_goto t Lock_exchange s)"
| "fm_lock t s (Lock_spin (Suc n)) =
     Some (if fm_state s = Unlocked then fm_goto t (Lock_cas n) s else fm_goto t (Lock_spin n) s)"
| "fm_lock t s (Lock_cas n) = Some (fm_cas t Holding (Lock_spin n) s)"
| "fm_lock t s Lock_exchange =
     Some (if fm_state s = Unlocked then fm_goto t Holding (s\<lparr>fm_state := Contended\<rparr>)
           else fm_goto t Lock_wait (s\<lparr>fm_state := Contended\<rparr>))"
| "fm_lock t s Lock_wait = Some (fm_futex_wait t s)"
| "fm_lock t s _ = None"

fun fm_try_lock :: "nat \<Rightarrow> fm \<Rightarrow> fm_pc \<Rightarrow> fm option" where
  "fm_try_lock t s Try_cas = Some (fm_cas t Holding Outside s)"
| "fm_try_lock t s _ = None"

fun fm_unlock :: "nat \<Rightarrow> fm \<Rightarrow> fm_pc \<Rightarrow> fm option" where
  "fm_unlock t s Unlock_exchange =
     Some (if fm_state s = Contended then fm_goto t Unlock_wake (s\<lparr>fm_state := Unlocked\<rparr>)
           else fm_goto t Outside (s\<lparr>fm_state := Unlocked\<rparr>))"
| "fm_unlock t s _ = None"

text \<open>\<open>futex_wake_internal(&state_, 1)\<close>: some sleeper leaves the queue, if there is one.\<close>

definition fm_futex_wake :: "nat \<Rightarrow> nat option \<Rightarrow> fm \<Rightarrow> fm option" where
  "fm_futex_wake t who s =
     (case who of
        Some u \<Rightarrow> if u \<in> set (fm_waiters s)
                  then Some (fm_goto t Outside (fm_leave_queue u (Lock_spin fm_spins) s)) else None
      | None \<Rightarrow> if fm_waiters s = [] then Some (fm_goto t Outside s) else None)"

definition fm_call :: "nat \<Rightarrow> fm_pc \<Rightarrow> fm_pc \<Rightarrow> fm \<Rightarrow> fm option" where
  "fm_call t from to s = (if fm_pcs s t = from then Some (fm_goto t to s) else None)"

fun fm_next :: "nat \<times> fm_act \<Rightarrow> fm \<Rightarrow> fm option" where
  "fm_next (t, Call_lock) s = fm_call t Outside Lock_fast s"
| "fm_next (t, Call_try_lock) s = fm_call t Outside Try_cas s"
| "fm_next (t, Call_unlock) s = fm_call t Holding Unlock_exchange s"
| "fm_next (t, Step) s =
     (case fm_lock t s (fm_pcs s t) of
        Some s' \<Rightarrow> Some s'
      | None \<Rightarrow> (case fm_try_lock t s (fm_pcs s t) of
          Some s' \<Rightarrow> Some s'
        | None \<Rightarrow> fm_unlock t s (fm_pcs s t)))"
| "fm_next (t, Wake u) s = (if fm_pcs s t = Unlock_wake then fm_futex_wake t (Some u) s else None)"
| "fm_next (t, Wake_nobody) s = (if fm_pcs s t = Unlock_wake then fm_futex_wake t None s else None)"
| "fm_next (t, Interrupted) s =
     (if fm_pcs s t = Lock_asleep then Some (fm_leave_queue t Lock_wait s) else None)"
| "fm_next (t, Spurious) s =
     (if fm_pcs s t = Lock_asleep then Some (fm_leave_queue t (Lock_spin fm_spins) s) else None)"

section \<open>Invariant\<close>

definition fm_holds :: "fm \<Rightarrow> nat \<Rightarrow> bool" where
  "fm_holds s t \<longleftrightarrow> fm_pcs s t = Holding \<or> fm_pcs s t = Unlock_exchange"

text \<open>
  The holder read off the program counters: at most one thread is past its acquiring operation and
  before its releasing exchange, and the lock word is \<open>Unlocked\<close> exactly when there is none.
\<close>

definition fm_inv_at :: "nat option \<Rightarrow> fm \<Rightarrow> bool" where
  "fm_inv_at h s \<longleftrightarrow>
     (\<forall>t. fm_holds s t \<longleftrightarrow> h = Some t) \<and>
     (fm_state s = Unlocked \<longleftrightarrow> h = None) \<and>
     (\<forall>t. t \<in> set (fm_waiters s) \<longleftrightarrow> fm_pcs s t = Lock_asleep)"

definition fm_inv :: "fm \<Rightarrow> bool" where
  "fm_inv s \<longleftrightarrow> (\<exists>h. fm_inv_at h s)"

definition fm_neutral :: "fm_pc \<Rightarrow> bool" where
  "fm_neutral p \<longleftrightarrow> p \<noteq> Holding \<and> p \<noteq> Unlock_exchange \<and> p \<noteq> Lock_asleep"

lemmas fm_step_defs = fm_cas_def fm_futex_wait_def fm_leave_queue_def fm_futex_wake_def
  fm_call_def fm_goto_def

lemma fm_neutral_simps [simp]:
  "fm_neutral Outside" "fm_neutral Lock_fast" "fm_neutral (Lock_spin n)" "fm_neutral (Lock_cas n)"
  "fm_neutral Lock_exchange" "fm_neutral Lock_wait" "fm_neutral Try_cas" "fm_neutral Unlock_wake"
  "\<not> fm_neutral Holding" "\<not> fm_neutral Unlock_exchange" "\<not> fm_neutral Lock_asleep"
  by (simp_all add: fm_neutral_def)

named_theorems fm_moves

lemma fm_move_neutral [fm_moves]:
  "fm_inv_at h s \<Longrightarrow> fm_neutral (fm_pcs s t) \<Longrightarrow> fm_neutral p \<Longrightarrow> fm_inv_at h (fm_goto t p s)"
  by (auto simp: fm_inv_at_def fm_goto_def fm_neutral_def fm_holds_def)

lemma fm_move_word [fm_moves]:
  "fm_inv_at h s \<Longrightarrow> h \<noteq> None \<Longrightarrow> w \<noteq> Unlocked \<Longrightarrow> fm_inv_at h (s\<lparr>fm_state := w\<rparr>)"
  by (auto simp: fm_inv_at_def fm_holds_def)

lemma fm_move_acquire [fm_moves]:
  "fm_inv_at None s \<Longrightarrow> fm_neutral (fm_pcs s t) \<Longrightarrow> w \<noteq> Unlocked \<Longrightarrow>
   fm_inv_at (Some t) (fm_goto t Holding (s\<lparr>fm_state := w\<rparr>))"
  by (auto simp: fm_inv_at_def fm_goto_def fm_neutral_def fm_holds_def)

lemma fm_move_release [fm_moves]:
  "fm_inv_at (Some t) s \<Longrightarrow> fm_neutral p \<Longrightarrow> fm_pcs s t \<noteq> Lock_asleep \<Longrightarrow>
   fm_inv_at None (fm_goto t p (s\<lparr>fm_state := Unlocked\<rparr>))"
  by (auto simp: fm_inv_at_def fm_goto_def fm_neutral_def fm_holds_def)

lemma fm_move_begin_unlock [fm_moves]:
  "fm_inv_at h s \<Longrightarrow> fm_pcs s t = Holding \<Longrightarrow> fm_inv_at h (fm_goto t Unlock_exchange s)"
  by (auto simp: fm_inv_at_def fm_goto_def fm_holds_def)

lemma fm_move_sleep [fm_moves]:
  "fm_inv_at h s \<Longrightarrow> fm_neutral (fm_pcs s t) \<Longrightarrow>
   fm_inv_at h (fm_goto t Lock_asleep (s\<lparr>fm_waiters := fm_waiters s @ [t]\<rparr>))"
  by (auto simp: fm_inv_at_def fm_goto_def fm_neutral_def fm_holds_def)

lemma fm_move_leave [fm_moves]:
  "fm_inv_at h s \<Longrightarrow> fm_pcs s u = Lock_asleep \<Longrightarrow> fm_neutral p \<Longrightarrow> fm_inv_at h (fm_leave_queue u p s)"
proof -
  assume a: "fm_inv_at h s" "fm_pcs s u = Lock_asleep" "fm_neutral p"
  then have "\<not> fm_holds s u" by (simp add: fm_holds_def)
  with a have "h \<noteq> Some u" by (metis fm_inv_at_def)
  with a show ?thesis
    by (auto simp: fm_inv_at_def fm_leave_queue_def fm_goto_def fm_neutral_def fm_holds_def)
qed

lemma fm_inv_at_None: "fm_inv_at h s \<Longrightarrow> fm_state s = Unlocked \<Longrightarrow> h = None"
  by (simp add: fm_inv_at_def)

lemma fm_inv_at_Some: "fm_inv_at h s \<Longrightarrow> fm_state s \<noteq> Unlocked \<Longrightarrow> h \<noteq> None"
  by (simp add: fm_inv_at_def)

lemma fm_inv_at_holder: "fm_inv_at h s \<Longrightarrow> fm_holds s t \<Longrightarrow> h = Some t"
  by (simp add: fm_inv_at_def)

lemma fm_inv_at_waiter: "fm_inv_at h s \<Longrightarrow> u \<in> set (fm_waiters s) \<longleftrightarrow> fm_pcs s u = Lock_asleep"
  by (simp add: fm_inv_at_def)

lemma fm_inv_cas:
  assumes "fm_inv s" "fm_neutral (fm_pcs s t)" "fm_neutral q"
  shows "fm_inv (fm_cas t Holding q s)"
proof -
  from assms(1) obtain h where h: "fm_inv_at h s" by (auto simp: fm_inv_def)
  show ?thesis
  proof (cases "fm_state s = Unlocked")
    case True
    with h have "fm_inv_at None s" using fm_inv_at_None by blast
    with True assms(2) show ?thesis
      unfolding fm_inv_def fm_cas_def by (auto intro: fm_move_acquire)
  next
    case False
    with h assms(2,3) show ?thesis
      unfolding fm_inv_def fm_cas_def by (auto intro: fm_move_neutral)
  qed
qed

lemma fm_inv_goto:
  "fm_inv s \<Longrightarrow> fm_neutral (fm_pcs s t) \<Longrightarrow> fm_neutral p \<Longrightarrow> fm_inv (fm_goto t p s)"
  unfolding fm_inv_def by (blast intro: fm_move_neutral)

lemma fm_inv_sleep:
  "fm_inv s \<Longrightarrow> fm_neutral (fm_pcs s t) \<Longrightarrow>
   fm_inv (fm_goto t Lock_asleep (s\<lparr>fm_waiters := fm_waiters s @ [t]\<rparr>))"
  unfolding fm_inv_def by (blast intro: fm_move_sleep)

lemma fm_inv_leave:
  "fm_inv s \<Longrightarrow> fm_pcs s u = Lock_asleep \<Longrightarrow> fm_neutral p \<Longrightarrow> fm_inv (fm_leave_queue u p s)"
  unfolding fm_inv_def by (blast intro: fm_move_leave)

lemma fm_inv_exchange:
  assumes "fm_inv s" "fm_pcs s t = Lock_exchange" "fm_lock t s Lock_exchange = Some s'"
  shows "fm_inv s'"
proof -
  from assms(1) obtain h where h: "fm_inv_at h s" by (auto simp: fm_inv_def)
  show ?thesis
  proof (cases "fm_state s = Unlocked")
    case True
    with h have "fm_inv_at None s" using fm_inv_at_None by blast
    with True assms(2,3) show ?thesis
      unfolding fm_inv_def by (auto intro!: exI [of _ "Some t"] fm_move_acquire)
  next
    case False
    with h have "h \<noteq> None" by (rule fm_inv_at_Some)
    with h have "fm_inv_at h (s\<lparr>fm_state := Contended\<rparr>)" by (intro fm_move_word) auto
    with False assms(2,3) show ?thesis
      unfolding fm_inv_def by (auto intro!: exI [of _ h] fm_move_neutral)
  qed
qed

lemma fm_inv_lock:
  assumes "fm_lock t s p = Some s'" "fm_pcs s t = p" "fm_inv s"
  shows "fm_inv s'"
  using assms
proof (cases "(t, s, p)" rule: fm_lock.cases)
  case 5
  with assms show ?thesis using fm_inv_exchange by auto
next
  case 6
  with assms show ?thesis
    by (auto simp: fm_futex_wait_def intro!: fm_inv_sleep fm_inv_goto)
qed (auto intro!: fm_inv_cas fm_inv_goto split: if_splits)

lemma fm_inv_try_lock:
  "fm_try_lock t s p = Some s' \<Longrightarrow> fm_pcs s t = p \<Longrightarrow> fm_inv s \<Longrightarrow> fm_inv s'"
  by (cases "(t, s, p)" rule: fm_try_lock.cases) (auto intro!: fm_inv_cas)

lemma fm_inv_unlock:
  assumes "fm_unlock t s p = Some s'" "fm_pcs s t = p" "fm_inv s"
  shows "fm_inv s'"
proof -
  from assms(1) have p: "p = Unlock_exchange"
    by (cases "(t, s, p)" rule: fm_unlock.cases) auto
  from assms(3) obtain h where h: "fm_inv_at h s" by (auto simp: fm_inv_def)
  from p assms(2) have "fm_holds s t" by (simp add: fm_holds_def)
  with h have "fm_inv_at (Some t) s" using fm_inv_at_holder by blast
  with p assms(1,2) show ?thesis
    unfolding fm_inv_def by (auto intro!: exI [of _ None] fm_move_release split: if_splits)
qed

lemma fm_goto_leave_commute:
  "t \<noteq> u \<Longrightarrow> fm_goto t p (fm_leave_queue u q s) = fm_leave_queue u q (fm_goto t p s)"
  by (simp add: fm_goto_def fm_leave_queue_def fun_upd_twist)

lemma fm_inv_wake:
  assumes "fm_futex_wake t who s = Some s'" "fm_pcs s t = Unlock_wake" "fm_inv s"
  shows "fm_inv s'"
proof (cases who)
  case None
  with assms show ?thesis by (auto simp: fm_futex_wake_def intro: fm_inv_goto split: if_splits)
next
  case (Some u)
  from assms(3) obtain h where "fm_inv_at h s" by (auto simp: fm_inv_def)
  with Some assms have u: "fm_pcs s u = Lock_asleep"
    by (auto simp: fm_futex_wake_def fm_inv_at_waiter split: if_splits)
  with assms(2) have "t \<noteq> u" by auto
  moreover have "fm_inv (fm_goto t Outside s)" using assms by (auto intro: fm_inv_goto)
  moreover have "fm_pcs (fm_goto t Outside s) u = Lock_asleep"
    using u \<open>t \<noteq> u\<close> by (simp add: fm_goto_def)
  ultimately show ?thesis
    using Some assms(1)
    by (auto simp: fm_futex_wake_def fm_goto_leave_commute intro!: fm_inv_leave split: if_splits)
qed

lemma fm_next_Step_cases:
  "fm_next (t, Step) s = Some s' \<Longrightarrow>
     fm_lock t s (fm_pcs s t) = Some s' \<or> fm_try_lock t s (fm_pcs s t) = Some s' \<or>
     fm_unlock t s (fm_pcs s t) = Some s'"
  by (auto split: option.splits)

lemma fm_inv_next:
  assumes "fm_next l s = Some s'" "fm_inv s"
  shows "fm_inv s'"
proof (cases "(l, s)" rule: fm_next.cases)
  case (4 t r)
  with assms fm_next_Step_cases [of t s s'] show ?thesis
    using fm_inv_lock fm_inv_try_lock fm_inv_unlock by auto
next
  case (3 t r)
  with assms show ?thesis
    by (auto simp: fm_call_def fm_inv_def intro: fm_move_begin_unlock split: if_splits)
next
  case (5 t u r)
  with assms show ?thesis by (auto intro: fm_inv_wake split: if_splits)
next
  case (6 t r)
  with assms show ?thesis by (auto intro: fm_inv_wake split: if_splits)
qed (use assms in \<open>auto simp: fm_call_def intro: fm_inv_goto fm_inv_leave split: if_splits\<close>)

interpretation fm: lock_system fm_next fm_init fm_inv fm_holds
proof unfold_locales
  have "fm_inv_at None fm_init" by (simp add: fm_inv_at_def fm_init_def fm_holds_def)
  then show "fm_inv fm_init" by (auto simp: fm_inv_def)
  show "\<And>l s s'. fm_next l s = Some s' \<Longrightarrow> fm_inv s \<Longrightarrow> fm_inv s'" by (rule fm_inv_next)
  show "\<And>s t u. fm_inv s \<Longrightarrow> fm_holds s t \<Longrightarrow> fm_holds s u \<Longrightarrow> t = u"
    by (auto simp: fm_inv_def dest: fm_inv_at_holder)
qed

section \<open>Sleeping threads\<close>

text \<open>
  A queue of sleepers is signalled when the lock word still says \<open>Contended\<close>, so that the holder
  will issue a wake, or when some thread is about to issue one.
\<close>

definition fm_signalled :: "fm \<Rightarrow> bool" where
  "fm_signalled s \<longleftrightarrow> fm_waiters s = [] \<or> fm_state s = Contended \<or> (\<exists>t. fm_pcs s t = Unlock_wake)"

definition fm_only :: "nat set \<Rightarrow> fm \<Rightarrow> bool" where
  "fm_only T s \<longleftrightarrow> (\<forall>t. t \<notin> T \<longrightarrow> fm_pcs s t = Outside)"

definition fm_pair_inv :: "nat \<Rightarrow> nat \<Rightarrow> fm \<Rightarrow> bool" where
  "fm_pair_inv a b s \<longleftrightarrow> fm_inv s \<and> fm_only {a, b} s \<and> fm_signalled s"

text \<open>The schedule on which thread \<open>t\<close> runs \<open>lock\<close> on a held mutex until it sleeps.\<close>

definition fm_sleep_schedule :: "nat \<Rightarrow> (nat \<times> fm_act) list" where
  "fm_sleep_schedule t =
     (t, Call_lock) # (t, Step) # replicate fm_spins (t, Step) @ replicate 3 (t, Step)"

text \<open>
  The schedule that loses a wake-up with three threads: 0 holds the mutex, 1 and 2 exhaust their
  spins and fall asleep, 0 unlocks and wakes 1, and 1 takes the mutex in the spin loop, which writes
  \<open>Locked\<close> over a queue that still holds 2.
\<close>

definition fm_lost_schedule :: "(nat \<times> fm_act) list" where
  "fm_lost_schedule =
     [(0, Call_lock), (0, Step)] @ fm_sleep_schedule 1 @ fm_sleep_schedule 2 @
     [(0, Call_unlock), (0, Step), (0, Wake 1), (1, Step), (1, Step), (1, Call_unlock), (1, Step)]"

lemma fm_active_of_sleeper:
  assumes "fm_pair_inv a b s" "u \<in> set (fm_waiters s)"
  obtains v where "v \<noteq> u" "{u, v} = {a, b}"
    "fm_pcs s v = Unlock_wake \<or> (fm_state s = Contended \<and> fm_holds s v)" "set (fm_waiters s) = {u}"
proof -
  from assms(1) obtain h where h: "fm_inv_at h s" and only: "fm_only {a, b} s" and sg: "fm_signalled s"
    by (auto simp: fm_pair_inv_def fm_inv_def)
  from h assms(2) have u: "fm_pcs s u = Lock_asleep" by (simp add: fm_inv_at_waiter)
  from sg assms(2) consider v where "fm_pcs s v = Unlock_wake" | "fm_state s = Contended"
    by (auto simp: fm_signalled_def)
  then obtain v where v: "fm_pcs s v = Unlock_wake \<or> (fm_state s = Contended \<and> fm_holds s v)"
  proof cases
    case 2
    with h obtain v where "h = Some v" by (cases h) (auto simp: fm_inv_at_def)
    with h have "fm_holds s v" by (simp add: fm_inv_at_def)
    with 2 show ?thesis using that by blast
  qed blast
  then have nv: "fm_pcs s v \<noteq> Lock_asleep" "fm_pcs s v \<noteq> Outside" by (auto simp: fm_holds_def)
  with u have "v \<noteq> u" by auto
  moreover have "u \<in> {a, b}" "v \<in> {a, b}" using only u nv by (auto simp: fm_only_def)
  ultimately have uv: "{u, v} = {a, b}" by auto
  have "w = u" if "w \<in> set (fm_waiters s)" for w
  proof -
    from h that have w: "fm_pcs s w = Lock_asleep" by (simp add: fm_inv_at_waiter)
    then have "w \<in> {a, b}" using only by (auto simp: fm_only_def)
    with uv w nv(1) show ?thesis by auto
  qed
  with assms(2) have "set (fm_waiters s) = {u}" by blast
  with \<open>v \<noteq> u\<close> uv v show ?thesis using that by blast
qed

lemma fm_lock_frame: "fm_lock t s p = Some s' \<Longrightarrow> x \<noteq> t \<Longrightarrow> fm_pcs s' x = fm_pcs s x"
  by (cases "(t, s, p)" rule: fm_lock.cases) (auto simp: fm_step_defs split: if_splits)

lemma fm_try_lock_frame: "fm_try_lock t s p = Some s' \<Longrightarrow> x \<noteq> t \<Longrightarrow> fm_pcs s' x = fm_pcs s x"
  by (cases "(t, s, p)" rule: fm_try_lock.cases) (auto simp: fm_step_defs split: if_splits)

lemma fm_unlock_frame: "fm_unlock t s p = Some s' \<Longrightarrow> x \<noteq> t \<Longrightarrow> fm_pcs s' x = fm_pcs s x"
  by (cases "(t, s, p)" rule: fm_unlock.cases) (auto simp: fm_step_defs split: if_splits)

lemma fm_next_frame:
  assumes "fm_next l s = Some s'" "x \<noteq> fst l" "x \<notin> set (fm_waiters s)"
  shows "fm_pcs s' x = fm_pcs s x"
proof (cases "(l, s)" rule: fm_next.cases)
  case (4 t r)
  with assms show ?thesis
    using fm_next_Step_cases [of t s s'] fm_lock_frame fm_try_lock_frame fm_unlock_frame by fastforce
qed (use assms in \<open>auto simp: fm_step_defs split: if_splits\<close>)

lemma fm_only_next:
  assumes "fm_next l s = Some s'" "fm_only T s" "fst l \<in> T" "fm_inv s"
  shows "fm_only T s'"
  unfolding fm_only_def
proof (intro allI impI)
  fix x assume x: "x \<notin> T"
  with assms(2) have "fm_pcs s x = Outside" by (simp add: fm_only_def)
  with assms(4) have "x \<notin> set (fm_waiters s)" by (auto simp: fm_inv_def fm_inv_at_def)
  with assms(1,3) x have "fm_pcs s' x = fm_pcs s x" by (intro fm_next_frame) auto
  with \<open>fm_pcs s x = Outside\<close> show "fm_pcs s' x = Outside" by simp
qed

lemma fm_signalled_sleeper_step:
  assumes "fm_next (v, act) s = Some s'" "set (fm_waiters s) = {u}"
    and "fm_pcs s v = Unlock_wake \<or> (fm_state s = Contended \<and> fm_holds s v)"
  shows "fm_signalled s'"
proof (cases act)
  case Step
  with assms have "fm_pcs s' v = Unlock_wake"
    by (auto simp: fm_holds_def fm_step_defs split: if_splits)
  then show ?thesis by (auto simp: fm_signalled_def)
qed (use assms removeAll_singleton_set [OF assms(2)] in
    \<open>auto simp: fm_signalled_def fm_holds_def fm_step_defs split: if_splits\<close>)

lemma fm_signalled_from_empty:
  assumes "fm_waiters s = []"
  shows "fm_lock t s p = Some s' \<Longrightarrow> fm_signalled s'"
    and "fm_try_lock t s p = Some s' \<Longrightarrow> fm_signalled s'"
    and "fm_unlock t s p = Some s' \<Longrightarrow> fm_signalled s'"
  using assms
  by (cases "(t, s, p)" rule: fm_lock.cases; auto simp: fm_signalled_def fm_step_defs split: if_splits)+

lemma fm_signalled_next:
  assumes "fm_next l s = Some s'" "fst l \<in> {a, b}" "fm_pair_inv a b s"
  shows "fm_signalled s'"
proof (cases "fm_waiters s = []")
  case True
  obtain t act where l: "l = (t, act)" by (cases l)
  show ?thesis
  proof (cases act)
    case Step
    with l assms(1) True show ?thesis
      using fm_next_Step_cases fm_signalled_from_empty by blast
  qed (use True l assms(1) in \<open>auto simp: fm_signalled_def fm_step_defs split: if_splits\<close>)
next
  case False
  then obtain u where "u \<in> set (fm_waiters s)" by (cases "fm_waiters s") auto
  with assms(3) obtain v where v: "v \<noteq> u" "{u, v} = {a, b}" "set (fm_waiters s) = {u}"
    "fm_pcs s v = Unlock_wake \<or> (fm_state s = Contended \<and> fm_holds s v)"
    by (rule fm_active_of_sleeper)
  from assms(3) have u: "fm_pcs s u = Lock_asleep"
    using \<open>u \<in> set (fm_waiters s)\<close> by (auto simp: fm_pair_inv_def fm_inv_def fm_inv_at_def)
  from v(2) assms(2) consider act where "l = (u, act)" | act where "l = (v, act)"
    by (cases l) auto
  then show ?thesis
  proof cases
    case (1 act)
    have "removeAll u (fm_waiters s) = []"
      using v(3) by (rule removeAll_singleton_set)
    with 1 u assms(1) show ?thesis
      by (cases act) (auto simp: fm_signalled_def fm_step_defs split: if_splits)
  next
    case (2 act)
    with assms(1) v(3,4) show ?thesis using fm_signalled_sleeper_step by blast
  qed
qed

lemma fm_pair_inv_next:
  "fst l \<in> {a, b} \<Longrightarrow> fm_next l s = Some s' \<Longrightarrow> fm_pair_inv a b s \<Longrightarrow> fm_pair_inv a b s'"
  using fm_signalled_next fm_only_next fm_inv_next by (metis fm_pair_inv_def)

lemma fm_pair_inv_init: "fm_pair_inv a b fm_init"
  using fm.inv_init by (simp add: fm_pair_inv_def fm_only_def fm_signalled_def fm_init_def)

lemma fm_spin_exhausted:
  assumes "fm_pcs s t = Lock_spin n" "fm_state s \<noteq> Unlocked"
  shows "run fm_next (replicate n (t, Step)) s = Some (fm_goto t (Lock_spin 0) s)"
  using assms
proof (induction n arbitrary: s)
  case 0
  then show ?case by (simp add: fm_goto_def fun_upd_idem)
next
  case (Suc n)
  have "run fm_next (replicate n (t, Step)) (fm_goto t (Lock_spin n) s) =
    Some (fm_goto t (Lock_spin 0) (fm_goto t (Lock_spin n) s))"
    using Suc.prems by (intro Suc.IH) (auto simp: fm_goto_def)
  with Suc.prems show ?case by (simp add: fm_goto_def)
qed

lemma fm_lock_first_spin:
  "fm_lock t s (Lock_spin fm_spins) =
     Some (if fm_state s = Unlocked then fm_goto t (Lock_cas 999) s else fm_goto t (Lock_spin 999) s)"
  using fm_lock.simps(3) [of t s 999] by (simp add: fm_spins_def)

lemma fm_spin_to_sleep:
  assumes "fm_pcs s t = Outside" "fm_state s \<noteq> Unlocked"
  shows "run fm_next ((t, Call_lock) # (t, Step) # replicate fm_spins (t, Step) @ replicate 3 (t, Step)) s =
    Some (s\<lparr>fm_state := Contended, fm_waiters := fm_waiters s @ [t],
            fm_pcs := (fm_pcs s)(t := Lock_asleep)\<rparr>)"
proof -
  let ?s1 = "fm_goto t (Lock_spin fm_spins) s"
  have "run fm_next (replicate fm_spins (t, Step)) ?s1 = Some (fm_goto t (Lock_spin 0) ?s1)"
    using assms by (intro fm_spin_exhausted) (auto simp: fm_goto_def)
  then have "run fm_next (replicate fm_spins (t, Step) @ replicate 3 (t, Step)) ?s1 =
    run fm_next (replicate 3 (t, Step)) (fm_goto t (Lock_spin 0) ?s1)"
    by (rule run_append_Some)
  also have "\<dots> = Some (s\<lparr>fm_state := Contended, fm_waiters := fm_waiters s @ [t],
            fm_pcs := (fm_pcs s)(t := Lock_asleep)\<rparr>)"
    using assms by (simp add: numeral_3_eq_3 fm_step_defs)
  finally show ?thesis using assms by (simp add: fm_call_def fm_cas_def fm_goto_def)
qed

section \<open>Properties\<close>

text \<open>
  Claim C1. Mutual exclusion of \<open>FutexMutex\<close>: after any interleaving of \<open>lock\<close>, \<open>try_lock\<close> and
  \<open>unlock\<close> calls of any number of threads, with any choice of woken sleepers, signals and spurious
  wake-ups, at most one thread is between its acquiring operation and its releasing exchange, and
  the lock word is \<open>Unlocked\<close> exactly when no thread is.
\<close>

theorem fm_mutual_exclusion:
  assumes "run fm_next sched fm_init = Some s"
  shows "card {t. fm_holds s t} \<le> 1 \<and> (fm_state s = Unlocked \<longleftrightarrow> {t. fm_holds s t} = {})"
proof -
  from assms have r: "reachable fm_next fm_init s" by (rule reachableI)
  then obtain h where "fm_inv_at h s" using fm.inv_reachable by (auto simp: fm_inv_def)
  then have "fm_state s = Unlocked \<longleftrightarrow> {t. fm_holds s t} = {}" by (auto simp: fm_inv_at_def)
  with fm.holders_card [OF r] show ?thesis by blast
qed

theorem fm_mutual_exclusion_witness:
  "\<exists>s. run fm_next [(0, Call_lock), (1, Call_lock), (0, Step), (1, Step), (2, Call_try_lock), (2, Step)]
         fm_init = Some s \<and>
       fm_holds s 0 \<and> card {t. fm_holds s t} \<le> 1 \<and> fm_state s \<noteq> Unlocked"
proof -
  let ?sched = "[(0, Call_lock), (1, Call_lock), (0, Step), (1, Step), (2, Call_try_lock), (2, Step)]"
  obtain s where s: "run fm_next ?sched fm_init = Some s" "fm_holds s 0"
    by (simp add: fm_step_defs fm_init_def fm_holds_def)
  with fm_mutual_exclusion [OF s(1)] show ?thesis by blast
qed

text \<open>
  Claim C2. No lost wake-up between two threads: as long as only two threads use the mutex, whenever
  one of them sleeps in the kernel either the lock word is \<open>Contended\<close>, so that the holder's
  \<open>unlock\<close> will issue a wake, or a thread is about to issue one.
\<close>

theorem fm_two_threads_no_lost_wakeup:
  assumes "run fm_next sched fm_init = Some s" and "list_all (\<lambda>l. fst l \<in> {a, b}) sched"
    and "fm_waiters s \<noteq> []"
  shows "fm_state s = Contended \<or> (\<exists>t. fm_pcs s t = Unlock_wake)"
proof -
  have "fm_pair_inv a b s"
    using assms(1,2) fm_pair_inv_init
    by (rule run_invariant_on) (auto intro: fm_pair_inv_next)
  with assms(3) show ?thesis by (simp add: fm_pair_inv_def fm_signalled_def)
qed

theorem fm_two_threads_no_lost_wakeup_witness:
  "\<exists>s. run fm_next ([(0, Call_lock), (0, Step)] @ fm_sleep_schedule 1) fm_init = Some s \<and>
       fm_waiters s = [1] \<and> (fm_state s = Contended \<or> (\<exists>t. fm_pcs s t = Unlock_wake))"
proof -
  let ?s1 = "fm_init\<lparr>fm_state := Locked, fm_pcs := (fm_pcs fm_init)(0 := Holding)\<rparr>"
  have "run fm_next [(0, Call_lock), (0, Step)] fm_init = Some ?s1"
    by (simp add: fm_step_defs fm_init_def)
  then have "run fm_next ([(0, Call_lock), (0, Step)] @ fm_sleep_schedule 1) fm_init =
    run fm_next (fm_sleep_schedule 1) ?s1"
    by (rule run_append_Some)
  also have "\<dots> = Some (?s1\<lparr>fm_state := Contended, fm_waiters := fm_waiters ?s1 @ [1],
    fm_pcs := (fm_pcs ?s1)(1 := Lock_asleep)\<rparr>)"
    unfolding fm_sleep_schedule_def by (rule fm_spin_to_sleep) (simp_all add: fm_init_def)
  finally obtain s where s: "run fm_next ([(0, Call_lock), (0, Step)] @ fm_sleep_schedule 1) fm_init = Some s"
    and w: "fm_waiters s = [1]"
    by (simp add: fm_init_def)
  have "list_all (\<lambda>l. fst l \<in> {0, 1}) ([(0, Call_lock), (0, Step)] @ fm_sleep_schedule 1)"
    by (simp add: fm_sleep_schedule_def list_all_iff)
  from fm_two_threads_no_lost_wakeup [OF s this] s w show ?thesis by auto
qed

text \<open>
  A wake-up can be lost: after \<open>fm_lost_schedule\<close> the mutex is \<open>Unlocked\<close>, every other
  thread is outside the mutex and no wake is pending, yet thread 2 sleeps on the futex. The woken
  thread re-acquires through the spin loop with \<open>Locked\<close> instead of \<open>Contended\<close>, so its own
  \<open>unlock\<close> does not call \<open>futex_wake_internal\<close>.
\<close>

lemma fm_lost_wakeup:
  "run fm_next fm_lost_schedule fm_init =
     Some \<lparr>fm_state = Unlocked, fm_waiters = [2], fm_pcs = (\<lambda>_. Outside)(2 := Lock_asleep)\<rparr>"
proof -
  let ?s1 = "fm_init\<lparr>fm_state := Locked, fm_pcs := (fm_pcs fm_init)(0 := Holding)\<rparr>"
  let ?s2 = "?s1\<lparr>fm_state := Contended, fm_waiters := fm_waiters ?s1 @ [1],
    fm_pcs := (fm_pcs ?s1)(1 := Lock_asleep)\<rparr>"
  let ?s3 = "?s2\<lparr>fm_state := Contended, fm_waiters := fm_waiters ?s2 @ [2],
    fm_pcs := (fm_pcs ?s2)(2 := Lock_asleep)\<rparr>"
  have 1: "run fm_next [(0, Call_lock), (0, Step)] fm_init = Some ?s1"
    by (simp add: fm_step_defs fm_init_def)
  have 2: "run fm_next (fm_sleep_schedule 1) ?s1 = Some ?s2"
    unfolding fm_sleep_schedule_def by (rule fm_spin_to_sleep) (simp_all add: fm_init_def)
  have 3: "run fm_next (fm_sleep_schedule 2) ?s2 = Some ?s3"
    unfolding fm_sleep_schedule_def by (rule fm_spin_to_sleep) (simp_all add: fm_init_def)
  have "run fm_next fm_lost_schedule fm_init =
    run fm_next [(0, Call_unlock), (0, Step), (0, Wake 1), (1, Step), (1, Step), (1, Call_unlock), (1, Step)] ?s3"
    unfolding fm_lost_schedule_def run_append_Some [OF 1] run_append_Some [OF 2] run_append_Some [OF 3] ..
  also have "\<dots> = Some \<lparr>fm_state = Unlocked, fm_waiters = [2], fm_pcs = (\<lambda>_. Outside)(2 := Lock_asleep)\<rparr>"
    by (simp add: fm_step_defs fm_init_def fm_lock_first_spin fun_eq_iff)
  finally show ?thesis .
qed

end
