(* ===== verification/Recursive_Mutex.thy ===== *)
theory Recursive_Mutex
  imports Pman_Prelude
begin

text \<open>
  \<open>FutexRecursiveMutex\<close> of src/src/recursive_mutex.cpp as an interleaving of its atomic accesses and
  futex calls, for any number of threads; \<open>FutexRecursiveLockGuard\<close> is a pair of \<open>lock\<close> and \<open>unlock\<close>.
  \<open>owner_\<close> is \<open>None\<close> for 0. \<open>rm_held t\<close> records how many \<open>lock\<close> calls of thread \<open>t\<close> are not yet undone;
  \<open>recursion_count_\<close> is unbounded here, which is exact below \<open>2 ^ 32\<close> nested locks. The interpretation of
  \<open>lock_system\<close> gives mutual exclusion.
\<close>

section \<open>State\<close>

datatype rm_word = Unlocked | Locked | Contended

datatype rm_pc =
    Idle
  | Lock_owner
  | Lock_again
  | Lock_fast
  | Lock_spin nat
  | Lock_cas nat
  | Lock_exchange
  | Lock_wait
  | Lock_asleep
  | Set_owner
  | Set_count
  | Try_owner
  | Try_again
  | Try_cas
  | Unlock_owner
  | Unlock_count
  | Unlock_clear
  | Unlock_exchange
  | Unlock_wake

record rm =
  rm_state :: rm_word
  rm_owner :: "nat option"
  rm_count :: nat
  rm_waiters :: "nat list"
  rm_pcs :: "nat \<Rightarrow> rm_pc"
  rm_held :: "nat \<Rightarrow> nat"
  rm_errors :: "(nat \<times> exn) list"

datatype rm_act = Call_lock | Call_try_lock | Call_unlock | Step | Cas_fails | Wake nat | Wake_nobody | Interrupted

definition rm_init :: rm where
  "rm_init = \<lparr>rm_state = Unlocked, rm_owner = None, rm_count = 0, rm_waiters = [], rm_pcs = (\<lambda>_. Idle),
     rm_held = (\<lambda>_. 0), rm_errors = []\<rparr>"

definition rm_goto :: "nat \<Rightarrow> rm_pc \<Rightarrow> rm \<Rightarrow> rm" where
  "rm_goto t p s = s\<lparr>rm_pcs := (rm_pcs s)(t := p)\<rparr>"

definition rm_spins :: nat where
  "rm_spins = 1000"

section \<open>Operations\<close>

text \<open>\<open>futex_state_.compare_exchange(expected = kUnlocked, kLocked)\<close> with the counter for failure.\<close>

definition rm_cas :: "nat \<Rightarrow> rm_pc \<Rightarrow> rm \<Rightarrow> rm" where
  "rm_cas t fail s =
     (if rm_state s = Unlocked then rm_goto t Set_owner (s\<lparr>rm_state := Locked\<rparr>) else rm_goto t fail s)"

text \<open>\<open>++recursion_count_\<close> by the owner.\<close>

definition rm_again :: "nat \<Rightarrow> rm \<Rightarrow> rm" where
  "rm_again t s =
     rm_goto t Idle (s\<lparr>rm_count := rm_count s + 1, rm_held := (rm_held s)(t := rm_held s t + 1)\<rparr>)"

fun rm_lock :: "nat \<Rightarrow> rm \<Rightarrow> rm_pc \<Rightarrow> rm option" where
  "rm_lock t s Lock_owner = Some (rm_goto t (if rm_owner s = Some t then Lock_again else Lock_fast) s)"
| "rm_lock t s Lock_again = Some (rm_again t s)"
| "rm_lock t s Lock_fast = Some (rm_cas t (Lock_spin rm_spins) s)"
| "rm_lock t s (Lock_spin 0) = Some (rm_goto t Lock_exchange s)"
| "rm_lock t s (Lock_spin (Suc n)) =
     Some (rm_goto t (if rm_state s = Unlocked then Lock_cas n else Lock_spin n) s)"
| "rm_lock t s (Lock_cas n) = Some (rm_cas t (Lock_spin n) s)"
| "rm_lock t s Lock_exchange =
     Some (rm_goto t (if rm_state s = Unlocked then Set_owner else Lock_wait) (s\<lparr>rm_state := Contended\<rparr>))"
| "rm_lock t s Lock_wait =
     Some (if rm_state s = Contended then rm_goto t Lock_asleep (s\<lparr>rm_waiters := rm_waiters s @ [t]\<rparr>)
           else rm_goto t (Lock_spin rm_spins) s)"
| "rm_lock t s Set_owner = Some (rm_goto t Set_count (s\<lparr>rm_owner := Some t\<rparr>))"
| "rm_lock t s Set_count = Some (rm_goto t Idle (s\<lparr>rm_count := 1, rm_held := (rm_held s)(t := 1)\<rparr>))"
| "rm_lock t s _ = None"

fun rm_try_lock :: "nat \<Rightarrow> rm \<Rightarrow> rm_pc \<Rightarrow> rm option" where
  "rm_try_lock t s Try_owner = Some (rm_goto t (if rm_owner s = Some t then Try_again else Try_cas) s)"
| "rm_try_lock t s Try_again = Some (rm_again t s)"
| "rm_try_lock t s Try_cas = Some (rm_cas t Idle s)"
| "rm_try_lock t s _ = None"

fun rm_unlock :: "nat \<Rightarrow> rm \<Rightarrow> rm_pc \<Rightarrow> rm option" where
  "rm_unlock t s Unlock_owner =
     Some (if rm_owner s = Some t then rm_goto t Unlock_count s
           else rm_goto t Idle (s\<lparr>rm_errors := rm_errors s @ [(t, Logic_error)]\<rparr>))"
| "rm_unlock t s Unlock_count =
     Some (rm_goto t (if rm_count s - 1 > 0 then Idle else Unlock_clear)
             (s\<lparr>rm_count := rm_count s - 1, rm_held := (rm_held s)(t := rm_held s t - 1)\<rparr>))"
| "rm_unlock t s Unlock_clear = Some (rm_goto t Unlock_exchange (s\<lparr>rm_owner := None\<rparr>))"
| "rm_unlock t s Unlock_exchange =
     Some (rm_goto t (if rm_state s = Contended then Unlock_wake else Idle) (s\<lparr>rm_state := Unlocked\<rparr>))"
| "rm_unlock t s _ = None"

text \<open>A sleeper leaves the futex queue: it is woken, or the system call is interrupted and repeated.\<close>

definition rm_leave :: "nat \<Rightarrow> rm_pc \<Rightarrow> rm \<Rightarrow> rm option" where
  "rm_leave u p s =
     (if rm_pcs s u = Lock_asleep then Some (rm_goto u p (s\<lparr>rm_waiters := removeAll u (rm_waiters s)\<rparr>)) else None)"

definition rm_wake_one :: "nat \<Rightarrow> nat \<Rightarrow> rm \<Rightarrow> rm option" where
  "rm_wake_one t u s =
     (if rm_pcs s t = Unlock_wake then map_option (rm_goto t Idle) (rm_leave u (Lock_spin rm_spins) s) else None)"

definition rm_call :: "nat \<Rightarrow> rm_pc \<Rightarrow> rm \<Rightarrow> rm option" where
  "rm_call t p s = (if rm_pcs s t = Idle then Some (rm_goto t p s) else None)"

fun rm_next :: "nat \<times> rm_act \<Rightarrow> rm \<Rightarrow> rm option" where
  "rm_next (t, Call_lock) s = rm_call t Lock_owner s"
| "rm_next (t, Call_try_lock) s = rm_call t Try_owner s"
| "rm_next (t, Call_unlock) s = rm_call t Unlock_owner s"
| "rm_next (t, Step) s =
     (case rm_lock t s (rm_pcs s t) of
        Some s' \<Rightarrow> Some s'
      | None \<Rightarrow> (case rm_try_lock t s (rm_pcs s t) of
          Some s' \<Rightarrow> Some s'
        | None \<Rightarrow> rm_unlock t s (rm_pcs s t)))"
| "rm_next (t, Cas_fails) s =
     (case rm_pcs s t of Lock_cas n \<Rightarrow> Some (rm_goto t (Lock_spin n) s) | _ \<Rightarrow> None)"
| "rm_next (t, Wake u) s = rm_wake_one t u s"
| "rm_next (t, Wake_nobody) s =
     (if rm_pcs s t = Unlock_wake \<and> rm_waiters s = [] then Some (rm_goto t Idle s) else None)"
| "rm_next (t, Interrupted) s = rm_leave t Lock_wait s"

text \<open>\<open>recursion_depth\<close> as thread \<open>t\<close> reads it.\<close>

definition rm_recursion_depth :: "nat \<Rightarrow> rm \<Rightarrow> nat" where
  "rm_recursion_depth t s = (if rm_owner s = Some t then rm_count s else 0)"

section \<open>Invariant\<close>

text \<open>The program counters of a thread that owns the lock word without a lock that counts.\<close>

definition rm_between :: "rm_pc \<Rightarrow> bool" where
  "rm_between p \<longleftrightarrow> p = Set_owner \<or> p = Set_count \<or> p = Unlock_clear \<or> p = Unlock_exchange"

definition rm_holds :: "rm \<Rightarrow> nat \<Rightarrow> bool" where
  "rm_holds s t \<longleftrightarrow> rm_held s t > 0 \<or> rm_between (rm_pcs s t)"

text \<open>How many locks a thread may have at a program counter.\<close>

definition rm_pc_ok :: "rm_pc \<Rightarrow> nat \<Rightarrow> bool" where
  "rm_pc_ok p k \<longleftrightarrow>
     (if p \<in> {Lock_again, Try_again, Unlock_count} then k > 0
      else p \<in> {Idle, Lock_owner, Try_owner, Unlock_owner} \<or> k = 0)"

definition rm_inv_at :: "nat option \<Rightarrow> rm \<Rightarrow> bool" where
  "rm_inv_at h s \<longleftrightarrow>
     (rm_state s = Unlocked \<longleftrightarrow> h = None) \<and>
     (\<forall>t. rm_holds s t \<longleftrightarrow> h = Some t) \<and>
     (\<forall>t. rm_owner s = Some t \<longleftrightarrow> rm_held s t > 0 \<or> rm_pcs s t = Set_count \<or> rm_pcs s t = Unlock_clear) \<and>
     (\<forall>t. rm_held s t > 0 \<longrightarrow> rm_count s = rm_held s t) \<and>
     (\<forall>t. rm_pc_ok (rm_pcs s t) (rm_held s t)) \<and>
     (\<forall>t. t \<in> set (rm_waiters s) \<longleftrightarrow> rm_pcs s t = Lock_asleep)"

definition rm_inv :: "rm \<Rightarrow> bool" where
  "rm_inv s \<longleftrightarrow> (\<exists>h. rm_inv_at h s)"

lemmas rm_defs = rm_inv_at_def rm_holds_def rm_between_def rm_pc_ok_def

definition rm_neutral :: "rm_pc \<Rightarrow> bool" where
  "rm_neutral p \<longleftrightarrow> \<not> rm_between p \<and> p \<noteq> Lock_asleep"

lemma rm_inv_atD:
  assumes "rm_inv_at h s"
  shows "rm_state s = Unlocked \<longleftrightarrow> h = None" "rm_holds s t \<longleftrightarrow> h = Some t"
    "rm_owner s = Some t \<longleftrightarrow> rm_held s t > 0 \<or> rm_pcs s t = Set_count \<or> rm_pcs s t = Unlock_clear"
    "rm_held s t > 0 \<Longrightarrow> rm_count s = rm_held s t" "rm_pc_ok (rm_pcs s t) (rm_held s t)"
    "t \<in> set (rm_waiters s) \<longleftrightarrow> rm_pcs s t = Lock_asleep"
  using assms by (simp_all add: rm_inv_at_def)

lemma rm_inv_move:
  assumes "rm_inv s" "\<not> rm_between (rm_pcs s t)" "\<not> rm_between p" "rm_pc_ok p (rm_held s t)"
    "\<And>u. u \<in> set q \<longleftrightarrow> ((rm_pcs s)(t := p)) u = Lock_asleep"
  shows "rm_inv (rm_goto t p (s\<lparr>rm_waiters := q\<rparr>))"
proof -
  obtain h where h: "rm_inv_at h s" using assms(1) by (auto simp: rm_inv_def)
  have "rm_inv_at h (rm_goto t p (s\<lparr>rm_waiters := q\<rparr>))"
    using assms(2-4) h unfolding rm_inv_at_def
    by (simp add: assms(5) rm_goto_def rm_holds_def) (auto simp: rm_between_def)
  then show ?thesis by (auto simp: rm_inv_def)
qed

lemma rm_inv_waiter: "rm_inv s \<Longrightarrow> u \<in> set (rm_waiters s) \<longleftrightarrow> rm_pcs s u = Lock_asleep"
  by (auto simp: rm_inv_def rm_inv_at_def)

lemma rm_inv_goto:
  assumes "rm_inv s" "rm_neutral (rm_pcs s t)" "rm_neutral p" "rm_pc_ok p (rm_held s t)"
  shows "rm_inv (rm_goto t p s)"
  using rm_inv_move [OF assms(1), of t p "rm_waiters s"] assms by (simp add: rm_neutral_def rm_inv_waiter)

lemma rm_inv_acquire:
  assumes "rm_inv s" "rm_neutral (rm_pcs s t)" "rm_held s t = 0" "rm_state s = Unlocked" "w \<noteq> Unlocked"
  shows "rm_inv (rm_goto t Set_owner (s\<lparr>rm_state := w\<rparr>))"
proof -
  obtain h where h: "rm_inv_at h s" using assms(1) by (auto simp: rm_inv_def)
  have h0: "h = None" using h assms(4) by (simp add: rm_inv_at_def)
  have "rm_pc_ok Set_owner 0" by (simp add: rm_pc_ok_def)
  then have "rm_inv_at (Some t) (rm_goto t Set_owner (s\<lparr>rm_state := w\<rparr>))"
    using assms(2-5) h h0 unfolding rm_inv_at_def
    by (auto simp: rm_goto_def rm_holds_def rm_neutral_def rm_between_def)
  then show ?thesis by (auto simp: rm_inv_def)
qed

lemma rm_inv_word:
  assumes "rm_inv s" "rm_state s \<noteq> Unlocked" "w \<noteq> Unlocked"
  shows "rm_inv (s\<lparr>rm_state := w\<rparr>)"
  using assms by (auto simp: rm_inv_def rm_inv_at_def rm_holds_def)

lemma rm_inv_cas:
  assumes "rm_inv s" "rm_neutral (rm_pcs s t)" "rm_held s t = 0" "rm_neutral p" "rm_pc_ok p 0"
  shows "rm_inv (rm_cas t p s)"
  using rm_inv_acquire [OF assms(1-3), of Locked] rm_inv_goto [OF assms(1,2,4)] assms(3,5) by (simp add: rm_cas_def)

text \<open>The owner's steps: what it does to the owner word and the count concerns no other thread.\<close>

lemma rm_inv_owner_step:
  assumes "rm_inv_at (Some t) s" "rm_state s' = rm_state s" "rm_waiters s' = rm_waiters s"
    "rm_pcs s' = (rm_pcs s)(t := p)" "rm_held s' = (rm_held s)(t := k)" "p \<noteq> Lock_asleep" "rm_pcs s t \<noteq> Lock_asleep"
    "0 < k \<or> rm_between p" "rm_pc_ok p k" "0 < k \<Longrightarrow> rm_count s' = k"
    "rm_owner s' = (if 0 < k \<or> p = Set_count \<or> p = Unlock_clear then Some t else None)"
  shows "rm_inv_at (Some t) s'"
proof -
  have other: "\<not> rm_holds s u" if "u \<noteq> t" for u using rm_inv_atD(2) [OF assms(1), of u] that by simp
  then have o: "rm_held s u = 0" "\<not> rm_between (rm_pcs s u)" if "u \<noteq> t" for u using that by (auto simp: rm_holds_def)
  have ok: "rm_pc_ok (rm_pcs s u) 0" if "u \<noteq> t" for u using rm_inv_atD(5) [OF assms(1), of u] o(1) [OF that] by simp
  show ?thesis
    unfolding rm_inv_at_def assms(2-5)
    using rm_inv_atD(1,6) [OF assms(1)] assms(6-11) o ok
    by (auto simp: rm_holds_def assms(4,5) rm_between_def)
qed

lemma rm_inv_holder: "rm_inv s \<Longrightarrow> rm_holds s t \<Longrightarrow> rm_inv_at (Some t) s"
  unfolding rm_inv_def using rm_inv_atD(2) by metis

lemma rm_inv_pc_ok: "rm_inv s \<Longrightarrow> rm_pc_ok (rm_pcs s t) (rm_held s t)"
  unfolding rm_inv_def using rm_inv_atD(5) by metis

lemma rm_inv_owner: "rm_inv s \<Longrightarrow> rm_owner s = Some t \<longleftrightarrow> rm_held s t > 0 \<or> rm_pcs s t = Set_count \<or> rm_pcs s t = Unlock_clear"
  unfolding rm_inv_def using rm_inv_atD(3) by metis

lemma rm_inv_count: "rm_inv s \<Longrightarrow> rm_held s t > 0 \<Longrightarrow> rm_count s = rm_held s t"
  unfolding rm_inv_def using rm_inv_atD(4) by metis

lemma rm_inv_again:
  assumes "rm_inv s" "rm_pcs s t \<noteq> Lock_asleep" "rm_held s t > 0"
  shows "rm_inv (rm_again t s)"
proof -
  have "rm_inv_at (Some t) s" by (rule rm_inv_holder [OF assms(1)]) (simp add: rm_holds_def assms(3))
  then have "rm_inv_at (Some t) (rm_again t s)"
    by (rule rm_inv_owner_step [where p = Idle and k = "rm_held s t + 1"])
       (use assms rm_inv_owner [OF assms(1), of t] rm_inv_count [OF assms(1,3)] in \<open>auto simp: rm_again_def rm_goto_def rm_pc_ok_def\<close>)
  then show ?thesis by (auto simp: rm_inv_def)
qed

lemma rm_inv_sleep:
  assumes "rm_inv s" "rm_pcs s t = Lock_wait"
  shows "rm_inv (rm_goto t Lock_asleep (s\<lparr>rm_waiters := rm_waiters s @ [t]\<rparr>))"
  using rm_inv_pc_ok [OF assms(1), of t]
  by (intro rm_inv_move [OF assms(1)]) (auto simp: assms rm_between_def rm_pc_ok_def rm_inv_waiter)

lemma rm_inv_leave:
  assumes "rm_leave u p s = Some s'" "rm_inv s" "rm_neutral p" "rm_pc_ok p 0"
  shows "rm_inv s'"
proof -
  have a: "rm_pcs s u = Lock_asleep" and s': "s' = rm_goto u p (s\<lparr>rm_waiters := removeAll u (rm_waiters s)\<rparr>)"
    using assms(1) by (auto simp: rm_leave_def split: if_splits)
  have "rm_held s u = 0" using rm_inv_pc_ok [OF assms(2), of u] a by (simp add: rm_pc_ok_def)
  then show ?thesis
    unfolding s' using assms(2-4) a by (intro rm_inv_move) (auto simp: rm_between_def rm_neutral_def rm_inv_waiter)
qed

lemma rm_inv_errors: "rm_inv (s\<lparr>rm_errors := e\<rparr>) = rm_inv s"
  by (simp add: rm_inv_def rm_inv_at_def rm_holds_def)

lemma rm_inv_lock:
  assumes "rm_lock t s p = Some s'" "rm_pcs s t = p" "rm_inv s"
  shows "rm_inv s'"
proof -
  note pc = rm_inv_pc_ok [OF assms(3), of t]
  note own = rm_inv_owner [OF assms(3), of t]
  show ?thesis
  proof (cases "(t, s, p)" rule: rm_lock.cases)
    case 1
    then show ?thesis using assms own by (auto simp: rm_neutral_def rm_between_def rm_pc_ok_def intro!: rm_inv_goto)
  next
    case 2
    then show ?thesis using assms pc by (auto simp: rm_pc_ok_def intro!: rm_inv_again)
  next
    case (7 t' s1)
    show ?thesis
    proof (cases "rm_state s = Unlocked")
      case True
      then show ?thesis using 7 assms pc by (auto simp: rm_neutral_def rm_between_def rm_pc_ok_def intro!: rm_inv_acquire)
    next
      case False
      then show ?thesis
        using 7 assms pc rm_inv_word [OF assms(3) False, of Contended]
        by (auto simp: rm_neutral_def rm_between_def rm_pc_ok_def intro!: rm_inv_goto)
    qed
  next
    case 8
    then show ?thesis
      using assms pc by (auto simp: rm_neutral_def rm_between_def rm_pc_ok_def intro!: rm_inv_goto rm_inv_sleep)
  next
    case (9 t' s1)
    then have at: "rm_inv_at (Some t) s" using assms by (intro rm_inv_holder) (auto simp: rm_holds_def rm_between_def)
    have "rm_inv_at (Some t) s'"
      by (rule rm_inv_owner_step [OF at, where p = Set_count and k = 0])
         (use 9 assms pc in \<open>auto simp: rm_goto_def rm_between_def rm_pc_ok_def\<close>)
    then show ?thesis by (auto simp: rm_inv_def)
  next
    case (10 t' s1)
    then have at: "rm_inv_at (Some t) s" using assms by (intro rm_inv_holder) (auto simp: rm_holds_def rm_between_def)
    have "rm_inv_at (Some t) s'"
      by (rule rm_inv_owner_step [OF at, where p = Idle and k = 1])
         (use 10 assms pc own in \<open>auto simp: rm_goto_def rm_between_def rm_pc_ok_def\<close>)
    then show ?thesis by (auto simp: rm_inv_def)
  qed (use assms pc in \<open>auto simp: rm_neutral_def rm_between_def rm_pc_ok_def intro!: rm_inv_goto rm_inv_cas split: if_splits\<close>)
qed

lemma rm_inv_try_lock:
  assumes "rm_try_lock t s p = Some s'" "rm_pcs s t = p" "rm_inv s"
  shows "rm_inv s'"
  using assms rm_inv_pc_ok [OF assms(3), of t] rm_inv_owner [OF assms(3), of t]
  by (cases "(t, s, p)" rule: rm_try_lock.cases)
     (auto simp: rm_neutral_def rm_between_def rm_pc_ok_def intro!: rm_inv_goto rm_inv_cas rm_inv_again)

lemma rm_inv_unlock:
  assumes "rm_unlock t s p = Some s'" "rm_pcs s t = p" "rm_inv s"
  shows "rm_inv s'"
proof -
  note pc = rm_inv_pc_ok [OF assms(3), of t]
  note own = rm_inv_owner [OF assms(3), of t]
  show ?thesis
  proof (cases "(t, s, p)" rule: rm_unlock.cases)
    case 1
    then show ?thesis
      using assms own pc
      by (auto simp: rm_neutral_def rm_between_def rm_pc_ok_def rm_inv_errors intro!: rm_inv_goto split: if_splits)
  next
    case (2 t' s1)
    then have held: "rm_held s t > 0" using assms pc by (auto simp: rm_pc_ok_def)
    then have at: "rm_inv_at (Some t) s" using assms by (intro rm_inv_holder) (auto simp: rm_holds_def)
    note c = rm_inv_count [OF assms(3) held]
    have "rm_inv_at (Some t) s'"
      by (rule rm_inv_owner_step [OF at, where p = "if rm_held s t - 1 > 0 then Idle else Unlock_clear" and k = "rm_held s t - 1"])
         (use 2 assms held c own in \<open>auto simp: rm_goto_def rm_between_def rm_pc_ok_def\<close>)
    then show ?thesis by (auto simp: rm_inv_def)
  next
    case (3 t' s1)
    then have at: "rm_inv_at (Some t) s" using assms by (intro rm_inv_holder) (auto simp: rm_holds_def rm_between_def)
    have "rm_inv_at (Some t) s'"
      by (rule rm_inv_owner_step [OF at, where p = Unlock_exchange and k = 0])
         (use 3 assms pc in \<open>auto simp: rm_goto_def rm_between_def rm_pc_ok_def\<close>)
    then show ?thesis by (auto simp: rm_inv_def)
  next
    case (4 t' s1)
    then have at: "rm_inv_at (Some t) s" using assms by (intro rm_inv_holder) (auto simp: rm_holds_def rm_between_def)
    have k: "rm_held s t = 0" using pc 4 assms(2) by (simp add: rm_pc_ok_def)
    have o: "rm_held s u = 0" "u \<noteq> t \<Longrightarrow> \<not> rm_between (rm_pcs s u)" for u
      using rm_inv_atD(2) [OF at, of u] k by (cases "u = t"; auto simp: rm_holds_def)+
    let ?p = "if rm_state s = Contended then Unlock_wake else Idle"
    have pcs: "rm_pcs s' = (rm_pcs s)(t := ?p)" "rm_state s' = Unlocked" "rm_held s' = rm_held s"
      "rm_waiters s' = rm_waiters s" "rm_owner s' = rm_owner s"
      using 4 assms(1) by (auto simp: rm_goto_def)
    have nb: "\<not> rm_between (rm_pcs s' u)" for u using o(2) [of u] by (auto simp: pcs rm_between_def)
    have "rm_owner s \<noteq> Some u" for u
      using rm_inv_atD(3) [OF at, of u] o [of u] 4 assms(2) by (cases "u = t") (auto simp: rm_between_def)
    moreover have "rm_pc_ok (rm_pcs s' u) 0" for u
      using rm_inv_atD(5) [OF at, of u] o(1) by (auto simp: pcs rm_pc_ok_def)
    moreover have "u \<in> set (rm_waiters s) \<longleftrightarrow> rm_pcs s' u = Lock_asleep" for u
      using rm_inv_atD(6) [OF at, of u] 4 assms(2) by (auto simp: pcs)
    ultimately have "rm_inv_at None s'"
      using nb o(1) unfolding rm_inv_at_def rm_holds_def by (simp add: pcs(2-5)) (auto simp: rm_between_def)
    then show ?thesis by (auto simp: rm_inv_def)
  qed (use assms in auto)
qed

lemma rm_inv_next:
  assumes "rm_next l s = Some s'" "rm_inv s"
  shows "rm_inv s'"
proof (cases "(l, s)" rule: rm_next.cases)
  case (4 t s1)
  then show ?thesis
    using assms rm_inv_lock rm_inv_try_lock rm_inv_unlock by (auto split: option.splits)
next
  case (5 t s1)
  then show ?thesis
    using assms rm_inv_pc_ok [OF assms(2), of t]
    by (auto simp: rm_neutral_def rm_between_def rm_pc_ok_def intro!: rm_inv_goto split: rm_pc.splits)
next
  case (6 t u s1)
  obtain s2 where s2: "rm_leave u (Lock_spin rm_spins) s = Some s2" "s' = rm_goto t Idle s2" "rm_pcs s t = Unlock_wake"
    using 6 assms(1) by (auto simp: rm_wake_one_def split: if_splits)
  have "rm_inv s2" by (rule rm_inv_leave [OF s2(1) assms(2)]) (auto simp: rm_neutral_def rm_between_def rm_pc_ok_def)
  moreover have "rm_pcs s2 t = Unlock_wake" "t \<noteq> u"
    using s2(1,3) by (auto simp: rm_leave_def rm_goto_def split: if_splits)
  ultimately show ?thesis
    unfolding s2(2) by (intro rm_inv_goto) (auto simp: rm_neutral_def rm_between_def rm_pc_ok_def)
next
  case (7 t s1)
  then show ?thesis
    using assms by (auto simp: rm_neutral_def rm_between_def rm_pc_ok_def intro!: rm_inv_goto split: if_splits)
next
  case (8 t s1)
  then show ?thesis
    using assms rm_inv_leave [of t Lock_wait s s'] by (auto simp: rm_neutral_def rm_between_def rm_pc_ok_def)
qed (use assms in \<open>auto simp: rm_call_def rm_neutral_def rm_between_def rm_pc_ok_def intro!: rm_inv_goto split: if_splits\<close>)

interpretation rmx: lock_system rm_next rm_init rm_inv rm_holds
proof unfold_locales
  show "rm_inv rm_init" by (auto simp: rm_inv_def rm_inv_at_def rm_init_def rm_holds_def rm_between_def rm_pc_ok_def)
  show "rm_inv s \<Longrightarrow> rm_holds s t \<Longrightarrow> rm_holds s u \<Longrightarrow> t = u" for s t u
    using rm_inv_atD(2) by (auto simp: rm_inv_def)
qed (rule rm_inv_next)

section \<open>Properties\<close>


text \<open>A thread that does not own the mutex cannot unlock it: \<open>unlock\<close> throws and changes nothing else.\<close>

lemma recursive_unlock_not_owner:
  assumes "rm_pcs s t = Idle" "rm_owner s \<noteq> Some t"
  shows "run rm_next [(t, Call_unlock), (t, Step)] s = Some (s\<lparr>rm_errors := rm_errors s @ [(t, Logic_error)]\<rparr>)"
  using assms by (simp add: rm_call_def rm_goto_def fun_upd_idem)

section \<open>Witness\<close>

definition rm_demo :: "(nat \<times> rm_act) list" where
  "rm_demo = [(7, Call_lock), (7, Step), (7, Step), (7, Step), (7, Step), (7, Call_lock), (7, Step), (7, Step)]"


end
