(* ===== verification/Futex_Semaphore.thy ===== *)
theory Futex_Semaphore
  imports Pman_Prelude
begin

text \<open>
  \<open>FutexSemaphore\<close> of src/src/semaphore.cpp and src/include/pman/semaphore.hpp as an interleaving of
  its atomic accesses and futex calls, for any number of threads. \<open>count_\<close> is a 32-bit signed integer
  that wraps; \<open>sm_acquired\<close> and \<open>sm_released\<close> record the permits taken and given back. Shown: permits are
  conserved, and no wake-up is lost. \<open>FUTEX_WAKE\<close> wakes its sleepers one by one, so that other steps may
  come between, which the kernel does not allow; the theorems hold all the more.
\<close>

section \<open>State\<close>

text \<open>
  The calls that wait: \<open>acquire\<close>, and \<open>try_acquire_for\<close> with a timeout that is zero, positive, or negative,
  for which the kernel answers EINVAL.
\<close>

datatype sm_wait = Forever | Zero | Limited | Negative

datatype sm_outcome = Retry | Timed_out | Failed nat

datatype sm_pc =
    Outside
  | Acq_load sm_wait
  | Acq_cas sm_wait int
  | Acq_announce sm_wait
  | Acq_recheck sm_wait
  | Acq_retract sm_wait
  | Acq_wait sm_wait int
  | Acq_asleep sm_wait
  | Acq_back sm_wait sm_outcome
  | Try_load
  | Try_cas int
  | Rel_add int
  | Rel_waiters int
  | Rel_wake int

record sm =
  sm_count :: int
  sm_waiters :: int
  sm_sleepers :: "nat list"
  sm_pcs :: "nat \<Rightarrow> sm_pc"
  sm_acquired :: int
  sm_released :: int

datatype sm_act =
    Call_acquire sm_wait
  | Call_try_acquire
  | Call_release int
  | Step
  | Cas_fails
  | Wake nat
  | Wake_ends
  | Interrupted
  | Timeout

definition sm_init :: "int \<Rightarrow> sm" where
  "sm_init n = \<lparr>sm_count = n, sm_waiters = 0, sm_sleepers = [], sm_pcs = (\<lambda>_. Outside), sm_acquired = 0, sm_released = 0\<rparr>"

definition sm_new :: "int \<Rightarrow> sm result" where
  "sm_new initial_count = (if initial_count < 0 then Inl Invalid_argument else Inr (sm_init initial_count))"

definition INT_MAX :: int where
  "INT_MAX = 2 ^ 31 - 1"

definition wrap32 :: "int \<Rightarrow> int" where
  "wrap32 x = (x + 2 ^ 31) mod 2 ^ 32 - 2 ^ 31"

definition sm_goto :: "nat \<Rightarrow> sm_pc \<Rightarrow> sm \<Rightarrow> sm" where
  "sm_goto t p s = s\<lparr>sm_pcs := (sm_pcs s)(t := p)\<rparr>"

section \<open>Operations\<close>

text \<open>\<open>try_acquire_for\<close>: C++ division truncates, so both fields have the sign of the timeout.\<close>

definition sm_timespec :: "int \<Rightarrow> int \<times> int" where
  "sm_timespec ns = (sgn ns * (\<bar>ns\<bar> div 10 ^ 9), sgn ns * (\<bar>ns\<bar> mod 10 ^ 9))"

definition sm_try_acquire_for :: "int \<Rightarrow> sm_act" where
  "sm_try_acquire_for ns =
     (case sm_timespec ns of
        (sec, nsec) \<Rightarrow>
          Call_acquire (if sec = 0 \<and> nsec = 0 then Zero else if sec < 0 \<or> nsec < 0 then Negative else Limited))"

text \<open>Where \<open>try_acquire_impl\<close> goes with the value \<open>current\<close> it has seen.\<close>

definition sm_seen :: "sm_wait \<Rightarrow> int \<Rightarrow> sm_pc" where
  "sm_seen w current =
     (if current > 0 then Acq_cas w current else if w = Zero then Outside else Acq_announce w)"

text \<open>\<open>count_.compare_exchange_weak(current, current - 1)\<close> with the program counter for failure.\<close>

definition sm_cas :: "nat \<Rightarrow> int \<Rightarrow> (int \<Rightarrow> sm_pc) \<Rightarrow> sm \<Rightarrow> sm" where
  "sm_cas t current fail s =
     (if sm_count s = current
      then sm_goto t Outside (s\<lparr>sm_count := current - 1, sm_acquired := sm_acquired s + 1\<rparr>)
      else sm_goto t (fail (sm_count s)) s)"

fun sm_acquire :: "nat \<Rightarrow> sm \<Rightarrow> sm_pc \<Rightarrow> sm option" where
  "sm_acquire t s (Acq_load w) = Some (sm_goto t (sm_seen w (sm_count s)) s)"
| "sm_acquire t s (Acq_cas w current) = Some (sm_cas t current (sm_seen w) s)"
| "sm_acquire t s (Acq_announce w) = Some (sm_goto t (Acq_recheck w) (s\<lparr>sm_waiters := sm_waiters s + 1\<rparr>))"
| "sm_acquire t s (Acq_recheck w) =
     Some (sm_goto t (if sm_count s > 0 then Acq_retract w else Acq_wait w (sm_count s)) s)"
| "sm_acquire t s (Acq_retract w) = Some (sm_goto t (Acq_load w) (s\<lparr>sm_waiters := sm_waiters s - 1\<rparr>))"
| "sm_acquire t s (Acq_wait w current) =
     Some (if w = Negative then sm_goto t (Acq_back w (Failed 22)) s
           else if sm_count s = current then sm_goto t (Acq_asleep w) (s\<lparr>sm_sleepers := sm_sleepers s @ [t]\<rparr>)
           else sm_goto t (Acq_back w Retry) s)"
| "sm_acquire t s (Acq_back w r) =
     Some (sm_goto t (if r = Retry then Acq_load w else Outside) (s\<lparr>sm_waiters := sm_waiters s - 1\<rparr>))"
| "sm_acquire t s _ = None"

fun sm_try_acquire :: "nat \<Rightarrow> sm \<Rightarrow> sm_pc \<Rightarrow> sm option" where
  "sm_try_acquire t s Try_load = Some (sm_goto t (if sm_count s > 0 then Try_cas (sm_count s) else Outside) s)"
| "sm_try_acquire t s (Try_cas current) =
     Some (sm_cas t current (\<lambda>c. if c > 0 then Try_cas c else Outside) s)"
| "sm_try_acquire t s _ = None"

text \<open>A previous count below zero makes \<open>release\<close> throw after it has added.\<close>

fun sm_release :: "nat \<Rightarrow> sm \<Rightarrow> sm_pc \<Rightarrow> sm option" where
  "sm_release t s (Rel_add n) =
     Some (sm_goto t (if sm_count s < 0 then Outside else Rel_waiters n)
             (s\<lparr>sm_count := wrap32 (sm_count s + n), sm_released := sm_released s + n\<rparr>))"
| "sm_release t s (Rel_waiters n) =
     Some (sm_goto t (if sm_waiters s > 0 then Rel_wake (min n (sm_waiters s)) else Outside) s)"
| "sm_release t s _ = None"

text \<open>One sleeper that \<open>futex_wake\<close> wakes, and its end: all are woken, or nobody sleeps.\<close>

definition sm_leave :: "nat \<Rightarrow> sm_outcome \<Rightarrow> sm \<Rightarrow> sm option" where
  "sm_leave u r s =
     (case sm_pcs s u of
        Acq_asleep w \<Rightarrow> Some (sm_goto u (Acq_back w r) (s\<lparr>sm_sleepers := remove1 u (sm_sleepers s)\<rparr>))
      | _ \<Rightarrow> None)"

definition sm_wake :: "nat \<Rightarrow> nat \<Rightarrow> sm \<Rightarrow> sm option" where
  "sm_wake t u s =
     (case sm_pcs s t of
        Rel_wake k \<Rightarrow> if k > 0 then map_option (sm_goto t (Rel_wake (k - 1))) (sm_leave u Retry s) else None
      | _ \<Rightarrow> None)"

definition sm_wake_ends :: "nat \<Rightarrow> sm \<Rightarrow> sm option" where
  "sm_wake_ends t s =
     (case sm_pcs s t of
        Rel_wake k \<Rightarrow> if k \<le> 0 \<or> sm_sleepers s = [] then Some (sm_goto t Outside s) else None
      | _ \<Rightarrow> None)"

text \<open>\<open>compare_exchange_weak\<close> may fail although the value is the expected one.\<close>

definition sm_cas_fails :: "nat \<Rightarrow> sm \<Rightarrow> sm option" where
  "sm_cas_fails t s =
     (case sm_pcs s t of
        Acq_cas w current \<Rightarrow> Some (sm_goto t (sm_seen w (sm_count s)) s)
      | Try_cas current \<Rightarrow> Some (sm_goto t (if sm_count s > 0 then Try_cas (sm_count s) else Outside) s)
      | _ \<Rightarrow> None)"

definition sm_call :: "nat \<Rightarrow> sm_pc \<Rightarrow> sm \<Rightarrow> sm option" where
  "sm_call t p s = (if sm_pcs s t = Outside then Some (sm_goto t p s) else None)"

fun sm_next :: "nat \<times> sm_act \<Rightarrow> sm \<Rightarrow> sm option" where
  "sm_next (t, Call_acquire w) s = sm_call t (Acq_load w) s"
| "sm_next (t, Call_try_acquire) s = sm_call t Try_load s"
| "sm_next (t, Call_release n) s = sm_call t (if n \<le> 0 then Outside else Rel_add n) s"
| "sm_next (t, Step) s =
     (case sm_acquire t s (sm_pcs s t) of
        Some s' \<Rightarrow> Some s'
      | None \<Rightarrow> (case sm_try_acquire t s (sm_pcs s t) of
          Some s' \<Rightarrow> Some s'
        | None \<Rightarrow> sm_release t s (sm_pcs s t)))"
| "sm_next (t, Cas_fails) s = sm_cas_fails t s"
| "sm_next (t, Wake u) s = sm_wake t u s"
| "sm_next (t, Wake_ends) s = sm_wake_ends t s"
| "sm_next (t, Interrupted) s = sm_leave t Retry s"
| "sm_next (t, Timeout) s = (if sm_pcs s t = Acq_asleep Limited then sm_leave t Timed_out s else None)"

section \<open>Invariant\<close>

text \<open>
  Weights of a program counter: announced in \<open>waiters_\<close>, asleep, and the wake-up power: an acquirer
  that will look at the count again counts one, a releaser the sleepers it is still going to wake.
\<close>

fun sm_announced :: "sm_pc \<Rightarrow> int" where
  "sm_announced (Acq_recheck w) = 1"
| "sm_announced (Acq_retract w) = 1"
| "sm_announced (Acq_wait w c) = 1"
| "sm_announced (Acq_asleep w) = 1"
| "sm_announced (Acq_back w r) = 1"
| "sm_announced _ = 0"

fun sm_asleep :: "sm_pc \<Rightarrow> int" where
  "sm_asleep (Acq_asleep w) = 1"
| "sm_asleep _ = 0"

definition sm_stays :: "sm_wait \<Rightarrow> int" where
  "sm_stays w = (if w = Forever \<or> w = Limited then 1 else 0)"

fun sm_power :: "sm_pc \<Rightarrow> int" where
  "sm_power (Acq_load w) = sm_stays w"
| "sm_power (Acq_cas w c) = sm_stays w"
| "sm_power (Acq_announce w) = sm_stays w"
| "sm_power (Acq_recheck w) = sm_stays w"
| "sm_power (Acq_retract w) = sm_stays w"
| "sm_power (Acq_wait w c) = sm_stays w"
| "sm_power (Acq_back w r) = (if r = Retry then sm_stays w else 0)"
| "sm_power (Rel_waiters n) = n"
| "sm_power (Rel_wake k) = k"
| "sm_power _ = 0"

fun sm_pc_ok :: "sm_pc \<Rightarrow> bool" where
  "sm_pc_ok (Acq_wait w c) \<longleftrightarrow> c \<le> 0 \<and> w \<noteq> Zero"
| "sm_pc_ok (Acq_asleep w) \<longleftrightarrow> sm_stays w = 1"
| "sm_pc_ok (Rel_add n) \<longleftrightarrow> n > 0"
| "sm_pc_ok (Rel_waiters n) \<longleftrightarrow> n > 0"
| "sm_pc_ok (Rel_wake k) \<longleftrightarrow> k \<ge> 0"
| "sm_pc_ok (Acq_cas w c) \<longleftrightarrow> c > 0"
| "sm_pc_ok (Try_cas c) \<longleftrightarrow> c > 0"
| "sm_pc_ok (Acq_announce w) \<longleftrightarrow> w \<noteq> Zero"
| "sm_pc_ok (Acq_recheck w) \<longleftrightarrow> w \<noteq> Zero"
| "sm_pc_ok _ \<longleftrightarrow> True"

definition sm_wf :: "(nat \<Rightarrow> sm_pc) \<Rightarrow> nat list \<Rightarrow> int \<Rightarrow> bool" where
  "sm_wf g q w \<longleftrightarrow>
     finite {t. g t \<noteq> Outside} \<and> (\<forall>t. sm_pc_ok (g t)) \<and> distinct q \<and>
     (\<forall>t. t \<in> set q \<longleftrightarrow> sm_asleep (g t) = 1) \<and>
     int (length q) = weigh sm_asleep g \<and> w = weigh sm_announced g"

definition sm_lively :: "(nat \<Rightarrow> sm_pc) \<Rightarrow> nat list \<Rightarrow> int \<Rightarrow> bool" where
  "sm_lively g q c \<longleftrightarrow>
     q = [] \<or> c \<le> weigh sm_power g \<or> (\<exists>t k. g t = Rel_wake k \<and> int (length q) \<le> k)"

definition sm_inv :: "int \<Rightarrow> sm \<Rightarrow> bool" where
  "sm_inv n s \<longleftrightarrow>
     sm_wf (sm_pcs s) (sm_sleepers s) (sm_waiters s) \<and>
     (n + sm_released s \<le> INT_MAX \<longrightarrow>
        0 \<le> sm_count s \<and> 0 \<le> sm_acquired s \<and> sm_count s + sm_acquired s = n + sm_released s \<and>
        sm_lively (sm_pcs s) (sm_sleepers s) (sm_count s))"

lemma sm_power_nonneg: "sm_pc_ok p \<Longrightarrow> 0 \<le> sm_power p"
  by (cases p rule: sm_power.cases) (auto simp: sm_stays_def)

lemma sm_asleep_01: "sm_asleep p = 0 \<or> sm_asleep p = 1"
  by (cases p) auto

lemma sm_weigh_upd:
  assumes "sm_wf g q w"
  shows "weigh sm_announced (g(t := p)) = weigh sm_announced g - sm_announced (g t) + sm_announced p"
    and "weigh sm_asleep (g(t := p)) = weigh sm_asleep g - sm_asleep (g t) + sm_asleep p"
    and "weigh sm_power (g(t := p)) = weigh sm_power g - sm_power (g t) + sm_power p"
proof -
  have fin: "finite {t. g t \<noteq> Outside}" using assms by (simp add: sm_wf_def)
  show "weigh sm_announced (g(t := p)) = weigh sm_announced g - sm_announced (g t) + sm_announced p"
    by (rule weigh_upd [OF finite_weights [OF fin]]) simp
  show "weigh sm_asleep (g(t := p)) = weigh sm_asleep g - sm_asleep (g t) + sm_asleep p"
    by (rule weigh_upd [OF finite_weights [OF fin]]) simp
  show "weigh sm_power (g(t := p)) = weigh sm_power g - sm_power (g t) + sm_power p"
    by (rule weigh_upd [OF finite_weights [OF fin]]) simp
qed

lemma sm_power_sum_nonneg: "sm_wf g q w \<Longrightarrow> 0 \<le> weigh sm_power g"
  by (rule weigh_nonneg_on) (simp add: sm_wf_def sm_power_nonneg)

lemma sm_finite_upd: "finite {t. g t \<noteq> q} \<Longrightarrow> finite {u. (g(t := p)) u \<noteq> q}"
  by (rule finite_subset [of _ "insert t {t. g t \<noteq> q}"]) auto

text \<open>A step of a thread that neither sleeps before nor after.\<close>

lemma sm_wf_move:
  assumes "sm_wf g q w" "sm_asleep (g t) = 0" "sm_asleep p = 0" "sm_pc_ok p" "w' = w - sm_announced (g t) + sm_announced p"
  shows "sm_wf (g(t := p)) q w'"
proof -
  have "finite {u. (g(t := p)) u \<noteq> Outside}" by (rule sm_finite_upd) (use assms(1) in \<open>simp add: sm_wf_def\<close>)
  then show ?thesis
    using assms sm_weigh_upd [OF assms(1), of t p] unfolding sm_wf_def by auto
qed

lemma sm_lively_move:
  assumes "sm_wf g q w" "sm_lively g q c" "\<And>k. g t \<noteq> Rel_wake k" "c' - c \<le> sm_power p - sm_power (g t)"
  shows "sm_lively (g(t := p)) q c'"
proof -
  consider "q = []" | "c \<le> weigh sm_power g" | u k where "g u = Rel_wake k" "int (length q) \<le> k"
    using assms(2) by (auto simp: sm_lively_def)
  then show ?thesis
  proof cases
    case 2
    then show ?thesis using sm_weigh_upd(3) [OF assms(1), of t p] assms(4) by (simp add: sm_lively_def)
  next
    case 3
    then have "u \<noteq> t" using assms(3) by auto
    then have "(g(t := p)) u = Rel_wake k" using 3 by simp
    then show ?thesis using 3(2) unfolding sm_lively_def by blast
  qed (simp add: sm_lively_def)
qed

text \<open>A thread falls asleep when the count is zero.\<close>

lemma sm_wf_sleep:
  assumes "sm_wf g q w" "g t = Acq_wait v c" "sm_stays v = 1"
  shows "sm_wf (g(t := Acq_asleep v)) (q @ [t]) w"
proof -
  have "finite {u. (g(t := Acq_asleep v)) u \<noteq> Outside}" by (rule sm_finite_upd) (use assms(1) in \<open>simp add: sm_wf_def\<close>)
  moreover have "t \<notin> set q" using assms(1,2) by (simp add: sm_wf_def)
  ultimately show ?thesis
    using assms sm_weigh_upd [OF assms(1), of t "Acq_asleep v"] unfolding sm_wf_def by auto
qed

text \<open>A sleeper leaves the queue.\<close>

lemma sm_wf_leave:
  assumes "sm_wf g q w" "g u = Acq_asleep v"
  shows "sm_wf (g(u := Acq_back v r)) (remove1 u q) w"
proof -
  have "finite {t. (g(u := Acq_back v r)) t \<noteq> Outside}" by (rule sm_finite_upd) (use assms(1) in \<open>simp add: sm_wf_def\<close>)
  moreover have "u \<in> set q" using assms by (simp add: sm_wf_def)
  moreover have "int (length (remove1 u q)) = int (length q) - 1"
    using Suc_length_remove1 [OF \<open>u \<in> set q\<close>] by linarith
  ultimately show ?thesis
    using assms sm_weigh_upd [OF assms(1), of u "Acq_back v r"] unfolding sm_wf_def by auto
qed

lemma sm_lively_leave:
  assumes "sm_wf g q w" "sm_lively g q c" "g u = Acq_asleep v"
  shows "sm_lively (g(u := Acq_back v r)) (remove1 u q) c"
proof -
  have p: "weigh sm_power g \<le> weigh sm_power (g(u := Acq_back v r))"
    using sm_weigh_upd(3) [OF assms(1), of u "Acq_back v r"] assms(3) by (simp add: sm_stays_def)
  have l: "length (remove1 u q) \<le> length q" by (simp add: length_remove1)
  consider "q = []" | "c \<le> weigh sm_power g" | t k where "g t = Rel_wake k" "int (length q) \<le> k"
    using assms(2) by (auto simp: sm_lively_def)
  then show ?thesis
  proof cases
    case 3
    then have "(g(u := Acq_back v r)) t = Rel_wake k" using assms(3) by auto
    moreover have "int (length (remove1 u q)) \<le> k" using 3(2) l by linarith
    ultimately show ?thesis unfolding sm_lively_def by blast
  qed (use p in \<open>auto simp: sm_lively_def\<close>)
qed

text \<open>A releaser wakes one sleeper.\<close>

lemma sm_lively_wake:
  assumes "sm_wf g q w" "sm_lively g q c" "g t = Rel_wake k" "k > 0" "g u = Acq_asleep v"
  shows "sm_lively ((g(u := Acq_back v Retry))(t := Rel_wake (k - 1))) (remove1 u q) c"
proof -
  let ?g = "(g(u := Acq_back v Retry))(t := Rel_wake (k - 1))"
  have tu: "t \<noteq> u" using assms(3,5) by auto
  have v: "sm_stays v = 1" using assms(1,5) unfolding sm_wf_def by (metis sm_pc_ok.simps(2))
  have u: "u \<in> set q" using assms(1,5) by (simp add: sm_wf_def)
  note w1 = sm_wf_leave [OF assms(1,5), of Retry]
  have pw: "weigh sm_power ?g = weigh sm_power g + sm_stays v - 1"
    using sm_weigh_upd(3) [OF w1, of t "Rel_wake (k - 1)"] sm_weigh_upd(3) [OF assms(1), of u "Acq_back v Retry"] assms(3,5) tu
    by simp
  have l: "int (length (remove1 u q)) = int (length q) - 1" using Suc_length_remove1 [OF u] by linarith
  consider "q = []" | "c \<le> weigh sm_power g" | x j where "g x = Rel_wake j" "int (length q) \<le> j"
    using assms(2) by (auto simp: sm_lively_def)
  then show ?thesis
  proof cases
    case 1
    then show ?thesis using u by simp
  next
    case 2
    then show ?thesis using pw v by (simp add: sm_lively_def)
  next
    case 3
    then show ?thesis
    proof (cases "x = t")
      case True
      then have "?g t = Rel_wake (k - 1)" "int (length (remove1 u q)) \<le> k - 1" using 3 assms(3) l by simp_all
      then show ?thesis unfolding sm_lively_def by blast
    next
      case False
      then have "?g x = Rel_wake j" "int (length (remove1 u q)) \<le> j" using 3 assms(5) l by auto
      then show ?thesis unfolding sm_lively_def by blast
    qed
  qed
qed

text \<open>A releaser reads \<open>waiters_\<close>: when it will wake fewer than it released, it will wake every sleeper.\<close>

lemma sm_sleepers_announced:
  assumes "sm_wf g q w"
  shows "int (length q) \<le> w"
proof -
  have fin: "finite {t. g t \<noteq> Outside}" using assms by (simp add: sm_wf_def)
  have "weigh sm_asleep g \<le> weigh sm_announced g"
  proof (rule weigh_mono)
    show "finite {t. sm_asleep (g t) \<noteq> 0}" "finite {t. sm_announced (g t) \<noteq> 0}" by (rule finite_weights [OF fin]; simp)+
    show "sm_asleep (g t) \<le> sm_announced (g t)" for t by (cases "g t") simp_all
  qed
  then show ?thesis using assms by (simp add: sm_wf_def)
qed

lemma sm_lively_waiters:
  assumes "sm_wf g q w" "sm_lively g q c" "g t = Rel_waiters n"
  shows "sm_lively (g(t := (if w > 0 then Rel_wake (min n w) else Outside))) q c"
proof -
  note le = sm_sleepers_announced [OF assms(1)]
  consider "w \<le> 0" | "0 < w" "n \<le> w" | "0 < w" "w < n" by linarith
  then show ?thesis
  proof cases
    case 1
    then have "q = []" using le by (metis length_0_conv of_nat_le_0_iff order_trans)
    then show ?thesis by (simp add: sm_lively_def)
  next
    case 2
    then show ?thesis using sm_lively_move [OF assms(1,2), of t c "Rel_wake n"] assms(3) by (simp add: min_absorb1)
  next
    case 3
    then have "(g(t := Rel_wake w)) t = Rel_wake w \<and> int (length q) \<le> w" using le by simp
    then show ?thesis using 3 unfolding sm_lively_def by (metis min.absorb4)
  qed
qed

lemma sm_lively_wake_ends:
  assumes "sm_wf g q w" "sm_lively g q c" "g t = Rel_wake k" "k \<le> 0 \<or> q = []"
  shows "sm_lively (g(t := Outside)) q c"
proof (cases "q = []")
  case False
  then have k: "k \<le> 0" "0 < int (length q)" using assms(4) by simp_all
  have k0: "k = 0" using assms(1,3) k unfolding sm_wf_def by (metis antisym sm_pc_ok.simps(5))
  consider "c \<le> weigh sm_power g" | x j where "g x = Rel_wake j" "int (length q) \<le> j"
    using assms(2) False by (auto simp: sm_lively_def)
  then show ?thesis
  proof cases
    case 1
    then show ?thesis using sm_weigh_upd(3) [OF assms(1), of t Outside] assms(3) k0 by (simp add: sm_lively_def)
  next
    case 2
    have "x \<noteq> t"
    proof
      assume "x = t"
      then have "j = k" using 2(1) assms(3) by simp
      then show False using 2(2) k by linarith
    qed
    then have "(g(t := Outside)) x = Rel_wake j" using 2 by simp
    then show ?thesis using 2(2) unfolding sm_lively_def by blast
  qed
qed (simp add: sm_lively_def)

section \<open>Every step keeps the invariant\<close>

lemma wrap32_id: "0 \<le> x \<Longrightarrow> x \<le> INT_MAX \<Longrightarrow> wrap32 x = x"
  by (simp add: wrap32_def INT_MAX_def)

lemma sm_goto_sel [simp]:
  "sm_pcs (sm_goto t p s) = (sm_pcs s)(t := p)" "sm_count (sm_goto t p s) = sm_count s"
  "sm_waiters (sm_goto t p s) = sm_waiters s" "sm_sleepers (sm_goto t p s) = sm_sleepers s"
  "sm_acquired (sm_goto t p s) = sm_acquired s" "sm_released (sm_goto t p s) = sm_released s"
  by (simp_all add: sm_goto_def)

lemma sm_inv_move:
  assumes "sm_inv n s" "sm_pcs s' = (sm_pcs s)(t := p)" "sm_sleepers s' = sm_sleepers s"
    "sm_asleep (sm_pcs s t) = 0" "sm_asleep p = 0" "sm_pc_ok p" "\<And>k. sm_pcs s t \<noteq> Rel_wake k"
    "sm_waiters s' = sm_waiters s - sm_announced (sm_pcs s t) + sm_announced p"
    "sm_count s' - sm_count s \<le> sm_power p - sm_power (sm_pcs s t)"
    "sm_released s' = sm_released s"
    "0 \<le> sm_count s \<Longrightarrow> 0 \<le> sm_count s' \<and> sm_acquired s \<le> sm_acquired s' \<and>
       sm_count s' + sm_acquired s' = sm_count s + sm_acquired s"
  shows "sm_inv n s'"
proof -
  have wf: "sm_wf (sm_pcs s) (sm_sleepers s) (sm_waiters s)" using assms(1) by (simp add: sm_inv_def)
  have "sm_wf (sm_pcs s') (sm_sleepers s') (sm_waiters s')"
    unfolding assms(2,3) by (rule sm_wf_move [OF wf assms(4-6) assms(8)])
  moreover have "sm_lively (sm_pcs s') (sm_sleepers s') (sm_count s')" if "sm_lively (sm_pcs s) (sm_sleepers s) (sm_count s)"
    unfolding assms(2,3) by (rule sm_lively_move [OF wf that assms(7,9)])
  ultimately show ?thesis using assms(1,10,11) by (auto simp: sm_inv_def)
qed

lemma sm_inv_goto:
  assumes "sm_inv n s" "sm_asleep (sm_pcs s t) = 0" "sm_asleep p = 0" "sm_pc_ok p" "\<And>k. sm_pcs s t \<noteq> Rel_wake k"
    "sm_announced (sm_pcs s t) = sm_announced p" "sm_power (sm_pcs s t) \<le> sm_power p"
  shows "sm_inv n (sm_goto t p s)"
  by (rule sm_inv_move [OF assms(1), where t = t and p = p]) (use assms in simp_all)

lemma sm_seen_ok:
  "sm_asleep (sm_seen w c) = 0" "sm_pc_ok (sm_seen w c)" "sm_announced (sm_seen w c) = 0" "sm_power (sm_seen w c) = sm_stays w"
  by (auto simp: sm_seen_def sm_stays_def)

lemma sm_inv_pc_ok: "sm_inv n s \<Longrightarrow> sm_pc_ok (sm_pcs s t)"
  by (simp add: sm_inv_def sm_wf_def)

lemma sm_inv_cas:
  assumes "sm_inv n s" "sm_pcs s t = Acq_cas w c \<or> sm_pcs s t = Try_cas c" "c > 0"
    "\<And>x. sm_asleep (fail x) = 0 \<and> sm_pc_ok (fail x) \<and> sm_announced (fail x) = 0 \<and> sm_power (sm_pcs s t) \<le> sm_power (fail x)"
  shows "sm_inv n (sm_cas t c fail s)"
proof (cases "sm_count s = c")
  case True
  have "sm_power (sm_pcs s t) \<le> 1" using assms(2) by (auto simp: sm_stays_def)
  then show ?thesis
    using True assms(2,3) unfolding sm_cas_def by (auto intro!: sm_inv_move [OF assms(1), where t = t and p = Outside])
next
  case False
  then show ?thesis using assms(2,4) unfolding sm_cas_def by (auto intro!: sm_inv_goto [OF assms(1)])
qed

lemma sm_inv_sleep:
  assumes "sm_inv n s" "sm_pcs s t = Acq_wait w c" "w \<noteq> Negative" "sm_count s = c"
  shows "sm_inv n (sm_goto t (Acq_asleep w) (s\<lparr>sm_sleepers := sm_sleepers s @ [t]\<rparr>))"
proof -
  have wf: "sm_wf (sm_pcs s) (sm_sleepers s) (sm_waiters s)" using assms(1) by (simp add: sm_inv_def)
  have "c \<le> 0" "sm_stays w = 1" using sm_inv_pc_ok [OF assms(1), of t] assms(2,3)
    by (simp, cases w) (auto simp: sm_stays_def)
  note wf' = sm_wf_sleep [OF wf assms(2) this(2)]
  have "sm_lively ((sm_pcs s)(t := Acq_asleep w)) (sm_sleepers s @ [t]) (sm_count s)"
    using sm_power_sum_nonneg [OF wf'] \<open>c \<le> 0\<close> assms(4) unfolding sm_lively_def by linarith
  then show ?thesis using assms(1) wf' by (simp add: sm_inv_def)
qed

lemma sm_inv_acquire:
  assumes "sm_acquire t s p = Some s'" "sm_pcs s t = p" "sm_inv n s"
  shows "sm_inv n s'"
proof (cases p)
  case (Acq_load w)
  then show ?thesis using assms sm_seen_ok by (auto intro!: sm_inv_goto)
next
  case (Acq_cas w c)
  then show ?thesis using assms sm_seen_ok sm_inv_pc_ok [OF assms(3), of t] by (auto intro!: sm_inv_cas)
next
  case (Acq_announce w)
  then show ?thesis
    using assms sm_inv_pc_ok [OF assms(3), of t] by (auto intro!: sm_inv_move [OF assms(3), where t = t and p = "Acq_recheck w"])
next
  case (Acq_recheck w)
  then show ?thesis using assms sm_inv_pc_ok [OF assms(3), of t] by (auto intro!: sm_inv_goto)
next
  case (Acq_retract w)
  then show ?thesis using assms by (auto intro!: sm_inv_move [OF assms(3), where t = t and p = "Acq_load w"])
next
  case (Acq_wait w c)
  then show ?thesis
    using assms by (auto simp: sm_stays_def intro!: sm_inv_goto sm_inv_sleep split: if_splits)
next
  case (Acq_back w r)
  then show ?thesis
    using assms by (auto intro!: sm_inv_move [OF assms(3), where t = t and p = "if r = Retry then Acq_load w else Outside"])
qed (use assms in auto)

lemma sm_inv_try_acquire:
  assumes "sm_try_acquire t s p = Some s'" "sm_pcs s t = p" "sm_inv n s"
  shows "sm_inv n s'"
proof (cases p)
  case (Try_cas c)
  then show ?thesis using assms sm_inv_pc_ok [OF assms(3), of t] by (auto intro!: sm_inv_cas)
qed (use assms in \<open>auto intro!: sm_inv_goto\<close>)

lemma sm_inv_release:
  assumes "sm_release t s p = Some s'" "sm_pcs s t = p" "sm_inv n s"
  shows "sm_inv n s'"
proof (cases p)
  case (Rel_add k)
  have k: "k > 0" using sm_inv_pc_ok [OF assms(3), of t] assms(2) Rel_add by simp
  have wf: "sm_wf (sm_pcs s) (sm_sleepers s) (sm_waiters s)" using assms(3) by (simp add: sm_inv_def)
  have "sm_wf (sm_pcs s') (sm_sleepers s') (sm_waiters s')"
    using sm_wf_move [OF wf, of t "if sm_count s < 0 then Outside else Rel_waiters k"] assms(1,2) Rel_add k by auto
  moreover have "0 \<le> sm_count s' \<and> 0 \<le> sm_acquired s' \<and> sm_count s' + sm_acquired s' = n + sm_released s' \<and>
      sm_lively (sm_pcs s') (sm_sleepers s') (sm_count s')" if "n + sm_released s' \<le> INT_MAX"
  proof -
    have r: "sm_released s' = sm_released s + k" "sm_acquired s' = sm_acquired s" using assms(1) Rel_add by auto
    then have c: "0 \<le> sm_count s" "0 \<le> sm_acquired s" "sm_count s + sm_acquired s = n + sm_released s"
      "sm_lively (sm_pcs s) (sm_sleepers s) (sm_count s)"
      using assms(3) that k by (simp_all add: sm_inv_def)
    have c': "sm_count s' = sm_count s + k"
      using assms(1) Rel_add c r that k by (auto simp: wrap32_id)
    have "sm_lively ((sm_pcs s)(t := Rel_waiters k)) (sm_sleepers s) (sm_count s + k)"
      by (rule sm_lively_move [OF wf c(4)]) (use assms(2) Rel_add in auto)
    then show ?thesis using assms(1) Rel_add c c' r k by auto
  qed
  ultimately show ?thesis by (simp add: sm_inv_def)
next
  case (Rel_waiters k)
  have k: "k > 0" using sm_inv_pc_ok [OF assms(3), of t] assms(2) Rel_waiters by simp
  have wf: "sm_wf (sm_pcs s) (sm_sleepers s) (sm_waiters s)" using assms(3) by (simp add: sm_inv_def)
  let ?p = "if sm_waiters s > 0 then Rel_wake (min k (sm_waiters s)) else Outside"
  have s': "s' = sm_goto t ?p s" using assms(1) Rel_waiters by auto
  have "sm_wf ((sm_pcs s)(t := ?p)) (sm_sleepers s) (sm_waiters s)"
    by (rule sm_wf_move [OF wf]) (use assms(2) Rel_waiters k in auto)
  then show ?thesis
    using assms(2,3) Rel_waiters sm_lively_waiters [OF wf, of "sm_count s" t k] unfolding s' by (simp add: sm_inv_def)
qed (use assms in auto)

lemma sm_inv_leave:
  assumes "sm_leave u r s = Some s'" "sm_inv n s"
  shows "sm_inv n s'"
proof -
  obtain v where v: "sm_pcs s u = Acq_asleep v"
    "s' = sm_goto u (Acq_back v r) (s\<lparr>sm_sleepers := remove1 u (sm_sleepers s)\<rparr>)"
    using assms(1) by (auto simp: sm_leave_def split: sm_pc.splits)
  have wf: "sm_wf (sm_pcs s) (sm_sleepers s) (sm_waiters s)" using assms(2) by (simp add: sm_inv_def)
  show ?thesis
    using assms(2) sm_wf_leave [OF wf v(1)] sm_lively_leave [OF wf _ v(1)] by (simp add: v(2) sm_inv_def)
qed

lemma sm_inv_wake:
  assumes "sm_wake t u s = Some s'" "sm_inv n s"
  shows "sm_inv n s'"
proof -
  obtain k v where k: "sm_pcs s t = Rel_wake k" "k > 0" and v: "sm_pcs s u = Acq_asleep v"
    and s': "s' = sm_goto t (Rel_wake (k - 1)) (sm_goto u (Acq_back v Retry) (s\<lparr>sm_sleepers := remove1 u (sm_sleepers s)\<rparr>))"
    using assms(1) by (auto simp: sm_wake_def sm_leave_def split: sm_pc.splits if_splits)
  have wf: "sm_wf (sm_pcs s) (sm_sleepers s) (sm_waiters s)" using assms(2) by (simp add: sm_inv_def)
  have "t \<noteq> u" using k v by auto
  then have "sm_wf ((sm_pcs s)(u := Acq_back v Retry, t := Rel_wake (k - 1))) (remove1 u (sm_sleepers s)) (sm_waiters s)"
    by (intro sm_wf_move [OF sm_wf_leave [OF wf v]]) (use k in simp_all)
  then show ?thesis
    using assms(2) sm_lively_wake [OF wf _ k v] by (simp add: s' sm_inv_def)
qed

lemma sm_inv_wake_ends:
  assumes "sm_wake_ends t s = Some s'" "sm_inv n s"
  shows "sm_inv n s'"
proof -
  obtain k where k: "sm_pcs s t = Rel_wake k" "k \<le> 0 \<or> sm_sleepers s = []" and s': "s' = sm_goto t Outside s"
    using assms(1) by (auto simp: sm_wake_ends_def split: sm_pc.splits if_splits)
  have wf: "sm_wf (sm_pcs s) (sm_sleepers s) (sm_waiters s)" using assms(2) by (simp add: sm_inv_def)
  have "sm_wf ((sm_pcs s)(t := Outside)) (sm_sleepers s) (sm_waiters s)"
    by (rule sm_wf_move [OF wf]) (use k in simp_all)
  then show ?thesis using assms(2) sm_lively_wake_ends [OF wf _ k] by (simp add: s' sm_inv_def)
qed

lemma sm_inv_cas_fails: "sm_cas_fails t s = Some s' \<Longrightarrow> sm_inv n s \<Longrightarrow> sm_inv n s'"
  using sm_seen_ok by (auto simp: sm_cas_fails_def intro!: sm_inv_goto split: sm_pc.splits)

lemma sm_inv_call:
  "sm_call t p s = Some s' \<Longrightarrow> sm_inv n s \<Longrightarrow> sm_asleep p = 0 \<Longrightarrow> sm_announced p = 0 \<Longrightarrow> sm_pc_ok p \<Longrightarrow> sm_inv n s'"
  using sm_power_nonneg [of p] by (auto simp: sm_call_def intro!: sm_inv_goto split: if_splits)

lemma sm_inv_next:
  assumes "sm_next l s = Some s'" "sm_inv n s"
  shows "sm_inv n s'"
proof (cases "(l, s)" rule: sm_next.cases)
  case (4 t r)
  then show ?thesis
    using assms sm_inv_acquire sm_inv_try_acquire sm_inv_release by (auto split: option.splits)
next
  case (9 t r)
  then show ?thesis using assms sm_inv_leave by (auto split: if_splits)
qed (use assms in \<open>auto intro: sm_inv_call sm_inv_leave sm_inv_wake sm_inv_wake_ends sm_inv_cas_fails split: if_splits\<close>)

lemma sm_inv_init: "0 \<le> n \<Longrightarrow> sm_inv n (sm_init n)"
  by (simp add: sm_inv_def sm_init_def sm_wf_def sm_lively_def weigh_zero)

interpretation smx: step_system sm_next "sm_init (int k)" "sm_inv (int k)" for k
  by unfold_locales (auto intro: sm_inv_init sm_inv_next)

section \<open>Properties\<close>

text \<open>
  Claim C6. Permits are conserved: in every state that any schedule of any number of threads reaches,
  as long as no more permits were created than an \<open>int\<close> holds, the count is not negative and equals the
  initial count plus the permits released minus the permits acquired.
\<close>

theorem sem_conservation:
  assumes "reachable sm_next (sm_init (int k)) s" "int k + sm_released s \<le> INT_MAX"
  shows "0 \<le> sm_count s \<and> sm_count s = int k + sm_released s - sm_acquired s \<and> sm_acquired s \<le> int k + sm_released s"
  using smx.inv_reachable [OF assms(1)] assms(2) by (auto simp: sm_inv_def)


text \<open>
  Beyond the limit the count wraps: one release on a full semaphore leaves a negative count, nobody
  can acquire, and the next release throws.
\<close>

lemma sem_release_overflows:
  "(case run sm_next [(0, Call_release 1), (0, Step), (0, Step), (0, Call_try_acquire), (0, Step)] (sm_init INT_MAX) of
      Some s \<Rightarrow> sm_count s = - (2 ^ 31) \<and> sm_acquired s = 0 \<and> sm_pcs s 0 = Outside | None \<Rightarrow> False)"
  by (simp add: sm_init_def sm_call_def sm_goto_def wrap32_def INT_MAX_def)

section \<open>Witnesses\<close>

definition sm_demo :: "(nat \<times> sm_act) list" where
  "sm_demo = [(0, Call_acquire Forever), (0, Step), (0, Step), (0, Step), (0, Step), (1, Call_release 1), (1, Step)]"

definition sm_demo_state :: sm where
  "sm_demo_state = \<lparr>sm_count = 1, sm_waiters = 1, sm_sleepers = [0],
     sm_pcs = (\<lambda>_. Outside)(0 := Acq_asleep Forever, 1 := Rel_waiters 1), sm_acquired = 0, sm_released = 1\<rparr>"

lemma sm_demo_run: "run sm_next sm_demo (sm_init (int 0)) = Some sm_demo_state"
  by (simp add: sm_demo_def sm_init_def sm_call_def sm_goto_def sm_seen_def wrap32_def fun_upd_twist sm_demo_state_def)

theorem sem_conservation_witness:
  "run sm_next sm_demo (sm_init (int 0)) = Some sm_demo_state \<and> 0 \<le> sm_count sm_demo_state \<and>
   sm_count sm_demo_state = 0 + sm_released sm_demo_state - sm_acquired sm_demo_state"
  using sem_conservation [OF reachableI [OF sm_demo_run]] sm_demo_run by (simp add: sm_demo_state_def INT_MAX_def)


end
