(* ===== verification/Futex_Latch.thy ===== *)
theory Futex_Latch
  imports Pman_Prelude
begin

text \<open>
  \<open>FutexLatch\<close> (src/src/latch.cpp) and \<open>FutexOnceFlag\<close> (src/src/once.cpp, src/include/pman/once.hpp) as
  interleavings of their atomic accesses and futex calls. A latch opens only after the expected number of
  counts and then leaves nobody asleep, unless a \<open>count_down\<close> underflows. A once flag completes its function
  at most once; as long as the function does not throw, a caller returns only after it has completed and
  no caller is left asleep. Both fail after an underflow or an exception, which is shown too.
\<close>

section \<open>Latch\<close>

text \<open>The flag of the \<open>count_down\<close> steps tells \<open>arrive_and_wait\<close> from \<open>count_down\<close>.\<close>

datatype la_pc =
    La_out
  | La_sub int bool | La_bump bool | La_wake bool
  | La_check1 | La_seq | La_check2 int | La_wait int | La_asleep int
  | La_passed

record la =
  la_counter :: int
  la_futex :: int
  la_pcs :: "nat \<Rightarrow> la_pc"
  la_counted :: int
  la_underflow :: bool

datatype la_act = La_count_down int | La_arrive_and_wait int | La_call_wait | La_return | La_step | La_interrupt

definition la_init :: "int \<Rightarrow> la" where
  "la_init expected = \<lparr>la_counter = expected, la_futex = 0, la_pcs = (\<lambda>_. La_out), la_counted = 0, la_underflow = False\<rparr>"

definition la_new :: "int \<Rightarrow> la result" where
  "la_new expected = (if expected < 0 then Inl Invalid_argument else Inr (la_init expected))"

definition la_goto :: "nat \<Rightarrow> la_pc \<Rightarrow> la \<Rightarrow> la" where
  "la_goto t p s = s\<lparr>la_pcs := (la_pcs s)(t := p)\<rparr>"

definition la_counted_down :: "bool \<Rightarrow> la_pc" where
  "la_counted_down w = (if w then La_check1 else La_out)"

text \<open>An underflow throws after the subtraction, so \<open>arrive_and_wait\<close> does not wait then.\<close>

fun la_count_down :: "nat \<Rightarrow> la \<Rightarrow> la_pc \<Rightarrow> la option" where
  "la_count_down t s (La_sub n w) =
     Some (la_goto t (if la_counter s = n then La_bump w else if la_counter s < n then La_out else la_counted_down w)
             (s\<lparr>la_counter := la_counter s - n, la_counted := la_counted s + n,
                la_underflow := (la_underflow s \<or> la_counter s < n)\<rparr>))"
| "la_count_down t s (La_bump w) = Some (la_goto t (La_wake w) (s\<lparr>la_futex := la_futex s + 1\<rparr>))"
| "la_count_down t s _ = None"

definition la_wake_all :: "la \<Rightarrow> la" where
  "la_wake_all s = s\<lparr>la_pcs := (\<lambda>u. case la_pcs s u of La_asleep q \<Rightarrow> La_check1 | p \<Rightarrow> p)\<rparr>"

fun la_wait :: "nat \<Rightarrow> la \<Rightarrow> la_pc \<Rightarrow> la option" where
  "la_wait t s La_check1 = Some (la_goto t (if la_counter s \<le> 0 then La_passed else La_seq) s)"
| "la_wait t s La_seq = Some (la_goto t (La_check2 (la_futex s)) s)"
| "la_wait t s (La_check2 q) = Some (la_goto t (if la_counter s \<le> 0 then La_passed else La_wait q) s)"
| "la_wait t s (La_wait q) = Some (la_goto t (if la_futex s = q then La_asleep q else La_check1) s)"
| "la_wait t s _ = None"

definition la_try_wait :: "la \<Rightarrow> bool" where
  "la_try_wait s \<longleftrightarrow> la_counter s \<le> 0"

text \<open>A negative argument throws before anything happens. \<open>futex_wait\<close> goes back to sleep after EINTR.\<close>

fun la_next :: "nat \<times> la_act \<Rightarrow> la \<Rightarrow> la option" where
  "la_next (t, La_count_down n) s =
     (if la_pcs s t \<noteq> La_out then None else Some (if n < 0 then s else la_goto t (La_sub n False) s))"
| "la_next (t, La_arrive_and_wait n) s =
     (if la_pcs s t \<noteq> La_out then None else Some (if n < 0 then s else la_goto t (La_sub n True) s))"
| "la_next (t, La_call_wait) s = (if la_pcs s t = La_out then Some (la_goto t La_check1 s) else None)"
| "la_next (t, La_return) s = (if la_pcs s t = La_passed then Some (la_goto t La_out s) else None)"
| "la_next (t, La_step) s =
     (case la_pcs s t of
        La_wake w \<Rightarrow> Some (la_goto t (la_counted_down w) (la_wake_all s))
      | p \<Rightarrow> (case la_count_down t s p of Some s' \<Rightarrow> Some s' | None \<Rightarrow> la_wait t s p))"
| "la_next (t, La_interrupt) s =
     (case la_pcs s t of La_asleep q \<Rightarrow> Some (la_goto t (La_wait q) s) | _ \<Rightarrow> None)"

subsection \<open>Invariant\<close>

definition la_bumping :: "la \<Rightarrow> bool" where
  "la_bumping s \<longleftrightarrow> (\<exists>u w. la_pcs s u = La_bump w)"

definition la_waking :: "la \<Rightarrow> bool" where
  "la_waking s \<longleftrightarrow> (\<exists>u w. la_pcs s u = La_bump w \<or> la_pcs s u = La_wake w)"

text \<open>
  Where a thread may be: one that sleeps, or will sleep on the current futex value, although the latch is
  open (\<open>op\<close>), has a thread that will still change the value (\<open>b\<close>) or wake the sleepers (\<open>k\<close>).
\<close>

fun la_ok :: "int \<Rightarrow> int \<Rightarrow> bool \<Rightarrow> bool \<Rightarrow> bool \<Rightarrow> la_pc \<Rightarrow> bool" where
  "la_ok c f op b k (La_sub n w) \<longleftrightarrow> 0 \<le> n"
| "la_ok c f op b k (La_check2 q) \<longleftrightarrow> q \<le> f"
| "la_ok c f op b k (La_wait q) \<longleftrightarrow> q \<le> f \<and> (op \<and> q = f \<longrightarrow> b)"
| "la_ok c f op b k (La_asleep q) \<longleftrightarrow> q \<le> f \<and> (op \<and> q = f \<longrightarrow> b) \<and> (op \<longrightarrow> k)"
| "la_ok c f op b k La_passed \<longleftrightarrow> c \<le> 0"
| "la_ok c f op b k _ \<longleftrightarrow> True"

definition la_open :: "la \<Rightarrow> bool" where
  "la_open s \<longleftrightarrow> la_counter s \<le> 0 \<and> \<not> la_underflow s"

definition la_inv :: "int \<Rightarrow> la \<Rightarrow> bool" where
  "la_inv e s \<longleftrightarrow> la_counter s + la_counted s = e \<and>
     (\<forall>t. la_ok (la_counter s) (la_futex s) (la_open s) (la_bumping s) (la_waking s) (la_pcs s t))"

lemma la_bumping_waking: "la_bumping s \<Longrightarrow> la_waking s"
  by (auto simp: la_bumping_def la_waking_def)

lemma la_ok_mono:
  "la_ok c f op b k p \<Longrightarrow> c' \<le> c \<Longrightarrow> (op' \<Longrightarrow> op \<and> (b \<longrightarrow> b') \<and> (k \<longrightarrow> k') \<or> b' \<and> k') \<Longrightarrow> la_ok c' f op' b' k' p"
  by (cases p) auto

lemma la_ok_bumped:
  "la_ok c f op b k p \<Longrightarrow> k' \<Longrightarrow> la_ok c (f + 1) op b' k' p"
  by (cases p) auto

lemma la_pcs_goto: "la_pcs (la_goto t p s) u = (if u = t then p else la_pcs s u)"
  by (simp add: la_goto_def)

lemma la_bumping_others:
  assumes "\<And>u w. u \<noteq> t \<Longrightarrow> la_pcs s u = La_bump w \<Longrightarrow> la_pcs s' u = La_bump w" "\<And>w. la_pcs s t \<noteq> La_bump w"
  shows "la_bumping s \<longrightarrow> la_bumping s'"
  using assms unfolding la_bumping_def by metis

lemma la_waking_others:
  assumes "\<And>u. u \<noteq> t \<Longrightarrow> la_pcs s' u = la_pcs s u" "\<And>w. la_pcs s t \<noteq> La_bump w \<and> la_pcs s t \<noteq> La_wake w"
  shows "la_waking s \<longrightarrow> la_waking s'"
  using assms unfolding la_waking_def by metis

text \<open>A thread that is not turning the latch moves without changing anything shared.\<close>

lemma la_inv_goto:
  assumes "la_inv e s" "\<And>w. la_pcs s t \<noteq> La_bump w \<and> la_pcs s t \<noteq> La_wake w"
    and "la_ok (la_counter s) (la_futex s) (la_open s) (la_bumping s) (la_waking s) p"
  shows "la_inv e (la_goto t p s)"
proof -
  let ?s = "la_goto t p s"
  have b: "la_bumping s \<longrightarrow> la_bumping ?s" "la_waking s \<longrightarrow> la_waking ?s"
    using la_bumping_others [of t s ?s] la_waking_others [of t ?s s] assms(2) by (simp_all add: la_pcs_goto)
  have same: "la_counter ?s = la_counter s" "la_futex ?s = la_futex s" "la_open ?s = la_open s" "la_counted ?s = la_counted s"
    by (simp_all add: la_goto_def la_open_def)
  have "la_ok (la_counter s) (la_futex s) (la_open s) (la_bumping ?s) (la_waking ?s) (la_pcs ?s u)" for u
  proof (rule la_ok_mono)
    show "la_ok (la_counter s) (la_futex s) (la_open s) (la_bumping s) (la_waking s) (la_pcs ?s u)"
      using assms(1,3) by (simp add: la_pcs_goto la_inv_def)
  qed (use b in auto)
  then show ?thesis using assms(1) unfolding la_inv_def same by simp
qed

lemma la_inv_sub:
  assumes "la_inv e s" "la_pcs s t = La_sub n w" "la_count_down t s (La_sub n w) = Some s'"
  shows "la_inv e s'"
proof -
  have n: "0 \<le> n" using assms(1,2) unfolding la_inv_def by (metis la_ok.simps(1))
  have b: "la_bumping s \<longrightarrow> la_bumping s'" "la_waking s \<longrightarrow> la_waking s'"
    using la_bumping_others [of t s s'] la_waking_others [of t s' s] assms(2,3) by (auto simp: la_pcs_goto)
  have new: "la_open s' \<Longrightarrow> \<not> la_open s \<Longrightarrow> la_bumping s' \<and> la_waking s'"
  proof -
    assume "la_open s'" "\<not> la_open s"
    then have "la_counter s = n" using assms(3) by (auto simp: la_open_def la_goto_def)
    then have "la_pcs s' t = La_bump w" using assms(3) by (auto simp: la_goto_def)
    then show "la_bumping s' \<and> la_waking s'" unfolding la_bumping_def la_waking_def by blast
  qed
  have f: "la_futex s' = la_futex s" "la_counter s' = la_counter s - n" "la_counted s' = la_counted s + n"
    using assms(3) by (auto simp: la_goto_def)
  have "la_ok (la_counter s') (la_futex s) (la_open s') (la_bumping s') (la_waking s') (la_pcs s u)" for u
    by (rule la_ok_mono [where c = "la_counter s" and op = "la_open s" and b = "la_bumping s" and k = "la_waking s"])
      (use assms(1) n f b new in \<open>auto simp: la_inv_def\<close>)
  moreover have "la_ok (la_counter s') (la_futex s) (la_open s') (la_bumping s') (la_waking s') (la_pcs s' t)"
    using assms(3) by (auto simp: la_goto_def la_counted_down_def)
  moreover have "la_pcs s' u = la_pcs s u" if "u \<noteq> t" for u using assms(3) that by (auto simp: la_goto_def)
  ultimately have "la_ok (la_counter s') (la_futex s) (la_open s') (la_bumping s') (la_waking s') (la_pcs s' u)" for u
    by (cases "u = t") auto
  then show ?thesis using assms(1) unfolding la_inv_def f by simp
qed

lemma la_inv_bump:
  assumes "la_inv e s" "la_pcs s t = La_bump w"
  shows "la_inv e (la_goto t (La_wake w) (s\<lparr>la_futex := la_futex s + 1\<rparr>))" (is "la_inv e ?s")
proof -
  have k: "la_waking ?s" unfolding la_waking_def by (metis la_pcs_goto)
  have "la_ok (la_counter s) (la_futex s + 1) (la_open s) (la_bumping ?s) (la_waking ?s) (la_pcs ?s u)" for u
    using assms(1) k by (auto simp: la_pcs_goto la_inv_def intro: la_ok_bumped)
  then show ?thesis using assms(1) unfolding la_inv_def by (simp add: la_goto_def la_open_def)
qed

lemma la_inv_wake:
  assumes "la_inv e s" "la_pcs s t = La_wake w"
  shows "la_inv e (la_goto t (la_counted_down w) (la_wake_all s))" (is "la_inv e ?s")
proof -
  have b: "la_bumping s \<longrightarrow> la_bumping ?s"
    using la_bumping_others [of t s ?s] assms(2) by (simp add: la_goto_def la_wake_all_def)
  have same: "la_counter ?s = la_counter s" "la_futex ?s = la_futex s" "la_open ?s = la_open s" "la_counted ?s = la_counted s"
    by (simp_all add: la_goto_def la_wake_all_def la_open_def)
  have "la_ok (la_counter s) (la_futex s) (la_open s) (la_bumping ?s) (la_waking ?s) (la_pcs ?s u)" for u
  proof -
    have "la_ok (la_counter s) (la_futex s) (la_open s) (la_bumping s) (la_waking s) (la_pcs s u)"
      using assms(1) by (simp add: la_inv_def)
    then show ?thesis using b
      by (cases "la_pcs s u") (auto simp: la_goto_def la_wake_all_def la_counted_down_def)
  qed
  then show ?thesis using assms(1) unfolding la_inv_def same by simp
qed

lemma la_inv_wait:
  assumes "la_inv e s" "la_pcs s t = p" "la_wait t s p = Some s'"
  shows "la_inv e s'"
proof -
  have ok: "la_ok (la_counter s) (la_futex s) (la_open s) (la_bumping s) (la_waking s) p"
    using assms(1,2) by (auto simp: la_inv_def)
  show ?thesis
    using assms ok la_bumping_waking [of s]
    by (cases p) (auto intro!: la_inv_goto simp: la_open_def split: if_splits)
qed

lemma la_inv_next:
  assumes "la_next l s = Some s'" "la_inv e s"
  shows "la_inv e s'"
proof (cases "(l, s)" rule: la_next.cases)
  case (5 t r)
  show ?thesis
  proof (cases "la_pcs s t")
    case (La_sub n w)
    then show ?thesis using assms 5 la_inv_sub [OF assms(2) La_sub] by simp
  next
    case (La_bump w)
    then show ?thesis using assms 5 la_inv_bump [OF assms(2) La_bump] by simp
  next
    case (La_wake w)
    then show ?thesis using assms 5 la_inv_wake [OF assms(2) La_wake] by simp
  qed (use assms 5 la_inv_wait [OF assms(2)] in simp_all)
next
  case (6 t r)
  show ?thesis
  proof (cases "la_pcs s t")
    case (La_asleep q)
    then have "la_ok (la_counter s) (la_futex s) (la_open s) (la_bumping s) (la_waking s) (La_asleep q)"
      using assms(2) unfolding la_inv_def by metis
    then show ?thesis using assms 6 La_asleep by (auto intro!: la_inv_goto)
  qed (use assms 6 in simp_all)
qed (use assms in \<open>auto intro!: la_inv_goto split: if_splits\<close>)

interpretation lax: step_system la_next "la_init e" "la_inv e" for e
proof unfold_locales
  show "la_inv e (la_init e)" by (simp add: la_inv_def la_init_def)
qed (rule la_inv_next)

subsection \<open>Properties\<close>

text \<open>\<open>wait\<close> returns, and \<open>try_wait\<close> succeeds, only after the expected number of counts.\<close>

lemma latch_opens_after_count:
  assumes "reachable la_next (la_init e) s"
  shows "la_try_wait s \<longleftrightarrow> e \<le> la_counted s" and "la_pcs s t = La_passed \<Longrightarrow> e \<le> la_counted s"
proof -
  have i: "la_inv e s" by (rule lax.inv_reachable [OF assms])
  then show "la_try_wait s \<longleftrightarrow> e \<le> la_counted s" by (auto simp: la_inv_def la_try_wait_def)
  assume "la_pcs s t = La_passed"
  then have "la_counter s \<le> 0" using i unfolding la_inv_def by (metis la_ok.simps(5))
  then show "e \<le> la_counted s" using i by (simp add: la_inv_def)
qed

text \<open>
  Once the counts of a \<open>FutexLatch\<close> have reached the expected number without an underflow, and
  no \<open>count_down\<close> is in progress, no thread is asleep in \<open>wait\<close>.
\<close>

lemma latch_wakes_all:
  assumes "reachable la_next (la_init e) s" "e \<le> la_counted s" "\<not> la_underflow s"
    and "\<And>u w. la_pcs s u \<noteq> La_bump w \<and> la_pcs s u \<noteq> La_wake w"
  shows "la_pcs s t \<noteq> La_asleep q"
proof
  assume a: "la_pcs s t = La_asleep q"
  have i: "la_inv e s" by (rule lax.inv_reachable [OF assms(1)])
  then have "la_open s" using assms(2,3) by (simp add: la_inv_def la_open_def)
  then have "la_waking s" using i a unfolding la_inv_def by (metis la_ok.simps(4))
  then show False using assms(4) by (auto simp: la_waking_def)
qed

text \<open>
  After an underflow the counter is negative for good, no later \<open>count_down\<close> sees \<open>old == n\<close>, and whoever
  sleeps on the current futex value sleeps for ever, interrupted or not.
\<close>

fun la_stuck :: "int \<Rightarrow> la_pc \<Rightarrow> bool" where
  "la_stuck f (La_sub n w) \<longleftrightarrow> 0 \<le> n"
| "la_stuck f (La_bump w) \<longleftrightarrow> False"
| "la_stuck f (La_wake w) \<longleftrightarrow> False"
| "la_stuck f _ \<longleftrightarrow> True"

definition la_stranded :: "nat \<Rightarrow> la \<Rightarrow> bool" where
  "la_stranded t s \<longleftrightarrow> la_counter s < 0 \<and> (\<forall>u. la_stuck (la_futex s) (la_pcs s u)) \<and>
     (la_pcs s t = La_asleep (la_futex s) \<or> la_pcs s t = La_wait (la_futex s))"

lemma la_stranded_step:
  assumes "la_next (u, La_step) s = Some s'" "la_stranded t s"
  shows "la_stranded t s'"
proof (cases "u = t")
  case True
  then show ?thesis using assms by (auto simp: la_stranded_def la_goto_def)
next
  case False
  have k: "la_stuck (la_futex s) (la_pcs s v)" for v using assms(2) by (simp add: la_stranded_def)
  show ?thesis
    using assms False k [of u] k
    by (cases "la_pcs s u") (auto simp: la_stranded_def la_goto_def la_counted_down_def)
qed

lemma la_stranded_next:
  assumes "la_next l s = Some s'" "la_stranded t s"
  shows "la_stranded t s'"
proof (cases "(l, s)" rule: la_next.cases)
  case (5 u r)
  then show ?thesis using assms la_stranded_step by blast
qed (use assms in \<open>auto simp: la_stranded_def la_goto_def split: if_splits la_pc.splits\<close>)

lemma la_stranded_futex:
  assumes "la_next l s = Some s'" "la_stranded t s"
  shows "la_futex s' = la_futex s"
proof (cases "(l, s)" rule: la_next.cases)
  case (5 u r)
  have k: "la_stuck (la_futex s) (la_pcs s u)" using assms(2) by (simp add: la_stranded_def)
  then show ?thesis using assms 5 by (cases "la_pcs s u") (auto simp: la_goto_def)
qed (use assms in \<open>auto simp: la_goto_def split: if_splits la_pc.splits\<close>)

definition la_underflow_schedule :: "(nat \<times> la_act) list" where
  "la_underflow_schedule =
     [(0, La_call_wait), (0, La_step), (0, La_step), (0, La_step), (0, La_step), (1, La_count_down 2), (1, La_step)]"

lemma latch_underflow_strands:
  "\<exists>s. run la_next la_underflow_schedule (la_init 1) = Some s \<and> la_try_wait s \<and>
     (\<forall>ls s'. run la_next ls s = Some s' \<longrightarrow> la_pcs s' 0 = La_asleep 0 \<or> la_pcs s' 0 = La_wait 0)"
proof -
  obtain s where s: "run la_next la_underflow_schedule (la_init 1) = Some s"
    "la_counter s = -1" "la_futex s = 0" "la_pcs s = (\<lambda>_. La_out)(0 := La_asleep 0, 1 := La_out)"
    by (simp add: la_underflow_schedule_def la_init_def la_goto_def)
  have st: "la_stranded 0 s" by (simp add: la_stranded_def s)
  have "la_pcs s' 0 = La_asleep 0 \<or> la_pcs s' 0 = La_wait 0" if r: "run la_next ls s = Some s'" for ls s'
  proof -
    have "la_stranded 0 s' \<and> la_futex s' = 0"
    proof (rule run_invariant [OF r])
      fix l a b assume "la_next l a = Some b" and i: "la_stranded 0 a \<and> la_futex a = 0"
      then show "la_stranded 0 b \<and> la_futex b = 0" using la_stranded_next [of l a b 0] la_stranded_futex [of l a b 0] by simp
    qed (use st s in simp)
    then show ?thesis by (auto simp: la_stranded_def)
  qed
  then show ?thesis using s by (auto simp: la_try_wait_def)
qed

section \<open>Once flag\<close>

datatype on_state = NotStarted | Running | Done

text \<open>\<open>On_fn\<close>: the function runs; \<open>On_returned\<close> and \<open>On_threw\<close>: how \<open>call_once\<close> ended.\<close>

datatype on_pc =
    On_out
  | On_cas | On_fn | On_reset | On_done | On_wake
  | On_load | On_wait | On_asleep
  | On_returned | On_threw

record on =
  on_state :: on_state
  on_pcs :: "nat \<Rightarrow> on_pc"
  on_completed :: nat

datatype on_act = On_call | On_step | On_fn_returns | On_fn_throws | On_interrupt

definition on_init :: on where
  "on_init = \<lparr>on_state = NotStarted, on_pcs = (\<lambda>_. On_out), on_completed = 0\<rparr>"

definition on_goto :: "nat \<Rightarrow> on_pc \<Rightarrow> on \<Rightarrow> on" where
  "on_goto t p s = s\<lparr>on_pcs := (on_pcs s)(t := p)\<rparr>"

definition on_has_run :: "on \<Rightarrow> bool" where
  "on_has_run s \<longleftrightarrow> on_state s = Done"

definition on_wake_all :: "on \<Rightarrow> on" where
  "on_wake_all s = s\<lparr>on_pcs := (\<lambda>u. if on_pcs s u = On_asleep then On_load else on_pcs s u)\<rparr>"

fun on_call_once :: "nat \<Rightarrow> on \<Rightarrow> on_pc \<Rightarrow> on option" where
  "on_call_once t s On_cas =
     Some (case on_state s of
             NotStarted \<Rightarrow> on_goto t On_fn (s\<lparr>on_state := Running\<rparr>)
           | Done \<Rightarrow> on_goto t On_returned s
           | Running \<Rightarrow> on_goto t On_load s)"
| "on_call_once t s On_done = Some (on_goto t On_wake (s\<lparr>on_state := Done\<rparr>))"
| "on_call_once t s On_wake = Some (on_goto t On_returned (on_wake_all s))"
| "on_call_once t s On_reset = Some (on_goto t On_threw (s\<lparr>on_state := NotStarted\<rparr>))"
| "on_call_once t s _ = None"

fun on_wait_for_completion :: "nat \<Rightarrow> on \<Rightarrow> on_pc \<Rightarrow> on option" where
  "on_wait_for_completion t s On_load = Some (on_goto t (if on_state s = Running then On_wait else On_returned) s)"
| "on_wait_for_completion t s On_wait = Some (on_goto t (if on_state s = Running then On_asleep else On_load) s)"
| "on_wait_for_completion t s _ = None"

fun on_next :: "nat \<times> on_act \<Rightarrow> on \<Rightarrow> on option" where
  "on_next (t, On_call) s =
     (if on_pcs s t = On_out \<or> on_pcs s t = On_returned \<or> on_pcs s t = On_threw then Some (on_goto t On_cas s) else None)"
| "on_next (t, On_step) s =
     (case on_call_once t s (on_pcs s t) of Some s' \<Rightarrow> Some s' | None \<Rightarrow> on_wait_for_completion t s (on_pcs s t))"
| "on_next (t, On_fn_returns) s =
     (if on_pcs s t = On_fn then Some (on_goto t On_done (s\<lparr>on_completed := on_completed s + 1\<rparr>)) else None)"
| "on_next (t, On_fn_throws) s = (if on_pcs s t = On_fn then Some (on_goto t On_reset s) else None)"
| "on_next (t, On_interrupt) s = (if on_pcs s t = On_asleep then Some (on_goto t On_wait s) else None)"

definition on_holds :: "on \<Rightarrow> nat \<Rightarrow> bool" where
  "on_holds s t \<longleftrightarrow> on_pcs s t = On_fn \<or> on_pcs s t = On_reset \<or> on_pcs s t = On_done"

definition on_inv :: "on \<Rightarrow> bool" where
  "on_inv s \<longleftrightarrow>
     (case on_state s of
        Running \<Rightarrow> \<exists>t. on_holds s t \<and> (\<forall>u. on_holds s u \<longrightarrow> u = t) \<and> on_completed s = (if on_pcs s t = On_done then 1 else 0)
      | NotStarted \<Rightarrow> (\<forall>t. \<not> on_holds s t) \<and> on_completed s = 0
      | Done \<Rightarrow> (\<forall>t. \<not> on_holds s t) \<and> on_completed s = 1)"

text \<open>The owner of the running call, and steps that leave it alone.\<close>

definition on_owner :: "on \<Rightarrow> nat \<Rightarrow> bool" where
  "on_owner s t \<longleftrightarrow> on_holds s t \<and> (\<forall>u. on_holds s u \<longrightarrow> u = t) \<and> on_completed s = (if on_pcs s t = On_done then 1 else 0)"

lemma on_inv_cases:
  "on_inv s \<longleftrightarrow> on_state s = Running \<and> Ex (on_owner s) \<or>
     on_state s \<noteq> Running \<and> (\<forall>t. \<not> on_holds s t) \<and> on_completed s = (if on_state s = Done then 1 else 0)"
  unfolding on_inv_def on_owner_def by (cases "on_state s") simp_all

lemma on_inv_same:
  assumes "on_inv s" "on_state s' = on_state s" "on_completed s' = on_completed s"
    and "\<And>u. on_holds s' u \<longleftrightarrow> on_holds s u" "\<And>u. on_holds s u \<Longrightarrow> on_pcs s' u = On_done \<longleftrightarrow> on_pcs s u = On_done"
  shows "on_inv s'"
proof -
  have "on_owner s' t" if "on_owner s t" for t
    using that assms(5) [of t] unfolding on_owner_def assms(3,4) by simp
  then show ?thesis using assms(1) unfolding on_inv_cases assms(2,3,4) by blast
qed

lemma on_inv_owner:
  assumes "on_inv s" "on_holds s t"
  shows "on_state s = Running" "\<And>u. on_holds s u \<Longrightarrow> u = t"
    "on_completed s = (if on_pcs s t = On_done then 1 else 0)"
proof -
  obtain v where v: "on_state s = Running" "on_owner s v" using assms unfolding on_inv_cases by blast
  have "t = v" using v(2) assms(2) unfolding on_owner_def by blast
  then have o: "on_owner s t" using v(2) by simp
  show "on_state s = Running" by (rule v(1))
  show "\<And>u. on_holds s u \<Longrightarrow> u = t" "on_completed s = (if on_pcs s t = On_done then 1 else 0)"
    using o unfolding on_owner_def by blast+
qed

lemma on_inv_ownerI:
  assumes "on_state s = Running" "on_holds s t" "\<And>u. on_holds s u \<Longrightarrow> u = t"
    "on_completed s = (if on_pcs s t = On_done then 1 else 0)"
  shows "on_inv s"
proof -
  have "on_owner s t" unfolding on_owner_def using assms(2-4) by blast
  then show ?thesis using assms(1) unfolding on_inv_cases by blast
qed

lemma on_inv_cas:
  assumes "on_inv s" "on_pcs s t = On_cas" "on_call_once t s On_cas = Some s'"
  shows "on_inv s'"
proof (cases "on_state s = NotStarted")
  case True
  then have n: "\<not> on_holds s u" for u using assms(1) by (simp add: on_inv_def)
  have c: "on_completed s = 0" using assms(1) True by (simp add: on_inv_def)
  have s': "s' = on_goto t On_fn (s\<lparr>on_state := Running\<rparr>)" using assms(3) True by simp
  show ?thesis
  proof (rule on_inv_ownerI)
    show "u = t" if "on_holds s' u" for u using that n [of u] by (auto simp: s' on_holds_def on_goto_def split: if_splits)
  qed (use c in \<open>auto simp: s' on_holds_def on_goto_def\<close>)
next
  case False
  show ?thesis by (rule on_inv_same [OF assms(1)])
    (use assms(2,3) False in \<open>auto simp: on_holds_def on_goto_def split: on_state.splits if_splits\<close>)
qed

lemma on_inv_finish:
  assumes "on_inv s" "on_pcs s t = p" "p = On_done \<or> p = On_reset" "on_call_once t s p = Some s'"
  shows "on_inv s'"
proof -
  have h: "on_holds s t" using assms(2,3) by (auto simp: on_holds_def)
  note o = on_inv_owner [OF assms(1) h]
  have n: "\<not> on_holds s' u" for u
  proof (cases "u = t")
    case True
    then show ?thesis using assms(3,4) by (auto simp: on_holds_def on_goto_def)
  next
    case False
    then have "\<not> on_holds s u" using o(2) by blast
    then show ?thesis using False assms(3,4) by (auto simp: on_holds_def on_goto_def)
  qed
  have "on_state s' = (if p = On_done then Done else NotStarted)" "on_completed s' = (if p = On_done then 1 else 0)"
    using o(3) assms(2,3,4) by (auto simp: on_goto_def)
  then show ?thesis using n unfolding on_inv_cases by simp
qed

lemma on_inv_wake:
  assumes "on_inv s" "on_pcs s t = On_wake"
  shows "on_inv (on_goto t On_returned (on_wake_all s))"
  by (rule on_inv_same [OF assms(1)])
    (use assms(2) in \<open>auto simp: on_holds_def on_goto_def on_wake_all_def\<close>)

lemma on_inv_step:
  assumes "on_inv s" "on_next (t, On_step) s = Some s'"
  shows "on_inv s'"
proof (cases "on_pcs s t")
  case On_cas
  then show ?thesis using assms on_inv_cas [OF assms(1) On_cas] by simp
next
  case On_load
  show ?thesis by (rule on_inv_same [OF assms(1)]) (use assms On_load in \<open>auto simp: on_holds_def on_goto_def split: if_splits\<close>)
next
  case On_wait
  show ?thesis by (rule on_inv_same [OF assms(1)]) (use assms On_wait in \<open>auto simp: on_holds_def on_goto_def split: if_splits\<close>)
next
  case On_wake
  then show ?thesis using assms on_inv_wake [OF assms(1) On_wake] by simp
qed (use assms on_inv_finish [OF assms(1), of t] in \<open>simp_all split: option.splits\<close>)

lemma on_inv_next:
  assumes "on_next l s = Some s'" "on_inv s"
  shows "on_inv s'"
proof (cases "(l, s)" rule: on_next.cases)
  case (1 t r)
  show ?thesis by (rule on_inv_same [OF assms(2)]) (use assms 1 in \<open>auto simp: on_holds_def on_goto_def split: if_splits\<close>)
next
  case (2 t r)
  then show ?thesis using assms on_inv_step by blast
next
  case (3 t r)
  then have pc: "on_pcs s t = On_fn" and s': "s' = on_goto t On_done (s\<lparr>on_completed := on_completed s + 1\<rparr>)"
    using assms(1) by (auto split: if_splits)
  have h: "on_holds s t" using pc by (simp add: on_holds_def)
  note o = on_inv_owner [OF assms(2) h]
  show ?thesis
  proof (rule on_inv_ownerI)
    show "u = t" if "on_holds s' u" for u
    proof (rule ccontr)
      assume "u \<noteq> t"
      then have "on_holds s u" using that by (simp add: s' on_holds_def on_goto_def)
      then show False using o(2) \<open>u \<noteq> t\<close> by blast
    qed
  qed (use o(1,3) pc in \<open>auto simp: s' on_holds_def on_goto_def\<close>)
next
  case (4 t r)
  show ?thesis by (rule on_inv_same [OF assms(2)]) (use assms 4 in \<open>auto simp: on_holds_def on_goto_def split: if_splits\<close>)
next
  case (5 t r)
  show ?thesis by (rule on_inv_same [OF assms(2)]) (use assms 5 in \<open>auto simp: on_holds_def on_goto_def split: if_splits\<close>)
qed

interpretation onx: lock_system on_next on_init on_inv on_holds
proof unfold_locales
  show "on_inv on_init" by (simp add: on_inv_def on_init_def on_holds_def)
  show "t = u" if "on_inv s" "on_holds s t" "on_holds s u" for s t u using on_inv_owner(2) [OF that(1,3,2)] .
qed (rule on_inv_next)

subsection \<open>Callers that wait\<close>

text \<open>While the function does not throw, nobody returns early and a sleeper will be woken.\<close>

fun on_waiter_ok :: "on_state \<Rightarrow> bool \<Rightarrow> on_pc \<Rightarrow> bool" where
  "on_waiter_ok st k On_returned \<longleftrightarrow> st = Done"
| "on_waiter_ok st k On_load \<longleftrightarrow> st \<noteq> NotStarted"
| "on_waiter_ok st k On_wait \<longleftrightarrow> st \<noteq> NotStarted"
| "on_waiter_ok st k On_asleep \<longleftrightarrow> st = Running \<or> st = Done \<and> k"
| "on_waiter_ok st k On_wake \<longleftrightarrow> st = Done"
| "on_waiter_ok st k On_reset \<longleftrightarrow> False"
| "on_waiter_ok st k _ \<longleftrightarrow> True"

definition on_waking :: "on \<Rightarrow> bool" where
  "on_waking s \<longleftrightarrow> (\<exists>u. on_pcs s u = On_wake)"

definition on_winv :: "on \<Rightarrow> bool" where
  "on_winv s \<longleftrightarrow> on_inv s \<and> (\<forall>t. on_waiter_ok (on_state s) (on_waking s) (on_pcs s t))"

fun on_quiet :: "nat \<times> on_act \<Rightarrow> bool" where
  "on_quiet (t, a) \<longleftrightarrow> a \<noteq> On_fn_throws"

lemma on_waiter_ok_mono:
  "on_waiter_ok st k p \<Longrightarrow> (st = NotStarted \<or> st' = st \<or> st = Running \<and> st' = Done) \<Longrightarrow> (st' = Done \<Longrightarrow> k \<or> st = Running \<Longrightarrow> k') \<Longrightarrow>
    on_waiter_ok st' k' p"
  by (cases p) auto

lemma on_winvI:
  assumes "on_winv s" "on_next (t, a) s = Some s'"
    and "on_state s = NotStarted \<or> on_state s' = on_state s \<or> on_state s = Running \<and> on_state s' = Done"
    and "on_state s' = Done \<Longrightarrow> on_waking s \<or> on_state s = Running \<Longrightarrow> on_waking s'"
    and "\<And>u. u \<noteq> t \<Longrightarrow> on_pcs s' u = on_pcs s u"
    and "on_waiter_ok (on_state s') (on_waking s') (on_pcs s' t)"
  shows "on_winv s'"
proof -
  have "on_waiter_ok (on_state s') (on_waking s') (on_pcs s' u)" for u
    using assms(1,3-6) on_waiter_ok_mono [of "on_state s" "on_waking s" "on_pcs s u" "on_state s'" "on_waking s'"]
    by (cases "u = t") (auto simp: on_winv_def)
  then show ?thesis using on_inv_next [OF assms(2)] assms(1) by (simp add: on_winv_def)
qed

lemma on_waking_upd:
  assumes "on_waking s" "on_pcs s t \<noteq> On_wake" "\<And>u. u \<noteq> t \<Longrightarrow> on_pcs s' u = on_pcs s u"
  shows "on_waking s'"
  using assms unfolding on_waking_def by metis

lemma on_winv_wake:
  assumes "on_winv s" "on_pcs s t = On_wake"
  shows "on_winv (on_goto t On_returned (on_wake_all s))" (is "on_winv ?s")
proof -
  have st: "on_state s = Done" using assms unfolding on_winv_def by (metis on_waiter_ok.simps(5))
  have "on_waiter_ok Done (on_waking ?s) (on_pcs ?s u)" for u
  proof -
    have "on_waiter_ok Done (on_waking s) (on_pcs s u)" using assms(1) st by (simp add: on_winv_def)
    then show ?thesis by (cases "on_pcs s u") (auto simp: on_goto_def on_wake_all_def)
  qed
  then show ?thesis using on_inv_wake assms st by (simp add: on_winv_def on_goto_def on_wake_all_def)
qed

lemma on_winv_step:
  assumes "on_winv s" "on_next (t, On_step) s = Some s'"
  shows "on_winv s'"
proof (cases "on_pcs s t = On_wake")
  case True
  then show ?thesis using assms on_winv_wake [OF assms(1) True] by simp
next
  case nw: False
  have ok: "on_waiter_ok (on_state s) (on_waking s) (on_pcs s t)" using assms(1) by (simp add: on_winv_def)
  have o: "\<And>u. u \<noteq> t \<Longrightarrow> on_pcs s' u = on_pcs s u"
    using assms(2) nw by (cases "on_pcs s t") (auto simp: on_goto_def split: on_state.splits if_splits)
  note k = on_waking_upd [OF _ nw o]
  have d: "on_state s = Running" if "on_pcs s t = On_done"
    using on_inv_owner(1) [of s t] assms(1) that by (simp add: on_winv_def on_holds_def)
  have kd: "on_waking s'" if "on_pcs s t = On_done"
  proof -
    have "on_pcs s' t = On_wake" using assms(2) that by (auto simp: on_goto_def)
    then show ?thesis unfolding on_waking_def by blast
  qed
  have tr: "on_state s = NotStarted \<or> on_state s' = on_state s \<or> on_state s = Running \<and> on_state s' = Done \<and> on_pcs s t = On_done"
    using assms(2) ok nw d by (cases "on_pcs s t") (auto simp: on_goto_def split: on_state.splits)
  have nd: "on_state s' \<noteq> Done" if "on_state s = NotStarted"
    using assms(2) ok nw d that by (cases "on_pcs s t") (auto simp: on_goto_def)
  have "on_waiter_ok (on_state s') (on_waking s') (on_pcs s' t)"
    using assms(2) ok nw d by (cases "on_pcs s t"; cases "on_state s") (auto simp: on_goto_def)
  then show ?thesis using on_winvI [OF assms _ _ o] tr nd k kd by (metis on_state.distinct(5))
qed

lemma on_winv_next:
  assumes "on_next l s = Some s'" "on_quiet l" "on_winv s"
  shows "on_winv s'"
proof -
  obtain t a where l: "l = (t, a)" by (cases l)
  have ok: "on_waiter_ok (on_state s) (on_waking s) (on_pcs s t)" using assms(3) by (simp add: on_winv_def)
  show ?thesis
  proof (cases "a = On_step")
    case True
    then show ?thesis using assms l on_winv_step by blast
  next
    case False
    have o: "\<And>u. u \<noteq> t \<Longrightarrow> on_pcs s' u = on_pcs s u" and st: "on_state s' = on_state s" and nw: "on_pcs s t \<noteq> On_wake"
      using assms(1,2) False l by (cases a; auto simp: on_goto_def split: if_splits)+
    have "on_waiter_ok (on_state s') (on_waking s') (on_pcs s' t)"
      using assms(1,2) False l ok by (cases a) (auto simp: on_goto_def split: if_splits)
    moreover have "on_state s' = Done \<Longrightarrow> on_waking s \<or> on_state s = Running \<Longrightarrow> on_waking s'"
      using on_waking_upd [OF _ nw o] st by auto
    ultimately show ?thesis using on_winvI [OF assms(3) assms(1) [unfolded l] _ _ o] st by blast
  qed
qed

interpretation onw: guarded_system on_next on_init on_winv on_quiet
proof unfold_locales
  show "on_winv on_init" using onx.inv_init by (simp add: on_winv_def on_init_def)
qed (rule on_winv_next)

subsection \<open>Properties\<close>

text \<open>
  In every interleaving at most one caller runs the function of \<open>call_once\<close>, and it completes at
  most once; \<open>has_run\<close> says that it has completed.
\<close>

lemma once_at_most_once:
  assumes "reachable on_next on_init s"
  shows "on_completed s \<le> 1 \<and> card {t. on_holds s t} \<le> 1 \<and> (on_has_run s \<longrightarrow> on_completed s = 1)"
proof -
  have i: "on_inv s" by (rule onx.inv_reachable [OF assms])
  have "on_completed s \<le> 1"
  proof (cases "\<exists>t. on_holds s t")
    case True
    then obtain t where "on_holds s t" by blast
    then show ?thesis using on_inv_owner(3) [OF i] by (simp split: if_splits)
  next
    case False
    then have "\<not> on_owner s t" for t unfolding on_owner_def by blast
    then show ?thesis using i unfolding on_inv_cases by (auto split: if_splits)
  qed
  moreover have "on_has_run s \<longrightarrow> on_completed s = 1" using i unfolding on_inv_cases on_has_run_def by auto
  ultimately show ?thesis using onx.holders_card [OF assms] by blast
qed

text \<open>While the function never throws, a caller returns only after it completed, and no caller is left asleep.\<close>

lemma once_callers_wait:
  assumes "run on_next ls on_init = Some s" "list_all on_quiet ls"
  shows "on_pcs s t = On_returned \<Longrightarrow> on_completed s = 1"
    and "on_pcs s t = On_asleep \<Longrightarrow> \<exists>u. on_holds s u \<or> on_pcs s u = On_wake"
proof -
  have w: "on_winv s" by (rule onw.guarded_run [OF assms])
  then have ok: "on_waiter_ok (on_state s) (on_waking s) (on_pcs s t)" and i: "on_inv s" by (simp_all add: on_winv_def)
  show "on_completed s = 1" if "on_pcs s t = On_returned" using ok i that unfolding on_inv_cases by auto
  show "\<exists>u. on_holds s u \<or> on_pcs s u = On_wake" if "on_pcs s t = On_asleep"
  proof (cases "on_state s = Running")
    case True
    then obtain u where "on_owner s u" using i unfolding on_inv_cases by blast
    then show ?thesis unfolding on_owner_def by blast
  next
    case False
    then show ?thesis using ok that unfolding on_waking_def by auto
  qed
qed

text \<open>
  An exception: \<open>call_once\<close> stores \<open>NotStarted\<close> without waking anybody. A caller that slept stays asleep
  although the flag is free, and one that looks at the flag then returns although nothing has run.
\<close>

definition on_exception_schedule :: "(nat \<times> on_act) list" where
  "on_exception_schedule =
     [(0, On_call), (0, On_step), (1, On_call), (1, On_step), (2, On_call), (2, On_step), (1, On_step), (1, On_step),
      (0, On_fn_throws), (0, On_step), (2, On_step)]"

lemma once_exception_strands:
  "\<exists>s. run on_next on_exception_schedule on_init = Some s \<and> on_completed s = 0 \<and> \<not> on_has_run s \<and>
     on_pcs s 0 = On_threw \<and> on_pcs s 1 = On_asleep \<and> on_pcs s 2 = On_returned \<and> (\<forall>t > 2. on_pcs s t = On_out)"
  by (simp add: on_exception_schedule_def on_init_def on_goto_def on_has_run_def)

end
