(* ===== verification/Spin_Locks.thy ===== *)
theory Spin_Locks
  imports Pman_Prelude
begin

text \<open>
  The header-only locks: \<open>RwSpinLock\<close> (src/include/pman/rw_spinlock.hpp), \<open>SeqLock\<close>
  (src/include/pman/seqlock.hpp) and \<open>Barrier\<close> (src/include/pman/barrier.hpp), each as an interleaving of
  its atomic accesses. \<open>RwSpinLock\<close> interprets the interface \<open>rw_lock_system\<close> for fewer than \<open>2 ^ 31\<close>
  threads; a successful \<open>SeqLock::read\<close> sees one committed version; nobody passes a \<open>Barrier\<close> before its
  threshold of threads has arrived, when exactly that many threads use it.
\<close>

section \<open>Reader/writer spin lock\<close>

datatype rs_pc = Rs_out | Rs_load | Rs_cas int | Rs_reading | Rs_wcas | Rs_writing

record rs =
  rs_state :: int
  rs_pcs :: "nat \<Rightarrow> rs_pc"

datatype rs_act = Rs_lock_shared | Rs_unlock_shared | Rs_lock | Rs_unlock | Rs_step | Rs_fails

definition rs_init :: rs where
  "rs_init = \<lparr>rs_state = 0, rs_pcs = (\<lambda>_. Rs_out)\<rparr>"

definition rs_goto :: "nat \<Rightarrow> rs_pc \<Rightarrow> rs \<Rightarrow> rs" where
  "rs_goto t p s = s\<lparr>rs_pcs := (rs_pcs s)(t := p)\<rparr>"

text \<open>The loops of \<open>lock_shared\<close> and \<open>lock\<close>; a failed or spuriously failed exchange starts again.\<close>

fun rs_lock_shared :: "nat \<Rightarrow> rs \<Rightarrow> rs_pc \<Rightarrow> rs option" where
  "rs_lock_shared t s Rs_load = Some (rs_goto t (if rs_state s \<ge> 0 then Rs_cas (rs_state s) else Rs_load) s)"
| "rs_lock_shared t s (Rs_cas expected) =
     Some (if rs_state s = expected then rs_goto t Rs_reading (s\<lparr>rs_state := expected + 1\<rparr>) else rs_goto t Rs_load s)"
| "rs_lock_shared t s _ = None"

fun rs_lock :: "nat \<Rightarrow> rs \<Rightarrow> rs_pc \<Rightarrow> rs option" where
  "rs_lock t s Rs_wcas = Some (if rs_state s = 0 then rs_goto t Rs_writing (s\<lparr>rs_state := -1\<rparr>) else s)"
| "rs_lock t s _ = None"

definition rs_unlock_shared :: "nat \<Rightarrow> rs \<Rightarrow> rs option" where
  "rs_unlock_shared t s =
     (if rs_pcs s t = Rs_reading then Some (rs_goto t Rs_out (s\<lparr>rs_state := rs_state s - 1\<rparr>)) else None)"

definition rs_unlock :: "nat \<Rightarrow> rs \<Rightarrow> rs option" where
  "rs_unlock t s = (if rs_pcs s t = Rs_writing then Some (rs_goto t Rs_out (s\<lparr>rs_state := 0\<rparr>)) else None)"

fun rs_next :: "nat \<times> rs_act \<Rightarrow> rs \<Rightarrow> rs option" where
  "rs_next (t, Rs_lock_shared) s = (if rs_pcs s t = Rs_out then Some (rs_goto t Rs_load s) else None)"
| "rs_next (t, Rs_lock) s = (if rs_pcs s t = Rs_out then Some (rs_goto t Rs_wcas s) else None)"
| "rs_next (t, Rs_unlock_shared) s = rs_unlock_shared t s"
| "rs_next (t, Rs_unlock) s = rs_unlock t s"
| "rs_next (t, Rs_step) s =
     (case rs_lock_shared t s (rs_pcs s t) of Some s' \<Rightarrow> Some s' | None \<Rightarrow> rs_lock t s (rs_pcs s t))"
| "rs_next (t, Rs_fails) s =
     (case rs_pcs s t of Rs_cas e \<Rightarrow> Some (rs_goto t Rs_load s) | Rs_wcas \<Rightarrow> Some s | _ \<Rightarrow> None)"

definition rs_reads :: "rs \<Rightarrow> nat \<Rightarrow> bool" where
  "rs_reads s t \<longleftrightarrow> rs_pcs s t = Rs_reading"

definition rs_writes :: "rs \<Rightarrow> nat \<Rightarrow> bool" where
  "rs_writes s t \<longleftrightarrow> rs_pcs s t = Rs_writing"

fun rs_weight :: "rs_pc \<Rightarrow> int" where
  "rs_weight Rs_reading = 1"
| "rs_weight _ = 0"

text \<open>The word counts the readers, or is -1 for the one writer.\<close>

definition rs_inv :: "rs \<Rightarrow> bool" where
  "rs_inv s \<longleftrightarrow>
     finite {t. rs_pcs s t \<noteq> Rs_out} \<and> (\<forall>t e. rs_pcs s t = Rs_cas e \<longrightarrow> 0 \<le> e) \<and>
     (if \<exists>t. rs_writes s t then rs_state s = -1 \<and> weigh rs_weight (rs_pcs s) = 0 \<and> (\<forall>t u. rs_writes s t \<longrightarrow> rs_writes s u \<longrightarrow> t = u)
      else rs_state s = weigh rs_weight (rs_pcs s))"

lemma rs_weight_nonneg: "0 \<le> rs_weight p"
  by (cases p) simp_all

lemma rs_weigh_upd:
  assumes "rs_inv s"
  shows "weigh rs_weight ((rs_pcs s)(t := p)) = weigh rs_weight (rs_pcs s) - rs_weight (rs_pcs s t) + rs_weight p"
proof -
  have "finite {t. rs_pcs s t \<noteq> Rs_out}" using assms by (simp add: rs_inv_def)
  then have "finite {u. rs_weight (rs_pcs s u) \<noteq> 0}" by (rule finite_weights) simp
  then show ?thesis using weigh_upd [where f = rs_weight and g = "rs_pcs s" and t = t and p = p] by simp
qed

lemma rs_finite_goto: "rs_inv s \<Longrightarrow> finite {u. ((rs_pcs s)(t := p)) u \<noteq> Rs_out}"
  by (rule finite_subset [of _ "insert t {u. rs_pcs s u \<noteq> Rs_out}"]) (auto simp: rs_inv_def)

lemma rs_inv_goto:
  assumes "rs_inv s" "rs_weight (rs_pcs s t) = 0" "rs_weight p = 0" "rs_pcs s t \<noteq> Rs_writing" "p \<noteq> Rs_writing"
    "\<And>e. p = Rs_cas e \<Longrightarrow> 0 \<le> e"
  shows "rs_inv (rs_goto t p s)"
proof -
  have w: "rs_writes (rs_goto t p s) u \<longleftrightarrow> rs_writes s u" for u
    using assms(4,5) by (simp add: rs_writes_def rs_goto_def)
  have e: "\<forall>u x. ((rs_pcs s)(t := p)) u = Rs_cas x \<longrightarrow> 0 \<le> x" using assms(1,6) by (auto simp: rs_inv_def)
  show ?thesis
    using assms(1) rs_weigh_upd [OF assms(1), of t p] rs_finite_goto [OF assms(1), of t p] assms(2,3) e
    unfolding rs_inv_def w by (simp add: rs_goto_def)
qed

lemma rs_inv_read:
  assumes "rs_inv s" "rs_pcs s t = Rs_cas e" "rs_state s = e"
  shows "rs_inv (rs_goto t Rs_reading (s\<lparr>rs_state := e + 1\<rparr>))"
proof -
  have e: "0 \<le> e" using assms(1,2) by (simp add: rs_inv_def)
  then have nw: "\<not> (\<exists>u. rs_writes s u)" using assms(1,3) by (auto simp: rs_inv_def split: if_splits)
  then have "\<not> (\<exists>u. rs_writes (rs_goto t Rs_reading (s\<lparr>rs_state := e + 1\<rparr>)) u)" by (auto simp: rs_writes_def rs_goto_def)
  then show ?thesis
    using assms nw rs_weigh_upd [OF assms(1), of t Rs_reading] rs_finite_goto [OF assms(1), of t Rs_reading]
    unfolding rs_inv_def by (auto simp: rs_goto_def split: if_splits)
qed

lemma rs_inv_unread:
  assumes "rs_inv s" "rs_pcs s t = Rs_reading"
  shows "rs_inv (rs_goto t Rs_out (s\<lparr>rs_state := rs_state s - 1\<rparr>))"
proof -
  have fin: "finite {u. rs_weight (rs_pcs s u) \<noteq> 0}" by (rule finite_weights [of _ Rs_out]) (use assms(1) in \<open>simp_all add: rs_inv_def\<close>)
  have "1 \<le> weigh rs_weight (rs_pcs s)"
    using weigh_member_le [of rs_weight "rs_pcs s" t] fin rs_weight_nonneg assms(2) by simp
  then have nw: "\<not> (\<exists>u. rs_writes s u)" using assms(1) by (auto simp: rs_inv_def split: if_splits)
  then have "\<not> (\<exists>u. rs_writes (rs_goto t Rs_out (s\<lparr>rs_state := rs_state s - 1\<rparr>)) u)" by (auto simp: rs_writes_def rs_goto_def)
  then show ?thesis
    using assms nw rs_weigh_upd [OF assms(1), of t Rs_out] rs_finite_goto [OF assms(1), of t Rs_out]
    unfolding rs_inv_def by (auto simp: rs_goto_def split: if_splits)
qed

lemma rs_inv_write:
  assumes "rs_inv s" "rs_pcs s t = Rs_wcas" "rs_state s = 0"
  shows "rs_inv (rs_goto t Rs_writing (s\<lparr>rs_state := -1\<rparr>))"
proof -
  have nw: "\<not> (\<exists>u. rs_writes s u)" using assms(1,3) by (auto simp: rs_inv_def split: if_splits)
  then have w: "rs_writes (rs_goto t Rs_writing (s\<lparr>rs_state := -1\<rparr>)) u \<longleftrightarrow> u = t" for u
    by (auto simp: rs_writes_def rs_goto_def)
  show ?thesis
    using assms nw rs_weigh_upd [OF assms(1), of t Rs_writing] rs_finite_goto [OF assms(1), of t Rs_writing]
    unfolding rs_inv_def w by (auto simp: rs_goto_def split: if_splits)
qed

lemma rs_inv_unwrite:
  assumes "rs_inv s" "rs_pcs s t = Rs_writing"
  shows "rs_inv (rs_goto t Rs_out (s\<lparr>rs_state := 0\<rparr>))"
proof -
  have ex: "\<exists>u. rs_writes s u" using assms(2) by (auto simp: rs_writes_def)
  then have u: "\<And>u. rs_writes s u \<Longrightarrow> u = t" and z: "weigh rs_weight (rs_pcs s) = 0"
    using assms by (auto simp: rs_inv_def rs_writes_def)
  then have "\<not> (\<exists>u. rs_writes (rs_goto t Rs_out (s\<lparr>rs_state := 0\<rparr>)) u)" by (auto simp: rs_writes_def rs_goto_def)
  then show ?thesis
    using assms z rs_weigh_upd [OF assms(1), of t Rs_out] rs_finite_goto [OF assms(1), of t Rs_out]
    unfolding rs_inv_def by (auto simp: rs_goto_def)
qed

lemma rs_inv_next:
  assumes "rs_next l s = Some s'" "rs_inv s"
  shows "rs_inv s'"
proof (cases "(l, s)" rule: rs_next.cases)
  case (5 t r)
  then show ?thesis
    using assms
    by (cases "rs_pcs s t") (auto intro!: rs_inv_goto rs_inv_read rs_inv_write split: if_splits)
qed (use assms in \<open>auto simp: rs_unlock_shared_def rs_unlock_def intro!: rs_inv_goto rs_inv_unread rs_inv_unwrite
      split: if_splits rs_pc.splits\<close>)

interpretation rsx: rw_lock_system rs_next rs_init rs_inv "\<lambda>_. True" rs_reads rs_writes
proof unfold_locales
  show "rs_inv rs_init" by (simp add: rs_inv_def rs_init_def rs_writes_def weigh_zero)
  show "rs_inv s \<Longrightarrow> rs_writes s t \<Longrightarrow> \<not> rs_reads s u \<and> (rs_writes s u \<longrightarrow> u = t)" for s t u
  proof -
    assume inv: "rs_inv s" "rs_writes s t"
    have fin: "finite {u. rs_weight (rs_pcs s u) \<noteq> 0}" by (rule finite_weights [of _ Rs_out]) (use inv(1) in \<open>simp_all add: rs_inv_def\<close>)
    have "weigh rs_weight (rs_pcs s) = 0" using inv by (auto simp: rs_inv_def split: if_splits)
    then have "rs_weight (rs_pcs s u) \<le> 0" using weigh_member_le [of rs_weight "rs_pcs s" u] fin rs_weight_nonneg by simp
    then show ?thesis using inv by (auto simp: rs_reads_def rs_inv_def split: if_splits)
  qed
qed (rule rs_inv_next)

text \<open>A writer is alone, in every interleaving.\<close>

lemma rw_spin_exclusion:
  "run rs_next ls rs_init = Some s \<Longrightarrow> rs_writes s t \<Longrightarrow> \<not> rs_reads s u \<and> (rs_writes s u \<longrightarrow> u = t)"
  by (rule rsx.rw_lock_exclusion) (simp_all add: list_all_iff)

section \<open>Sequence lock\<close>

text \<open>
  The protected data is a list of fields. A writer changes fields between \<open>lock\<close> and \<open>unlock\<close>; the
  function passed to \<open>read\<close> reads the fields one after the other. \<open>sq_committed v\<close> records the data at
  the even sequence number \<open>v\<close>. The sequence number does not wrap here.
\<close>

datatype sq_pc =
    Sq_out
  | Sw_mutex | Sw_enter | Sw_writing | Sw_release
  | Sr_load | Sr_read nat "nat list" | Sr_check nat "nat list" | Sr_done nat "nat list"

record sq =
  sq_seq :: nat
  sq_writerLock :: "nat option"
  sq_data :: "nat list"
  sq_committed :: "nat \<Rightarrow> nat list"
  sq_pcs :: "nat \<Rightarrow> sq_pc"

datatype sq_act = Sq_lock | Sq_unlock | Sq_read | Sq_return | Sq_step | Sq_write nat nat

definition sq_init :: "nat list \<Rightarrow> sq" where
  "sq_init d = \<lparr>sq_seq = 0, sq_writerLock = None, sq_data = d, sq_committed = (\<lambda>_. d), sq_pcs = (\<lambda>_. Sq_out)\<rparr>"

definition sq_goto :: "nat \<Rightarrow> sq_pc \<Rightarrow> sq \<Rightarrow> sq" where
  "sq_goto t p s = s\<lparr>sq_pcs := (sq_pcs s)(t := p)\<rparr>"

text \<open>\<open>lock\<close> takes the mutex and makes the number odd; \<open>unlock\<close> makes it even and releases the mutex.\<close>

fun sq_writer :: "nat \<Rightarrow> sq \<Rightarrow> sq_pc \<Rightarrow> sq option" where
  "sq_writer t s Sw_mutex =
     (if sq_writerLock s = None then Some (sq_goto t Sw_enter (s\<lparr>sq_writerLock := Some t\<rparr>)) else None)"
| "sq_writer t s Sw_enter = Some (sq_goto t Sw_writing (s\<lparr>sq_seq := sq_seq s + 1\<rparr>))"
| "sq_writer t s Sw_release = Some (sq_goto t Sq_out (s\<lparr>sq_writerLock := None\<rparr>))"
| "sq_writer t s _ = None"

definition sq_unlock :: "nat \<Rightarrow> sq \<Rightarrow> sq" where
  "sq_unlock t s =
     sq_goto t Sw_release (s\<lparr>sq_seq := sq_seq s + 1, sq_committed := (sq_committed s)(sq_seq s + 1 := sq_data s)\<rparr>)"

fun sq_reader :: "nat \<Rightarrow> sq \<Rightarrow> sq_pc \<Rightarrow> sq option" where
  "sq_reader t s Sr_load = Some (if odd (sq_seq s) then s else sq_goto t (Sr_read (sq_seq s) []) s)"
| "sq_reader t s (Sr_read v acc) =
     Some (sq_goto t (if length acc < length (sq_data s) then Sr_read v (acc @ [sq_data s ! length acc]) else Sr_check v acc) s)"
| "sq_reader t s (Sr_check v acc) = Some (sq_goto t (if sq_seq s = v then Sr_done v acc else Sr_load) s)"
| "sq_reader t s _ = None"

fun sq_next :: "nat \<times> sq_act \<Rightarrow> sq \<Rightarrow> sq option" where
  "sq_next (t, Sq_lock) s = (if sq_pcs s t = Sq_out then Some (sq_goto t Sw_mutex s) else None)"
| "sq_next (t, Sq_unlock) s = (if sq_pcs s t = Sw_writing then Some (sq_unlock t s) else None)"
| "sq_next (t, Sq_read) s = (if sq_pcs s t = Sq_out then Some (sq_goto t Sr_load s) else None)"
| "sq_next (t, Sq_return) s = (case sq_pcs s t of Sr_done v acc \<Rightarrow> Some (sq_goto t Sq_out s) | _ \<Rightarrow> None)"
| "sq_next (t, Sq_step) s =
     (case sq_writer t s (sq_pcs s t) of Some s' \<Rightarrow> Some s' | None \<Rightarrow> sq_reader t s (sq_pcs s t))"
| "sq_next (t, Sq_write i x) s =
     (if sq_pcs s t = Sw_writing then Some (s\<lparr>sq_data := (sq_data s)[i := x]\<rparr>) else None)"

text \<open>What a reader has seen is a prefix of the version it started from, unless that version is over.\<close>

fun sq_reader_ok :: "sq \<Rightarrow> sq_pc \<Rightarrow> bool" where
  "sq_reader_ok s (Sr_read v acc) \<longleftrightarrow>
     even v \<and> v \<le> sq_seq s \<and> (sq_seq s = v \<longrightarrow> length acc \<le> length (sq_data s) \<and> acc = take (length acc) (sq_data s))"
| "sq_reader_ok s (Sr_check v acc) \<longleftrightarrow> even v \<and> v \<le> sq_seq s \<and> (sq_seq s = v \<longrightarrow> acc = sq_data s)"
| "sq_reader_ok s (Sr_done v acc) \<longleftrightarrow> even v \<and> v \<le> sq_seq s \<and> sq_committed s v = acc"
| "sq_reader_ok s _ \<longleftrightarrow> True"

definition sq_in_lock :: "sq_pc \<Rightarrow> bool" where
  "sq_in_lock p \<longleftrightarrow> p = Sw_enter \<or> p = Sw_writing \<or> p = Sw_release"

definition sq_inv :: "sq \<Rightarrow> bool" where
  "sq_inv s \<longleftrightarrow>
     (\<forall>t. sq_in_lock (sq_pcs s t) \<longleftrightarrow> sq_writerLock s = Some t) \<and>
     (odd (sq_seq s) \<longleftrightarrow> (\<exists>t. sq_pcs s t = Sw_writing)) \<and>
     (even (sq_seq s) \<longrightarrow> sq_committed s (sq_seq s) = sq_data s) \<and>
     (\<forall>t. sq_reader_ok s (sq_pcs s t))"

lemma ex_fun_upd_other: "f t \<noteq> w \<Longrightarrow> p \<noteq> w \<Longrightarrow> (\<exists>u. (f(t := p)) u = w) \<longleftrightarrow> (\<exists>u. f u = w)"
  by auto

lemma sq_inv_goto:
  assumes "sq_inv s" "\<not> sq_in_lock (sq_pcs s t)" "\<not> sq_in_lock p" "sq_reader_ok s p"
  shows "sq_inv (sq_goto t p s)"
proof -
  have r: "sq_reader_ok (sq_goto t p s) q = sq_reader_ok s q" for q by (cases q) (simp_all add: sq_goto_def)
  have "(\<exists>u. sq_pcs (sq_goto t p s) u = Sw_writing) \<longleftrightarrow> (\<exists>u. sq_pcs s u = Sw_writing)"
    using ex_fun_upd_other [of "sq_pcs s" t Sw_writing p] assms(2,3) by (simp add: sq_goto_def sq_in_lock_def)
  then show ?thesis using assms unfolding sq_inv_def r by (simp add: sq_goto_def)
qed

text \<open>Readers of other versions do not notice a step of the writer.\<close>

lemma sq_reader_ok_newer:
  assumes "sq_reader_ok s q" "sq_seq s' = sq_seq s + 1" "\<And>v. v \<le> sq_seq s \<Longrightarrow> sq_committed s' v = sq_committed s v"
  shows "sq_reader_ok s' q"
  using assms by (cases q) auto

lemma sq_reader_ok_write:
  assumes "sq_reader_ok s q" "odd (sq_seq s)" "sq_seq s' = sq_seq s" "sq_committed s' = sq_committed s"
  shows "sq_reader_ok s' q"
  using assms by (cases q) auto

lemma sq_inv_owner:
  assumes "sq_inv s" "sq_in_lock (sq_pcs s t)" "u \<noteq> t"
  shows "\<not> sq_in_lock (sq_pcs s u)"
  using assms by (auto simp: sq_inv_def)

lemma sq_inv_writer:
  assumes "sq_writer t s p = Some s'" "sq_pcs s t = p" "sq_inv s"
  shows "sq_inv s'"
proof (cases p)
  case Sw_mutex
  have l: "sq_writerLock s = None" and s': "s' = sq_goto t Sw_enter (s\<lparr>sq_writerLock := Some t\<rparr>)"
    using assms(1) Sw_mutex by (auto split: if_splits)
  have r: "sq_reader_ok s' q = sq_reader_ok s q" for q by (cases q) (simp_all add: s' sq_goto_def)
  have "(\<exists>u. sq_pcs s' u = Sw_writing) \<longleftrightarrow> (\<exists>u. sq_pcs s u = Sw_writing)"
    using ex_fun_upd_other [of "sq_pcs s" t Sw_writing Sw_enter] assms(2) Sw_mutex by (simp add: s' sq_goto_def)
  then show ?thesis
    using assms(2,3) l unfolding sq_inv_def r by (auto simp: s' sq_goto_def sq_in_lock_def)
next
  case Sw_enter
  have s': "s' = sq_goto t Sw_writing (s\<lparr>sq_seq := sq_seq s + 1\<rparr>)" using assms(1) Sw_enter by simp
  have il: "sq_in_lock (sq_pcs s t)" using assms(2) Sw_enter by (simp add: sq_in_lock_def)
  have "sq_pcs s u \<noteq> Sw_writing" for u
    using sq_inv_owner [OF assms(3) il, of u] assms(2) Sw_enter by (cases "u = t") (auto simp: sq_in_lock_def)
  then have ev: "even (sq_seq s)" using assms(3) by (simp add: sq_inv_def)
  have "\<forall>u. sq_reader_ok s' (sq_pcs s' u)"
  proof
    fix u
    have "sq_reader_ok s' (sq_pcs s u)" by (rule sq_reader_ok_newer [of s]) (use assms(3) in \<open>simp_all add: sq_inv_def s' sq_goto_def\<close>)
    then show "sq_reader_ok s' (sq_pcs s' u)" by (simp add: s' sq_goto_def)
  qed
  moreover have "sq_in_lock (sq_pcs s' u) \<longleftrightarrow> sq_writerLock s' = Some u" for u
    using assms(2,3) Sw_enter by (auto simp: s' sq_goto_def sq_inv_def sq_in_lock_def)
  ultimately show ?thesis using ev unfolding sq_inv_def by (auto simp: s' sq_goto_def)
next
  case Sw_release
  have s': "s' = sq_goto t Sq_out (s\<lparr>sq_writerLock := None\<rparr>)" using assms(1) Sw_release by simp
  have il: "sq_in_lock (sq_pcs s t)" using assms(2) Sw_release by (simp add: sq_in_lock_def)
  have r: "sq_reader_ok s' q = sq_reader_ok s q" for q by (cases q) (simp_all add: s' sq_goto_def)
  have n: "\<not> sq_in_lock (sq_pcs s' u)" for u
    using sq_inv_owner [OF assms(3) il, of u] by (auto simp: s' sq_goto_def sq_in_lock_def)
  have "(\<exists>u. sq_pcs s' u = Sw_writing) \<longleftrightarrow> (\<exists>u. sq_pcs s u = Sw_writing)"
    using ex_fun_upd_other [of "sq_pcs s" t Sw_writing Sq_out] assms(2) Sw_release by (simp add: s' sq_goto_def)
  then show ?thesis
    using assms(3) n unfolding sq_inv_def r by (auto simp: s' sq_goto_def)
qed (use assms in auto)

lemma sq_inv_unlock:
  assumes "sq_inv s" "sq_pcs s t = Sw_writing"
  shows "sq_inv (sq_unlock t s)"
proof -
  let ?s = "sq_unlock t s"
  have il: "sq_in_lock (sq_pcs s t)" using assms(2) by (simp add: sq_in_lock_def)
  have od: "odd (sq_seq s)" using assms by (auto simp: sq_inv_def)
  have ok: "sq_reader_ok ?s (sq_pcs s u)" for u
    by (rule sq_reader_ok_newer [of s]) (use assms(1) in \<open>simp_all add: sq_inv_def sq_unlock_def sq_goto_def\<close>)
  have "\<forall>u. sq_reader_ok ?s (sq_pcs ?s u)"
  proof
    fix u show "sq_reader_ok ?s (sq_pcs ?s u)" using ok [of u] by (cases "u = t") (simp_all add: sq_unlock_def sq_goto_def)
  qed
  moreover have "sq_in_lock (sq_pcs ?s u) \<longleftrightarrow> sq_writerLock ?s = Some u" for u
    using assms by (auto simp: sq_unlock_def sq_goto_def sq_inv_def sq_in_lock_def)
  moreover have "\<not> (\<exists>u. sq_pcs ?s u = Sw_writing)"
    using sq_inv_owner [OF assms(1) il] by (auto simp: sq_unlock_def sq_goto_def sq_in_lock_def)
  ultimately show ?thesis using od unfolding sq_inv_def by (simp add: sq_unlock_def sq_goto_def)
qed

lemma sq_inv_reader:
  assumes "sq_reader t s p = Some s'" "sq_pcs s t = p" "sq_inv s"
  shows "sq_inv s'"
proof (cases p)
  case Sr_load
  then show ?thesis using assms by (auto simp: sq_in_lock_def intro!: sq_inv_goto split: if_splits)
next
  case (Sr_read v acc)
  have ok: "sq_reader_ok s p" using assms(2,3) by (auto simp: sq_inv_def)
  show ?thesis
  proof (cases "length acc < length (sq_data s)")
    case True
    then have "sq_seq s = v \<Longrightarrow> acc @ [sq_data s ! length acc] = take (Suc (length acc)) (sq_data s)"
      using ok Sr_read by (simp add: take_Suc_conv_app_nth)
    then show ?thesis using assms Sr_read ok True by (auto simp: sq_in_lock_def intro!: sq_inv_goto)
  next
    case False
    then show ?thesis using assms Sr_read ok by (auto simp: sq_in_lock_def intro!: sq_inv_goto)
  qed
next
  case (Sr_check v acc)
  have ok: "sq_reader_ok s p" using assms(2,3) by (auto simp: sq_inv_def)
  then show ?thesis using assms Sr_check by (auto simp: sq_in_lock_def sq_inv_def [of s] intro!: sq_inv_goto split: if_splits)
qed (use assms in auto)

lemma sq_inv_next:
  assumes "sq_next l s = Some s'" "sq_inv s"
  shows "sq_inv s'"
proof (cases "(l, s)" rule: sq_next.cases)
  case (5 t r)
  then show ?thesis using assms sq_inv_writer sq_inv_reader by (auto split: option.splits)
next
  case (6 t i x r)
  then have w: "sq_pcs s t = Sw_writing" and s': "s' = s\<lparr>sq_data := (sq_data s)[i := x]\<rparr>"
    using assms(1) by (auto split: if_splits)
  have od: "odd (sq_seq s)" using assms(2) w by (auto simp: sq_inv_def)
  have "sq_reader_ok s' (sq_pcs s' u)" for u
    using sq_reader_ok_write [of s "sq_pcs s u" s'] assms(2) od by (simp add: s' sq_inv_def)
  then show ?thesis using assms(2) od unfolding sq_inv_def by (simp add: s')
qed (use assms in \<open>auto simp: sq_in_lock_def intro!: sq_inv_goto sq_inv_unlock split: if_splits sq_pc.splits\<close>)

interpretation sqx: step_system sq_next "sq_init d" sq_inv for d
proof unfold_locales
  show "sq_inv (sq_init d)" by (simp add: sq_inv_def sq_init_def sq_in_lock_def)
qed (rule sq_inv_next)

text \<open>
  Claim C11. When \<open>SeqLock::read\<close> returns, the fields it has read one by one are exactly the data of one
  committed version, whatever writers did in between.
\<close>

theorem seqlock_consistent_read:
  assumes "reachable sq_next (sq_init d) s" "sq_pcs s t = Sr_done v acc"
  shows "acc = sq_committed s v \<and> even v \<and> v \<le> sq_seq s"
proof -
  have "sq_reader_ok s (sq_pcs s t)" using sqx.inv_reachable [OF assms(1)] by (simp add: sq_inv_def)
  then show ?thesis using assms(2) by simp
qed

text \<open>A read that a writer disturbs starts again and then sees the new version.\<close>

definition sq_schedule :: "(nat \<times> sq_act) list" where
  "sq_schedule = [(1, Sq_read), (1, Sq_step), (1, Sq_step), (0, Sq_lock), (0, Sq_step), (0, Sq_step), (0, Sq_write 0 7),
     (0, Sq_write 1 8), (1, Sq_step), (0, Sq_unlock), (0, Sq_step), (1, Sq_step), (1, Sq_step),
     (1, Sq_step), (1, Sq_step), (1, Sq_step), (1, Sq_step), (1, Sq_step)]"

theorem seqlock_consistent_read_witness:
  "\<exists>s. run sq_next sq_schedule (sq_init [1, 2]) = Some s \<and> sq_pcs s 1 = Sr_done 2 [7, 8] \<and>
     [7, 8] = sq_committed s 2 \<and> even (2 :: nat) \<and> 2 \<le> sq_seq s"
proof -
  obtain s where s: "run sq_next sq_schedule (sq_init [1, 2]) = Some s" "sq_pcs s 1 = Sr_done 2 [7, 8]"
    by (simp add: sq_schedule_def sq_init_def sq_goto_def sq_unlock_def)
  then show ?thesis using seqlock_consistent_read [OF reachableI [OF s(1)] s(2)] by blast
qed

section \<open>Barrier\<close>

text \<open>
  \<open>br_arrived\<close> and \<open>br_passed\<close> count, per thread, the calls of \<open>wait\<close> that have decremented \<open>count_\<close> and
  those that have returned.
\<close>

datatype br_pc = Br_out | Br_load | Br_sub nat | Br_store | Br_bump | Br_spin nat

record br =
  br_threshold :: nat
  br_count :: nat
  br_generation :: nat
  br_pcs :: "nat \<Rightarrow> br_pc"
  br_arrived :: "nat \<Rightarrow> nat"
  br_passed :: "nat \<Rightarrow> nat"

definition br_init :: "nat \<Rightarrow> br option" where
  "br_init n = (if n = 0 then None
     else Some \<lparr>br_threshold = n, br_count = n, br_generation = 0, br_pcs = (\<lambda>_. Br_out),
                br_arrived = (\<lambda>_. 0), br_passed = (\<lambda>_. 0)\<rparr>)"

definition br_goto :: "nat \<Rightarrow> br_pc \<Rightarrow> br \<Rightarrow> br" where
  "br_goto t p s = s\<lparr>br_pcs := (br_pcs s)(t := p)\<rparr>"

definition br_return :: "nat \<Rightarrow> br \<Rightarrow> br" where
  "br_return t s = br_goto t Br_out (s\<lparr>br_passed := (br_passed s)(t := br_passed s t + 1)\<rparr>)"

text \<open>
  \<open>fetch_sub\<close> at zero would wrap to \<open>2 ^ 64 - 1\<close>; it is left undefined here and shown not to occur.
\<close>

fun br_wait :: "nat \<Rightarrow> br \<Rightarrow> br_pc \<Rightarrow> br option" where
  "br_wait t s Br_out = Some (br_goto t Br_load s)"
| "br_wait t s Br_load = Some (br_goto t (Br_sub (br_generation s)) s)"
| "br_wait t s (Br_sub gen) =
     (if br_count s = 0 then None
      else Some (br_goto t (if br_count s = 1 then Br_store else Br_spin gen)
                   (s\<lparr>br_count := br_count s - 1, br_arrived := (br_arrived s)(t := br_arrived s t + 1)\<rparr>)))"
| "br_wait t s Br_store = Some (br_goto t Br_bump (s\<lparr>br_count := br_threshold s\<rparr>))"
| "br_wait t s Br_bump = Some (br_return t (s\<lparr>br_generation := br_generation s + 1\<rparr>))"
| "br_wait t s (Br_spin gen) = Some (if br_generation s = gen then s else br_return t s)"

text \<open>Exactly the \<open>threshold_\<close> threads \<open>0, ..., threshold_ - 1\<close> use the barrier.\<close>

definition br_next :: "nat \<Rightarrow> br \<Rightarrow> br option" where
  "br_next t s = (if t < br_threshold s then br_wait t s (br_pcs s t) else None)"

fun br_here :: "nat \<Rightarrow> br_pc \<Rightarrow> bool" where
  "br_here G Br_store = True"
| "br_here G Br_bump = True"
| "br_here G (Br_spin g) = (g = G)"
| "br_here G _ = False"

definition br_waiting :: "br \<Rightarrow> nat set" where
  "br_waiting s = {t. t < br_threshold s \<and> br_here (br_generation s) (br_pcs s t)}"

text \<open>A thread's counts are fixed by where it is.\<close>

fun br_thread_ok :: "nat \<Rightarrow> br_pc \<Rightarrow> nat \<Rightarrow> nat \<Rightarrow> bool" where
  "br_thread_ok G Br_out a p \<longleftrightarrow> a = G \<and> p = G"
| "br_thread_ok G Br_load a p \<longleftrightarrow> a = G \<and> p = G"
| "br_thread_ok G (Br_sub g) a p \<longleftrightarrow> g = G \<and> a = G \<and> p = G"
| "br_thread_ok G Br_store a p \<longleftrightarrow> a = G + 1 \<and> p = G"
| "br_thread_ok G Br_bump a p \<longleftrightarrow> a = G + 1 \<and> p = G"
| "br_thread_ok G (Br_spin g) a p \<longleftrightarrow> a = g + 1 \<and> p = g \<and> (g = G \<or> g + 1 = G)"

definition br_turning :: "br_pc \<Rightarrow> bool" where
  "br_turning p \<longleftrightarrow> p = Br_store \<or> p = Br_bump"

definition br_inv :: "br \<Rightarrow> bool" where
  "br_inv s \<longleftrightarrow>
     (\<forall>t < br_threshold s. br_thread_ok (br_generation s) (br_pcs s t) (br_arrived s t) (br_passed s t)) \<and>
     (if \<exists>t < br_threshold s. br_turning (br_pcs s t)
      then br_waiting s = {..<br_threshold s} \<and>
        (\<exists>t < br_threshold s. br_turning (br_pcs s t) \<and>
           (\<forall>u < br_threshold s. u \<noteq> t \<longrightarrow> \<not> br_turning (br_pcs s u)) \<and>
           (br_pcs s t = Br_bump \<longrightarrow> br_count s = br_threshold s))
      else br_count s + card (br_waiting s) = br_threshold s \<and> br_count s \<noteq> 0)"

lemma br_inv_openI:
  assumes "\<And>t. t < br_threshold s \<Longrightarrow> br_thread_ok (br_generation s) (br_pcs s t) (br_arrived s t) (br_passed s t)"
    and "\<And>t. t < br_threshold s \<Longrightarrow> \<not> br_turning (br_pcs s t)"
    and "br_count s + card (br_waiting s) = br_threshold s" "br_count s \<noteq> 0"
  shows "br_inv s"
  using assms unfolding br_inv_def by auto

lemma br_inv_turnI:
  assumes "\<And>t. t < br_threshold s \<Longrightarrow> br_thread_ok (br_generation s) (br_pcs s t) (br_arrived s t) (br_passed s t)"
    and "t < br_threshold s" "br_turning (br_pcs s t)"
    and "\<And>u. u < br_threshold s \<Longrightarrow> u \<noteq> t \<Longrightarrow> \<not> br_turning (br_pcs s u)"
    and "br_waiting s = {..<br_threshold s}" "br_pcs s t = Br_bump \<Longrightarrow> br_count s = br_threshold s"
  shows "br_inv s"
  using assms unfolding br_inv_def by auto

lemma finite_br_waiting [simp]: "finite (br_waiting s)"
  by (simp add: br_waiting_def)

lemma br_inv_bounds:
  assumes "br_inv s" "t < br_threshold s" "u < br_threshold s"
  shows "br_passed s t \<le> br_arrived s u"
proof -
  have ok: "br_thread_ok (br_generation s) (br_pcs s v) (br_arrived s v) (br_passed s v)" if "v < br_threshold s" for v
    using assms(1) that by (simp add: br_inv_def)
  have "br_passed s t \<le> br_generation s" using ok [OF assms(2)] by (cases "br_pcs s t") auto
  also have "br_generation s \<le> br_arrived s u" using ok [OF assms(3)] by (cases "br_pcs s u") auto
  finally show ?thesis .
qed

text \<open>A step that neither arrives nor ends a generation.\<close>

lemma br_inv_local:
  assumes "br_inv s" "t < br_threshold s"
    and "\<not> br_here (br_generation s) (br_pcs s t)" "\<not> br_here (br_generation s) p"
    and "br_thread_ok (br_generation s) p (br_arrived s t) (b t)"
    and "\<And>u. u \<noteq> t \<Longrightarrow> b u = br_passed s u"
  shows "br_inv (br_goto t p (s\<lparr>br_passed := b\<rparr>))"
proof -
  let ?s = "br_goto t p (s\<lparr>br_passed := b\<rparr>)"
  have w: "br_waiting ?s = br_waiting s" using assms(3,4) by (auto simp: br_waiting_def br_goto_def)
  have nt: "\<not> br_turning (br_pcs s t)" "\<not> br_turning p" using assms(3,4) by (auto simp: br_turning_def)
  have tu: "br_turning (br_pcs ?s u) \<longleftrightarrow> br_turning (br_pcs s u)" for u using nt by (simp add: br_goto_def)
  have bu: "br_pcs ?s u = Br_bump \<longleftrightarrow> br_pcs s u = Br_bump" for u
    using nt by (auto simp: br_goto_def br_turning_def)
  have "br_thread_ok (br_generation ?s) (br_pcs ?s u) (br_arrived ?s u) (br_passed ?s u)" if "u < br_threshold s" for u
    using assms(1,5,6) that by (cases "u = t") (simp_all add: br_goto_def br_inv_def)
  then show ?thesis using assms(1) unfolding br_inv_def w tu bu by (simp add: br_goto_def)
qed

text \<open>An arrival: the last of \<open>threshold_\<close> arrivals turns the generation.\<close>

lemma br_inv_arrive:
  assumes inv: "br_inv s" and t: "t < br_threshold s" and pc: "br_pcs s t = Br_sub g"
  shows "br_count s \<noteq> 0 \<and> br_inv (br_goto t (if br_count s = 1 then Br_store else Br_spin g)
           (s\<lparr>br_count := br_count s - 1, br_arrived := (br_arrived s)(t := br_arrived s t + 1)\<rparr>))"
    (is "_ \<and> br_inv ?s")
proof -
  have ok: "g = br_generation s" "br_arrived s t = g" "br_passed s t = g" using inv t pc by (force simp: br_inv_def)+
  have tw: "t \<notin> br_waiting s" using pc by (simp add: br_waiting_def)
  then have nt: "\<not> br_turning (br_pcs s u)" if "u < br_threshold s" for u
    using inv t that unfolding br_inv_def by (auto split: if_splits)
  then have c: "br_count s + card (br_waiting s) = br_threshold s" "br_count s \<noteq> 0"
    using inv unfolding br_inv_def by (auto split: if_splits)
  have w: "br_waiting ?s = insert t (br_waiting s)" using t ok by (auto simp: br_waiting_def br_goto_def)
  have th: "br_thread_ok (br_generation ?s) (br_pcs ?s u) (br_arrived ?s u) (br_passed ?s u)" if "u < br_threshold s" for u
    using inv ok that by (cases "u = t") (simp_all add: br_goto_def br_inv_def)
  have "br_inv ?s"
  proof (cases "br_count s = 1")
    case True
    have "br_waiting ?s = {..<br_threshold s}"
    proof (rule card_subset_eq)
      show "card (br_waiting ?s) = card {..<br_threshold s}" using c True tw unfolding w by simp
    qed (auto simp: br_waiting_def br_goto_def)
    moreover have "br_turning (br_pcs ?s t)" using True by (simp add: br_goto_def br_turning_def)
    moreover have "br_pcs ?s t \<noteq> Br_bump" using True by (simp add: br_goto_def)
    moreover have "\<not> br_turning (br_pcs ?s u)" if "u < br_threshold s" "u \<noteq> t" for u
      using nt that by (simp add: br_goto_def)
    ultimately show ?thesis using t th br_inv_turnI [of ?s t] by (simp add: br_goto_def)
  next
    case False
    have th': "br_threshold ?s = br_threshold s" by (simp add: br_goto_def)
    show ?thesis
    proof (rule br_inv_openI, unfold th')
      show "\<not> br_turning (br_pcs ?s u)" if "u < br_threshold s" for u
        using False nt that by (simp add: br_goto_def br_turning_def)
      show "br_count ?s + card (br_waiting ?s) = br_threshold s" "br_count ?s \<noteq> 0"
        using c False tw unfolding w by (simp_all add: br_goto_def)
    qed (rule th)
  qed
  then show ?thesis using c by simp
qed

lemma br_inv_turning:
  assumes "br_inv s" "t < br_threshold s" "br_turning (br_pcs s t)"
  shows "br_waiting s = {..<br_threshold s}"
    and "\<And>u. u < br_threshold s \<Longrightarrow> u \<noteq> t \<Longrightarrow> \<not> br_turning (br_pcs s u)"
    and "br_pcs s t = Br_bump \<Longrightarrow> br_count s = br_threshold s"
  using assms unfolding br_inv_def by (auto split: if_splits)

lemma br_inv_store:
  assumes "br_inv s" "t < br_threshold s" "br_pcs s t = Br_store"
  shows "br_inv (br_goto t Br_bump (s\<lparr>br_count := br_threshold s\<rparr>))" (is "br_inv ?s")
proof -
  have tt: "br_turning (br_pcs s t)" using assms(3) by (simp add: br_turning_def)
  note F = br_inv_turning [OF assms(1,2) tt]
  have "br_waiting ?s = br_waiting s" using assms(2,3) by (auto simp: br_waiting_def br_goto_def)
  moreover have "br_turning (br_pcs ?s t)" by (simp add: br_goto_def br_turning_def)
  moreover have "\<not> br_turning (br_pcs ?s u)" if "u < br_threshold s" "u \<noteq> t" for u
    using F(2) that by (simp add: br_goto_def)
  moreover have "br_thread_ok (br_generation ?s) (br_pcs ?s u) (br_arrived ?s u) (br_passed ?s u)" if "u < br_threshold s" for u
    using assms that by (cases "u = t") (force simp: br_goto_def br_inv_def)+
  ultimately show ?thesis using assms(2) F(1) br_inv_turnI [of ?s t] by (simp add: br_goto_def)
qed

lemma br_inv_bump:
  assumes "br_inv s" "t < br_threshold s" "br_pcs s t = Br_bump"
  shows "br_inv (br_return t (s\<lparr>br_generation := br_generation s + 1\<rparr>))" (is "br_inv ?s")
proof -
  have tt: "br_turning (br_pcs s t)" using assms(3) by (simp add: br_turning_def)
  note F = br_inv_turning [OF assms(1,2) tt]
  have spin: "br_pcs s u = Br_spin (br_generation s)" if "u < br_threshold s" "u \<noteq> t" for u
  proof -
    have "u \<in> br_waiting s" using F(1) that by simp
    then show ?thesis using F(2) [OF that] by (cases "br_pcs s u") (auto simp: br_waiting_def br_turning_def)
  qed
  have oku: "br_thread_ok (br_generation s) (br_pcs s u) (br_arrived s u) (br_passed s u)" if "u < br_threshold s" for u
    using assms(1) that by (simp add: br_inv_def)
  have th: "br_thread_ok (br_generation ?s) (br_pcs ?s u) (br_arrived ?s u) (br_passed ?s u)" if "u < br_threshold s" for u
    using oku [OF that] spin [OF that] assms(3) by (cases "u = t") (simp_all add: br_return_def br_goto_def)
  have nh: "\<not> br_here (br_generation ?s) (br_pcs ?s u)" if "u < br_threshold s" for u
    using spin [OF that] by (cases "u = t") (simp_all add: br_return_def br_goto_def)
  then have "br_waiting ?s = {}" by (simp add: br_waiting_def br_return_def br_goto_def)
  moreover have "\<not> br_turning (br_pcs ?s u)" if "u < br_threshold s" for u
    using nh [OF that] by (auto simp: br_turning_def)
  ultimately show ?thesis
    using th F(3) assms(2,3) br_inv_openI [of ?s] by (simp add: br_return_def br_goto_def)
qed

lemma br_goto_same: "br_goto t p (s\<lparr>br_passed := br_passed s\<rparr>) = br_goto t p s"
  by (simp add: br_goto_def)

lemma br_inv_next:
  assumes "br_next t s = Some s'" "br_inv s"
  shows "br_inv s'"
proof -
  have t: "t < br_threshold s" and w: "br_wait t s (br_pcs s t) = Some s'"
    using assms(1) by (auto simp: br_next_def split: if_splits)
  have ok: "br_thread_ok (br_generation s) (br_pcs s t) (br_arrived s t) (br_passed s t)"
    using assms(2) t by (simp add: br_inv_def)
  show ?thesis
  proof (cases "br_pcs s t")
    case Br_out
    then show ?thesis using w ok br_inv_local [OF assms(2) t, of Br_load "br_passed s"] by (simp add: br_goto_same)
  next
    case Br_load
    then show ?thesis
      using w ok br_inv_local [OF assms(2) t, of "Br_sub (br_generation s)" "br_passed s"] by (simp add: br_goto_same)
  next
    case (Br_sub g)
    then show ?thesis using w br_inv_arrive [OF assms(2) t Br_sub] by (simp split: if_splits)
  next
    case Br_store
    then show ?thesis using w br_inv_store [OF assms(2) t] by simp
  next
    case Br_bump
    then show ?thesis using w br_inv_bump [OF assms(2) t] by simp
  next
    case (Br_spin g)
    then show ?thesis
      using w ok assms(2) br_inv_local [OF assms(2) t, of Br_out "(br_passed s)(t := br_passed s t + 1)"]
      by (auto simp: br_return_def split: if_splits)
  qed
qed

lemma br_inv_init: "br_init n = Some s \<Longrightarrow> br_inv s \<and> br_threshold s = n"
  by (auto simp: br_init_def br_inv_def br_waiting_def br_turning_def split: if_splits)

lemma br_threshold_next: "br_next t s = Some s' \<Longrightarrow> br_threshold s' = br_threshold s"
  by (cases "br_pcs s t") (auto simp: br_next_def br_goto_def br_return_def split: if_splits)

interpretation brx: step_system br_next "the (br_init (Suc n))" "\<lambda>s. br_inv s \<and> br_threshold s = Suc n" for n
proof unfold_locales
  show "br_inv (the (br_init (Suc n))) \<and> br_threshold (the (br_init (Suc n))) = Suc n"
    using br_inv_init [of "Suc n"] by (simp add: br_init_def)
qed (auto simp: br_inv_next br_threshold_next)

text \<open>
  With as many threads as its threshold, nobody leaves the k-th \<open>Barrier::wait\<close> before every
  thread has arrived at it.
\<close>

lemma barrier_waits_for_all:
  assumes "br_init n = Some s0" "reachable br_next s0 s" "t < n" "u < n"
  shows "br_passed s t \<le> br_arrived s u"
proof -
  obtain m where n: "n = Suc m" using assms(3) by (cases n) auto
  have "br_inv s \<and> br_threshold s = n"
    using brx.inv_reachable [of m s] assms(1,2) unfolding n by simp
  then show ?thesis using br_inv_bounds assms(3,4) by blast
qed

text \<open>\<open>count_\<close> never wraps: a thread that is about to decrement it always finds it positive.\<close>

lemma barrier_never_stuck:
  assumes "br_init n = Some s0" "reachable br_next s0 s" "t < n"
  shows "br_next t s \<noteq> None"
proof -
  obtain m where n: "n = Suc m" using assms(3) by (cases n) auto
  have i: "br_inv s" "br_threshold s = n"
    using brx.inv_reachable [of m s] assms(1,2) unfolding n by simp_all
  then show ?thesis using assms(3) br_inv_arrive [OF i(1)] by (cases "br_pcs s t") (auto simp: br_next_def)
qed

end
