(* ===== verification/Rw_Mutex.thy ===== *)
theory Rw_Mutex
  imports Pman_Prelude
begin

unbundle bit_operations_syntax

text \<open>
  \<open>FutexRwMutex\<close> of src/include/pman/rw_mutex.hpp and src/src/rw_mutex.cpp: a reader/writer lock
  in one 32-bit word (reader count in the low 29 bits, a bit for a waiting and one for a holding
  writer) with two futex sequence counters. Every thread has a program counter; one step is one
  atomic operation or one system call. The word is kept as an integer, and that it stays within
  the range of a C++ \<open>int\<close> is part of what is proved; the sequence counters are only compared for
  equality and grow without wrapping.
\<close>

section \<open>The lock word\<close>

definition kWriterHolding :: int where
  "kWriterHolding = push_bit 30 1"

definition kWriterWaiting :: int where
  "kWriterWaiting = push_bit 29 1"

definition kReaderMask :: int where
  "kReaderMask = push_bit 29 1 - 1"

section \<open>State\<close>

text \<open>
  Program counters. \<open>Rl_\<close> is \<open>lock_shared\<close>, \<open>Rt_\<close> \<open>try_lock_shared\<close>, \<open>Ru_\<close> \<open>unlock_shared\<close>, \<open>Wl_\<close>
  \<open>lock\<close>, \<open>Wt_\<close> \<open>try_lock\<close>, \<open>Wu_\<close> \<open>unlock\<close>, \<open>Up_\<close> \<open>try_upgrade\<close>, \<open>Dg_\<close> \<open>downgrade\<close>. Arguments are the
  local variables \<open>state\<close> and \<open>seq\<close>.
\<close>

datatype rw_pc =
    Idle
  | Rl_load | Rl_cas int | Rl_seq | Rl_recheck nat | Rl_wait nat | Rl_asleep nat
  | Rt_load | Rt_loop int
  | Reading
  | Ru_sub | Ru_bump | Ru_wake
  | Wl_load | Wl_cas | Wl_or | Wl_seq | Wl_recheck nat | Wl_wait nat | Wl_asleep nat | Wl_final
  | Wt_cas
  | Writing
  | Wu_store | Wu_rbump | Wu_rwake | Wu_wbump | Wu_wwake
  | Up_cas
  | Dg_store | Dg_rbump | Dg_rwake

record rw =
  rw_state :: int
  rw_writer_futex :: nat
  rw_reader_futex :: nat
  rw_wsleep :: "nat list"
  rw_rsleep :: "nat list"
  rw_pcs :: "nat \<Rightarrow> rw_pc"

datatype rw_act =
    Rw_call rw_pc
  | Rw_step
  | Rw_cas_fails
  | Rw_wake nat
  | Rw_wake_nobody
  | Rw_interrupted

definition rw_init :: rw where
  "rw_init = \<lparr>rw_state = 0, rw_writer_futex = 0, rw_reader_futex = 0, rw_wsleep = [], rw_rsleep = [],
     rw_pcs = (\<lambda>_. Idle)\<rparr>"

definition rw_goto :: "nat \<Rightarrow> rw_pc \<Rightarrow> rw \<Rightarrow> rw" where
  "rw_goto t p s = s\<lparr>rw_pcs := (rw_pcs s)(t := p)\<rparr>"

definition rw_put :: "nat \<Rightarrow> int \<Rightarrow> rw_pc \<Rightarrow> rw \<Rightarrow> rw" where
  "rw_put t v p s = rw_goto t p (s\<lparr>rw_state := v\<rparr>)"

definition rw_flags :: "int \<Rightarrow> int" where
  "rw_flags v = v AND (kWriterHolding OR kWriterWaiting)"

text \<open>The system call \<open>FUTEX_WAIT\<close> on either counter; EAGAIN sends the caller back to its loop.\<close>

definition rw_wait_reader :: "nat \<Rightarrow> nat \<Rightarrow> rw \<Rightarrow> rw" where
  "rw_wait_reader t seq s =
     (if rw_reader_futex s = seq
      then rw_goto t (Rl_asleep seq) (s\<lparr>rw_rsleep := rw_rsleep s @ [t]\<rparr>)
      else rw_goto t Rl_load s)"

definition rw_wait_writer :: "nat \<Rightarrow> nat \<Rightarrow> rw \<Rightarrow> rw" where
  "rw_wait_writer t seq s =
     (if rw_writer_futex s = seq
      then rw_goto t (Wl_asleep seq) (s\<lparr>rw_wsleep := rw_wsleep s @ [t]\<rparr>)
      else rw_goto t Wl_load s)"

text \<open>\<open>futex_wake_all(&reader_futex_)\<close>: every sleeping reader goes back to the head of its loop.\<close>

definition rw_wake_readers :: "rw \<Rightarrow> rw" where
  "rw_wake_readers s =
     s\<lparr>rw_rsleep := [], rw_pcs := (\<lambda>u. if u \<in> set (rw_rsleep s) then Rl_load else rw_pcs s u)\<rparr>"

text \<open>\<open>futex_wake_one(&writer_futex_)\<close>: the label says which sleeper the kernel picks.\<close>

definition rw_wake_writer :: "nat option \<Rightarrow> rw \<Rightarrow> rw option" where
  "rw_wake_writer who s =
     (case who of
        Some u \<Rightarrow> if u \<in> set (rw_wsleep s)
                  then Some (rw_goto u Wl_load (s\<lparr>rw_wsleep := removeAll u (rw_wsleep s)\<rparr>)) else None
      | None \<Rightarrow> if rw_wsleep s = [] then Some s else None)"

section \<open>The operations\<close>

fun rw_lock_shared :: "nat \<Rightarrow> rw \<Rightarrow> rw_pc \<Rightarrow> rw option" where
  "rw_lock_shared t s Rl_load =
     Some (if rw_flags (rw_state s) = 0 then rw_goto t (Rl_cas (rw_state s)) s
           else rw_goto t Rl_seq s)"
| "rw_lock_shared t s (Rl_cas v) =
     Some (if rw_state s = v then rw_put t (v + 1) Reading s else rw_goto t Rl_load s)"
| "rw_lock_shared t s Rl_seq = Some (rw_goto t (Rl_recheck (rw_reader_futex s)) s)"
| "rw_lock_shared t s (Rl_recheck seq) =
     Some (if rw_flags (rw_state s) \<noteq> 0 then rw_goto t (Rl_wait seq) s else rw_goto t Rl_load s)"
| "rw_lock_shared t s (Rl_wait seq) = Some (rw_wait_reader t seq s)"
| "rw_lock_shared t s _ = None"

fun rw_try_lock_shared :: "nat \<Rightarrow> rw \<Rightarrow> rw_pc \<Rightarrow> rw option" where
  "rw_try_lock_shared t s Rt_load = Some (rw_goto t (Rt_loop (rw_state s)) s)"
| "rw_try_lock_shared t s (Rt_loop v) =
     Some (if rw_flags v \<noteq> 0 then rw_goto t Idle s
           else if rw_state s = v then rw_put t (v + 1) Reading s
           else rw_goto t (Rt_loop (rw_state s)) s)"
| "rw_try_lock_shared t s _ = None"

fun rw_unlock_shared :: "nat \<Rightarrow> rw \<Rightarrow> rw_pc \<Rightarrow> rw option" where
  "rw_unlock_shared t s Ru_sub =
     (let prev = rw_state s; readers = (prev AND kReaderMask) - 1 in
      Some (rw_put t (prev - 1)
              (if readers = 0 \<and> prev AND kWriterWaiting \<noteq> 0 then Ru_bump else Idle) s))"
| "rw_unlock_shared t s Ru_bump =
     Some (rw_goto t Ru_wake (s\<lparr>rw_writer_futex := rw_writer_futex s + 1\<rparr>))"
| "rw_unlock_shared t s _ = None"

fun rw_lock :: "nat \<Rightarrow> rw \<Rightarrow> rw_pc \<Rightarrow> rw option" where
  "rw_lock t s Wl_load =
     Some (if rw_state s = 0 then rw_goto t Wl_cas s
           else if rw_state s AND kWriterWaiting = 0 then rw_goto t Wl_or s
           else rw_goto t Wl_seq s)"
| "rw_lock t s Wl_cas =
     Some (if rw_state s = 0 then rw_put t kWriterHolding Writing s else rw_goto t Wl_load s)"
| "rw_lock t s Wl_or = Some (rw_put t (rw_state s OR kWriterWaiting) Wl_seq s)"
| "rw_lock t s Wl_seq = Some (rw_goto t (Wl_recheck (rw_writer_futex s)) s)"
| "rw_lock t s (Wl_recheck seq) =
     Some (if rw_state s AND kReaderMask \<noteq> 0 \<or> rw_state s AND kWriterHolding \<noteq> 0
           then rw_goto t (Wl_wait seq) s else rw_goto t Wl_final s)"
| "rw_lock t s (Wl_wait seq) = Some (rw_wait_writer t seq s)"
| "rw_lock t s Wl_final =
     Some (if rw_state s = kWriterWaiting then rw_put t kWriterHolding Writing s
           else rw_goto t Wl_load s)"
| "rw_lock t s _ = None"

fun rw_try_lock :: "nat \<Rightarrow> rw \<Rightarrow> rw_pc \<Rightarrow> rw option" where
  "rw_try_lock t s Wt_cas =
     Some (if rw_state s = 0 then rw_put t kWriterHolding Writing s else rw_goto t Idle s)"
| "rw_try_lock t s _ = None"

fun rw_unlock :: "nat \<Rightarrow> rw \<Rightarrow> rw_pc \<Rightarrow> rw option" where
  "rw_unlock t s Wu_store = Some (rw_put t 0 Wu_rbump s)"
| "rw_unlock t s Wu_rbump =
     Some (rw_goto t Wu_rwake (s\<lparr>rw_reader_futex := rw_reader_futex s + 1\<rparr>))"
| "rw_unlock t s Wu_rwake = Some (rw_goto t Wu_wbump (rw_wake_readers s))"
| "rw_unlock t s Wu_wbump =
     Some (rw_goto t Wu_wwake (s\<lparr>rw_writer_futex := rw_writer_futex s + 1\<rparr>))"
| "rw_unlock t s _ = None"

fun rw_try_upgrade :: "nat \<Rightarrow> rw \<Rightarrow> rw_pc \<Rightarrow> rw option" where
  "rw_try_upgrade t s Up_cas =
     Some (if rw_state s = 1 then rw_put t kWriterHolding Writing s else rw_goto t Reading s)"
| "rw_try_upgrade t s _ = None"

fun rw_downgrade :: "nat \<Rightarrow> rw \<Rightarrow> rw_pc \<Rightarrow> rw option" where
  "rw_downgrade t s Dg_store = Some (rw_put t 1 Dg_rbump s)"
| "rw_downgrade t s Dg_rbump =
     Some (rw_goto t Dg_rwake (s\<lparr>rw_reader_futex := rw_reader_futex s + 1\<rparr>))"
| "rw_downgrade t s Dg_rwake = Some (rw_goto t Reading (rw_wake_readers s))"
| "rw_downgrade t s _ = None"

text \<open>
  A thread enters an operation where its contract allows it: the acquiring ones from outside,
  \<open>unlock_shared\<close> and \<open>try_upgrade\<close> from a read hold, \<open>unlock\<close> and \<open>downgrade\<close> from a write hold.
\<close>

fun rw_entry :: "rw_pc \<Rightarrow> rw_pc option" where
  "rw_entry Rl_load = Some Idle"
| "rw_entry Rt_load = Some Idle"
| "rw_entry Wl_load = Some Idle"
| "rw_entry Wt_cas = Some Idle"
| "rw_entry Ru_sub = Some Reading"
| "rw_entry Up_cas = Some Reading"
| "rw_entry Wu_store = Some Writing"
| "rw_entry Dg_store = Some Writing"
| "rw_entry _ = None"

fun rw_first :: "rw option list \<Rightarrow> rw option" where
  "rw_first [] = None"
| "rw_first (None # xs) = rw_first xs"
| "rw_first (Some s # xs) = Some s"

definition rw_step :: "nat \<Rightarrow> rw \<Rightarrow> rw option" where
  "rw_step t s = rw_first (map (\<lambda>f. f t s (rw_pcs s t))
     [rw_lock_shared, rw_try_lock_shared, rw_unlock_shared, rw_lock, rw_try_lock, rw_unlock,
      rw_try_upgrade, rw_downgrade])"

text \<open>A weak compare-exchange may fail although the word has the expected value.\<close>

fun rw_cas_fails :: "nat \<Rightarrow> rw \<Rightarrow> rw_pc \<Rightarrow> rw option" where
  "rw_cas_fails t s (Rl_cas v) = Some (rw_goto t Rl_load s)"
| "rw_cas_fails t s (Rt_loop v) =
     (if rw_flags v \<noteq> 0 then None else Some (rw_goto t (Rt_loop (rw_state s)) s))"
| "rw_cas_fails t s Wl_cas = Some (rw_goto t Wl_load s)"
| "rw_cas_fails t s _ = None"

definition rw_wake :: "nat \<Rightarrow> nat option \<Rightarrow> rw \<Rightarrow> rw option" where
  "rw_wake t who s =
     (if rw_pcs s t = Ru_wake \<or> rw_pcs s t = Wu_wwake
      then map_option (rw_goto t Idle) (rw_wake_writer who s) else None)"

fun rw_interrupted :: "nat \<Rightarrow> rw \<Rightarrow> rw_pc \<Rightarrow> rw option" where
  "rw_interrupted t s (Rl_asleep seq) =
     Some (rw_goto t (Rl_wait seq) (s\<lparr>rw_rsleep := removeAll t (rw_rsleep s)\<rparr>))"
| "rw_interrupted t s (Wl_asleep seq) =
     Some (rw_goto t (Wl_wait seq) (s\<lparr>rw_wsleep := removeAll t (rw_wsleep s)\<rparr>))"
| "rw_interrupted t s _ = None"

fun rw_next :: "nat \<times> rw_act \<Rightarrow> rw \<Rightarrow> rw option" where
  "rw_next (t, Rw_call p) s =
     (if rw_entry p = Some (rw_pcs s t) then Some (rw_goto t p s) else None)"
| "rw_next (t, Rw_step) s = rw_step t s"
| "rw_next (t, Rw_cas_fails) s = rw_cas_fails t s (rw_pcs s t)"
| "rw_next (t, Rw_wake u) s = rw_wake t (Some u) s"
| "rw_next (t, Rw_wake_nobody) s = rw_wake t None s"
| "rw_next (t, Rw_interrupted) s = rw_interrupted t s (rw_pcs s t)"

section \<open>Invariant\<close>

datatype rw_kind = Nobody | Reader | Writer

fun rw_role :: "rw_pc \<Rightarrow> rw_kind" where
  "rw_role Reading = Reader"
| "rw_role Ru_sub = Reader"
| "rw_role Up_cas = Reader"
| "rw_role Dg_rbump = Reader"
| "rw_role Dg_rwake = Reader"
| "rw_role Writing = Writer"
| "rw_role Wu_store = Writer"
| "rw_role Dg_store = Writer"
| "rw_role _ = Nobody"

definition rw_reads :: "rw \<Rightarrow> nat \<Rightarrow> bool" where
  "rw_reads s t \<longleftrightarrow> rw_role (rw_pcs s t) = Reader"

definition rw_writes :: "rw \<Rightarrow> nat \<Rightarrow> bool" where
  "rw_writes s t \<longleftrightarrow> rw_role (rw_pcs s t) = Writer"

text \<open>The word as the code lays it out: reader count, holding bit, waiting bit.\<close>

definition rw_encode :: "nat \<Rightarrow> bool \<Rightarrow> bool \<Rightarrow> int" where
  "rw_encode c w b = int c + (if w then 2 ^ 30 else 0) + (if b then 2 ^ 29 else 0)"

text \<open>
  \<open>R\<close> is the set of readers, \<open>w\<close> the writer, \<open>b\<close> whether the waiting bit is set; \<open>N\<close> bounds the
  thread ids.
\<close>

definition rw_word :: "nat \<Rightarrow> nat set \<Rightarrow> nat option \<Rightarrow> bool \<Rightarrow> int \<Rightarrow> (nat \<Rightarrow> rw_pc) \<Rightarrow> bool" where
  "rw_word N R w b v pcs \<longleftrightarrow>
     R \<subseteq> {..<N} \<and> (w \<noteq> None \<longrightarrow> R = {}) \<and> v = rw_encode (card R) (w \<noteq> None) b \<and>
     (\<forall>t. rw_role (pcs t) = (if t \<in> R then Reader else if w = Some t then Writer else Nobody))"

definition rw_local :: "rw \<Rightarrow> bool" where
  "rw_local s \<longleftrightarrow>
     (\<forall>t v. rw_pcs s t = Rl_cas v \<longrightarrow> rw_flags v = 0) \<and>
     (\<forall>t \<in> set (rw_rsleep s). \<exists>q. rw_pcs s t = Rl_asleep q) \<and>
     (\<forall>t \<in> set (rw_wsleep s). \<exists>q. rw_pcs s t = Wl_asleep q)"

definition rw_inv :: "nat \<Rightarrow> rw \<Rightarrow> bool" where
  "rw_inv N s \<longleftrightarrow> (\<exists>R w b. rw_word N R w b (rw_state s) (rw_pcs s)) \<and> rw_local s"

lemma rw_goto_fields [simp]:
  "rw_state (rw_goto t p s) = rw_state s"
  "rw_writer_futex (rw_goto t p s) = rw_writer_futex s"
  "rw_reader_futex (rw_goto t p s) = rw_reader_futex s"
  "rw_wsleep (rw_goto t p s) = rw_wsleep s"
  "rw_rsleep (rw_goto t p s) = rw_rsleep s"
  by (simp_all add: rw_goto_def)

section \<open>Bits of the lock word\<close>

lemma rw_encode_div_mod:
  assumes "c < 2 ^ 29"
  shows "rw_encode c w b div 2 ^ 29 = (if w then 2 else 0) + (if b then 1 else 0)"
    and "rw_encode c w b div 2 ^ 30 = (if w then 1 else 0)"
    and "rw_encode c w b mod 2 ^ 29 = int c"
proof -
  show "rw_encode c w b div 2 ^ 29 = (if w then 2 else 0) + (if b then 1 else 0)"
    using assms by (intro int_div_pos_eq [where r = "int c"]) (simp_all add: rw_encode_def)
  show "rw_encode c w b mod 2 ^ 29 = int c"
    using assms
    by (intro int_mod_pos_eq [where q = "(if w then 2 else 0) + (if b then 1 else 0)"])
      (simp_all add: rw_encode_def)
  show "rw_encode c w b div 2 ^ 30 = (if w then 1 else 0)"
    using assms
    by (intro int_div_pos_eq [where r = "int c + (if b then 2 ^ 29 else 0)"])
      (simp_all add: rw_encode_def)
qed

lemma rw_encode_bits:
  assumes "c < 2 ^ 29"
  shows "bit (rw_encode c w b) 29 \<longleftrightarrow> b" and "bit (rw_encode c w b) 30 \<longleftrightarrow> w"
  using rw_encode_div_mod [OF assms] by (simp_all add: bit_iff_odd del: power_numeral)

lemma kWriterWaiting_exp: "kWriterWaiting = 2 ^ 29"
  and kWriterHolding_exp: "kWriterHolding = 2 ^ 30"
  by (simp_all add: kWriterWaiting_def kWriterHolding_def push_bit_eq_mult)

lemma rw_encode_waiting: "c < 2 ^ 29 \<Longrightarrow> rw_encode c w b AND kWriterWaiting = 0 \<longleftrightarrow> \<not> b"
  unfolding kWriterWaiting_exp and_exp_eq_0_iff_not_bit by (simp only: rw_encode_bits)

lemma rw_encode_holding: "c < 2 ^ 29 \<Longrightarrow> rw_encode c w b AND kWriterHolding = 0 \<longleftrightarrow> \<not> w"
  unfolding kWriterHolding_exp and_exp_eq_0_iff_not_bit by (simp only: rw_encode_bits)

lemma rw_encode_readers: "c < 2 ^ 29 \<Longrightarrow> rw_encode c w b AND kReaderMask = int c"
  using take_bit_eq_mask [of 29 "rw_encode c w b"] rw_encode_div_mod(3) [of c w b]
  by (simp add: kReaderMask_def push_bit_eq_mult mask_eq_exp_minus_1 take_bit_eq_mod)

lemma rw_encode_flags:
  assumes "c < 2 ^ 29"
  shows "rw_flags (rw_encode c w b) = 0 \<longleftrightarrow> \<not> w \<and> \<not> b"
  unfolding rw_flags_def bit.conj_disj_distrib or_eq_0_iff
  using assms by (simp add: rw_encode_waiting rw_encode_holding)

lemma rw_encode_or_waiting:
  assumes "c < 2 ^ 29"
  shows "rw_encode c w b OR kWriterWaiting = rw_encode c w True"
proof (cases b)
  case True
  have "bit (2 ^ 29 :: int) n \<Longrightarrow> n = 29" for n
    by (simp add: bit_exp_iff del: power_numeral)
  then show ?thesis
    unfolding kWriterWaiting_exp using True rw_encode_bits(1) [OF assms]
    by (intro bit_eqI) (auto simp: bit_or_iff simp del: power_numeral)
next
  case False
  then have "rw_encode c w b AND kWriterWaiting = 0"
    using assms by (simp add: rw_encode_waiting)
  then have "rw_encode c w b OR kWriterWaiting = rw_encode c w b + kWriterWaiting"
    using plus_and_or [of "rw_encode c w b" kWriterWaiting] by simp
  then show ?thesis by (simp add: rw_encode_def False kWriterWaiting_exp)
qed

lemma rw_encode_zero: "c < 2 ^ 29 \<Longrightarrow> rw_encode c w b = 0 \<longleftrightarrow> c = 0 \<and> \<not> w \<and> \<not> b"
  by (auto simp: rw_encode_def)

lemma rw_encode_one: "c < 2 ^ 29 \<Longrightarrow> rw_encode c w b = 1 \<longleftrightarrow> c = 1 \<and> \<not> w \<and> \<not> b"
  by (auto simp: rw_encode_def)

lemma rw_encode_only_waiting:
  "c < 2 ^ 29 \<Longrightarrow> rw_encode c w b = kWriterWaiting \<longleftrightarrow> c = 0 \<and> \<not> w \<and> b"
  by (auto simp: rw_encode_def kWriterWaiting_exp)

section \<open>Moves of the word\<close>

lemma rw_word_card: "rw_word N R w b v pcs \<Longrightarrow> N < 2 ^ 29 \<Longrightarrow> card R < 2 ^ 29"
  using card_mono [of "{..<N}" R] unfolding rw_word_def by simp

lemma rw_word_roles:
  "rw_word N R w b v pcs \<Longrightarrow> (\<And>u. rw_role (pcs' u) = rw_role (pcs u)) \<Longrightarrow> rw_word N R w b v pcs'"
  unfolding rw_word_def by simp

lemma rw_word_reader_in:
  assumes "rw_word N R None b v pcs" and "rw_role (pcs t) = Nobody" and "t < N"
  shows "rw_word N (insert t R) None b (v + 1) (pcs(t := Reading))"
proof -
  have "t \<notin> R" "finite R"
    using assms(1,2) unfolding rw_word_def by (auto intro: finite_subset)
  then show ?thesis using assms unfolding rw_word_def by (simp add: rw_encode_def)
qed

lemma rw_word_reader_out:
  assumes "rw_word N R w b v pcs" and "rw_role (pcs t) = Reader" and "rw_role p = Nobody"
  shows "rw_word N (R - {t}) w b (v - 1) (pcs(t := p))"
proof -
  have t: "t \<in> R" "finite R"
    using assms(1,2) unfolding rw_word_def by (auto intro: finite_subset split: if_splits)
  then have "w = None" using assms(1) unfolding rw_word_def by auto
  moreover have "int (card (R - {t})) = int (card R) - 1"
    using card_Suc_Diff1 [OF t(2,1)] by linarith
  ultimately show ?thesis using assms unfolding rw_word_def by (auto simp: rw_encode_def)
qed

lemma rw_word_writer_in:
  assumes "rw_word N R None b v pcs" and "R \<subseteq> {t}" and "rw_role p = Writer"
  shows "rw_word N {} (Some t) False kWriterHolding (pcs(t := p))"
  using assms unfolding rw_word_def by (auto simp: rw_encode_def kWriterHolding_exp)

lemma rw_word_writer_out:
  assumes "rw_word N R w b v pcs" and "rw_role (pcs t) = Writer" and "rw_role p = Nobody"
  shows "rw_word N {} None False 0 (pcs(t := p))"
  using assms unfolding rw_word_def by (auto simp: rw_encode_def split: if_splits)

lemma rw_word_downgrade:
  assumes "rw_word N R w b v pcs" and "rw_role (pcs t) = Writer" and "rw_role p = Reader" and "t < N"
  shows "rw_word N {t} None False 1 (pcs(t := p))"
  using assms unfolding rw_word_def by (auto simp: rw_encode_def split: if_splits)

lemma rw_word_set_waiting:
  assumes "rw_word N R w b v pcs" and "N < 2 ^ 29"
  shows "rw_word N R w True (v OR kWriterWaiting) pcs"
  using assms rw_encode_or_waiting [OF rw_word_card [OF assms]] unfolding rw_word_def by simp

section \<open>Every step keeps the invariant\<close>

definition rw_awake :: "rw_pc \<Rightarrow> bool" where
  "rw_awake p \<longleftrightarrow> (\<forall>q. p \<noteq> Rl_asleep q \<and> p \<noteq> Wl_asleep q)"

lemma rw_inv_fields [simp]:
  "rw_inv N (s\<lparr>rw_writer_futex := k\<rparr>) = rw_inv N s"
  "rw_inv N (s\<lparr>rw_reader_futex := k\<rparr>) = rw_inv N s"
  by (simp_all add: rw_inv_def rw_local_def)

lemma rw_inv_same_roles:
  assumes "rw_inv N s" and "rw_state s' = rw_state s"
    and "\<And>u. rw_role (rw_pcs s' u) = rw_role (rw_pcs s u)" and "rw_local s'"
  shows "rw_inv N s'"
proof -
  obtain R w b where "rw_word N R w b (rw_state s) (rw_pcs s)"
    using assms(1) unfolding rw_inv_def by blast
  then have "rw_word N R w b (rw_state s') (rw_pcs s')"
    using assms(2,3) by (auto intro: rw_word_roles)
  then show ?thesis using assms(4) unfolding rw_inv_def by blast
qed

lemma rw_awake_not_queued:
  assumes "rw_local s" and "rw_awake (rw_pcs s t)"
  shows "t \<notin> set (rw_rsleep s)" and "t \<notin> set (rw_wsleep s)"
  using assms unfolding rw_local_def rw_awake_def by blast+

lemma rw_local_goto:
  assumes "rw_local s" and "rw_awake (rw_pcs s t)" and "\<And>v. p = Rl_cas v \<Longrightarrow> rw_flags v = 0"
  shows "rw_local (rw_goto t p s)"
  using rw_awake_not_queued [OF assms(1,2)] assms(1,3) by (auto simp: rw_goto_def rw_local_def)

lemma rw_inv_put:
  assumes "rw_word N R w b v ((rw_pcs s)(t := p))" and "rw_local s" and "rw_awake (rw_pcs s t)"
    and "\<And>v. p = Rl_cas v \<Longrightarrow> rw_flags v = 0"
  shows "rw_inv N (rw_put t v p s)"
proof -
  have "rw_local (s\<lparr>rw_state := v\<rparr>)" using assms(2) by (simp add: rw_local_def)
  then have "rw_local (rw_put t v p s)"
    unfolding rw_put_def using assms(3,4) by (intro rw_local_goto) simp_all
  moreover have "rw_word N R w b (rw_state (rw_put t v p s)) (rw_pcs (rw_put t v p s))"
    using assms(1) by (simp add: rw_put_def rw_goto_def)
  ultimately show ?thesis unfolding rw_inv_def by blast
qed

lemma rw_inv_local: "rw_inv N s \<Longrightarrow> rw_local s"
  unfolding rw_inv_def by blast

lemma rw_inv_goto:
  assumes "rw_inv N s" and "rw_role p = rw_role (rw_pcs s t)" and "rw_awake (rw_pcs s t)"
    and "\<And>v. p = Rl_cas v \<Longrightarrow> rw_flags v = 0"
  shows "rw_inv N (rw_goto t p s)"
  using assms
  by (intro rw_inv_same_roles [OF assms(1)] rw_local_goto rw_inv_local) (simp_all add: rw_goto_def)

lemma rw_inv_sleep_reader:
  assumes "rw_inv N s" and "rw_pcs s t = Rl_wait q"
  shows "rw_inv N (rw_goto t (Rl_asleep q) (s\<lparr>rw_rsleep := rw_rsleep s @ [t]\<rparr>))"
  using assms rw_inv_local [OF assms(1)]
  by (intro rw_inv_same_roles [OF assms(1)]) (auto simp: rw_goto_def rw_local_def)

lemma rw_inv_sleep_writer:
  assumes "rw_inv N s" and "rw_pcs s t = Wl_wait q"
  shows "rw_inv N (rw_goto t (Wl_asleep q) (s\<lparr>rw_wsleep := rw_wsleep s @ [t]\<rparr>))"
  using assms rw_inv_local [OF assms(1)]
  by (intro rw_inv_same_roles [OF assms(1)]) (auto simp: rw_goto_def rw_local_def)

lemma rw_inv_reader_leaves:
  assumes "rw_inv N s" and "rw_pcs s t = Rl_asleep q"
  shows "rw_inv N (rw_goto t (Rl_wait q) (s\<lparr>rw_rsleep := removeAll t (rw_rsleep s)\<rparr>))"
  using assms(2) rw_inv_local [OF assms(1)]
  by (intro rw_inv_same_roles [OF assms(1)]) (auto simp: rw_goto_def rw_local_def)

lemma rw_inv_writer_leaves:
  assumes "rw_inv N s" and "rw_pcs s t = Wl_asleep q" and "p = Wl_wait q \<or> p = Wl_load"
  shows "rw_inv N (rw_goto t p (s\<lparr>rw_wsleep := removeAll t (rw_wsleep s)\<rparr>))"
  using assms(2,3) rw_inv_local [OF assms(1)]
  by (intro rw_inv_same_roles [OF assms(1)]) (auto simp: rw_goto_def rw_local_def)

lemma rw_queues_disjoint:
  assumes "rw_local s" and "t \<in> set (rw_wsleep s)"
  shows "t \<notin> set (rw_rsleep s)"
proof
  assume "t \<in> set (rw_rsleep s)"
  then obtain q r where "rw_pcs s t = Rl_asleep q" "rw_pcs s t = Wl_asleep r"
    using assms unfolding rw_local_def by blast
  then show False by simp
qed

lemma rw_inv_wake_readers:
  assumes "rw_inv N s"
  shows "rw_inv N (rw_wake_readers s)"
proof (rule rw_inv_same_roles [OF assms])
  show "rw_role (rw_pcs (rw_wake_readers s) u) = rw_role (rw_pcs s u)" for u
    using rw_inv_local [OF assms] by (auto simp: rw_wake_readers_def rw_local_def)
  show "rw_local (rw_wake_readers s)"
    using rw_inv_local [OF assms] rw_queues_disjoint [OF rw_inv_local [OF assms]]
    by (auto simp: rw_wake_readers_def rw_local_def)
qed (simp add: rw_wake_readers_def)

lemma rw_wake_readers_awake:
  "rw_awake (rw_pcs s t) \<Longrightarrow> rw_local s \<Longrightarrow> rw_pcs (rw_wake_readers s) t = rw_pcs s t"
  by (simp add: rw_wake_readers_def rw_awake_not_queued)

text \<open>The state as the invariant describes it, for the operations that change the word.\<close>

lemma rw_invE:
  assumes "rw_inv N s" and "N < 2 ^ 29"
  obtains R w b where "rw_word N R w b (rw_state s) (rw_pcs s)" and "rw_local s"
    and "card R < 2 ^ 29" and "rw_state s = rw_encode (card R) (w \<noteq> None) b" and "finite R"
proof -
  obtain R w b where "rw_word N R w b (rw_state s) (rw_pcs s)" "rw_local s"
    using assms(1) unfolding rw_inv_def by blast
  then show ?thesis
    using that [of R w b] rw_word_card [OF _ assms(2)]
    unfolding rw_word_def by (auto intro: finite_subset)
qed

lemma rw_inv_reader_in:
  assumes "rw_inv N s" and "N < 2 ^ 29" and "t < N" and "rw_role (rw_pcs s t) = Nobody"
    and "rw_awake (rw_pcs s t)" and "rw_flags (rw_state s) = 0"
  shows "rw_inv N (rw_put t (rw_state s + 1) Reading s)"
proof -
  obtain R w b where I: "rw_word N R w b (rw_state s) (rw_pcs s)" "rw_local s" "card R < 2 ^ 29"
    "rw_state s = rw_encode (card R) (w \<noteq> None) b"
    using assms(1,2) by (rule rw_invE)
  then have "w = None" using assms(6) by (simp add: rw_encode_flags)
  then show ?thesis
    using I assms(3-5) by (intro rw_inv_put [OF rw_word_reader_in]) simp_all
qed

lemma rw_inv_writer_in:
  assumes "rw_inv N s" and "N < 2 ^ 29" and "rw_awake (rw_pcs s t)"
    and "rw_state s = 0 \<or> rw_state s = kWriterWaiting
      \<or> rw_state s = 1 \<and> rw_role (rw_pcs s t) = Reader"
  shows "rw_inv N (rw_put t kWriterHolding Writing s)"
proof -
  obtain R w b where I: "rw_word N R w b (rw_state s) (rw_pcs s)" "rw_local s" "card R < 2 ^ 29"
    "rw_state s = rw_encode (card R) (w \<noteq> None) b" "finite R"
    using assms(1,2) by (rule rw_invE)
  have w: "w = None"
    using assms(4) I(3,4) by (auto simp: rw_encode_zero rw_encode_one rw_encode_only_waiting)
  have "R \<subseteq> {t}"
  proof (cases "rw_state s = 1")
    case True
    then have "card R = 1" using I(3,4) by (simp add: rw_encode_one)
    moreover have "t \<in> R"
      using assms(4) True I(1) w unfolding rw_word_def
      by (auto simp: kWriterWaiting_exp split: if_splits)
    ultimately show ?thesis by (metis card_1_singletonE singletonD subsetI)
  next
    case False
    then have "card R = 0"
      using assms(4) I(3,4) by (auto simp: rw_encode_zero rw_encode_only_waiting)
    then show ?thesis using I(5) by simp
  qed
  then show ?thesis
    using I w assms(3) by (intro rw_inv_put [OF rw_word_writer_in]) simp_all
qed

lemma rw_inv_reader_out:
  assumes "rw_inv N s" and "N < 2 ^ 29" and "rw_role (rw_pcs s t) = Reader"
    and "rw_awake (rw_pcs s t)" and "p = Ru_bump \<or> p = Idle"
  shows "rw_inv N (rw_put t (rw_state s - 1) p s)"
proof -
  obtain R w b where "rw_word N R w b (rw_state s) (rw_pcs s)" "rw_local s"
    using assms(1,2) by (rule rw_invE)
  then show ?thesis
    using assms(3-5) by (intro rw_inv_put [OF rw_word_reader_out]) auto
qed

lemma rw_inv_writer_out:
  assumes "rw_inv N s" and "N < 2 ^ 29" and "rw_role (rw_pcs s t) = Writer"
    and "rw_awake (rw_pcs s t)"
  shows "rw_inv N (rw_put t 0 Wu_rbump s)"
proof -
  obtain R w b where "rw_word N R w b (rw_state s) (rw_pcs s)" "rw_local s"
    using assms(1,2) by (rule rw_invE)
  then show ?thesis
    using assms(3-4) by (intro rw_inv_put [OF rw_word_writer_out]) auto
qed

lemma rw_inv_downgrade:
  assumes "rw_inv N s" and "N < 2 ^ 29" and "rw_role (rw_pcs s t) = Writer"
    and "rw_awake (rw_pcs s t)" and "t < N"
  shows "rw_inv N (rw_put t 1 Dg_rbump s)"
proof -
  obtain R w b where "rw_word N R w b (rw_state s) (rw_pcs s)" "rw_local s"
    using assms(1,2) by (rule rw_invE)
  then show ?thesis
    using assms(3-5) by (intro rw_inv_put [OF rw_word_downgrade]) auto
qed

lemma rw_inv_set_waiting:
  assumes "rw_inv N s" and "N < 2 ^ 29" and "rw_pcs s t = Wl_or"
  shows "rw_inv N (rw_put t (rw_state s OR kWriterWaiting) Wl_seq s)"
proof -
  obtain R w b where I: "rw_word N R w b (rw_state s) (rw_pcs s)" "rw_local s"
    using assms(1,2) by (rule rw_invE)
  then have "rw_word N R w True (rw_state s OR kWriterWaiting) ((rw_pcs s)(t := Wl_seq))"
    using assms(2,3) by (auto intro: rw_word_roles [OF rw_word_set_waiting])
  then show ?thesis
    using I assms(3) by (intro rw_inv_put) (auto simp: rw_awake_def)
qed

lemmas rw_inv_moves =
  rw_inv_goto rw_inv_sleep_reader rw_inv_sleep_writer rw_inv_reader_leaves rw_inv_writer_leaves
  rw_inv_reader_in rw_inv_writer_in rw_inv_reader_out rw_inv_writer_out rw_inv_downgrade
  rw_inv_set_waiting

lemma rw_lock_shared_inv:
  assumes "rw_inv N s" and "N < 2 ^ 29" and "t < N" and "rw_lock_shared t s (rw_pcs s t) = Some s'"
  shows "rw_inv N s'"
proof (cases "rw_pcs s t")
  case (Rl_cas v)
  then have "rw_flags v = 0"
    using rw_inv_local [OF assms(1)] by (simp add: rw_local_def)
  then show ?thesis
    using assms Rl_cas by (auto intro!: rw_inv_moves simp: rw_awake_def split: if_splits)
qed (use assms in \<open>auto intro!: rw_inv_moves simp: rw_awake_def rw_wait_reader_def split: if_splits\<close>)

lemma rw_try_lock_shared_inv:
  assumes "rw_inv N s" and "N < 2 ^ 29" and "t < N"
    and "rw_try_lock_shared t s (rw_pcs s t) = Some s'"
  shows "rw_inv N s'"
  using assms by (cases "rw_pcs s t") (auto intro!: rw_inv_moves simp: rw_awake_def split: if_splits)

lemma rw_unlock_shared_inv:
  assumes "rw_inv N s" and "N < 2 ^ 29" and "rw_unlock_shared t s (rw_pcs s t) = Some s'"
  shows "rw_inv N s'"
  using assms
  by (cases "rw_pcs s t") (auto intro!: rw_inv_moves simp: rw_awake_def Let_def split: if_splits)

lemma rw_lock_inv:
  assumes "rw_inv N s" and "N < 2 ^ 29" and "rw_lock t s (rw_pcs s t) = Some s'"
  shows "rw_inv N s'"
  using assms
  by (cases "rw_pcs s t")
    (auto intro!: rw_inv_moves simp: rw_awake_def rw_wait_writer_def split: if_splits)

lemma rw_try_lock_inv:
  assumes "rw_inv N s" and "N < 2 ^ 29" and "rw_try_lock t s (rw_pcs s t) = Some s'"
  shows "rw_inv N s'"
  using assms by (cases "rw_pcs s t") (auto intro!: rw_inv_moves simp: rw_awake_def split: if_splits)

lemma rw_goto_wake_readers_inv:
  assumes "rw_inv N s" and "rw_role p = rw_role (rw_pcs s t)" and "rw_awake (rw_pcs s t)"
    and "\<And>v. p \<noteq> Rl_cas v"
  shows "rw_inv N (rw_goto t p (rw_wake_readers s))"
  using assms(1-3) rw_wake_readers_awake [OF assms(3) rw_inv_local [OF assms(1)]]
  by (intro rw_inv_goto rw_inv_wake_readers) (simp_all add: assms(4))

lemma rw_unlock_inv:
  assumes "rw_inv N s" and "N < 2 ^ 29" and "rw_unlock t s (rw_pcs s t) = Some s'"
  shows "rw_inv N s'"
  using assms
  by (cases "rw_pcs s t") (auto intro!: rw_inv_moves rw_goto_wake_readers_inv simp: rw_awake_def)

lemma rw_try_upgrade_inv:
  assumes "rw_inv N s" and "N < 2 ^ 29" and "rw_try_upgrade t s (rw_pcs s t) = Some s'"
  shows "rw_inv N s'"
  using assms by (cases "rw_pcs s t") (auto intro!: rw_inv_moves simp: rw_awake_def split: if_splits)

lemma rw_downgrade_inv:
  assumes "rw_inv N s" and "N < 2 ^ 29" and "t < N" and "rw_downgrade t s (rw_pcs s t) = Some s'"
  shows "rw_inv N s'"
  using assms
  by (cases "rw_pcs s t") (auto intro!: rw_inv_moves rw_goto_wake_readers_inv simp: rw_awake_def)

lemma rw_cas_fails_inv:
  assumes "rw_inv N s" and "rw_cas_fails t s (rw_pcs s t) = Some s'"
  shows "rw_inv N s'"
  using assms by (cases "rw_pcs s t") (auto intro!: rw_inv_goto simp: rw_awake_def split: if_splits)

lemma rw_interrupted_inv:
  assumes "rw_inv N s" and "rw_interrupted t s (rw_pcs s t) = Some s'"
  shows "rw_inv N s'"
  using assms by (cases "rw_pcs s t") (auto intro!: rw_inv_moves)

lemma rw_wake_writer_inv:
  assumes "rw_inv N s" and "rw_wake_writer who s = Some s'"
  shows "rw_inv N s' \<and> (\<forall>t. rw_awake (rw_pcs s t) \<longrightarrow> rw_pcs s' t = rw_pcs s t)"
proof (cases who)
  case None
  then show ?thesis using assms by (auto simp: rw_wake_writer_def split: if_splits)
next
  case (Some u)
  then have u: "u \<in> set (rw_wsleep s)"
    and s': "s' = rw_goto u Wl_load (s\<lparr>rw_wsleep := removeAll u (rw_wsleep s)\<rparr>)"
    using assms(2) by (auto simp: rw_wake_writer_def split: if_splits)
  then obtain q where q: "rw_pcs s u = Wl_asleep q"
    using rw_inv_local [OF assms(1)] unfolding rw_local_def by blast
  have "rw_pcs s' t = rw_pcs s t" if "rw_awake (rw_pcs s t)" for t
    using that q by (auto simp: s' rw_goto_def rw_awake_def)
  then show ?thesis
    unfolding s' using rw_inv_writer_leaves [OF assms(1) q] by simp
qed

lemma rw_wake_inv:
  assumes "rw_inv N s" and "rw_wake t who s = Some s'"
  shows "rw_inv N s'"
proof -
  obtain u where p: "rw_pcs s t = Ru_wake \<or> rw_pcs s t = Wu_wwake"
    and u: "rw_wake_writer who s = Some u" "s' = rw_goto t Idle u"
    using assms(2) by (auto simp: rw_wake_def split: if_splits)
  then show ?thesis
    using rw_wake_writer_inv [OF assms(1) u(1)] p by (auto intro!: rw_inv_goto simp: rw_awake_def)
qed

lemma rw_first_Some: "rw_first xs = Some s \<Longrightarrow> Some s \<in> set xs"
  by (induction xs rule: rw_first.induct) auto

lemma rw_step_inv:
  assumes "rw_inv N s" and "N < 2 ^ 29" and "t < N" and "rw_step t s = Some s'"
  shows "rw_inv N s'"
  using rw_first_Some [OF assms(4) [unfolded rw_step_def]] assms(1-3)
    rw_lock_shared_inv rw_try_lock_shared_inv rw_unlock_shared_inv rw_lock_inv rw_try_lock_inv
    rw_unlock_inv rw_try_upgrade_inv rw_downgrade_inv
  unfolding list.map set_simps insert_iff empty_iff by metis

lemma rw_call_inv:
  assumes "rw_inv N s" and "rw_entry p = Some (rw_pcs s t)"
  shows "rw_inv N (rw_goto t p s)"
proof -
  have "rw_role p = rw_role (rw_pcs s t) \<and> rw_awake (rw_pcs s t) \<and> (\<forall>v. p \<noteq> Rl_cas v)"
    using assms(2) by (cases p) (auto simp: rw_awake_def)
  then show ?thesis using assms(1) by (auto intro: rw_inv_goto)
qed

lemma rw_next_inv:
  assumes "rw_next (t, a) s = Some s'" and "rw_inv N s" and "N < 2 ^ 29" and "t < N"
  shows "rw_inv N s'"
proof (cases a)
  case (Rw_call p)
  then show ?thesis using assms by (auto intro: rw_call_inv split: if_splits)
next
  case Rw_step
  then show ?thesis using assms by (auto intro: rw_step_inv)
next
  case Rw_cas_fails
  then show ?thesis using assms by (auto intro: rw_cas_fails_inv)
next
  case (Rw_wake u)
  then show ?thesis using assms by (auto intro: rw_wake_inv)
next
  case Rw_wake_nobody
  then show ?thesis using assms by (auto intro: rw_wake_inv)
next
  case Rw_interrupted
  then show ?thesis using assms by (auto intro: rw_interrupted_inv)
qed

lemma rw_init_inv: "rw_inv N rw_init"
  unfolding rw_inv_def
  by (auto simp: rw_init_def rw_word_def rw_local_def rw_encode_def intro!: exI [of _ "{}"] exI [of _ None] exI [of _ False])

section \<open>No reader is left asleep\<close>

text \<open>
  A thread that has cleared the writer bits and has still to publish it (\<open>reader_futex_.fetch_add\<close>),
  and one that has still to issue the wake.
\<close>

definition rw_announcing :: "rw_pc \<Rightarrow> bool" where
  "rw_announcing p \<longleftrightarrow> p = Wu_rbump \<or> p = Dg_rbump"

definition rw_waking :: "rw_pc \<Rightarrow> bool" where
  "rw_waking p \<longleftrightarrow> p = Wu_rwake \<or> p = Dg_rwake"

definition rw_covered :: "rw \<Rightarrow> bool" where
  "rw_covered s \<longleftrightarrow> rw_flags (rw_state s) \<noteq> 0 \<or> (\<exists>u. rw_announcing (rw_pcs s u))"

fun rw_reader_ok :: "rw \<Rightarrow> rw_pc \<Rightarrow> bool" where
  "rw_reader_ok s (Rl_recheck q) = (q \<le> rw_reader_futex s)"
| "rw_reader_ok s (Rl_wait q) = (q \<le> rw_reader_futex s \<and> (q = rw_reader_futex s \<longrightarrow> rw_covered s))"
| "rw_reader_ok s (Rl_asleep q) = (q \<le> rw_reader_futex s \<and> (q = rw_reader_futex s \<longrightarrow> rw_covered s))"
| "rw_reader_ok s _ = True"

definition rw_reader_inv :: "rw \<Rightarrow> bool" where
  "rw_reader_inv s \<longleftrightarrow>
     (\<forall>t. rw_reader_ok s (rw_pcs s t)) \<and>
     (rw_rsleep s \<noteq> [] \<longrightarrow> rw_covered s \<or> (\<exists>u. rw_waking (rw_pcs s u)))"

lemma rw_reader_ok_mono:
  assumes "rw_reader_ok s p" and "rw_reader_futex s' = rw_reader_futex s"
    and "rw_covered s \<Longrightarrow> rw_covered s'"
  shows "rw_reader_ok s' p"
  using assms by (cases p) auto

lemma ex_fun_upd: "\<exists>u. P (f u) \<Longrightarrow> \<not> P (f t) \<Longrightarrow> \<exists>u. P ((f(t := p)) u)"
  by (metis fun_upd_apply)

lemma rw_reader_invI:
  assumes "\<And>t. rw_reader_ok s (rw_pcs s t)"
    and "rw_rsleep s \<noteq> [] \<Longrightarrow> rw_covered s \<or> (\<exists>u. rw_waking (rw_pcs s u))"
  shows "rw_reader_inv s"
  using assms unfolding rw_reader_inv_def by blast

lemma rw_covered_upd:
  assumes "rw_covered s" and "rw_pcs s' = (rw_pcs s)(t := p)" and "\<not> rw_announcing (rw_pcs s t)"
    and "rw_flags (rw_state s) \<noteq> 0 \<Longrightarrow> rw_flags (rw_state s') \<noteq> 0 \<or> rw_announcing p"
  shows "rw_covered s'"
  using assms ex_fun_upd [of rw_announcing "rw_pcs s" t p] unfolding rw_covered_def
  by (metis fun_upd_same)

text \<open>
  The shape of every step that concerns one thread: it keeps the queue or shrinks it and neither
  uncovers a sleeper nor is the pending wake itself.
\<close>

lemma rw_reader_inv_upd:
  assumes "rw_reader_inv s" and pcs: "rw_pcs s' = (rw_pcs s)(t := p)"
    and "\<not> rw_announcing (rw_pcs s t)" and "\<not> rw_waking (rw_pcs s t)"
    and "rw_flags (rw_state s) \<noteq> 0 \<Longrightarrow> rw_flags (rw_state s') \<noteq> 0 \<or> rw_announcing p"
    and "rw_reader_futex s' = rw_reader_futex s" and "rw_reader_ok s' p"
    and "rw_rsleep s' \<noteq> [] \<Longrightarrow> rw_rsleep s \<noteq> [] \<or> rw_covered s'"
  shows "rw_reader_inv s'"
proof (rule rw_reader_invI)
  have cov: "rw_covered s \<Longrightarrow> rw_covered s'"
    using assms(3,5) pcs by (blast intro: rw_covered_upd)
  then have "rw_reader_ok s' (rw_pcs s u)" for u
    using assms(1,6) unfolding rw_reader_inv_def by (blast intro: rw_reader_ok_mono)
  then show "rw_reader_ok s' (rw_pcs s' u)" for u
    using assms(7) unfolding pcs by simp
  show "rw_covered s' \<or> (\<exists>u. rw_waking (rw_pcs s' u))" if "rw_rsleep s' \<noteq> []"
    using assms(1,4,8) that cov ex_fun_upd [of rw_waking "rw_pcs s" t p]
    unfolding rw_reader_inv_def pcs by blast
qed

lemma rw_reader_inv_put:
  assumes "rw_reader_inv s" and "rw_flags (rw_state s) \<noteq> 0 \<Longrightarrow> rw_flags v \<noteq> 0 \<or> rw_announcing p"
    and "\<not> rw_announcing (rw_pcs s t)" and "\<not> rw_waking (rw_pcs s t)"
    and "rw_reader_ok (rw_put t v p s) p"
  shows "rw_reader_inv (rw_put t v p s)"
  using assms(2-)
  by (intro rw_reader_inv_upd [OF assms(1), where t = t and p = p]) (auto simp: rw_put_def rw_goto_def)

lemma rw_reader_inv_goto:
  assumes "rw_reader_inv s" and "\<not> rw_announcing (rw_pcs s t)" and "\<not> rw_waking (rw_pcs s t)"
    and "rw_reader_ok (rw_goto t p s) p"
  shows "rw_reader_inv (rw_goto t p s)"
  using rw_reader_inv_put [OF assms(1), of "rw_state s" p t] assms(2-4) by (simp add: rw_put_def)

lemma rw_covered_flags: "rw_flags (rw_state s) \<noteq> 0 \<Longrightarrow> rw_covered s"
  unfolding rw_covered_def by blast

lemma rw_reader_inv_fields [simp]:
  "rw_reader_inv (s\<lparr>rw_writer_futex := k\<rparr>) = rw_reader_inv s"
  "rw_reader_inv (s\<lparr>rw_wsleep := ws\<rparr>) = rw_reader_inv s"
proof -
  have c: "rw_covered (s\<lparr>rw_writer_futex := k\<rparr>) = rw_covered s" "rw_covered (s\<lparr>rw_wsleep := ws\<rparr>) = rw_covered s"
    by (simp_all add: rw_covered_def)
  have "rw_reader_ok (s\<lparr>rw_writer_futex := k\<rparr>) p = rw_reader_ok s p"
    "rw_reader_ok (s\<lparr>rw_wsleep := ws\<rparr>) p = rw_reader_ok s p" for p
    using c by (cases p; simp)+
  then show "rw_reader_inv (s\<lparr>rw_writer_futex := k\<rparr>) = rw_reader_inv s"
    "rw_reader_inv (s\<lparr>rw_wsleep := ws\<rparr>) = rw_reader_inv s"
    using c by (simp_all add: rw_reader_inv_def)
qed

lemma rw_reader_inv_sleep:
  assumes "rw_reader_inv s" and "rw_pcs s t = Rl_wait (rw_reader_futex s)"
  shows "rw_reader_inv (rw_goto t (Rl_asleep (rw_reader_futex s)) (s\<lparr>rw_rsleep := rw_rsleep s @ [t]\<rparr>))"
    (is "rw_reader_inv ?s")
proof -
  have "rw_reader_ok s (rw_pcs s t)" using assms(1) unfolding rw_reader_inv_def by blast
  then have "rw_covered s" using assms(2) by simp
  then have "rw_covered ?s"
    by (rule rw_covered_upd [where t = t and p = "Rl_asleep (rw_reader_futex s)"]) (simp_all add: rw_goto_def rw_announcing_def assms(2))
  then show ?thesis
    using assms(2)
    by (intro rw_reader_inv_upd [OF assms(1), where t = t and p = "Rl_asleep (rw_reader_futex s)"])
      (simp_all add: rw_goto_def rw_announcing_def rw_waking_def)
qed

lemma rw_reader_inv_interrupted:
  assumes "rw_reader_inv s" and "rw_pcs s t = Rl_asleep q"
  shows "rw_reader_inv (rw_goto t (Rl_wait q) (s\<lparr>rw_rsleep := removeAll t (rw_rsleep s)\<rparr>))"
    (is "rw_reader_inv ?s")
proof -
  have ok: "rw_reader_ok s (rw_pcs s t)" using assms(1) unfolding rw_reader_inv_def by blast
  have "rw_covered s \<Longrightarrow> rw_covered ?s"
    by (rule rw_covered_upd [where s = s and t = t and p = "Rl_wait q"])
      (simp_all add: rw_goto_def rw_announcing_def assms(2))
  then have "rw_reader_ok ?s (Rl_wait q)"
    using ok assms(2) by (auto simp: rw_goto_def)
  then show ?thesis
    using assms(2)
    by (intro rw_reader_inv_upd [OF assms(1), where t = t and p = "Rl_wait q"])
      (auto simp: rw_goto_def rw_announcing_def rw_waking_def)
qed

text \<open>The bump of \<open>reader_futex_\<close> invalidates every sequence number read before it.\<close>

lemma rw_reader_inv_bump:
  assumes "rw_reader_inv s" and "rw_waking p"
  shows "rw_reader_inv (rw_goto t p (s\<lparr>rw_reader_futex := rw_reader_futex s + 1\<rparr>))"
    (is "rw_reader_inv ?s")
proof -
  have "rw_reader_ok ?s (rw_pcs s u)" for u
  proof -
    have "rw_reader_ok s (rw_pcs s u)" using assms(1) unfolding rw_reader_inv_def by blast
    then show ?thesis by (cases "rw_pcs s u") (auto simp: rw_goto_def)
  qed
  moreover have "rw_reader_ok ?s p" using assms(2) by (auto simp: rw_waking_def)
  moreover have "\<exists>u. rw_waking (rw_pcs ?s u)"
    using assms(2) by (intro exI [of _ t]) (simp add: rw_goto_def)
  ultimately show ?thesis unfolding rw_reader_inv_def by (auto simp: rw_goto_def)
qed

lemma rw_reader_inv_wake:
  assumes "rw_reader_inv s" and "rw_local s" and "rw_waking (rw_pcs s t)" and "p = Reading \<or> p = Wu_wbump"
  shows "rw_reader_inv (rw_goto t p (rw_wake_readers s))" (is "rw_reader_inv ?s")
proof -
  have pcs: "rw_pcs ?s u = (if u = t then p else if u \<in> set (rw_rsleep s) then Rl_load else rw_pcs s u)"
    "rw_state ?s = rw_state s" "rw_reader_futex ?s = rw_reader_futex s" "rw_rsleep ?s = []" for u
    by (simp_all add: rw_goto_def rw_wake_readers_def)
  have cov: "rw_covered s \<Longrightarrow> rw_covered ?s"
    unfolding rw_covered_def pcs(2)
  proof (elim disjE exE)
    fix u assume u: "rw_announcing (rw_pcs s u)"
    then have "u \<noteq> t" using assms(3) by (auto simp: rw_announcing_def rw_waking_def)
    moreover have "rw_awake (rw_pcs s u)" using u by (auto simp: rw_announcing_def rw_awake_def)
    ultimately have "rw_pcs ?s u = rw_pcs s u"
      using rw_awake_not_queued(1) [OF assms(2)] by (simp add: pcs)
    then show "rw_flags (rw_state s) \<noteq> 0 \<or> (\<exists>u. rw_announcing (rw_pcs ?s u))" using u by metis
  qed blast
  have "rw_reader_ok ?s (rw_pcs s u)" for u
    using assms(1) cov pcs(3) unfolding rw_reader_inv_def by (blast intro: rw_reader_ok_mono)
  then show ?thesis using assms(4) unfolding rw_reader_inv_def pcs by auto
qed

lemma rw_flags_holding: "rw_flags kWriterHolding \<noteq> 0"
  using rw_encode_flags [of 0 True False] by (simp add: rw_encode_def kWriterHolding_exp)

lemma rw_flags_set_waiting:
  assumes "rw_inv N s" and "N < 2 ^ 29"
  shows "rw_flags (rw_state s OR kWriterWaiting) \<noteq> 0"
proof -
  obtain R :: "nat set" and w :: "nat option" and b
    where "card R < 2 ^ 29" "rw_state s = rw_encode (card R) (w \<noteq> None) b"
    using assms by (rule rw_invE)
  then show ?thesis by (simp add: rw_encode_or_waiting rw_encode_flags)
qed

lemma rw_flags_reader_out:
  assumes "rw_inv N s" and "N < 2 ^ 29" and "rw_role (rw_pcs s t) = Reader"
    and "rw_flags (rw_state s) \<noteq> 0"
  shows "rw_flags (rw_state s - 1) \<noteq> 0"
proof -
  obtain R w b where I: "rw_word N R w b (rw_state s) (rw_pcs s)" "card R < 2 ^ 29"
    "rw_state s = rw_encode (card R) (w \<noteq> None) b" "finite R"
    using assms(1,2) by (rule rw_invE)
  have "t \<in> R" using I(1) assms(3) unfolding rw_word_def by (auto split: if_splits)
  then obtain c where c: "card R = Suc c" using I(4) by (metis card_Suc_Diff1)
  then have "rw_state s - 1 = rw_encode c (w \<noteq> None) b" using I(3) by (simp add: rw_encode_def)
  then show ?thesis using assms(4) I(2,3) c by (simp add: rw_encode_flags)
qed

lemmas rw_reader_moves =
  rw_reader_inv_goto rw_reader_inv_put rw_reader_inv_sleep rw_reader_inv_interrupted
  rw_reader_inv_bump rw_reader_inv_wake rw_flags_holding rw_flags_set_waiting rw_flags_reader_out

lemma rw_lock_shared_reader_inv:
  assumes "rw_inv N s" and "rw_reader_inv s" and "rw_lock_shared t s (rw_pcs s t) = Some s'"
  shows "rw_reader_inv s'"
proof (cases "rw_pcs s t")
  case (Rl_cas v)
  then have "rw_flags v = 0"
    using rw_inv_local [OF assms(1)] by (simp add: rw_local_def)
  then show ?thesis
    using assms Rl_cas
    by (auto intro!: rw_reader_moves simp: rw_announcing_def rw_waking_def split: if_splits)
next
  case (Rl_recheck q)
  moreover have "rw_reader_ok s (rw_pcs s t)" using assms(2) unfolding rw_reader_inv_def by blast
  ultimately show ?thesis
    using assms
    by (auto intro!: rw_reader_moves rw_covered_flags
        simp: rw_announcing_def rw_waking_def split: if_splits)
qed (use assms in \<open>auto intro!: rw_reader_moves
    simp: rw_announcing_def rw_waking_def rw_wait_reader_def split: if_splits\<close>)

lemma rw_try_lock_shared_reader_inv:
  assumes "rw_reader_inv s" and "rw_try_lock_shared t s (rw_pcs s t) = Some s'"
  shows "rw_reader_inv s'"
  using assms
  by (cases "rw_pcs s t")
    (auto intro!: rw_reader_moves simp: rw_announcing_def rw_waking_def split: if_splits)

lemma rw_unlock_shared_reader_inv:
  assumes "rw_inv N s" and "N < 2 ^ 29" and "rw_reader_inv s"
    and "rw_unlock_shared t s (rw_pcs s t) = Some s'"
  shows "rw_reader_inv s'"
  using assms rw_flags_reader_out [OF assms(1,2), of t]
  by (cases "rw_pcs s t")
    (auto intro!: rw_reader_moves simp: rw_announcing_def rw_waking_def Let_def split: if_splits)

lemma rw_lock_reader_inv:
  assumes "rw_inv N s" and "N < 2 ^ 29" and "rw_reader_inv s" and "rw_lock t s (rw_pcs s t) = Some s'"
  shows "rw_reader_inv s'"
  using assms rw_flags_set_waiting [OF assms(1,2)]
  by (cases "rw_pcs s t")
    (auto intro!: rw_reader_inv_goto rw_reader_inv_put
      simp: rw_announcing_def rw_waking_def rw_flags_holding rw_wait_writer_def split: if_splits)

lemma rw_try_lock_reader_inv:
  assumes "rw_reader_inv s" and "rw_try_lock t s (rw_pcs s t) = Some s'"
  shows "rw_reader_inv s'"
  using assms
  by (cases "rw_pcs s t")
    (auto intro!: rw_reader_inv_goto rw_reader_inv_put
      simp: rw_announcing_def rw_waking_def rw_flags_holding split: if_splits)

lemma rw_unlock_reader_inv:
  assumes "rw_inv N s" and "rw_reader_inv s" and "rw_unlock t s (rw_pcs s t) = Some s'"
  shows "rw_reader_inv s'"
proof (cases "rw_pcs s t")
  case Wu_rbump
  then show ?thesis
    using assms(3) rw_reader_inv_bump [OF assms(2), of Wu_rwake t] by (simp add: rw_waking_def)
qed (use assms rw_inv_local [OF assms(1)] in
   \<open>auto intro!: rw_reader_inv_goto rw_reader_inv_put rw_reader_inv_wake
      simp: rw_announcing_def rw_waking_def\<close>)

lemma rw_try_upgrade_reader_inv:
  assumes "rw_reader_inv s" and "rw_try_upgrade t s (rw_pcs s t) = Some s'"
  shows "rw_reader_inv s'"
  using assms
  by (cases "rw_pcs s t")
    (auto intro!: rw_reader_inv_goto rw_reader_inv_put
      simp: rw_announcing_def rw_waking_def rw_flags_holding split: if_splits)

lemma rw_downgrade_reader_inv:
  assumes "rw_inv N s" and "rw_reader_inv s" and "rw_downgrade t s (rw_pcs s t) = Some s'"
  shows "rw_reader_inv s'"
proof (cases "rw_pcs s t")
  case Dg_rbump
  then show ?thesis
    using assms(3) rw_reader_inv_bump [OF assms(2), of Dg_rwake t] by (simp add: rw_waking_def)
qed (use assms rw_inv_local [OF assms(1)] in
   \<open>auto intro!: rw_reader_inv_goto rw_reader_inv_put rw_reader_inv_wake
      simp: rw_announcing_def rw_waking_def\<close>)

lemma rw_cas_fails_reader_inv:
  assumes "rw_reader_inv s" and "rw_cas_fails t s (rw_pcs s t) = Some s'"
  shows "rw_reader_inv s'"
  using assms
  by (cases "rw_pcs s t")
    (auto intro!: rw_reader_inv_goto simp: rw_announcing_def rw_waking_def split: if_splits)

lemma rw_interrupted_reader_inv:
  assumes "rw_reader_inv s" and "rw_interrupted t s (rw_pcs s t) = Some s'"
  shows "rw_reader_inv s'"
  using assms
  by (cases "rw_pcs s t")
    (auto intro!: rw_reader_inv_interrupted rw_reader_inv_goto simp: rw_announcing_def rw_waking_def)

lemma rw_wake_reader_inv:
  assumes "rw_inv N s" and "rw_reader_inv s" and "rw_wake t who s = Some s'"
  shows "rw_reader_inv s'"
proof -
  obtain u where p: "rw_pcs s t = Ru_wake \<or> rw_pcs s t = Wu_wwake"
    and u: "rw_wake_writer who s = Some u" "s' = rw_goto t Idle u"
    using assms(3) by (auto simp: rw_wake_def split: if_splits)
  have "rw_pcs u t = rw_pcs s t"
    using rw_wake_writer_inv [OF assms(1) u(1)] p by (auto simp: rw_awake_def)
  moreover have "rw_reader_inv u"
  proof (cases who)
    case None
    then show ?thesis using u(1) assms(2) by (auto simp: rw_wake_writer_def split: if_splits)
  next
    case (Some x)
    then have x: "x \<in> set (rw_wsleep s)"
      "u = rw_goto x Wl_load (s\<lparr>rw_wsleep := removeAll x (rw_wsleep s)\<rparr>)"
      using u(1) by (auto simp: rw_wake_writer_def split: if_splits)
    then obtain q where "rw_pcs s x = Wl_asleep q"
      using rw_inv_local [OF assms(1)] unfolding rw_local_def by blast
    then show ?thesis
      using x assms(2) by (auto intro!: rw_reader_inv_goto simp: rw_announcing_def rw_waking_def)
  qed
  ultimately show ?thesis
    using p u(2) by (auto intro!: rw_reader_inv_goto simp: rw_announcing_def rw_waking_def)
qed

lemma rw_step_reader_inv:
  assumes "rw_inv N s" and "N < 2 ^ 29" and "rw_reader_inv s" and "rw_step t s = Some s'"
  shows "rw_reader_inv s'"
  using rw_first_Some [OF assms(4) [unfolded rw_step_def]] assms(1-3)
    rw_lock_shared_reader_inv rw_try_lock_shared_reader_inv rw_unlock_shared_reader_inv
    rw_lock_reader_inv rw_try_lock_reader_inv rw_unlock_reader_inv rw_try_upgrade_reader_inv
    rw_downgrade_reader_inv
  unfolding list.map set_simps insert_iff empty_iff by metis

lemma rw_call_reader_inv:
  assumes "rw_reader_inv s" and "rw_entry p = Some (rw_pcs s t)"
  shows "rw_reader_inv (rw_goto t p s)"
proof -
  have "\<not> rw_announcing (rw_pcs s t) \<and> \<not> rw_waking (rw_pcs s t) \<and> rw_reader_ok (rw_goto t p s) p"
    using assms(2) by (cases p) (auto simp: rw_announcing_def rw_waking_def)
  then show ?thesis using assms(1) by (auto intro: rw_reader_inv_goto)
qed

lemma rw_next_reader_inv:
  assumes "rw_next (t, a) s = Some s'" and "rw_inv N s" and "N < 2 ^ 29" and "rw_reader_inv s"
  shows "rw_reader_inv s'"
proof (cases a)
  case (Rw_call p)
  then show ?thesis using assms by (auto intro: rw_call_reader_inv split: if_splits)
qed (use assms in \<open>auto intro: rw_step_reader_inv rw_cas_fails_reader_inv rw_wake_reader_inv
   rw_interrupted_reader_inv\<close>)

lemma rw_init_reader_inv: "rw_reader_inv rw_init"
  by (simp add: rw_reader_inv_def rw_init_def)

section \<open>Properties\<close>

text \<open>
  At most \<open>2 ^ 29 - 1\<close> threads use one lock, so that the reader count cannot reach the flag bits.
\<close>

definition rw_max_threads :: nat where
  "rw_max_threads = 2 ^ 29 - 1"

definition rw_thread_ok :: "nat \<times> rw_act \<Rightarrow> bool" where
  "rw_thread_ok l \<longleftrightarrow> fst l < rw_max_threads"

definition rw_full_inv :: "rw \<Rightarrow> bool" where
  "rw_full_inv s \<longleftrightarrow> rw_inv rw_max_threads s \<and> rw_reader_inv s"

lemma rw_max_threads_less: "rw_max_threads < 2 ^ 29"
  by (simp add: rw_max_threads_def)

lemma rw_inv_writer_alone:
  assumes "rw_inv N s" and "rw_writes s t"
  shows "\<not> rw_reads s u \<and> (rw_writes s u \<longrightarrow> u = t)"
proof -
  obtain R w b where "rw_word N R w b (rw_state s) (rw_pcs s)"
    using assms(1) unfolding rw_inv_def by blast
  then have "\<And>t. rw_reads s t \<longleftrightarrow> t \<in> R" "\<And>t. rw_writes s t \<longleftrightarrow> w = Some t" "w \<noteq> None \<longrightarrow> R = {}"
    unfolding rw_word_def rw_reads_def rw_writes_def by auto
  then show ?thesis using assms(2) by simp
qed

interpretation rwm: rw_lock_system rw_next rw_init rw_full_inv rw_thread_ok rw_reads rw_writes
proof
  show "rw_full_inv rw_init"
    by (simp add: rw_full_inv_def rw_init_inv rw_init_reader_inv)
  show "rw_full_inv s'" if "rw_next l s = Some s'" "rw_thread_ok l" "rw_full_inv s" for l s s'
    using that rw_max_threads_less
    by (cases l) (auto simp: rw_full_inv_def rw_thread_ok_def intro: rw_next_inv rw_next_reader_inv)
  show "\<not> rw_reads s u \<and> (rw_writes s u \<longrightarrow> u = t)" if "rw_full_inv s" "rw_writes s t" for s t u
    using that rw_inv_writer_alone by (auto simp: rw_full_inv_def)
qed

lemma rw_inv_readers:
  assumes "rw_inv N s" and "N < 2 ^ 29"
  shows "rw_state s AND kReaderMask = int (card {t. rw_reads s t})"
    and "rw_state s AND kWriterHolding \<noteq> 0 \<longleftrightarrow> (\<exists>t. rw_writes s t)"
    and "0 \<le> rw_state s \<and> rw_state s < 2 ^ 31"
proof -
  obtain R w b where I: "rw_word N R w b (rw_state s) (rw_pcs s)" "card R < 2 ^ 29"
    "rw_state s = rw_encode (card R) (w \<noteq> None) b"
    using assms by (rule rw_invE)
  have "{t. rw_reads s t} = R"
    using I(1) unfolding rw_word_def rw_reads_def by (auto split: if_splits)
  then show "rw_state s AND kReaderMask = int (card {t. rw_reads s t})"
    using I by (simp add: rw_encode_readers)
  have "(\<exists>t. rw_writes s t) \<longleftrightarrow> w \<noteq> None"
    using I(1) unfolding rw_word_def rw_writes_def by (auto split: if_splits)
  then show "rw_state s AND kWriterHolding \<noteq> 0 \<longleftrightarrow> (\<exists>t. rw_writes s t)"
    using I by (simp add: rw_encode_holding)
  show "0 \<le> rw_state s \<and> rw_state s < 2 ^ 31"
    using I by (auto simp: rw_encode_def)
qed

text \<open>
  Claim C3. Exclusion of \<open>FutexRwMutex\<close>: in every interleaving of \<open>lock_shared\<close>, \<open>try_lock_shared\<close>,
  \<open>unlock_shared\<close>, \<open>lock\<close>, \<open>try_lock\<close>, \<open>unlock\<close>, \<open>try_upgrade\<close> and \<open>downgrade\<close> by fewer than
  \<open>2 ^ 29 - 1\<close> threads, with spurious failures and signals anywhere, a thread that holds the write
  lock is the only writer and there is no reader.
\<close>

theorem rw_exclusion:
  assumes "run rw_next ls rw_init = Some s" and "list_all rw_thread_ok ls" and "rw_writes s t"
  shows "\<not> rw_reads s u \<and> (rw_writes s u \<longrightarrow> u = t)"
  using assms by (rule rwm.rw_lock_exclusion)

definition rw_upgrade_schedule :: "(nat \<times> rw_act) list" where
  "rw_upgrade_schedule =
     [(0, Rw_call Rl_load), (0, Rw_step), (0, Rw_step), (0, Rw_call Up_cas), (0, Rw_step)]"

lemmas rw_exec =
  rw_init_def rw_goto_def rw_put_def rw_flags_def rw_step_def rw_wake_def rw_wake_writer_def
  rw_wake_readers_def rw_wait_reader_def rw_wait_writer_def kWriterHolding_def kWriterWaiting_def
  kReaderMask_def push_bit_eq_mult

theorem rw_exclusion_witness:
  "\<exists>s. run rw_next rw_upgrade_schedule rw_init = Some s \<and> list_all rw_thread_ok rw_upgrade_schedule
     \<and> rw_writes s 0 \<and> \<not> rw_reads s 1 \<and> (rw_writes s 1 \<longrightarrow> (1::nat) = 0)"
proof -
  define s where "s = rw_init\<lparr>rw_state := kWriterHolding, rw_pcs := (\<lambda>_. Idle)(0 := Writing)\<rparr>"
  have r: "run rw_next rw_upgrade_schedule rw_init = Some s"
    by (simp add: rw_upgrade_schedule_def rw_exec s_def)
  have ok: "list_all rw_thread_ok rw_upgrade_schedule"
    by (simp add: rw_upgrade_schedule_def rw_thread_ok_def rw_max_threads_def)
  have w: "rw_writes s 0" by (simp add: s_def rw_writes_def)
  show ?thesis using r ok w rw_exclusion [OF r ok w, of 1] by blast
qed

text \<open>
  Claim C4. The lock word always says who holds the lock: its low 29 bits are the number of
  threads holding it shared, its bit 30 is set exactly when some thread holds it exclusively, and
  it never leaves the non-negative range of a 32-bit \<open>int\<close>, so no operation overflows.
\<close>

theorem rw_word_decodes:
  assumes "run rw_next ls rw_init = Some s" and "list_all rw_thread_ok ls"
  shows "rw_state s AND kReaderMask = int (card {t. rw_reads s t}) \<and>
    (rw_state s AND kWriterHolding \<noteq> 0 \<longleftrightarrow> (\<exists>t. rw_writes s t)) \<and>
    0 \<le> rw_state s \<and> rw_state s < 2 ^ 31"
  using rwm.guarded_run [OF assms] rw_inv_readers [OF _ rw_max_threads_less]
  unfolding rw_full_inv_def by blast

theorem rw_word_decodes_witness:
  "\<exists>s. run rw_next rw_upgrade_schedule rw_init = Some s \<and> list_all rw_thread_ok rw_upgrade_schedule
     \<and> rw_state s = kWriterHolding \<and> rw_state s AND kReaderMask = int (card {t. rw_reads s t}) \<and>
    (rw_state s AND kWriterHolding \<noteq> 0 \<longleftrightarrow> (\<exists>t. rw_writes s t)) \<and>
    0 \<le> rw_state s \<and> rw_state s < 2 ^ 31"
proof -
  define s where "s = rw_init\<lparr>rw_state := kWriterHolding, rw_pcs := (\<lambda>_. Idle)(0 := Writing)\<rparr>"
  have r: "run rw_next rw_upgrade_schedule rw_init = Some s"
    by (simp add: rw_upgrade_schedule_def rw_exec s_def)
  have ok: "list_all rw_thread_ok rw_upgrade_schedule"
    by (simp add: rw_upgrade_schedule_def rw_thread_ok_def rw_max_threads_def)
  have "rw_state s = kWriterHolding" by (simp add: s_def)
  then show ?thesis using r ok rw_word_decodes [OF r ok] by blast
qed


definition rw_reader_schedule :: "(nat \<times> rw_act) list" where
  "rw_reader_schedule =
     [(0, Rw_call Wt_cas), (0, Rw_step),
      (1, Rw_call Rl_load), (1, Rw_step), (1, Rw_step), (1, Rw_step), (1, Rw_step),
      (0, Rw_call Wu_store), (0, Rw_step), (0, Rw_step), (0, Rw_step), (0, Rw_step),
      (0, Rw_wake_nobody)]"


text \<open>
  The writer's side has no such guarantee. Thread 1 sets the waiting bit while thread 0 writes;
  thread 0 releases (which clears the bit) and comes back as a reader; thread 1 reads
  \<open>writer_futex_\<close> only now, sees the reader and sleeps; thread 0 leaves and finds no waiting bit.
\<close>

definition rw_writer_schedule :: "(nat \<times> rw_act) list" where
  "rw_writer_schedule =
     [(0, Rw_call Wl_load), (0, Rw_step), (0, Rw_step),
      (1, Rw_call Wl_load), (1, Rw_step), (1, Rw_step),
      (0, Rw_call Wu_store), (0, Rw_step), (0, Rw_step), (0, Rw_step), (0, Rw_step),
      (0, Rw_wake_nobody),
      (0, Rw_call Rl_load), (0, Rw_step), (0, Rw_step),
      (1, Rw_step), (1, Rw_step), (1, Rw_step),
      (0, Rw_call Ru_sub), (0, Rw_step)]"

text \<open>
  A writer's wake-up can be lost with two threads: after \<open>rw_writer_schedule\<close> the word is
  0 (nobody holds the lock and no bit announces a waiter), thread 0 is outside the lock, and thread
  1 sleeps on \<open>writer_futex_\<close> inside \<open>lock()\<close>.
\<close>

lemma rw_writer_lost_wakeup:
  "run rw_next rw_writer_schedule rw_init =
     Some \<lparr>rw_state = 0, rw_writer_futex = 1, rw_reader_futex = 1, rw_wsleep = [1], rw_rsleep = [],
       rw_pcs = (\<lambda>_. Idle)(1 := Wl_asleep 1)\<rparr>"
  by (simp add: rw_writer_schedule_def rw_exec fun_eq_iff)

text \<open>The same loss through \<open>downgrade\<close>, whose \<open>store(1)\<close> erases the waiting bit of a sleeper.\<close>

definition rw_downgrade_schedule :: "(nat \<times> rw_act) list" where
  "rw_downgrade_schedule =
     [(0, Rw_call Wl_load), (0, Rw_step), (0, Rw_step),
      (1, Rw_call Wl_load), (1, Rw_step), (1, Rw_step), (1, Rw_step), (1, Rw_step), (1, Rw_step),
      (0, Rw_call Dg_store), (0, Rw_step), (0, Rw_step), (0, Rw_step),
      (0, Rw_call Ru_sub), (0, Rw_step)]"

text \<open>
  \<open>downgrade\<close> loses a waiting writer: after \<open>rw_downgrade_schedule\<close> thread 0 has downgraded
  and released its read hold, the word is 0, and thread 1, asleep on \<open>writer_futex_\<close> since before
  the downgrade, has not been woken.
\<close>

lemma rw_downgrade_lost_wakeup:
  "run rw_next rw_downgrade_schedule rw_init =
     Some \<lparr>rw_state = 0, rw_writer_futex = 0, rw_reader_futex = 1, rw_wsleep = [1], rw_rsleep = [],
       rw_pcs = (\<lambda>_. Idle)(1 := Wl_asleep 0)\<rparr>"
  by (simp add: rw_downgrade_schedule_def rw_exec fun_eq_iff)
end
