(* ===== verification/Thread_Pool.thy ===== *)
theory Thread_Pool
  imports Pman_Prelude
begin

text \<open>
  \<open>ThreadPool\<close> of src/src/thread_pool.cpp: workers that share a queue under \<open>mutex_\<close> and a condition
  variable. A step is one section under the mutex, one notification, or the end of a job. A pool has
  any number of submitting threads; \<open>tp_notifies\<close> counts those between their \<open>push_back\<close> and their
  \<open>notify_one\<close>. Jobs are numbers; \<open>tp_submitted\<close>, \<open>tp_started\<close> and \<open>tp_done\<close> record what happened to them.
  Shown: jobs start in the order of their submission, each once; no job is stranded while a worker
  sleeps; when the destructor has joined the workers every job is done.
\<close>

section \<open>State\<close>

datatype tp_worker = Absent | Ready | Blocked | Running nat | Exited

record tp =
  tp_queue :: "nat list"
  tp_shuttingDown :: bool
  tp_workers :: "nat \<Rightarrow> tp_worker"
  tp_notifies :: nat
  tp_notify_all :: bool
  tp_submitted :: "nat list"
  tp_started :: "nat list"
  tp_done :: "nat list"

datatype tp_act =
    Submit nat
  | Notify_one nat
  | Notify_nobody
  | Shut_down
  | Notify_all
  | Worker_step nat
  | Worker_spurious nat

text \<open>The constructor: \<open>workerCount\<close> workers start their loop.\<close>

definition tp_init :: "nat \<Rightarrow> tp" where
  "tp_init n = \<lparr>tp_queue = [], tp_shuttingDown = False, tp_workers = (\<lambda>i. if i < n then Ready else Absent),
     tp_notifies = 0, tp_notify_all = False, tp_submitted = [], tp_started = [], tp_done = []\<rparr>"

definition tp_new :: "nat \<Rightarrow> tp result" where
  "tp_new workerCount = (if workerCount = 0 then Inl Invalid_argument else Inr (tp_init workerCount))"

definition tp_worker_set :: "nat \<Rightarrow> tp_worker \<Rightarrow> tp \<Rightarrow> tp" where
  "tp_worker_set i w s = s\<lparr>tp_workers := (tp_workers s)(i := w)\<rparr>"

section \<open>Operations\<close>

text \<open>\<open>submit\<close> up to the end of its section under the mutex; \<open>job = None\<close> is an empty function.\<close>

definition tp_submit :: "nat option \<Rightarrow> tp \<Rightarrow> unit result \<times> tp" where
  "tp_submit job s =
     (case job of
        None \<Rightarrow> (Inl Invalid_argument, s)
      | Some j \<Rightarrow>
          (if tp_shuttingDown s then (Inl Runtime_error, s)
           else (Inr (), s\<lparr>tp_queue := tp_queue s @ [j], tp_submitted := tp_submitted s @ [j],
                          tp_notifies := tp_notifies s + 1\<rparr>)))"

text \<open>\<open>cv_.notify_one()\<close> after a submission: one blocked worker, or nobody if none is blocked.\<close>

definition tp_notify_one :: "nat option \<Rightarrow> tp \<Rightarrow> tp option" where
  "tp_notify_one who s =
     (if tp_notifies s = 0 then None
      else (case who of
        Some i \<Rightarrow> if tp_workers s i = Blocked
                  then Some (tp_worker_set i Ready (s\<lparr>tp_notifies := tp_notifies s - 1\<rparr>)) else None
      | None \<Rightarrow> Some (s\<lparr>tp_notifies := tp_notifies s - 1\<rparr>)))"

text \<open>The destructor: the flag under the mutex, then \<open>notify_all\<close>; it joins the workers after that.\<close>

definition tp_shut_down :: "tp \<Rightarrow> tp" where
  "tp_shut_down s = s\<lparr>tp_shuttingDown := True, tp_notify_all := True\<rparr>"

definition tp_notifyAll :: "tp \<Rightarrow> tp option" where
  "tp_notifyAll s =
     (if tp_notify_all s
      then Some (s\<lparr>tp_notify_all := False, tp_workers := (\<lambda>i. if tp_workers s i = Blocked then Ready else tp_workers s i)\<rparr>)
      else None)"

text \<open>
  \<open>workerLoop\<close>: a worker that has the mutex waits, takes the front job, or leaves; a running worker
  finishes its job, whether it throws or not.
\<close>

definition tp_workerLoop :: "nat \<Rightarrow> tp \<Rightarrow> tp option" where
  "tp_workerLoop i s =
     (case tp_workers s i of
        Ready \<Rightarrow>
          Some (case tp_queue s of
                  [] \<Rightarrow> tp_worker_set i (if tp_shuttingDown s then Exited else Blocked) s
                | j # js \<Rightarrow> tp_worker_set i (Running j) (s\<lparr>tp_queue := js, tp_started := tp_started s @ [j]\<rparr>))
      | Running j \<Rightarrow> Some (tp_worker_set i Ready (s\<lparr>tp_done := tp_done s @ [j]\<rparr>))
      | _ \<Rightarrow> None)"

definition tp_blocked :: "tp \<Rightarrow> bool" where
  "tp_blocked s \<longleftrightarrow> (\<exists>i. tp_workers s i = Blocked)"

fun tp_next :: "tp_act \<Rightarrow> tp \<Rightarrow> tp option" where
  "tp_next (Submit j) s = Some (snd (tp_submit (Some j) s))"
| "tp_next (Notify_one i) s = tp_notify_one (Some i) s"
| "tp_next Notify_nobody s = (if tp_blocked s then None else tp_notify_one None s)"
| "tp_next Shut_down s = Some (tp_shut_down s)"
| "tp_next Notify_all s = tp_notifyAll s"
| "tp_next (Worker_step i) s = tp_workerLoop i s"
| "tp_next (Worker_spurious i) s = (if tp_workers s i = Blocked then Some (tp_worker_set i Ready s) else None)"

text \<open>Placement of the workers: \<open>setAffinity\<close> on the joinable ones, and round robin over the CPUs.\<close>

definition tp_setAffinity :: "bool list \<Rightarrow> 'c \<Rightarrow> (nat \<times> 'c) list" where
  "tp_setAffinity joinable cpuset = map (\<lambda>i. (i, cpuset)) (filter (\<lambda>i. joinable ! i) [0..<length joinable])"

definition tp_distributeByTopology :: "bool list \<Rightarrow> 'c list \<Rightarrow> (nat \<times> 'c) list" where
  "tp_distributeByTopology joinable cpus =
     (if cpus = [] then []
      else map (\<lambda>i. (i, cpus ! (i mod length cpus))) (filter (\<lambda>i. joinable ! i) [0..<length joinable]))"

section \<open>Invariant\<close>

text \<open>A worker that will look at the queue before it can block.\<close>

fun tp_awake :: "tp_worker \<Rightarrow> int" where
  "tp_awake Ready = 1"
| "tp_awake (Running j) = 1"
| "tp_awake _ = 0"

fun tp_runs :: "nat \<Rightarrow> tp_worker \<Rightarrow> int" where
  "tp_runs j (Running k) = (if k = j then 1 else 0)"
| "tp_runs j _ = 0"

definition tp_inv :: "nat \<Rightarrow> tp \<Rightarrow> bool" where
  "tp_inv n s \<longleftrightarrow>
     (\<forall>i. tp_workers s i = Absent \<longleftrightarrow> i \<ge> n) \<and>
     tp_submitted s = tp_started s @ tp_queue s \<and>
     (\<forall>j. int (count_list (tp_started s) j) = int (count_list (tp_done s) j) + weigh (tp_runs j) (tp_workers s)) \<and>
     (\<forall>i. tp_workers s i = Exited \<longrightarrow> tp_shuttingDown s \<and> tp_queue s = []) \<and>
     (tp_blocked s \<longrightarrow> int (length (tp_queue s)) \<le> int (tp_notifies s) + weigh tp_awake (tp_workers s)) \<and>
     (tp_blocked s \<and> tp_shuttingDown s \<longrightarrow> tp_notify_all s)"

lemma tp_finite: "(\<forall>i. g i = Absent \<longleftrightarrow> (n :: nat) \<le> i) \<Longrightarrow> finite {i. g i \<noteq> Absent}"
proof -
  assume "\<forall>i. g i = Absent \<longleftrightarrow> n \<le> i"
  then have "{i. g i \<noteq> Absent} = {i. \<not> n \<le> i}" by simp
  also have "\<dots> = {..<n}" by auto
  finally show ?thesis by simp
qed

lemma tp_present: "tp_inv n s \<Longrightarrow> tp_workers s i = Absent \<longleftrightarrow> n \<le> i"
  by (simp add: tp_inv_def)

lemma tp_weigh_upd:
  assumes "tp_inv n s"
  shows "weigh tp_awake ((tp_workers s)(i := w)) = weigh tp_awake (tp_workers s) - tp_awake (tp_workers s i) + tp_awake w"
    and "weigh (tp_runs j) ((tp_workers s)(i := w)) = weigh (tp_runs j) (tp_workers s) - tp_runs j (tp_workers s i) + tp_runs j w"
proof -
  have fin: "finite {i. tp_workers s i \<noteq> Absent}" by (rule tp_finite [of _ n]) (use assms in \<open>simp add: tp_inv_def\<close>)
  show "weigh tp_awake ((tp_workers s)(i := w)) = weigh tp_awake (tp_workers s) - tp_awake (tp_workers s i) + tp_awake w"
    by (rule weigh_upd [OF finite_weights [OF fin]]) simp
  show "weigh (tp_runs j) ((tp_workers s)(i := w)) = weigh (tp_runs j) (tp_workers s) - tp_runs j (tp_workers s i) + tp_runs j w"
    by (rule weigh_upd [OF finite_weights [OF fin]]) simp
qed

lemma tp_awake_nonneg: "0 \<le> weigh tp_awake g"
proof (rule weigh_nonneg_on)
  show "0 \<le> tp_awake (g i)" for i by (cases "g i") simp_all
qed

lemma tp_inv_wake:
  assumes "tp_inv n s" "tp_workers s i = Blocked" "tp_notifies s \<le> k + 1"
  shows "tp_inv n (tp_worker_set i Ready (s\<lparr>tp_notifies := k\<rparr>))"
proof -
  have b: "tp_blocked s" using assms(2) by (auto simp: tp_blocked_def)
  have "\<not> n \<le> i" using tp_present [OF assms(1), of i] assms(2) by simp
  then show ?thesis
    using assms b tp_weigh_upd [OF assms(1), where i = i and w = Ready] unfolding tp_inv_def
    by (auto simp: tp_worker_set_def)
qed

lemma tp_inv_submit: "tp_inv n s \<Longrightarrow> tp_inv n (snd (tp_submit (Some j) s))"
  by (auto simp: tp_submit_def tp_inv_def tp_blocked_def)

lemma tp_inv_notify_nobody:
  assumes "tp_inv n s" "\<not> tp_blocked s" "tp_notify_one None s = Some s'"
  shows "tp_inv n s'"
  using assms by (auto simp: tp_notify_one_def tp_inv_def tp_blocked_def split: if_splits)

lemma tp_inv_notify_one:
  assumes "tp_inv n s" "tp_notify_one (Some i) s = Some s'"
  shows "tp_inv n s'"
  using assms tp_inv_wake [OF assms(1), of i "tp_notifies s - 1"]
  by (auto simp: tp_notify_one_def split: if_splits)

lemma tp_inv_notify_all:
  assumes "tp_inv n s" "tp_notifyAll s = Some s'"
  shows "tp_inv n s'"
proof -
  let ?g = "\<lambda>i. if tp_workers s i = Blocked then Ready else tp_workers s i"
  have s': "s' = s\<lparr>tp_notify_all := False, tp_workers := ?g\<rparr>"
    using assms(2) by (auto simp: tp_notifyAll_def split: if_splits)
  have r: "tp_runs j (?g i) = tp_runs j (tp_workers s i)" for i j by simp
  have "weigh (tp_runs j) ?g = weigh (tp_runs j) (tp_workers s)" for j unfolding weigh_def r ..
  moreover have "\<not> tp_blocked s'" by (simp add: s' tp_blocked_def)
  moreover have "?g i = Absent \<longleftrightarrow> tp_workers s i = Absent" "?g i = Exited \<longleftrightarrow> tp_workers s i = Exited" for i by simp_all
  ultimately show ?thesis using assms(1) unfolding tp_inv_def by (simp add: s')
qed

lemma tp_inv_worker:
  assumes "tp_inv n s" "tp_workerLoop i s = Some s'"
  shows "tp_inv n s'"
proof (cases "tp_workers s i")
  case Ready
  have p: "\<not> n \<le> i" using tp_present [OF assms(1), of i] Ready by simp
  note w = tp_weigh_upd [OF assms(1), where i = i]
  show ?thesis
  proof (cases "tp_queue s")
    case Nil
    let ?w = "if tp_shuttingDown s then Exited else Blocked"
    have s': "s' = tp_worker_set i ?w s" using assms(2) Ready Nil by (simp add: tp_workerLoop_def)
    have "weigh (tp_runs j) ((tp_workers s)(i := ?w)) = weigh (tp_runs j) (tp_workers s)" for j
      using w(2) [where j = j and w = ?w] Ready by simp
    moreover have "0 \<le> weigh tp_awake ((tp_workers s)(i := ?w))" by (rule tp_awake_nonneg)
    ultimately show ?thesis
      using assms(1) Ready Nil p unfolding tp_inv_def s' by (auto simp: tp_worker_set_def tp_blocked_def)
  next
    case (Cons j js)
    have s': "s' = tp_worker_set i (Running j) (s\<lparr>tp_queue := js, tp_started := tp_started s @ [j]\<rparr>)"
      using assms(2) Ready Cons by (simp add: tp_workerLoop_def)
    have "weigh (tp_runs k) ((tp_workers s)(i := Running j)) = weigh (tp_runs k) (tp_workers s) + (if j = k then 1 else 0)" for k
      using w(2) [where j = k and w = "Running j"] Ready by simp
    moreover have "weigh tp_awake ((tp_workers s)(i := Running j)) = weigh tp_awake (tp_workers s)"
      using w(1) [where w = "Running j"] Ready by simp
    moreover have "tp_blocked s' \<longleftrightarrow> tp_blocked s" using Ready by (simp add: s' tp_worker_set_def tp_blocked_def) (metis tp_worker.distinct(9))
    ultimately show ?thesis
      using assms(1) Ready Cons p unfolding tp_inv_def by (auto simp: s' tp_worker_set_def split: if_splits)
  qed
next
  case (Running j)
  have p: "\<not> n \<le> i" using tp_present [OF assms(1), of i] Running by simp
  note w = tp_weigh_upd [OF assms(1), where i = i]
  have s': "s' = tp_worker_set i Ready (s\<lparr>tp_done := tp_done s @ [j]\<rparr>)"
    using assms(2) Running by (simp add: tp_workerLoop_def)
  have "weigh (tp_runs k) ((tp_workers s)(i := Ready)) = weigh (tp_runs k) (tp_workers s) - (if j = k then 1 else 0)" for k
    using w(2) [where j = k and w = Ready] Running by simp
  moreover have "weigh tp_awake ((tp_workers s)(i := Ready)) = weigh tp_awake (tp_workers s)"
    using w(1) [where w = Ready] Running by simp
  moreover have "tp_blocked s' \<longleftrightarrow> tp_blocked s" using Running by (simp add: s' tp_worker_set_def tp_blocked_def) (metis tp_worker.distinct(15))
  ultimately show ?thesis
    using assms(1) Running p unfolding tp_inv_def by (auto simp: s' tp_worker_set_def)
qed (use assms in \<open>simp_all add: tp_workerLoop_def\<close>)

lemma tp_inv_next:
  assumes "tp_next l s = Some s'" "tp_inv n s"
  shows "tp_inv n s'"
proof (cases "(l, s)" rule: tp_next.cases)
  case (4 r)
  then show ?thesis using assms by (auto simp: tp_shut_down_def tp_inv_def tp_blocked_def)
next
  case (7 i r)
  then show ?thesis using assms tp_inv_wake [OF assms(2), of i "tp_notifies s"] by (auto split: if_splits)
qed (use assms in \<open>auto intro: tp_inv_submit tp_inv_notify_one tp_inv_notify_nobody tp_inv_notify_all tp_inv_worker split: if_splits\<close>)

lemma tp_inv_init: "tp_inv n (tp_init n)"
proof -
  have "weigh (tp_runs j) (\<lambda>i. if i < n then Ready else Absent) = 0" for j by (simp add: weigh_def)
  then show ?thesis by (auto simp: tp_inv_def tp_init_def tp_blocked_def not_le)
qed

interpretation tpx: step_system tp_next "tp_init n" "tp_inv n" for n
  by unfold_locales (auto intro: tp_inv_init tp_inv_next)

section \<open>Properties\<close>

text \<open>
  Claim C26. In every interleaving the jobs that have started are a prefix of the submissions in order,
  each accepted job is started at most once, and what has started is running or done, with
  multiplicities. A job that waits always has an awake worker or a pending notification, so it is
  never stranded; and once every worker has exited, every accepted job is done.
\<close>

theorem thread_pool_runs_all:
  assumes "reachable tp_next (tp_init n) s" "0 < n"
  shows "tp_submitted s = tp_started s @ tp_queue s \<and>
    (\<forall>j. int (count_list (tp_started s) j) = int (count_list (tp_done s) j) + weigh (tp_runs j) (tp_workers s)) \<and>
    (tp_queue s \<noteq> [] \<longrightarrow> 0 < tp_notifies s \<or> (\<exists>i. 0 < tp_awake (tp_workers s i))) \<and>
    ((\<forall>i < n. tp_workers s i = Exited) \<longrightarrow> (\<forall>j. count_list (tp_done s) j = count_list (tp_submitted s) j))"
proof -
  note i = tpx.inv_reachable [OF assms(1)]
  have "0 < tp_notifies s \<or> (\<exists>i. 0 < tp_awake (tp_workers s i))" if q: "tp_queue s \<noteq> []"
  proof (cases "tp_blocked s")
    case True
    then have "0 < int (tp_notifies s) + weigh tp_awake (tp_workers s)"
    proof -
      have "0 < int (length (tp_queue s))" using q by simp
      moreover have "int (length (tp_queue s)) \<le> int (tp_notifies s) + weigh tp_awake (tp_workers s)"
        using i True by (simp add: tp_inv_def)
      ultimately show ?thesis by linarith
    qed
    then consider "0 < tp_notifies s" | "weigh tp_awake (tp_workers s) \<noteq> 0" by linarith
    then show ?thesis
    proof cases
      case 2
      then obtain i where "tp_awake (tp_workers s i) \<noteq> 0"
        unfolding weigh_def by (metis (mono_tags, lifting) mem_Collect_eq sum.neutral)
      then show ?thesis by (cases "tp_workers s i") (auto intro!: exI [of _ i])
    qed simp
  next
    case False
    have "tp_workers s 0 \<noteq> Absent" "tp_workers s 0 \<noteq> Exited" using i assms(2) q by (auto simp: tp_inv_def)
    then show ?thesis using False by (cases "tp_workers s 0") (auto simp: tp_blocked_def intro!: exI [of _ 0])
  qed
  moreover have "count_list (tp_done s) j = count_list (tp_submitted s) j" if e: "\<forall>i < n. tp_workers s i = Exited" for j
  proof -
    have "tp_runs j (tp_workers s x) = 0" for x
    proof (cases "x < n")
      case False
      then have "tp_workers s x = Absent" using tp_present [OF i, of x] by simp
      then show ?thesis by simp
    qed (use e in simp)
    then have "weigh (tp_runs j) (tp_workers s) = 0" by (simp add: weigh_def)
    moreover have "int (count_list (tp_started s) j) = int (count_list (tp_done s) j) + weigh (tp_runs j) (tp_workers s)"
      "tp_submitted s = tp_started s @ tp_queue s" using i by (simp_all add: tp_inv_def)
    moreover have "tp_queue s = []" using i e assms(2) by (auto simp: tp_inv_def)
    ultimately show ?thesis by simp
  qed
  ultimately show ?thesis using i by (simp add: tp_inv_def)
qed

text \<open>The destructor cannot hang: while it waits for the workers, a blocked worker has its wake-up coming.\<close>

lemma thread_pool_shutdown_wakes:
  assumes "reachable tp_next (tp_init n) s" "tp_shuttingDown s" "tp_workers s i = Blocked"
  shows "tp_notify_all s"
  using tpx.inv_reachable [OF assms(1)] assms(2,3) by (auto simp: tp_inv_def tp_blocked_def)

section \<open>Witness\<close>

definition tp_demo :: "tp_act list" where
  "tp_demo = [Worker_step 0, Submit 5, Notify_one 0, Worker_step 0, Submit 6, Shut_down, Worker_step 0, Worker_step 0, Worker_step 0, Worker_step 0]"

theorem thread_pool_runs_all_witness:
  "\<exists>s. run tp_next tp_demo (tp_init 1) = Some s \<and> tp_submitted s = [5, 6] \<and> count_list (tp_done s) 6 = 1"
proof -
  obtain s where s: "run tp_next tp_demo (tp_init 1) = Some s" "tp_workers s 0 = Exited" "tp_submitted s = [5, 6]"
    by (simp add: tp_demo_def tp_init_def tp_workerLoop_def tp_worker_set_def tp_submit_def tp_notify_one_def tp_shut_down_def)
  have "\<forall>j. count_list (tp_done s) j = count_list (tp_submitted s) j"
    using thread_pool_runs_all [OF reachableI [OF s(1)]] s(2) by simp
  then show ?thesis using s by auto
qed

end
