(* ===== verification/Enhanced_Pool.thy ===== *)
theory Enhanced_Pool
  imports Pman_Prelude
begin

text \<open>
  \<open>EnhancedThreadPool\<close> and \<open>TaskHandle\<close> of src/src/enhanced_thread_pool.cpp as an interleaving of workers
  and client threads. A step is one section under a mutex or one atomic access; \<open>mutex_\<close> and
  \<open>metricsMutex_\<close> have owners in the states in which a thread keeps one of them while it waits for the
  other, or between testing the predicate of a condition variable and blocking on it. Notifications
  that are sent without the mutex may come at that very moment. Shown: a task runs at most once and
  only if it was submitted; the queue hands out the least priority number first, in submission order
  among equals. Three interleavings in which the pool hangs, and one in which \<open>waitIdle\<close> returns before
  the work is done, follow.
\<close>

section \<open>Tasks and the queue\<close>

record task =
  tk_id :: nat
  tk_priority :: int
  tk_seq :: nat
  tk_submitTime :: int

text \<open>\<open>TaskEntry::operator<\<close>.\<close>

definition task_less :: "task \<Rightarrow> task \<Rightarrow> bool" where
  "task_less a b =
     (if tk_priority a \<noteq> tk_priority b then tk_priority a > tk_priority b else tk_seq a > tk_seq b)"

text \<open>\<open>std::priority_queue\<close> as a list: \<open>top\<close> is a greatest element for \<open>operator<\<close>, \<open>pop\<close> removes it.\<close>

fun pq_top :: "task list \<Rightarrow> task \<Rightarrow> task" where
  "pq_top [] m = m"
| "pq_top (x # xs) m = pq_top xs (if task_less m x then x else m)"

fun pq_pop :: "task list \<Rightarrow> (task \<times> task list) option" where
  "pq_pop [] = None"
| "pq_pop (x # xs) = Some (pq_top xs x, remove1 (pq_top xs x) (x # xs))"

section \<open>State\<close>

record metrics =
  mt_submitted :: nat
  mt_completed :: nat
  mt_cancelled :: nat
  mt_failed :: nat
  mt_queueDepth :: nat
  mt_totalWait :: int
  mt_totalExec :: int

definition metrics_zero :: metrics where
  "metrics_zero = \<lparr>mt_submitted = 0, mt_completed = 0, mt_cancelled = 0, mt_failed = 0, mt_queueDepth = 0,
     mt_totalWait = 0, mt_totalExec = 0\<rparr>"

datatype thread = Worker nat | User nat

datatype ep_pc =
    Client
  | W_lock | W_block | W_blocked | W_test task | W_cancelled task | W_activate task
  | W_run task int | W_complete task int bool | W_deactivate task int bool int | W_metrics task int bool int
  | W_notify | W_exited
  | S_id int | S_seq int nat | S_push task | S_metrics | S_notify
  | X_lock | X_drain | X_depth
  | I_lock | I_block | I_blocked
  | M_lock | M_queue | R_lock
  | H_load nat | H_store nat
  | D_notify | D_join

record ep =
  ep_queue :: "task list"
  ep_mutex :: "thread option"
  ep_metricsMutex :: "thread option"
  ep_shuttingDown :: bool
  ep_active :: int
  ep_nextId :: nat
  ep_seq :: nat
  ep_cancelled :: "nat \<Rightarrow> bool"
  ep_completed :: "nat \<Rightarrow> bool"
  ep_metrics :: metrics
  ep_pcs :: "thread \<Rightarrow> ep_pc"
  ep_workers :: nat
  ep_executed :: "nat list"
  ep_idleReturns :: "thread list"

datatype ep_act =
    Call_submit int
  | Call_cancelAll
  | Call_waitIdle
  | Call_metrics
  | Call_resetMetrics
  | Call_cancel nat
  | Call_destroy
  | Call_resize nat
  | Step int
  | Task_throws int
  | Notify thread
  | Notify_nobody
  | Spurious

definition ep_init :: "nat \<Rightarrow> ep" where
  "ep_init n = \<lparr>ep_queue = [], ep_mutex = None, ep_metricsMutex = None, ep_shuttingDown = False, ep_active = 0,
     ep_nextId = 1, ep_seq = 0, ep_cancelled = (\<lambda>_. False), ep_completed = (\<lambda>_. False), ep_metrics = metrics_zero,
     ep_pcs = (\<lambda>t. case t of Worker i \<Rightarrow> if i < n then W_lock else Client | User _ \<Rightarrow> Client), ep_workers = n,
     ep_executed = [], ep_idleReturns = []\<rparr>"

definition ep_new :: "nat \<Rightarrow> ep result" where
  "ep_new workerCount = (if workerCount = 0 then Inl Invalid_argument else Inr (ep_init workerCount))"

definition ep_goto :: "thread \<Rightarrow> ep_pc \<Rightarrow> ep \<Rightarrow> ep" where
  "ep_goto t p s = s\<lparr>ep_pcs := (ep_pcs s)(t := p)\<rparr>"

section \<open>Operations\<close>

text \<open>Sections that need a mutex only run when nobody owns it.\<close>

definition with_mutex :: "ep \<Rightarrow> ep \<Rightarrow> ep option" where
  "with_mutex s s' = (if ep_mutex s = None then Some s' else None)"

definition with_metrics :: "ep \<Rightarrow> ep \<Rightarrow> ep option" where
  "with_metrics s s' = (if ep_metricsMutex s = None then Some s' else None)"

text \<open>\<open>idleCv_.notify_all()\<close>.\<close>

definition ep_notify_idle :: "ep \<Rightarrow> ep" where
  "ep_notify_idle s = s\<lparr>ep_pcs := (\<lambda>i. if ep_pcs s i = I_blocked then I_lock else ep_pcs s i)\<rparr>"

text \<open>\<open>updateMetricsOnComplete\<close>.\<close>

definition ep_updateMetricsOnComplete :: "bool \<Rightarrow> int \<Rightarrow> int \<Rightarrow> metrics \<Rightarrow> metrics" where
  "ep_updateMetricsOnComplete success waitTime execTime m =
     (if success then m\<lparr>mt_completed := mt_completed m + 1\<rparr> else m\<lparr>mt_failed := mt_failed m + 1\<rparr>)
       \<lparr>mt_totalWait := mt_totalWait m + waitTime, mt_totalExec := mt_totalExec m + execTime\<rparr>"

text \<open>\<open>workerLoop\<close>; \<open>now\<close> is the clock reading of the step, where it has one.\<close>

fun ep_workerLoop :: "thread \<Rightarrow> int \<Rightarrow> ep \<Rightarrow> ep_pc \<Rightarrow> ep option" where
  "ep_workerLoop t now s W_lock =
     with_mutex s
       (case pq_pop (ep_queue s) of
          None \<Rightarrow> if ep_shuttingDown s then ep_goto t W_exited s else ep_goto t W_block (s\<lparr>ep_mutex := Some t\<rparr>)
        | Some (e, q) \<Rightarrow> ep_goto t (W_test e) (s\<lparr>ep_queue := q\<rparr>))"
| "ep_workerLoop t now s W_block = Some (ep_goto t W_blocked (s\<lparr>ep_mutex := None\<rparr>))"
| "ep_workerLoop t now s (W_test e) =
     Some (ep_goto t (if ep_cancelled s (tk_id e) then W_cancelled e else W_activate e)
             (if ep_cancelled s (tk_id e) then s\<lparr>ep_completed := (ep_completed s)(tk_id e := True)\<rparr> else s))"
| "ep_workerLoop t now s (W_cancelled e) =
     with_metrics s (ep_goto t W_notify (s\<lparr>ep_metrics := (ep_metrics s)\<lparr>mt_cancelled := mt_cancelled (ep_metrics s) + 1\<rparr>\<rparr>))"
| "ep_workerLoop t now s (W_activate e) =
     Some (ep_goto t (W_run e now) (s\<lparr>ep_active := ep_active s + 1, ep_executed := ep_executed s @ [tk_id e]\<rparr>))"
| "ep_workerLoop t now s (W_run e t0) = Some (ep_goto t (W_complete e t0 True) s)"
| "ep_workerLoop t now s (W_complete e t0 ok) =
     Some (ep_goto t (W_deactivate e t0 ok now) (s\<lparr>ep_completed := (ep_completed s)(tk_id e := True)\<rparr>))"
| "ep_workerLoop t now s (W_deactivate e t0 ok t1) =
     Some (ep_goto t (W_metrics e t0 ok t1) (s\<lparr>ep_active := ep_active s - 1\<rparr>))"
| "ep_workerLoop t now s (W_metrics e t0 ok t1) =
     with_metrics s (ep_goto t W_notify
       (s\<lparr>ep_metrics := ep_updateMetricsOnComplete ok (t0 - tk_submitTime e) (t1 - t0) (ep_metrics s)\<rparr>))"
| "ep_workerLoop t now s W_notify = Some (ep_notify_idle (ep_goto t W_lock s))"
| "ep_workerLoop t now s _ = None"

text \<open>\<open>submitWithPriority\<close> up to its notification; a task handle is its id.\<close>

fun ep_submit :: "thread \<Rightarrow> int \<Rightarrow> ep \<Rightarrow> ep_pc \<Rightarrow> ep option" where
  "ep_submit t now s (S_id p) = Some (ep_goto t (S_seq p (ep_nextId s)) (s\<lparr>ep_nextId := ep_nextId s + 1\<rparr>))"
| "ep_submit t now s (S_seq p i) =
     Some (ep_goto t (S_push \<lparr>tk_id = i, tk_priority = p, tk_seq = ep_seq s, tk_submitTime = now\<rparr>)
             (s\<lparr>ep_seq := ep_seq s + 1\<rparr>))"
| "ep_submit t now s (S_push e) =
     with_mutex s (if ep_shuttingDown s then ep_goto t Client s
                   else ep_goto t S_metrics (s\<lparr>ep_queue := e # ep_queue s\<rparr>))"
| "ep_submit t now s S_metrics =
     with_metrics s (ep_goto t S_notify (s\<lparr>ep_metrics := (ep_metrics s)
       \<lparr>mt_submitted := mt_submitted (ep_metrics s) + 1, mt_queueDepth := length (ep_queue s)\<rparr>\<rparr>))"
| "ep_submit t now s _ = None"

text \<open>\<open>cancelAll\<close> keeps \<open>mutex_\<close> while it takes \<open>metricsMutex_\<close> once per task and once more.\<close>

fun ep_cancelAll :: "thread \<Rightarrow> ep \<Rightarrow> ep_pc \<Rightarrow> ep option" where
  "ep_cancelAll t s X_lock = with_mutex s (ep_goto t X_drain (s\<lparr>ep_mutex := Some t\<rparr>))"
| "ep_cancelAll t s X_drain =
     (case pq_pop (ep_queue s) of
        None \<Rightarrow> Some (ep_goto t X_depth s)
      | Some (e, q) \<Rightarrow>
          with_metrics s (s\<lparr>ep_queue := q, ep_cancelled := (ep_cancelled s)(tk_id e := True),
            ep_metrics := (ep_metrics s)\<lparr>mt_cancelled := mt_cancelled (ep_metrics s) + 1\<rparr>\<rparr>))"
| "ep_cancelAll t s X_depth =
     with_metrics s (ep_goto t Client
       (s\<lparr>ep_metrics := (ep_metrics s)\<lparr>mt_queueDepth := 0\<rparr>, ep_mutex := None\<rparr>))"
| "ep_cancelAll t s _ = None"

text \<open>\<open>waitIdle\<close>; \<open>waitIdleFor\<close> also ends by its timeout.\<close>

definition ep_idle :: "ep \<Rightarrow> bool" where
  "ep_idle s \<longleftrightarrow> ep_queue s = [] \<and> ep_active s = 0"

fun ep_waitIdle :: "thread \<Rightarrow> ep \<Rightarrow> ep_pc \<Rightarrow> ep option" where
  "ep_waitIdle t s I_lock =
     with_mutex s (if ep_idle s then ep_goto t Client (s\<lparr>ep_idleReturns := ep_idleReturns s @ [t]\<rparr>)
                   else ep_goto t I_block (s\<lparr>ep_mutex := Some t\<rparr>))"
| "ep_waitIdle t s I_block = Some (ep_goto t I_blocked (s\<lparr>ep_mutex := None\<rparr>))"
| "ep_waitIdle t s _ = None"

text \<open>\<open>metrics\<close> keeps \<open>metricsMutex_\<close> while it takes \<open>mutex_\<close>.\<close>

fun ep_metricsCall :: "thread \<Rightarrow> ep \<Rightarrow> ep_pc \<Rightarrow> ep option" where
  "ep_metricsCall t s M_lock = with_metrics s (ep_goto t M_queue (s\<lparr>ep_metricsMutex := Some t\<rparr>))"
| "ep_metricsCall t s M_queue = with_mutex s (ep_goto t Client (s\<lparr>ep_metricsMutex := None\<rparr>))"
| "ep_metricsCall t s R_lock = with_metrics s (ep_goto t Client (s\<lparr>ep_metrics := metrics_zero\<rparr>))"
| "ep_metricsCall t s _ = None"

text \<open>The values \<open>metrics\<close> returns at its second step.\<close>

definition ep_metricsValue :: "ep \<Rightarrow> metrics \<times> int" where
  "ep_metricsValue s = ((ep_metrics s)\<lparr>mt_queueDepth := length (ep_queue s)\<rparr>, ep_active s)"

text \<open>\<open>TaskHandle::cancel\<close>, \<open>isCancelled\<close>, \<open>isComplete\<close>; \<open>CancellationToken\<close> reads the same flag.\<close>

fun ep_cancel :: "thread \<Rightarrow> ep \<Rightarrow> ep_pc \<Rightarrow> ep option" where
  "ep_cancel t s (H_load i) = Some (ep_goto t (if ep_completed s i then Client else H_store i) s)"
| "ep_cancel t s (H_store i) = Some (ep_goto t Client (s\<lparr>ep_cancelled := (ep_cancelled s)(i := True)\<rparr>))"
| "ep_cancel t s _ = None"

definition ep_isCancelled :: "nat \<Rightarrow> ep \<Rightarrow> bool" where
  "ep_isCancelled i s = ep_cancelled s i"

definition ep_isComplete :: "nat \<Rightarrow> ep \<Rightarrow> bool" where
  "ep_isComplete i s = ep_completed s i"

definition ep_throwIfCancelled :: "nat \<Rightarrow> ep \<Rightarrow> unit result" where
  "ep_throwIfCancelled i s = (if ep_cancelled s i then Inl Runtime_error else Inr ())"

text \<open>The destructor sets the flag without the mutex; it then joins.\<close>

fun ep_destroy :: "thread \<Rightarrow> ep \<Rightarrow> ep_pc \<Rightarrow> ep option" where
  "ep_destroy t s D_notify =
     Some (ep_goto t D_join (s\<lparr>ep_pcs := (\<lambda>i. if ep_pcs s i = W_blocked then W_lock else ep_pcs s i)\<rparr>))"
| "ep_destroy t s _ = None"

definition ep_call :: "thread \<Rightarrow> ep_pc \<Rightarrow> ep \<Rightarrow> ep option" where
  "ep_call t p s =
     (case t of User _ \<Rightarrow> if ep_pcs s t = Client then Some (ep_goto t p s) else None | Worker _ \<Rightarrow> None)"

definition ep_resize :: "nat \<Rightarrow> ep \<Rightarrow> unit result \<times> ep" where
  "ep_resize newWorkerCount s =
     (if newWorkerCount = 0 then (Inl Invalid_argument, s)
      else if newWorkerCount > ep_workers s then
        (Inr (), s\<lparr>ep_pcs := (\<lambda>t. case t of Worker i \<Rightarrow> if ep_workers s \<le> i \<and> i < newWorkerCount then W_lock else ep_pcs s t
                                       | User _ \<Rightarrow> ep_pcs s t),
                   ep_workers := newWorkerCount\<rparr>)
      else if newWorkerCount < ep_workers s then (Inl Runtime_error, s)
      else (Inr (), s))"

definition ep_step :: "thread \<Rightarrow> int \<Rightarrow> ep \<Rightarrow> ep option" where
  "ep_step t now s =
     (let p = ep_pcs s t in
      case ep_workerLoop t now s p of Some s' \<Rightarrow> Some s' | None \<Rightarrow>
      (case ep_submit t now s p of Some s' \<Rightarrow> Some s' | None \<Rightarrow>
      (case ep_cancelAll t s p of Some s' \<Rightarrow> Some s' | None \<Rightarrow>
      (case ep_waitIdle t s p of Some s' \<Rightarrow> Some s' | None \<Rightarrow>
      (case ep_metricsCall t s p of Some s' \<Rightarrow> Some s' | None \<Rightarrow>
      (case ep_cancel t s p of Some s' \<Rightarrow> Some s' | None \<Rightarrow> ep_destroy t s p))))))"

fun ep_next :: "thread \<times> ep_act \<Rightarrow> ep \<Rightarrow> ep option" where
  "ep_next (t, Call_submit p) s = ep_call t (S_id p) s"
| "ep_next (t, Call_cancelAll) s = ep_call t X_lock s"
| "ep_next (t, Call_waitIdle) s = ep_call t I_lock s"
| "ep_next (t, Call_metrics) s = ep_call t M_lock s"
| "ep_next (t, Call_resetMetrics) s = ep_call t R_lock s"
| "ep_next (t, Call_cancel i) s = ep_call t (H_load i) s"
| "ep_next (t, Call_destroy) s = ep_call t D_notify (s\<lparr>ep_shuttingDown := True\<rparr>)"
| "ep_next (t, Step now) s = ep_step t now s"
| "ep_next (t, Task_throws now) s =
     (case ep_pcs s t of W_run e t0 \<Rightarrow> Some (ep_goto t (W_complete e t0 False) s) | _ \<Rightarrow> None)"
| "ep_next (t, Notify w) s =
     (if ep_pcs s t = S_notify \<and> ep_pcs s w = W_blocked then Some (ep_goto t Client (ep_goto w W_lock s)) else None)"
| "ep_next (t, Notify_nobody) s =
     (if ep_pcs s t = S_notify \<and> (\<forall>w. ep_pcs s w \<noteq> W_blocked) then Some (ep_goto t Client s) else None)"
| "ep_next (t, Spurious) s =
     (case ep_pcs s t of
        W_blocked \<Rightarrow> Some (ep_goto t W_lock s)
      | I_blocked \<Rightarrow> Some (ep_goto t I_lock s)
      | _ \<Rightarrow> None)"
| "ep_next (t, Call_resize n) s = (if ep_pcs s t = Client then Some (snd (ep_resize n s)) else None)"

section \<open>Order of the queue\<close>

definition task_le :: "task \<Rightarrow> task \<Rightarrow> bool" where
  "task_le a b \<longleftrightarrow> tk_priority a < tk_priority b \<or> tk_priority a = tk_priority b \<and> tk_seq a \<le> tk_seq b"

lemma task_less_le: "\<not> task_less a b \<longleftrightarrow> task_le a b"
  by (auto simp: task_less_def task_le_def)

lemma task_le_trans: "task_le a b \<Longrightarrow> task_le b c \<Longrightarrow> task_le a c"
  by (auto simp: task_le_def)

lemma pq_top_in: "pq_top xs m \<in> insert m (set xs)"
  by (induction xs m rule: pq_top.induct) auto

lemma pq_top_le: "x \<in> insert m (set xs) \<Longrightarrow> task_le (pq_top xs m) x"
proof (induction xs m arbitrary: x rule: pq_top.induct)
  case (1 m)
  then show ?case by (simp add: task_le_def)
next
  case (2 y xs m)
  let ?m = "if task_less m y then y else m"
  have m: "task_le (pq_top xs ?m) ?m" by (rule "2.IH") simp
  have "task_le ?m m" "task_le ?m y" by (auto simp: task_less_def task_le_def)
  then have "task_le (pq_top xs ?m) m" "task_le (pq_top xs ?m) y" using m task_le_trans by blast+
  then show ?case using "2.IH" [of x] "2.prems" by auto
qed

lemma pq_pop_Some:
  assumes "pq_pop q = Some (e, q')"
  shows "e \<in> set q" "q' = remove1 e q" "\<forall>x \<in> set q. task_le e x"
  using assms pq_top_in pq_top_le by (cases q; force)+

section \<open>Tasks run at most once\<close>

text \<open>A program counter that carries task \<open>i\<close> before it runs.\<close>

fun ep_carries :: "nat \<Rightarrow> ep_pc \<Rightarrow> int" where
  "ep_carries i (S_seq p j) = (if j = i then 1 else 0)"
| "ep_carries i (S_push e) = (if tk_id e = i then 1 else 0)"
| "ep_carries i (W_test e) = (if tk_id e = i then 1 else 0)"
| "ep_carries i (W_activate e) = (if tk_id e = i then 1 else 0)"
| "ep_carries i _ = 0"

definition ep_uses :: "nat \<Rightarrow> ep \<Rightarrow> int" where
  "ep_uses i s = int (count_list (ep_executed s) i) + int (count_list (map tk_id (ep_queue s)) i)"

definition ep_inv :: "ep \<Rightarrow> bool" where
  "ep_inv s \<longleftrightarrow>
     finite {t. ep_pcs s t \<noteq> Client} \<and> (\<forall>i \<ge> ep_workers s. ep_pcs s (Worker i) = Client) \<and>
     (\<forall>i. ep_uses i s + weigh (ep_carries i) (ep_pcs s) \<le> (if i < ep_nextId s then 1 else 0))"

lemma count_map_remove1:
  "x \<in> set xs \<Longrightarrow> int (count_list (map f (remove1 x xs)) i) = int (count_list (map f xs) i) - (if f x = i then 1 else 0)"
  by (induction xs) auto

lemma ep_carries_nonneg: "0 \<le> ep_carries i p"
  by (cases p) simp_all

lemma ep_inv_move:
  assumes "ep_inv s" "ep_pcs s' = (ep_pcs s)(t := p)" "ep_workers s' = ep_workers s" "ep_nextId s' = ep_nextId s"
    "ep_pcs s t \<noteq> Client \<or> (\<exists>u. t = User u)"
    "\<And>i. ep_uses i s' + ep_carries i p \<le> ep_uses i s + ep_carries i (ep_pcs s t)"
  shows "ep_inv s'"
proof -
  have fin: "finite {t. ep_pcs s t \<noteq> Client}" using assms(1) by (simp add: ep_inv_def)
  have "{u. ep_pcs s' u \<noteq> Client} \<subseteq> insert t {u. ep_pcs s u \<noteq> Client}" by (auto simp: assms(2))
  then have fin': "finite {u. ep_pcs s' u \<noteq> Client}" using fin finite_subset by blast
  have "weigh (ep_carries i) (ep_pcs s') = weigh (ep_carries i) (ep_pcs s) - ep_carries i (ep_pcs s t) + ep_carries i p" for i
    unfolding assms(2) by (rule weigh_upd [OF finite_weights [OF fin]]) simp
  then have "ep_uses i s' + weigh (ep_carries i) (ep_pcs s') \<le> (if i < ep_nextId s' then 1 else 0)" for i
    using assms(1) assms(6) [of i] unfolding ep_inv_def assms(4) by (smt (verit))
  moreover have "ep_pcs s' (Worker i) = Client" if "ep_workers s' \<le> i" for i
    using assms(1,2,3,5) that by (auto simp: ep_inv_def)
  ultimately show ?thesis using fin' by (simp add: ep_inv_def)
qed

lemma ep_inv_pointwise:
  assumes "ep_inv s" "\<And>i t. ep_carries i (ep_pcs s' t) = ep_carries i (ep_pcs s t)" "\<And>i. ep_uses i s' = ep_uses i s"
    "ep_nextId s' = ep_nextId s" "\<And>t. ep_pcs s t = Client \<Longrightarrow> ep_pcs s' t = Client" "ep_workers s' = ep_workers s"
  shows "ep_inv s'"
proof -
  have "{t. ep_pcs s' t \<noteq> Client} \<subseteq> {t. ep_pcs s t \<noteq> Client}" using assms(5) by auto
  then have "finite {t. ep_pcs s' t \<noteq> Client}" using assms(1) finite_subset by (auto simp: ep_inv_def)
  then show ?thesis using assms(1,3,4,5,6) by (simp add: ep_inv_def weigh_def assms(2))
qed

lemma ep_uses_cong: "ep_executed s' = ep_executed s \<Longrightarrow> ep_queue s' = ep_queue s \<Longrightarrow> ep_uses i s' = ep_uses i s"
  by (simp add: ep_uses_def)

lemma ep_goto_sel [simp]:
  "ep_pcs (ep_goto t p s) = (ep_pcs s)(t := p)" "ep_queue (ep_goto t p s) = ep_queue s"
  "ep_executed (ep_goto t p s) = ep_executed s" "ep_nextId (ep_goto t p s) = ep_nextId s"
  "ep_workers (ep_goto t p s) = ep_workers s" "ep_uses i (ep_goto t p s) = ep_uses i s"
  by (simp_all add: ep_goto_def ep_uses_def)

lemma ep_inv_notify_idle: "ep_inv s \<Longrightarrow> ep_inv (ep_notify_idle s)"
  by (rule ep_inv_pointwise [of s]) (auto simp: ep_notify_idle_def ep_uses_def)

lemma ep_inv_goto:
  assumes "ep_inv s" "ep_pcs s t \<noteq> Client \<or> (\<exists>u. t = User u)" "\<And>i. ep_carries i p \<le> ep_carries i (ep_pcs s t)"
  shows "ep_inv (ep_goto t p s)"
  by (rule ep_inv_move [OF assms(1), where t = t and p = p]) (use assms in auto)

lemma ep_inv_fields:
  "ep_inv (s\<lparr>ep_mutex := a\<rparr>) = ep_inv s" "ep_inv (s\<lparr>ep_metricsMutex := a\<rparr>) = ep_inv s"
  "ep_inv (s\<lparr>ep_completed := c\<rparr>) = ep_inv s" "ep_inv (s\<lparr>ep_cancelled := c\<rparr>) = ep_inv s"
  "ep_inv (s\<lparr>ep_metrics := m\<rparr>) = ep_inv s" "ep_inv (s\<lparr>ep_active := x\<rparr>) = ep_inv s"
  "ep_inv (s\<lparr>ep_seq := n\<rparr>) = ep_inv s" "ep_inv (s\<lparr>ep_idleReturns := r\<rparr>) = ep_inv s"
  "ep_inv (s\<lparr>ep_shuttingDown := b\<rparr>) = ep_inv s"
  by (simp_all add: ep_inv_def ep_uses_def)

lemma ep_inv_worker:
  assumes "ep_workerLoop t now s p = Some s'" "ep_pcs s t = p" "ep_inv s"
  shows "ep_inv s'"
proof (cases p)
  case W_lock
  show ?thesis
  proof (cases "pq_pop (ep_queue s)")
    case None
    then show ?thesis
      using assms W_lock by (auto simp: with_mutex_def ep_inv_fields intro!: ep_inv_goto split: if_splits)
  next
    case (Some x)
    obtain e q where x: "x = (e, q)" by fastforce
    note pop = pq_pop_Some [OF Some [unfolded x]]
    have s': "s' = ep_goto t (W_test e) (s\<lparr>ep_queue := q\<rparr>)"
      using assms(1) W_lock Some x by (auto simp: with_mutex_def split: if_splits)
    show ?thesis
      unfolding s' by (rule ep_inv_move [OF assms(3), where t = t and p = "W_test e"])
        (use assms(2) W_lock in \<open>auto simp: ep_uses_def pop(2) count_map_remove1 [OF pop(1)]\<close>)
  qed
next
  case (W_activate e)
  then show ?thesis
    using assms by (auto simp: ep_uses_def intro!: ep_inv_move [OF assms(3), where t = t and p = "W_run e now"])
next
  case W_notify
  then show ?thesis using assms by (auto intro!: ep_inv_notify_idle ep_inv_goto)
qed (use assms in \<open>auto simp: ep_inv_fields with_metrics_def intro!: ep_inv_goto split: if_splits\<close>)

lemma ep_inv_submit:
  assumes "ep_submit t now s p = Some s'" "ep_pcs s t = p" "ep_inv s"
  shows "ep_inv s'"
proof (cases p)
  case (S_id pr)
  let ?n = "ep_nextId s" and ?p = "S_seq pr (ep_nextId s)"
  have s': "s' = ep_goto t ?p (s\<lparr>ep_nextId := ?n + 1\<rparr>)" using assms(1) S_id by simp
  have fin: "finite {t. ep_pcs s t \<noteq> Client}" using assms(3) by (simp add: ep_inv_def)
  have "{u. ep_pcs s' u \<noteq> Client} \<subseteq> insert t {u. ep_pcs s u \<noteq> Client}" by (auto simp: s')
  then have fin': "finite {u. ep_pcs s' u \<noteq> Client}" using fin finite_subset by blast
  have w: "weigh (ep_carries i) (ep_pcs s') = weigh (ep_carries i) (ep_pcs s) + (if ?n = i then 1 else 0)" for i
  proof -
    have "finite {u. ep_carries i (ep_pcs s u) \<noteq> 0}" by (rule finite_weights [OF fin]) simp
    then show ?thesis
      using weigh_upd [where f = "ep_carries i" and g = "ep_pcs s" and t = t and p = ?p] assms(2) S_id by (simp add: s')
  qed
  have "ep_uses i s' + weigh (ep_carries i) (ep_pcs s') \<le> (if i < ep_nextId s' then 1 else 0)" for i
  proof -
    have "ep_uses i s + weigh (ep_carries i) (ep_pcs s) \<le> (if i < ?n then 1 else 0)" using assms(3) by (simp add: ep_inv_def)
    moreover have "ep_uses i s' = ep_uses i s" by (simp add: s' ep_uses_def)
    ultimately show ?thesis using w [of i] by (auto simp: s' split: if_splits)
  qed
  moreover have "ep_pcs s' (Worker i) = Client" if "ep_workers s' \<le> i" for i
    using assms(2,3) S_id that by (auto simp: s' ep_inv_def)
  ultimately show ?thesis using fin' by (simp add: ep_inv_def)
next
  case (S_push e)
  show ?thesis
  proof (cases "ep_shuttingDown s")
    case True
    then show ?thesis using assms S_push by (auto simp: with_mutex_def intro!: ep_inv_goto split: if_splits)
  next
    case False
    then have s': "s' = ep_goto t S_metrics (s\<lparr>ep_queue := e # ep_queue s\<rparr>)"
      using assms(1) S_push by (auto simp: with_mutex_def split: if_splits)
    show ?thesis
      by (rule ep_inv_move [OF assms(3), where t = t and p = S_metrics]) (use assms(2) S_push in \<open>auto simp: s' ep_uses_def\<close>)
  qed
qed (use assms in \<open>auto simp: ep_inv_fields with_metrics_def intro!: ep_inv_goto split: if_splits\<close>)

lemma ep_inv_cancelAll:
  assumes "ep_cancelAll t s p = Some s'" "ep_pcs s t = p" "ep_inv s"
  shows "ep_inv s'"
proof (cases "p = X_drain \<and> pq_pop (ep_queue s) \<noteq> None")
  case True
  then obtain e q where pop: "pq_pop (ep_queue s) = Some (e, q)" by auto
  have s': "s' = s\<lparr>ep_queue := q, ep_cancelled := (ep_cancelled s)(tk_id e := True),
            ep_metrics := (ep_metrics s)\<lparr>mt_cancelled := mt_cancelled (ep_metrics s) + 1\<rparr>\<rparr>"
    using assms(1) True pop by (auto simp: with_metrics_def split: if_splits)
  show ?thesis
    by (rule ep_inv_move [OF assms(3), where t = t and p = "ep_pcs s t"])
       (use assms(2) True pq_pop_Some [OF pop] in \<open>auto simp: s' ep_uses_def count_map_remove1\<close>)
next
  case False
  then show ?thesis
    using assms by (cases p) (auto simp: ep_inv_fields with_metrics_def with_mutex_def intro!: ep_inv_goto split: if_splits option.splits)
qed

lemma ep_inv_step:
  assumes "ep_step t now s = Some s'" "ep_inv s"
  shows "ep_inv s'"
proof -
  let ?p = "ep_pcs s t"
  have wi: "ep_waitIdle t s ?p = Some s' \<Longrightarrow> ep_inv s'"
    using assms(2) by (cases ?p) (auto simp: ep_inv_fields with_mutex_def intro!: ep_inv_goto split: if_splits)
  have mc: "ep_metricsCall t s ?p = Some s' \<Longrightarrow> ep_inv s'"
    using assms(2) by (cases ?p) (auto simp: ep_inv_fields with_mutex_def with_metrics_def intro!: ep_inv_goto split: if_splits)
  have ca: "ep_cancel t s ?p = Some s' \<Longrightarrow> ep_inv s'"
    using assms(2) by (cases ?p) (auto simp: ep_inv_fields intro!: ep_inv_goto split: if_splits)
  have de: "ep_inv s'" if "ep_destroy t s ?p = Some s'"
  proof -
    let ?s = "s\<lparr>ep_pcs := (\<lambda>i. if ep_pcs s i = W_blocked then W_lock else ep_pcs s i)\<rparr>"
    have "ep_inv ?s" by (rule ep_inv_pointwise [OF assms(2)]) (auto simp: ep_uses_def)
    then show ?thesis using that by (cases ?p) (auto intro!: ep_inv_goto)
  qed
  show ?thesis
    using assms wi mc ca de ep_inv_worker ep_inv_submit ep_inv_cancelAll
    by (auto simp: ep_step_def Let_def split: option.splits)
qed

lemma ep_inv_call: "ep_call t p s = Some s' \<Longrightarrow> ep_inv s \<Longrightarrow> (\<And>i. ep_carries i p = 0) \<Longrightarrow> ep_inv s'"
  by (auto simp: ep_call_def ep_carries_nonneg intro!: ep_inv_goto split: thread.splits if_splits)

lemma ep_inv_resize: "ep_inv s \<Longrightarrow> ep_inv (snd (ep_resize n s))"
proof (cases "ep_workers s < n")
  case True
  assume inv: "ep_inv s"
  let ?g = "\<lambda>t. case t of Worker i \<Rightarrow> if ep_workers s \<le> i \<and> i < n then W_lock else ep_pcs s t | User _ \<Rightarrow> ep_pcs s t"
  have s': "snd (ep_resize n s) = s\<lparr>ep_pcs := ?g, ep_workers := n\<rparr>" using True by (simp add: ep_resize_def)
  have c: "ep_carries i (?g t) = ep_carries i (ep_pcs s t)" for i t
    using inv by (cases t) (auto simp: ep_inv_def)
  have "?g t = Client" if "t \<notin> {t. ep_pcs s t \<noteq> Client} \<union> Worker ` {..<n}" for t using that by (cases t) auto
  then have "{t. ?g t \<noteq> Client} \<subseteq> {t. ep_pcs s t \<noteq> Client} \<union> Worker ` {..<n}" by blast
  then have "finite {t. ?g t \<noteq> Client}" using inv finite_subset by (auto simp: ep_inv_def)
  moreover have "weigh (ep_carries i) ?g = weigh (ep_carries i) (ep_pcs s)" for i unfolding weigh_def c ..
  ultimately show ?thesis using inv True by (simp add: s' ep_inv_def ep_uses_def)
qed (simp add: ep_resize_def)

lemma ep_inv_next:
  assumes "ep_next l s = Some s'" "ep_inv s"
  shows "ep_inv s'"
proof (cases "(l, s)" rule: ep_next.cases)
  case (7 t r)
  then show ?thesis using assms ep_inv_call [of t D_notify "s\<lparr>ep_shuttingDown := True\<rparr>" s'] by (simp add: ep_inv_fields)
next
  case (8 t now r)
  then show ?thesis using assms ep_inv_step by simp
next
  case (10 t w r)
  then show ?thesis using assms by (auto intro!: ep_inv_goto split: if_splits)
next
  case (13 t n r)
  then show ?thesis using assms ep_inv_resize by (auto split: if_splits)
qed (use assms in \<open>auto intro: ep_inv_call intro!: ep_inv_goto split: ep_pc.splits if_splits\<close>)

lemma ep_inv_init: "ep_inv (ep_init n)"
proof -
  let ?g = "\<lambda>t. case t of Worker i \<Rightarrow> if i < n then W_lock else Client | User _ \<Rightarrow> Client"
  have "?g t = Client" if "t \<notin> Worker ` {..<n}" for t using that by (cases t) auto
  then have "{t. ?g t \<noteq> Client} \<subseteq> Worker ` {..<n}" by blast
  then have "finite {t. ?g t \<noteq> Client}" using finite_subset by auto
  moreover have "ep_carries i (?g t) = 0" for i t by (simp split: thread.split)
  ultimately show ?thesis by (simp add: ep_inv_def ep_init_def ep_uses_def weigh_def)
qed

interpretation epx: step_system ep_next "ep_init n" ep_inv for n
  by unfold_locales (auto intro: ep_inv_init ep_inv_next)

section \<open>Properties\<close>


text \<open>
  Claim C27. In every interleaving of workers, submitters, cancellations, resizes and the destructor a
  task is executed at most once, and only tasks with an id that was handed out are executed; a task
  that is still queued has not been executed.
\<close>

theorem pool_runs_once:
  assumes "reachable ep_next (ep_init n) s"
  shows "distinct (ep_executed s) \<and> (\<forall>i \<in> set (ep_executed s). i < ep_nextId s \<and> i \<notin> tk_id ` set (ep_queue s))"
proof -
  note i = epx.inv_reachable [OF assms]
  have le: "int (count_list (ep_executed s) i) + int (count_list (map tk_id (ep_queue s)) i) \<le> (if i < ep_nextId s then 1 else 0)" for i
    using i weigh_nonneg_on [of "ep_carries i" "ep_pcs s", OF ep_carries_nonneg] unfolding ep_inv_def ep_uses_def by (smt (verit))
  have "count_list (ep_executed s) i \<le> 1" for i using le [of i] by (simp split: if_splits)
  then have "distinct (ep_executed s)" by (simp add: distinct_count_list)
  moreover have "i < ep_nextId s \<and> i \<notin> tk_id ` set (ep_queue s)" if "i \<in> set (ep_executed s)" for i
  proof -
    have "0 < int (count_list (ep_executed s) i)" using that by (simp add: count_list_0_iff flip: neq0_conv)
    then have "i < ep_nextId s" "count_list (map tk_id (ep_queue s)) i = 0" using le [of i] by (auto split: if_splits)
    then show ?thesis by (simp add: count_list_0_iff)
  qed
  ultimately show ?thesis by blast
qed

section \<open>Where the pool fails\<close>

lemmas ep_run_defs = ep_init_def ep_call_def ep_goto_def ep_step_def with_mutex_def with_metrics_def ep_idle_def
  ep_notify_idle_def metrics_zero_def ep_updateMetricsOnComplete_def Let_def

definition ep_submit_run :: "nat \<Rightarrow> (thread \<times> ep_act) list" where
  "ep_submit_run u = [(User u, Call_submit 0), (User u, Step 0), (User u, Step 0), (User u, Step 0), (User u, Step 0)]"

text \<open>
  Between taking a task from the queue and counting itself as active a worker is invisible:
  \<open>waitIdle\<close> returns although the task has not run.
\<close>

lemma pool_waitIdle_early:
  "\<exists>s. run ep_next (ep_submit_run 0 @ [(Worker 0, Step 0), (User 1, Call_waitIdle), (User 1, Step 0)]) (ep_init 1) = Some s \<and>
     ep_idleReturns s = [User 1] \<and> mt_submitted (ep_metrics s) = 1 \<and> ep_executed s = [] \<and> ep_cancelled s 1 = False"
  by (simp add: ep_submit_run_def ep_run_defs)

text \<open>
  The last worker may become idle and notify between the test and the blocking of \<open>waitIdle\<close>, as it
  does not take the mutex: \<open>waitIdle\<close> then sleeps on an idle pool.
\<close>

definition ep_idle_hang :: "(thread \<times> ep_act) list" where
  "ep_idle_hang = ep_submit_run 0 @ [(Worker 0, Step 0), (Worker 0, Step 0), (Worker 0, Step 0),
     (User 1, Call_waitIdle), (User 1, Step 0),
     (Worker 0, Step 0), (Worker 0, Step 0), (Worker 0, Step 0), (Worker 0, Step 0), (Worker 0, Step 0),
     (User 1, Step 0), (Worker 0, Step 0), (Worker 0, Step 0)]"

lemma pool_waitIdle_hangs:
  "\<exists>s. run ep_next ep_idle_hang (ep_init 1) = Some s \<and> ep_idle s \<and> ep_pcs s (User 1) = I_blocked \<and>
     ep_pcs s (Worker 0) = W_blocked \<and> ep_completed s 1"
  by (simp add: ep_idle_hang_def ep_submit_run_def ep_run_defs)

text \<open>
  The destructor sets \<open>shuttingDown_\<close> and notifies without the mutex: a worker that has just tested it
  goes to sleep afterwards, and the join never ends.
\<close>

lemma pool_destructor_hangs:
  "\<exists>s. run ep_next [(Worker 0, Step 0), (User 0, Call_destroy), (User 0, Step 0), (Worker 0, Step 0)] (ep_init 1) = Some s \<and>
     ep_shuttingDown s \<and> ep_pcs s (User 0) = D_join \<and> ep_pcs s (Worker 0) = W_blocked"
  by (simp add: ep_run_defs)

text \<open>\<open>cancelAll\<close> and \<open>metrics\<close> take the two mutexes in opposite order: both block, and the workers with them.\<close>

lemma pool_metrics_deadlock:
  "\<exists>s. run ep_next (ep_submit_run 0 @ [(User 1, Call_cancelAll), (User 1, Step 0), (User 2, Call_metrics), (User 2, Step 0)]) (ep_init 1) = Some s \<and>
     (\<forall>now. ep_next (User 1, Step now) s = None \<and> ep_next (User 2, Step now) s = None \<and> ep_next (Worker 0, Step now) s = None)"
  by (simp add: ep_submit_run_def ep_run_defs)

text \<open>A task that \<open>cancelAll\<close> removes is never marked complete, unlike one that \<open>cancel\<close> stops.\<close>

lemma pool_cancelAll_incomplete:
  "\<exists>s. run ep_next (ep_submit_run 0 @ [(User 1, Call_cancelAll), (User 1, Step 0), (User 1, Step 0), (User 1, Step 0), (User 1, Step 0)]) (ep_init 1) = Some s \<and>
     ep_queue s = [] \<and> ep_isCancelled 1 s \<and> \<not> ep_isComplete 1 s \<and> ep_pcs s (User 1) = Client"
  by (simp add: ep_submit_run_def ep_run_defs ep_isCancelled_def ep_isComplete_def)

section \<open>Witnesses\<close>


theorem pool_runs_once_witness:
  "\<exists>s. run ep_next ep_idle_hang (ep_init 1) = Some s \<and> ep_executed s = [1] \<and> distinct (ep_executed s) \<and> 1 < ep_nextId s"
proof -
  obtain s where s: "run ep_next ep_idle_hang (ep_init 1) = Some s" "ep_executed s = [1]"
    by (simp add: ep_idle_hang_def ep_submit_run_def ep_run_defs)
  then show ?thesis using pool_runs_once [OF reachableI [OF s(1)]] by auto
qed

end
