(* ===== verification/Async_Sync.thy ===== *)
theory Async_Sync
  imports Pman_Prelude
begin

text \<open>
  The coroutine mutex and semaphore of src/include/pman/async/mutex.hpp and semaphore.hpp. Both
  run on the thread of one event loop, so an operation runs to its end before the next one starts;
  a compare-exchange loop on an atomic that only this thread writes has the effect of its last
  iteration. Coroutines are numbers; a suspended coroutine is an entry of \<open>waiters_\<close>, and waking it
  means handing its handle to \<open>EventLoop::post\<close> (or resuming it at once when there is no loop).

  Both types share one contract: a permit is taken only when nobody waits, a release hands the
  permit to the oldest waiter. The contract is a locale; a client of it (coroutines that lock, are
  resumed, move their guards around and drop them) is verified once.
\<close>

section \<open>Waking a coroutine\<close>

datatype wake = Posted nat | Resumed nat

definition wake_coroutine :: "bool \<Rightarrow> nat \<Rightarrow> wake" where
  "wake_coroutine has_loop h = (if has_loop then Posted h else Resumed h)"

fun woken :: "wake \<Rightarrow> nat" where
  "woken (Posted h) = h"
| "woken (Resumed h) = h"

section \<open>Mutex\<close>

record amutex =
  am_locked :: bool
  am_waiters :: "nat list"

definition am_new :: amutex where
  "am_new = \<lparr>am_locked = False, am_waiters = []\<rparr>"

text \<open>\<open>LockAwaiter::await_ready\<close> and \<open>tryLock\<close>: the compare-exchange from false to true.\<close>

definition am_try :: "amutex \<Rightarrow> amutex option" where
  "am_try m = (if \<not> am_locked m then Some (m\<lparr>am_locked := True\<rparr>) else None)"

text \<open>\<open>LockAwaiter::await_suspend\<close>\<close>

definition am_suspend :: "nat \<Rightarrow> amutex \<Rightarrow> amutex" where
  "am_suspend h m = m\<lparr>am_waiters := am_waiters m @ [h]\<rparr>"

definition am_unlock :: "bool \<Rightarrow> amutex \<Rightarrow> wake option \<times> amutex" where
  "am_unlock has_loop m =
     (case am_waiters m of
        h # hs \<Rightarrow> (Some (wake_coroutine has_loop h), m\<lparr>am_waiters := hs\<rparr>)
      | [] \<Rightarrow> (None, m\<lparr>am_locked := False\<rparr>))"

definition am_isLocked :: "amutex \<Rightarrow> bool" where
  "am_isLocked m = am_locked m"

section \<open>Semaphore\<close>

record asem =
  as_count :: nat
  as_capacity :: nat
  as_waiters :: "nat list"

definition as_new :: "nat \<Rightarrow> asem" where
  "as_new n = \<lparr>as_count = n, as_capacity = n, as_waiters = []\<rparr>"

text \<open>
  \<open>AcquireAwaiter::await_ready\<close>, \<open>AcquireGuardAwaiter::await_ready\<close> and \<open>tryAcquire\<close>: decrement the
  count if it is positive.
\<close>

definition as_try :: "asem \<Rightarrow> asem option" where
  "as_try s = (if as_count s > 0 then Some (s\<lparr>as_count := as_count s - 1\<rparr>) else None)"

definition as_suspend :: "nat \<Rightarrow> asem \<Rightarrow> asem" where
  "as_suspend h s = s\<lparr>as_waiters := as_waiters s @ [h]\<rparr>"

definition as_release :: "bool \<Rightarrow> asem \<Rightarrow> wake option \<times> asem" where
  "as_release has_loop s =
     (case as_waiters s of
        h # hs \<Rightarrow> (Some (wake_coroutine has_loop h), s\<lparr>as_waiters := hs\<rparr>)
      | [] \<Rightarrow> (None, s\<lparr>as_count := as_count s + 1\<rparr>))"

definition as_available :: "asem \<Rightarrow> nat" where
  "as_available s = as_count s"

section \<open>Guards and their client\<close>

text \<open>
  The operations a client sees, as a record, and the client: coroutines arrive (\<open>co_await lock()\<close>),
  are granted the permit at once or later, resume (\<open>await_resume\<close> builds the guard), and guards are
  destroyed, move-constructed and move-assigned as \<open>Mutex::LockGuard\<close> and \<open>Semaphore::Guard\<close> are. A
  guard in \<open>hc_guards\<close> is one whose pointer is not null.
\<close>

record 's handoff_ops =
  h_try :: "'s \<Rightarrow> 's option"
  h_suspend :: "nat \<Rightarrow> 's \<Rightarrow> 's"
  h_release :: "bool \<Rightarrow> 's \<Rightarrow> wake option \<times> 's"

record 's hclient =
  hc_lock :: 's
  hc_arrivals :: "nat list"
  hc_granted :: "nat list"
  hc_pending :: "nat list"
  hc_guards :: "nat list"

datatype hop =
    Hlock nat
  | Htry nat
  | Hresume nat nat
  | Hdestroy nat
  | Hmove nat nat
  | Hassign nat nat

definition hc_new :: "'s \<Rightarrow> 's hclient" where
  "hc_new s = \<lparr>hc_lock = s, hc_arrivals = [], hc_granted = [], hc_pending = [], hc_guards = []\<rparr>"

definition hc_lock_op :: "'s handoff_ops \<Rightarrow> nat \<Rightarrow> 's hclient \<Rightarrow> 's hclient" where
  "hc_lock_op H c x =
     (case h_try H (hc_lock x) of
        Some s \<Rightarrow> x\<lparr>hc_lock := s, hc_arrivals := hc_arrivals x @ [c],
                    hc_granted := hc_granted x @ [c], hc_pending := hc_pending x @ [c]\<rparr>
      | None \<Rightarrow> x\<lparr>hc_lock := h_suspend H c (hc_lock x), hc_arrivals := hc_arrivals x @ [c]\<rparr>)"

text \<open>The body of a guard's destructor when its pointer is not null.\<close>

definition hc_release :: "'s handoff_ops \<Rightarrow> bool \<Rightarrow> 's hclient \<Rightarrow> 's hclient" where
  "hc_release H has_loop x =
     (case h_release H has_loop (hc_lock x) of
        (None, s) \<Rightarrow> x\<lparr>hc_lock := s\<rparr>
      | (Some w, s) \<Rightarrow> x\<lparr>hc_lock := s, hc_granted := hc_granted x @ [woken w],
                        hc_pending := hc_pending x @ [woken w]\<rparr>)"

definition guard_destroy :: "'s handoff_ops \<Rightarrow> bool \<Rightarrow> nat \<Rightarrow> 's hclient \<Rightarrow> 's hclient" where
  "guard_destroy H has_loop g x =
     (if g \<in> set (hc_guards x)
      then hc_release H has_loop (x\<lparr>hc_guards := remove1 g (hc_guards x)\<rparr>) else x)"

definition guard_move :: "nat \<Rightarrow> nat \<Rightarrow> 's hclient \<Rightarrow> 's hclient" where
  "guard_move d g x =
     (if g \<in> set (hc_guards x) then x\<lparr>hc_guards := d # remove1 g (hc_guards x)\<rparr> else x)"

definition guard_assign :: "'s handoff_ops \<Rightarrow> bool \<Rightarrow> nat \<Rightarrow> nat \<Rightarrow> 's hclient \<Rightarrow> 's hclient" where
  "guard_assign H has_loop d g x =
     (if d \<noteq> g then guard_move d g (guard_destroy H has_loop d x) else x)"

fun hc_step :: "'s handoff_ops \<Rightarrow> bool \<times> hop \<Rightarrow> 's hclient \<Rightarrow> 's hclient option" where
  "hc_step H (l, Hlock c) x = Some (hc_lock_op H c x)"
| "hc_step H (l, Htry g) x =
     (if g \<in> set (hc_guards x) then None
      else case h_try H (hc_lock x) of
        Some s \<Rightarrow> Some (x\<lparr>hc_lock := s, hc_guards := g # hc_guards x\<rparr>)
      | None \<Rightarrow> Some x)"
| "hc_step H (l, Hresume c g) x =
     (if c \<in> set (hc_pending x) \<and> g \<notin> set (hc_guards x)
      then Some (x\<lparr>hc_pending := remove1 c (hc_pending x), hc_guards := g # hc_guards x\<rparr>) else None)"
| "hc_step H (l, Hdestroy g) x = Some (guard_destroy H l g x)"
| "hc_step H (l, Hmove d g) x =
     (if d \<in> set (hc_guards x) then None else Some (guard_move d g x))"
| "hc_step H (l, Hassign d g) x = Some (guard_assign H l d g x)"

section \<open>The hand-off contract\<close>

locale handoff =
  fixes H :: "'s handoff_ops"
    and s0 :: 's
    and waiting :: "'s \<Rightarrow> nat list"
    and permits :: "'s \<Rightarrow> nat"
    and good :: "'s \<Rightarrow> bool"
  assumes start: "good s0" "waiting s0 = []"
    and take: "good s \<Longrightarrow> h_try H s = Some s' \<Longrightarrow>
      good s' \<and> waiting s = [] \<and> waiting s' = [] \<and> permits s = Suc (permits s')"
    and full: "good s \<Longrightarrow> h_try H s = None \<Longrightarrow> permits s = 0"
    and wait: "good s \<Longrightarrow> h_try H s = None \<Longrightarrow>
      good (h_suspend H c s) \<and> waiting (h_suspend H c s) = waiting s @ [c] \<and>
      permits (h_suspend H c s) = permits s"
    and hand: "good s \<Longrightarrow> h_release H l s = (Some w, s') \<Longrightarrow>
      good s' \<and> waiting s = woken w # waiting s' \<and> permits s' = permits s"
    and free: "good s \<Longrightarrow> permits s < permits s0 \<Longrightarrow> h_release H l s = (None, s') \<Longrightarrow>
      good s' \<and> waiting s = [] \<and> waiting s' = [] \<and> permits s' = Suc (permits s)"
begin

text \<open>
  What the contract gives the client: the permits given out are exactly the guards and the
  coroutines about to build one, the coroutines are granted in the order in which they arrived,
  and nobody waits while a permit is free.
\<close>

definition hc_inv :: "'s hclient \<Rightarrow> bool" where
  "hc_inv x \<longleftrightarrow> good (hc_lock x) \<and> distinct (hc_guards x) \<and>
     permits (hc_lock x) + length (hc_guards x) + length (hc_pending x) = permits s0 \<and>
     hc_granted x @ waiting (hc_lock x) = hc_arrivals x"

lemma lock_op_inv:
  assumes "hc_inv x"
  shows "hc_inv (hc_lock_op H c x)"
proof (cases "h_try H (hc_lock x)")
  case None
  then show ?thesis
    using assms wait [OF _ None, of c] by (auto simp: hc_inv_def hc_lock_op_def)
next
  case (Some s)
  then show ?thesis
    using assms take [OF _ Some] by (auto simp: hc_inv_def hc_lock_op_def)
qed

lemma release_inv:
  assumes "good (hc_lock x)" and "distinct (hc_guards x)"
    and "Suc (permits (hc_lock x) + length (hc_guards x) + length (hc_pending x)) = permits s0"
    and "hc_granted x @ waiting (hc_lock x) = hc_arrivals x"
  shows "hc_inv (hc_release H l x)"
proof (cases "h_release H l (hc_lock x)")
  case (Pair w s)
  show ?thesis
  proof (cases w)
    case None
    then show ?thesis
      using assms free [OF assms(1), of l s] Pair by (auto simp: hc_inv_def hc_release_def)
  next
    case (Some v)
    then show ?thesis
      using assms hand [OF assms(1), of l v s] Pair by (auto simp: hc_inv_def hc_release_def)
  qed
qed

lemma destroy_inv:
  assumes "hc_inv x"
  shows "hc_inv (guard_destroy H l g x)"
proof (cases "g \<in> set (hc_guards x)")
  case True
  then have "Suc (length (remove1 g (hc_guards x))) = length (hc_guards x)"
    by (rule Suc_length_remove1)
  then have "hc_inv (hc_release H l (x\<lparr>hc_guards := remove1 g (hc_guards x)\<rparr>))"
    using assms by (intro release_inv) (simp_all add: hc_inv_def distinct_remove1)
  then show ?thesis using True by (simp add: guard_destroy_def)
next
  case False
  then show ?thesis using assms by (simp add: guard_destroy_def)
qed

lemma destroy_gone:
  assumes "hc_inv x"
  shows "g \<notin> set (hc_guards (guard_destroy H l g x))"
  using assms
  by (auto simp: guard_destroy_def hc_release_def hc_inv_def split: prod.splits option.splits)

lemma move_inv:
  assumes "hc_inv x" and "d \<notin> set (hc_guards x)"
  shows "hc_inv (guard_move d g x)"
proof (cases "g \<in> set (hc_guards x)")
  case True
  then have "Suc (length (remove1 g (hc_guards x))) = length (hc_guards x)"
    by (rule Suc_length_remove1)
  then show ?thesis
    using assms True unfolding guard_move_def hc_inv_def by (auto simp: distinct_remove1)
next
  case False
  then show ?thesis using assms by (simp add: guard_move_def)
qed

lemma step_inv:
  assumes "hc_step H (l, p) x = Some x'" and "hc_inv x"
  shows "hc_inv x'"
proof (cases p)
  case (Hlock c)
  then show ?thesis using assms lock_op_inv by auto
next
  case (Htry g)
  show ?thesis
  proof (cases "h_try H (hc_lock x)")
    case None
    then show ?thesis using assms Htry by (auto split: if_splits)
  next
    case (Some s)
    then show ?thesis
      using assms Htry take [OF _ Some] by (auto simp: hc_inv_def split: if_splits)
  qed
next
  case (Hresume c g)
  then have "c \<in> set (hc_pending x)" using assms by (auto split: if_splits)
  then have "Suc (length (remove1 c (hc_pending x))) = length (hc_pending x)"
    by (rule Suc_length_remove1)
  then show ?thesis using assms Hresume by (auto simp: hc_inv_def split: if_splits)
next
  case (Hdestroy g)
  then show ?thesis using assms destroy_inv by auto
next
  case (Hmove d g)
  then show ?thesis using assms move_inv by (auto split: if_splits)
next
  case (Hassign d g)
  show ?thesis
  proof (cases "d = g")
    case True
    then show ?thesis using assms Hassign by (simp add: guard_assign_def)
  next
    case False
    then have "x' = guard_move d g (guard_destroy H l d x)"
      using assms(1) Hassign by (simp add: guard_assign_def)
    then show ?thesis
      using move_inv [OF destroy_inv [OF assms(2)] destroy_gone [OF assms(2)]] by simp
  qed
qed

lemma new_inv: "hc_inv (hc_new s0)"
  by (simp add: hc_inv_def hc_new_def start)

end

sublocale handoff \<subseteq> client: step_system "hc_step H" "hc_new s0" hc_inv
  by unfold_locales (use new_inv step_inv in \<open>auto\<close>)

context handoff
begin

lemma arrival_order:
  "run (hc_step H) ps (hc_new s0) = Some x \<Longrightarrow> hc_granted x @ waiting (hc_lock x) = hc_arrivals x"
  using client.inv_run by (simp add: hc_inv_def)

lemma permits_conserved:
  "run (hc_step H) ps (hc_new s0) = Some x \<Longrightarrow>
    permits (hc_lock x) + length (hc_guards x) + length (hc_pending x) = permits s0"
  using client.inv_run by (simp add: hc_inv_def)

lemma client_good: "run (hc_step H) ps (hc_new s0) = Some x \<Longrightarrow> good (hc_lock x)"
  using client.inv_run by (simp add: hc_inv_def)

end

section \<open>Both types keep the contract\<close>

definition am_ops :: "amutex handoff_ops" where
  "am_ops = \<lparr>h_try = am_try, h_suspend = am_suspend, h_release = am_unlock\<rparr>"

definition am_good :: "amutex \<Rightarrow> bool" where
  "am_good m \<longleftrightarrow> (am_waiters m \<noteq> [] \<longrightarrow> am_locked m)"

definition am_permits :: "amutex \<Rightarrow> nat" where
  "am_permits m = (if am_locked m then 0 else 1)"

definition as_ops :: "asem handoff_ops" where
  "as_ops = \<lparr>h_try = as_try, h_suspend = as_suspend, h_release = as_release\<rparr>"

definition as_good :: "asem \<Rightarrow> bool" where
  "as_good s \<longleftrightarrow> (as_waiters s \<noteq> [] \<longrightarrow> as_count s = 0)"

lemma woken_wake [simp]: "woken (wake_coroutine l h) = h"
  by (simp add: wake_coroutine_def)

interpretation amx: handoff am_ops am_new am_waiters am_permits am_good
  by unfold_locales
    (auto simp: am_ops_def am_new_def am_good_def am_permits_def am_try_def am_suspend_def am_unlock_def
      split: if_splits list.splits)

interpretation asx: handoff as_ops "as_new n" as_waiters as_count as_good for n
  by unfold_locales
    (auto simp: as_ops_def as_new_def as_good_def as_try_def as_suspend_def as_release_def
      split: if_splits list.splits)

section \<open>Properties\<close>

text \<open>
  Claim C13. \<open>async::Mutex\<close> is exclusive and fair: however coroutines lock, resume, try, and move,
  assign or destroy their guards, at most one guard (or coroutine about to build one) exists and the
  mutex is locked exactly then; the coroutines obtain it in the order of their \<open>lock()\<close> calls; and
  nobody waits for an unlocked mutex.
\<close>

theorem async_mutex_exclusive_fifo:
  assumes "run (hc_step am_ops) ps (hc_new am_new) = Some x"
  shows "length (hc_guards x) + length (hc_pending x) = (if am_isLocked (hc_lock x) then 1 else 0) \<and>
    hc_granted x @ am_waiters (hc_lock x) = hc_arrivals x \<and>
    (am_waiters (hc_lock x) \<noteq> [] \<longrightarrow> am_isLocked (hc_lock x))"
  using amx.permits_conserved [OF assms] amx.arrival_order [OF assms] amx.client_good [OF assms]
  by (auto simp: am_permits_def am_new_def am_isLocked_def am_good_def split: if_splits)

definition am_schedule :: "(bool \<times> hop) list" where
  "am_schedule = [(True, Hlock 7), (True, Hlock 8), (True, Hlock 9), (True, Hresume 7 1),
     (True, Hmove 2 1), (True, Hdestroy 1), (True, Hassign 3 2), (True, Hdestroy 3)]"

lemmas hc_exec = hc_new_def hc_lock_op_def hc_release_def guard_destroy_def guard_move_def
  guard_assign_def wake_coroutine_def

theorem async_mutex_exclusive_fifo_witness:
  "\<exists>x. run (hc_step am_ops) am_schedule (hc_new am_new) = Some x \<and> hc_granted x = [7, 8] \<and>
    length (hc_guards x) + length (hc_pending x) = (if am_isLocked (hc_lock x) then 1 else 0) \<and>
    hc_granted x @ am_waiters (hc_lock x) = hc_arrivals x"
proof -
  define x where "x = \<lparr>hc_lock = \<lparr>am_locked = True, am_waiters = [9]\<rparr>, hc_arrivals = [7, 8, 9],
    hc_granted = [7, 8], hc_pending = [8], hc_guards = []\<rparr>"
  have "run (hc_step am_ops) am_schedule (hc_new am_new) = Some x"
    by (simp add: am_schedule_def hc_exec x_def am_ops_def am_new_def am_try_def am_suspend_def
        am_unlock_def)
  moreover have "hc_granted x = [7, 8]" by (simp add: x_def)
  ultimately show ?thesis using async_mutex_exclusive_fifo by blast
qed

text \<open>
  Claim C18. \<open>async::Semaphore\<close> conserves its permits: the available ones, those owned by guards and
  those granted to coroutines about to resume always add up to the capacity it was built with;
  coroutines are served in the order of their calls; and nobody waits while a permit is available.
\<close>

theorem async_semaphore_conserves:
  assumes "run (hc_step as_ops) ps (hc_new (as_new n)) = Some x"
  shows "as_available (hc_lock x) + length (hc_guards x) + length (hc_pending x) = n \<and>
    hc_granted x @ as_waiters (hc_lock x) = hc_arrivals x \<and>
    (as_waiters (hc_lock x) \<noteq> [] \<longrightarrow> as_available (hc_lock x) = 0)"
  using asx.permits_conserved [OF assms] asx.arrival_order [OF assms] asx.client_good [OF assms]
  by (simp add: as_new_def as_available_def as_good_def)

theorem async_semaphore_conserves_witness:
  "\<exists>x. run (hc_step as_ops) am_schedule (hc_new (as_new 2)) = Some x \<and> hc_granted x = [7, 8, 9] \<and>
    as_available (hc_lock x) + length (hc_guards x) + length (hc_pending x) = 2"
proof -
  define x where "x = \<lparr>hc_lock = \<lparr>as_count = 0, as_capacity = 2, as_waiters = []\<rparr>,
    hc_arrivals = [7, 8, 9], hc_granted = [7, 8, 9], hc_pending = [8, 9], hc_guards = []\<rparr>"
  have "run (hc_step as_ops) am_schedule (hc_new (as_new 2)) = Some x"
    by (simp add: am_schedule_def hc_exec x_def as_ops_def as_new_def as_try_def as_suspend_def
        as_release_def)
  moreover have "hc_granted x = [7, 8, 9]" by (simp add: x_def)
  ultimately show ?thesis using async_semaphore_conserves by blast
qed

end
