(* ===== verification/Async_RwLock.thy ===== *)
theory Async_RwLock
  imports Async_Sync
begin

text \<open>
  The coroutine reader/writer lock of src/include/pman/async/rwlock.hpp on one event-loop thread:
  \<open>state_\<close> counts readers or is -1 for a writer, and two queues hold the suspended coroutines. The
  client takes, resumes, moves and drops read and write guards in any order.
\<close>

section \<open>The lock\<close>

record arw =
  arw_state :: int
  arw_readWaiters :: "nat list"
  arw_writeWaiters :: "nat list"

definition arw_new :: arw where
  "arw_new = \<lparr>arw_state = 0, arw_readWaiters = [], arw_writeWaiters = []\<rparr>"

text \<open>\<open>ReadLockAwaiter::await_ready\<close> and \<open>tryReadLock\<close>\<close>

definition arw_try_read :: "arw \<Rightarrow> arw option" where
  "arw_try_read l = (if arw_state l \<ge> 0 then Some (l\<lparr>arw_state := arw_state l + 1\<rparr>) else None)"

text \<open>\<open>WriteLockAwaiter::await_ready\<close> and \<open>tryWriteLock\<close>\<close>

definition arw_try_write :: "arw \<Rightarrow> arw option" where
  "arw_try_write l = (if arw_state l = 0 then Some (l\<lparr>arw_state := -1\<rparr>) else None)"

definition arw_suspend_read :: "nat \<Rightarrow> arw \<Rightarrow> arw" where
  "arw_suspend_read h l = l\<lparr>arw_readWaiters := arw_readWaiters l @ [h]\<rparr>"

definition arw_suspend_write :: "nat \<Rightarrow> arw \<Rightarrow> arw" where
  "arw_suspend_write h l = l\<lparr>arw_writeWaiters := arw_writeWaiters l @ [h]\<rparr>"

definition arw_hasReaders :: "arw \<Rightarrow> bool" where
  "arw_hasReaders l \<longleftrightarrow> arw_state l > 0"

definition arw_hasWriter :: "arw \<Rightarrow> bool" where
  "arw_hasWriter l \<longleftrightarrow> arw_state l < 0"

text \<open>
  The block both releases share: compare-exchange 0 to -1 on behalf of the first waiting writer and
  wake it.
\<close>

definition arw_grant_writer :: "bool \<Rightarrow> arw \<Rightarrow> wake option \<times> arw" where
  "arw_grant_writer has_loop l =
     (case arw_try_write l of
        None \<Rightarrow> (None, l)
      | Some l' \<Rightarrow> (Some (wake_coroutine has_loop (hd (arw_writeWaiters l))),
                    l'\<lparr>arw_writeWaiters := tl (arw_writeWaiters l)\<rparr>))"

definition arw_unlockRead :: "bool \<Rightarrow> arw \<Rightarrow> wake option \<times> arw" where
  "arw_unlockRead has_loop l =
     (let prev = arw_state l; l1 = l\<lparr>arw_state := prev - 1\<rparr> in
      if prev = 1 \<and> arw_writeWaiters l1 \<noteq> [] then arw_grant_writer has_loop l1 else (None, l1))"

text \<open>A released write lock goes to one writer or to all waiting readers: the woken ones, by kind.\<close>

definition arw_unlockWrite :: "bool \<Rightarrow> arw \<Rightarrow> (wake option \<times> wake list) \<times> arw" where
  "arw_unlockWrite has_loop l =
     (let l1 = l\<lparr>arw_state := 0\<rparr> in
      if arw_writeWaiters l1 \<noteq> [] then
        (case arw_grant_writer has_loop l1 of (w, l2) \<Rightarrow> ((w, []), l2))
      else if arw_readWaiters l1 \<noteq> [] then
        (let toWake = arw_readWaiters l1 in
         ((None, map (wake_coroutine has_loop) toWake),
          l1\<lparr>arw_readWaiters := [], arw_state := arw_state l1 + int (length toWake)\<rparr>))
      else ((None, []), l1))"

section \<open>The client\<close>

record rwc =
  rwc_lock :: arw
  rwc_rarrivals :: "nat list"
  rwc_rgranted :: "nat list"
  rwc_rpending :: "nat list"
  rwc_rguards :: "nat list"
  rwc_warrivals :: "nat list"
  rwc_wgranted :: "nat list"
  rwc_wpending :: "nat list"
  rwc_wguards :: "nat list"

datatype rwop =
    Read_lock nat
  | Write_lock nat
  | Try_read nat
  | Try_write nat
  | Resume_read nat nat
  | Resume_write nat nat
  | Destroy_read nat
  | Destroy_write nat
  | Move_read nat nat
  | Move_write nat nat
  | Assign_read nat nat
  | Assign_write nat nat

definition rwc_new :: rwc where
  "rwc_new = \<lparr>rwc_lock = arw_new, rwc_rarrivals = [], rwc_rgranted = [], rwc_rpending = [],
     rwc_rguards = [], rwc_warrivals = [], rwc_wgranted = [], rwc_wpending = [], rwc_wguards = []\<rparr>"

definition rwc_readLock :: "nat \<Rightarrow> rwc \<Rightarrow> rwc" where
  "rwc_readLock c x =
     (case arw_try_read (rwc_lock x) of
        Some l \<Rightarrow> x\<lparr>rwc_lock := l, rwc_rarrivals := rwc_rarrivals x @ [c],
                    rwc_rgranted := rwc_rgranted x @ [c], rwc_rpending := rwc_rpending x @ [c]\<rparr>
      | None \<Rightarrow> x\<lparr>rwc_lock := arw_suspend_read c (rwc_lock x),
                  rwc_rarrivals := rwc_rarrivals x @ [c]\<rparr>)"

definition rwc_writeLock :: "nat \<Rightarrow> rwc \<Rightarrow> rwc" where
  "rwc_writeLock c x =
     (case arw_try_write (rwc_lock x) of
        Some l \<Rightarrow> x\<lparr>rwc_lock := l, rwc_warrivals := rwc_warrivals x @ [c],
                    rwc_wgranted := rwc_wgranted x @ [c], rwc_wpending := rwc_wpending x @ [c]\<rparr>
      | None \<Rightarrow> x\<lparr>rwc_lock := arw_suspend_write c (rwc_lock x),
                  rwc_warrivals := rwc_warrivals x @ [c]\<rparr>)"

definition rwc_woken_writer :: "wake option \<Rightarrow> rwc \<Rightarrow> rwc" where
  "rwc_woken_writer w x =
     (case w of
        None \<Rightarrow> x
      | Some v \<Rightarrow> x\<lparr>rwc_wgranted := rwc_wgranted x @ [woken v],
                    rwc_wpending := rwc_wpending x @ [woken v]\<rparr>)"

definition rwc_woken_readers :: "wake list \<Rightarrow> rwc \<Rightarrow> rwc" where
  "rwc_woken_readers ws x =
     x\<lparr>rwc_rgranted := rwc_rgranted x @ map woken ws, rwc_rpending := rwc_rpending x @ map woken ws\<rparr>"

definition read_guard_destroy :: "bool \<Rightarrow> nat \<Rightarrow> rwc \<Rightarrow> rwc" where
  "read_guard_destroy has_loop g x =
     (if g \<in> set (rwc_rguards x)
      then (case arw_unlockRead has_loop (rwc_lock x) of
              (w, l) \<Rightarrow> rwc_woken_writer w
                (x\<lparr>rwc_lock := l, rwc_rguards := remove1 g (rwc_rguards x)\<rparr>))
      else x)"

definition write_guard_destroy :: "bool \<Rightarrow> nat \<Rightarrow> rwc \<Rightarrow> rwc" where
  "write_guard_destroy has_loop g x =
     (if g \<in> set (rwc_wguards x)
      then (case arw_unlockWrite has_loop (rwc_lock x) of
              ((w, rs), l) \<Rightarrow> rwc_woken_readers rs (rwc_woken_writer w
                (x\<lparr>rwc_lock := l, rwc_wguards := remove1 g (rwc_wguards x)\<rparr>)))
      else x)"

text \<open>Moving a guard: the target takes the pointer, the source is left null.\<close>

definition guard_moved :: "nat \<Rightarrow> nat \<Rightarrow> nat list \<Rightarrow> nat list" where
  "guard_moved d g gs = (if g \<in> set gs then d # remove1 g gs else gs)"

definition read_guard_move :: "nat \<Rightarrow> nat \<Rightarrow> rwc \<Rightarrow> rwc" where
  "read_guard_move d g x = x\<lparr>rwc_rguards := guard_moved d g (rwc_rguards x)\<rparr>"

definition write_guard_move :: "nat \<Rightarrow> nat \<Rightarrow> rwc \<Rightarrow> rwc" where
  "write_guard_move d g x = x\<lparr>rwc_wguards := guard_moved d g (rwc_wguards x)\<rparr>"

definition read_guard_assign :: "bool \<Rightarrow> nat \<Rightarrow> nat \<Rightarrow> rwc \<Rightarrow> rwc" where
  "read_guard_assign has_loop d g x =
     (if d \<noteq> g then read_guard_move d g (read_guard_destroy has_loop d x) else x)"

definition write_guard_assign :: "bool \<Rightarrow> nat \<Rightarrow> nat \<Rightarrow> rwc \<Rightarrow> rwc" where
  "write_guard_assign has_loop d g x =
     (if d \<noteq> g then write_guard_move d g (write_guard_destroy has_loop d x) else x)"

fun rwc_step :: "bool \<times> rwop \<Rightarrow> rwc \<Rightarrow> rwc option" where
  "rwc_step (l, Read_lock c) x = Some (rwc_readLock c x)"
| "rwc_step (l, Write_lock c) x = Some (rwc_writeLock c x)"
| "rwc_step (l, Try_read g) x =
     (if g \<in> set (rwc_rguards x) then None
      else case arw_try_read (rwc_lock x) of
        None \<Rightarrow> Some x
      | Some l' \<Rightarrow> Some (x\<lparr>rwc_lock := l', rwc_rguards := g # rwc_rguards x\<rparr>))"
| "rwc_step (l, Try_write g) x =
     (if g \<in> set (rwc_wguards x) then None
      else case arw_try_write (rwc_lock x) of
        None \<Rightarrow> Some x
      | Some l' \<Rightarrow> Some (x\<lparr>rwc_lock := l', rwc_wguards := g # rwc_wguards x\<rparr>))"
| "rwc_step (l, Resume_read c g) x =
     (if c \<in> set (rwc_rpending x) \<and> g \<notin> set (rwc_rguards x)
      then Some (x\<lparr>rwc_rpending := remove1 c (rwc_rpending x), rwc_rguards := g # rwc_rguards x\<rparr>)
      else None)"
| "rwc_step (l, Resume_write c g) x =
     (if c \<in> set (rwc_wpending x) \<and> g \<notin> set (rwc_wguards x)
      then Some (x\<lparr>rwc_wpending := remove1 c (rwc_wpending x), rwc_wguards := g # rwc_wguards x\<rparr>)
      else None)"
| "rwc_step (l, Destroy_read g) x = Some (read_guard_destroy l g x)"
| "rwc_step (l, Destroy_write g) x = Some (write_guard_destroy l g x)"
| "rwc_step (l, Move_read d g) x =
     (if d \<in> set (rwc_rguards x) then None else Some (read_guard_move d g x))"
| "rwc_step (l, Move_write d g) x =
     (if d \<in> set (rwc_wguards x) then None else Some (write_guard_move d g x))"
| "rwc_step (l, Assign_read d g) x = Some (read_guard_assign l d g x)"
| "rwc_step (l, Assign_write d g) x = Some (write_guard_assign l d g x)"

section \<open>Invariant\<close>

text \<open>\<open>R\<close> readers and \<open>W\<close> writers are active (as guards or as coroutines about to build one).\<close>

definition arw_active :: "nat \<Rightarrow> nat \<Rightarrow> arw \<Rightarrow> bool" where
  "arw_active R W l \<longleftrightarrow>
     (W = 0 \<and> arw_state l = int R \<or> W = 1 \<and> R = 0 \<and> arw_state l = -1) \<and>
     (arw_readWaiters l \<noteq> [] \<longrightarrow> arw_state l < 0) \<and>
     (arw_writeWaiters l \<noteq> [] \<longrightarrow> arw_state l \<noteq> 0)"

definition rwc_inv :: "rwc \<Rightarrow> bool" where
  "rwc_inv x \<longleftrightarrow>
     arw_active (length (rwc_rguards x) + length (rwc_rpending x))
       (length (rwc_wguards x) + length (rwc_wpending x)) (rwc_lock x) \<and>
     distinct (rwc_rguards x) \<and> distinct (rwc_wguards x) \<and>
     rwc_rgranted x @ arw_readWaiters (rwc_lock x) = rwc_rarrivals x \<and>
     rwc_wgranted x @ arw_writeWaiters (rwc_lock x) = rwc_warrivals x"

lemma try_read_active:
  assumes "arw_active R W l" and "arw_try_read l = Some l'"
  shows "W = 0" and "arw_active (Suc R) 0 l'" and "arw_readWaiters l = []" "arw_readWaiters l' = []"
    and "arw_writeWaiters l' = arw_writeWaiters l"
  using assms by (auto simp: arw_active_def arw_try_read_def split: if_splits)

lemma try_write_active:
  assumes "arw_active R W l" and "arw_try_write l = Some l'"
  shows "R = 0" and "W = 0" and "arw_active 0 (Suc 0) l'" and "arw_writeWaiters l = []"
    and "arw_writeWaiters l' = []" and "arw_readWaiters l' = arw_readWaiters l"
  using assms by (auto simp: arw_active_def arw_try_write_def split: if_splits)

lemma suspend_read_active:
  assumes "arw_active R W l" and "arw_try_read l = None"
  shows "arw_active R W (arw_suspend_read c l)"
  using assms by (auto simp: arw_active_def arw_try_read_def arw_suspend_read_def split: if_splits)

lemma suspend_write_active:
  assumes "arw_active R W l" and "arw_try_write l = None"
  shows "arw_active R W (arw_suspend_write c l)"
  using assms by (auto simp: arw_active_def arw_try_write_def arw_suspend_write_def split: if_splits)

lemma readLock_inv:
  assumes "rwc_inv x"
  shows "rwc_inv (rwc_readLock c x)"
proof (cases "arw_try_read (rwc_lock x)")
  case None
  then show ?thesis
    using assms suspend_read_active [OF _ None]
    by (auto simp: rwc_inv_def rwc_readLock_def) (auto simp: arw_suspend_read_def)
next
  case (Some l)
  have act: "arw_active (length (rwc_rguards x) + length (rwc_rpending x))
       (length (rwc_wguards x) + length (rwc_wpending x)) (rwc_lock x)"
    using assms by (simp add: rwc_inv_def)
  show ?thesis
    using assms Some try_read_active [OF act Some] by (simp add: rwc_inv_def rwc_readLock_def)
qed

lemma writeLock_inv:
  assumes "rwc_inv x"
  shows "rwc_inv (rwc_writeLock c x)"
proof (cases "arw_try_write (rwc_lock x)")
  case None
  then show ?thesis
    using assms suspend_write_active [OF _ None]
    by (auto simp: rwc_inv_def rwc_writeLock_def) (auto simp: arw_suspend_write_def)
next
  case (Some l)
  have act: "arw_active (length (rwc_rguards x) + length (rwc_rpending x))
       (length (rwc_wguards x) + length (rwc_wpending x)) (rwc_lock x)"
    using assms by (simp add: rwc_inv_def)
  show ?thesis
    using assms Some try_write_active [OF act Some] by (simp add: rwc_inv_def rwc_writeLock_def)
qed

lemma try_read_inv:
  assumes "rwc_inv x" and "arw_try_read (rwc_lock x) = Some l" and "g \<notin> set (rwc_rguards x)"
  shows "rwc_inv (x\<lparr>rwc_lock := l, rwc_rguards := g # rwc_rguards x\<rparr>)"
proof -
  have act: "arw_active (length (rwc_rguards x) + length (rwc_rpending x))
       (length (rwc_wguards x) + length (rwc_wpending x)) (rwc_lock x)"
    using assms by (simp add: rwc_inv_def)
  show ?thesis using assms try_read_active [OF act assms(2)] by (simp add: rwc_inv_def)
qed

lemma try_write_inv:
  assumes "rwc_inv x" and "arw_try_write (rwc_lock x) = Some l" and "g \<notin> set (rwc_wguards x)"
  shows "rwc_inv (x\<lparr>rwc_lock := l, rwc_wguards := g # rwc_wguards x\<rparr>)"
proof -
  have act: "arw_active (length (rwc_rguards x) + length (rwc_rpending x))
       (length (rwc_wguards x) + length (rwc_wpending x)) (rwc_lock x)"
    using assms by (simp add: rwc_inv_def)
  show ?thesis using assms try_write_active [OF act assms(2)] by (simp add: rwc_inv_def)
qed

lemma resume_read_inv:
  assumes "rwc_inv x" and "c \<in> set (rwc_rpending x)" and "g \<notin> set (rwc_rguards x)"
  shows "rwc_inv (x\<lparr>rwc_rpending := remove1 c (rwc_rpending x), rwc_rguards := g # rwc_rguards x\<rparr>)"
  using assms by (simp add: rwc_inv_def flip: Suc_length_remove1 [OF assms(2)])

lemma resume_write_inv:
  assumes "rwc_inv x" and "c \<in> set (rwc_wpending x)" and "g \<notin> set (rwc_wguards x)"
  shows "rwc_inv (x\<lparr>rwc_wpending := remove1 c (rwc_wpending x), rwc_wguards := g # rwc_wguards x\<rparr>)"
  using assms by (simp add: rwc_inv_def flip: Suc_length_remove1 [OF assms(2)])

lemma guard_moved_length: "length (guard_moved d g gs) = length gs"
  using Suc_length_remove1 [of g gs] by (auto simp: guard_moved_def)

lemma guard_moved_distinct: "distinct gs \<Longrightarrow> d \<notin> set gs \<Longrightarrow> distinct (guard_moved d g gs)"
  by (auto simp: guard_moved_def distinct_remove1)

lemma read_move_inv: "rwc_inv x \<Longrightarrow> d \<notin> set (rwc_rguards x) \<Longrightarrow> rwc_inv (read_guard_move d g x)"
  by (simp add: rwc_inv_def read_guard_move_def guard_moved_length guard_moved_distinct)

lemma write_move_inv: "rwc_inv x \<Longrightarrow> d \<notin> set (rwc_wguards x) \<Longrightarrow> rwc_inv (write_guard_move d g x)"
  by (simp add: rwc_inv_def write_guard_move_def guard_moved_length guard_moved_distinct)

text \<open>The two releases on the lock alone.\<close>

lemma unlockRead_cases:
  assumes "arw_active (Suc R) W l"
  shows "(R = 0 \<and> (\<exists>h hs. arw_writeWaiters l = h # hs \<and>
        arw_unlockRead b l = (Some (wake_coroutine b h), l\<lparr>arw_state := -1, arw_writeWaiters := hs\<rparr>) \<and>
        arw_active 0 1 (l\<lparr>arw_state := -1, arw_writeWaiters := hs\<rparr>))) \<or>
    (arw_unlockRead b l = (None, l\<lparr>arw_state := int R\<rparr>) \<and> arw_active R 0 (l\<lparr>arw_state := int R\<rparr>))"
  using assms
  by (cases "arw_writeWaiters l")
    (auto simp: arw_active_def arw_unlockRead_def arw_grant_writer_def arw_try_write_def Let_def)

lemma unlockWrite_cases:
  assumes "arw_active R W l" and "W > 0"
  shows "(\<exists>h hs. arw_writeWaiters l = h # hs \<and>
      arw_unlockWrite b l =
        ((Some (wake_coroutine b h), []), l\<lparr>arw_state := -1, arw_writeWaiters := hs\<rparr>) \<and>
      arw_active 0 1 (l\<lparr>arw_state := -1, arw_writeWaiters := hs\<rparr>)) \<or>
    (arw_writeWaiters l = [] \<and>
      arw_unlockWrite b l = ((None, map (wake_coroutine b) (arw_readWaiters l)),
        l\<lparr>arw_state := int (length (arw_readWaiters l)), arw_readWaiters := []\<rparr>) \<and>
      arw_active (length (arw_readWaiters l)) 0
        (l\<lparr>arw_state := int (length (arw_readWaiters l)), arw_readWaiters := []\<rparr>))"
  using assms
  by (cases "arw_writeWaiters l"; cases "arw_readWaiters l")
    (auto simp: arw_active_def arw_unlockWrite_def arw_grant_writer_def arw_try_write_def Let_def)

lemma read_destroy_inv:
  assumes "rwc_inv x"
  shows "rwc_inv (read_guard_destroy b g x)"
proof (cases "g \<in> set (rwc_rguards x)")
  case True
  let ?R = "length (remove1 g (rwc_rguards x)) + length (rwc_rpending x)"
  let ?W = "length (rwc_wguards x) + length (rwc_wpending x)"
  have act: "arw_active (Suc ?R) ?W (rwc_lock x)"
    using assms by (simp add: rwc_inv_def flip: Suc_length_remove1 [OF True])
  then have W: "?W = 0" by (auto simp: arw_active_def)
  from unlockRead_cases [OF act, of b] show ?thesis
    using assms True W
    by (elim disjE conjE exE)
      (simp_all add: rwc_inv_def read_guard_destroy_def rwc_woken_writer_def distinct_remove1)
next
  case False
  then show ?thesis using assms by (simp add: read_guard_destroy_def)
qed

lemma write_destroy_inv:
  assumes "rwc_inv x"
  shows "rwc_inv (write_guard_destroy b g x)"
proof (cases "g \<in> set (rwc_wguards x)")
  case True
  let ?R = "length (rwc_rguards x) + length (rwc_rpending x)"
  let ?W = "length (rwc_wguards x) + length (rwc_wpending x)"
  have act: "arw_active ?R ?W (rwc_lock x)"
    using assms by (simp add: rwc_inv_def)
  have pos: "?W > 0" using True by (auto simp: length_pos_if_in_set)
  then have one: "?W = 1" "?R = 0" using act by (auto simp: arw_active_def)
  then have "length (remove1 g (rwc_wguards x)) = 0" "length (rwc_wpending x) = 0"
    using Suc_length_remove1 [OF True] by linarith+
  with unlockWrite_cases [OF act pos, of b] show ?thesis
    using assms True one
    by (elim disjE conjE exE)
      (simp_all add: rwc_inv_def write_guard_destroy_def rwc_woken_writer_def rwc_woken_readers_def comp_def)
next
  case False
  then show ?thesis using assms by (simp add: write_guard_destroy_def)
qed

lemma read_destroy_gone:
  "rwc_inv x \<Longrightarrow> g \<notin> set (rwc_rguards (read_guard_destroy b g x))"
  by (auto simp: read_guard_destroy_def rwc_woken_writer_def rwc_inv_def split: prod.splits option.splits)

lemma write_destroy_gone:
  "rwc_inv x \<Longrightarrow> g \<notin> set (rwc_wguards (write_guard_destroy b g x))"
  by (auto simp: write_guard_destroy_def rwc_woken_writer_def rwc_woken_readers_def rwc_inv_def
      split: prod.splits option.splits)

lemma read_assign_inv: "rwc_inv x \<Longrightarrow> rwc_inv (read_guard_assign b d g x)"
  by (simp add: read_guard_assign_def read_move_inv read_destroy_inv read_destroy_gone)

lemma write_assign_inv: "rwc_inv x \<Longrightarrow> rwc_inv (write_guard_assign b d g x)"
  by (simp add: write_guard_assign_def write_move_inv write_destroy_inv write_destroy_gone)


section \<open>Every operation keeps the invariant\<close>

lemma rwc_step_inv:
  assumes "rwc_step (b, p) x = Some x'" and "rwc_inv x"
  shows "rwc_inv x'"
  using assms
  by (cases p)
    (auto split: if_splits option.splits
      intro: readLock_inv writeLock_inv try_read_inv try_write_inv resume_read_inv resume_write_inv
        read_destroy_inv write_destroy_inv read_move_inv write_move_inv read_assign_inv write_assign_inv)

definition rwc_reads :: "rwc \<Rightarrow> nat \<Rightarrow> bool" where
  "rwc_reads x g \<longleftrightarrow> g \<in> set (rwc_rguards x)"

definition rwc_writes :: "rwc \<Rightarrow> nat \<Rightarrow> bool" where
  "rwc_writes x g \<longleftrightarrow> g \<in> set (rwc_wguards x)"

lemma rwc_writer_alone:
  assumes "rwc_inv x" and "rwc_writes x g"
  shows "\<not> rwc_reads x d \<and> (rwc_writes x d \<longrightarrow> d = g)"
proof -
  have g: "g \<in> set (rwc_wguards x)" using assms(2) by (simp add: rwc_writes_def)
  have act: "arw_active (length (rwc_rguards x) + length (rwc_rpending x))
       (length (rwc_wguards x) + length (rwc_wpending x)) (rwc_lock x)"
    using assms by (simp add: rwc_inv_def)
  moreover have "length (rwc_wguards x) > 0" using g by (rule length_pos_if_in_set)
  ultimately have "length (rwc_wguards x) = 1 \<and> length (rwc_rguards x) = 0"
    unfolding arw_active_def by linarith
  then show ?thesis
    using g by (auto simp: rwc_reads_def rwc_writes_def length_Suc_conv)
qed

interpretation arwx: rw_lock_system rwc_step rwc_new rwc_inv "\<lambda>_. True" rwc_reads rwc_writes
proof
  show "rwc_inv rwc_new"
    by (simp add: rwc_inv_def rwc_new_def arw_new_def arw_active_def)
  show "rwc_inv x'" if "rwc_step l x = Some x'" "rwc_inv x" for l x x'
    using that rwc_step_inv by (cases l) auto
qed (rule rwc_writer_alone)

section \<open>Properties\<close>

text \<open>
  Claim C19. \<open>async::RwLock\<close> excludes: while a write guard is alive no read guard is and it is the
  only write guard, through every sequence of lock, try, resume, move, assign and destroy, and the
  state word tells the same story through \<open>hasReaders\<close> and \<open>hasWriter\<close>.
\<close>

theorem async_rwlock_exclusion:
  assumes "run rwc_step ps rwc_new = Some x" and "rwc_writes x g"
  shows "\<not> rwc_reads x d \<and> (rwc_writes x d \<longrightarrow> d = g) \<and> arw_hasWriter (rwc_lock x) \<and>
    \<not> arw_hasReaders (rwc_lock x)"
proof -
  have inv: "rwc_inv x" using arwx.guarded_run [OF assms(1)] by (simp add: list_all_iff)
  then have "arw_hasWriter (rwc_lock x)"
    using assms(2) length_pos_if_in_set [of g "rwc_wguards x"]
    by (auto simp: rwc_inv_def arw_active_def arw_hasWriter_def rwc_writes_def)
  moreover have "\<not> rwc_reads x d \<and> (rwc_writes x d \<longrightarrow> d = g)"
    using assms by (intro arwx.rw_lock_exclusion) (auto simp: list_all_iff)
  ultimately show ?thesis by (simp add: arw_hasWriter_def arw_hasReaders_def)
qed

definition arw_schedule :: "(bool \<times> rwop) list" where
  "arw_schedule = [(True, Read_lock 1), (True, Write_lock 2), (True, Read_lock 3),
     (True, Resume_read 1 1), (True, Resume_read 3 3), (True, Destroy_read 1), (True, Write_lock 4),
     (True, Destroy_read 3), (True, Resume_write 2 2), (True, Read_lock 5)]"

lemmas rwc_exec = rwc_new_def arw_new_def rwc_readLock_def rwc_writeLock_def rwc_woken_writer_def
  rwc_woken_readers_def read_guard_destroy_def write_guard_destroy_def arw_try_read_def
  arw_try_write_def arw_suspend_read_def arw_suspend_write_def arw_unlockRead_def
  arw_unlockWrite_def arw_grant_writer_def wake_coroutine_def Let_def

theorem async_rwlock_exclusion_witness:
  "\<exists>x. run rwc_step arw_schedule rwc_new = Some x \<and> rwc_writes x 2 \<and> \<not> rwc_reads x 3 \<and>
    arw_hasWriter (rwc_lock x)"
proof -
  define x where "x = \<lparr>rwc_lock = \<lparr>arw_state = -1, arw_readWaiters = [5], arw_writeWaiters = [4]\<rparr>,
    rwc_rarrivals = [1, 3, 5], rwc_rgranted = [1, 3], rwc_rpending = [], rwc_rguards = [],
    rwc_warrivals = [2, 4], rwc_wgranted = [2], rwc_wpending = [], rwc_wguards = [2]\<rparr>"
  have r: "run rwc_step arw_schedule rwc_new = Some x"
    by (simp add: arw_schedule_def rwc_exec x_def)
  have w: "rwc_writes x 2" by (simp add: x_def rwc_writes_def)
  show ?thesis using r w async_rwlock_exclusion [OF r w, of 3] by blast
qed

text \<open>
  Claim C20. Nobody waits for a free \<open>async::RwLock\<close>, and waiting is fair within each kind: a reader
  waits only while a writer is active, a writer only while somebody is, and readers among
  themselves and writers among themselves are granted in the order of their calls.
\<close>

theorem async_rwlock_progress:
  assumes "run rwc_step ps rwc_new = Some x"
  shows "(arw_readWaiters (rwc_lock x) \<noteq> [] \<longrightarrow> arw_hasWriter (rwc_lock x)) \<and>
    (arw_writeWaiters (rwc_lock x) \<noteq> [] \<longrightarrow> arw_hasWriter (rwc_lock x) \<or> arw_hasReaders (rwc_lock x)) \<and>
    rwc_rgranted x @ arw_readWaiters (rwc_lock x) = rwc_rarrivals x \<and>
    rwc_wgranted x @ arw_writeWaiters (rwc_lock x) = rwc_warrivals x"
proof -
  have "rwc_inv x" using arwx.guarded_run [OF assms] by (simp add: list_all_iff)
  then show ?thesis by (auto simp: rwc_inv_def arw_active_def arw_hasWriter_def arw_hasReaders_def)
qed

theorem async_rwlock_progress_witness:
  "\<exists>x. run rwc_step arw_schedule rwc_new = Some x \<and> arw_readWaiters (rwc_lock x) = [5] \<and>
    rwc_rgranted x @ arw_readWaiters (rwc_lock x) = rwc_rarrivals x \<and>
    rwc_wgranted x @ arw_writeWaiters (rwc_lock x) = rwc_warrivals x"
proof -
  define x where "x = \<lparr>rwc_lock = \<lparr>arw_state = -1, arw_readWaiters = [5], arw_writeWaiters = [4]\<rparr>,
    rwc_rarrivals = [1, 3, 5], rwc_rgranted = [1, 3], rwc_rpending = [], rwc_rguards = [],
    rwc_warrivals = [2, 4], rwc_wgranted = [2], rwc_wpending = [], rwc_wguards = [2]\<rparr>"
  have r: "run rwc_step arw_schedule rwc_new = Some x"
    by (simp add: arw_schedule_def rwc_exec x_def)
  have "arw_readWaiters (rwc_lock x) = [5]" by (simp add: x_def)
  then show ?thesis using r async_rwlock_progress [OF r] by blast
qed

end
