(* ===== verification/Async_Channel.thy ===== *)
theory Async_Channel
  imports Pman_Prelude "HOL-Library.Sublist"
begin

text \<open>
  The bounded channel of src/include/pman/async/channel.hpp: \<open>ChannelImpl\<close> with its awaiters, and
  the coroutines \<open>Sender::send\<close> and \<open>Receiver::recv\<close>. A coroutine is a number; resuming it through
  the event loop appends it to \<open>ch_resumed\<close>. What a C++ move leaves behind in the moved-from object
  depends on the element type, so it is a parameter \<open>moved\<close> of the operations that use a value after
  having moved from it; for types whose move is a copy it is the identity.
\<close>

section \<open>ChannelImpl\<close>

record 'a chan =
  ch_capacity :: nat
  ch_closed :: bool
  ch_buffer :: "'a list"
  ch_recvWaiters :: "nat list"
  ch_sendWaiters :: "(nat \<times> 'a) list"
  ch_sent_flag :: "nat \<Rightarrow> bool"
  ch_resumed :: "nat list"

definition ch_new :: "nat \<Rightarrow> 'a chan" where
  "ch_new n = \<lparr>ch_capacity = n, ch_closed = False, ch_buffer = [], ch_recvWaiters = [],
     ch_sendWaiters = [], ch_sent_flag = (\<lambda>_. False), ch_resumed = []\<rparr>"

definition ch_resumeHandle :: "nat \<Rightarrow> 'a chan \<Rightarrow> 'a chan" where
  "ch_resumeHandle h s = s\<lparr>ch_resumed := ch_resumed s @ [h]\<rparr>"

definition ch_wakeNextReceiver :: "'a chan \<Rightarrow> 'a chan" where
  "ch_wakeNextReceiver s =
     (case ch_recvWaiters s of
        [] \<Rightarrow> s
      | h # hs \<Rightarrow> ch_resumeHandle h (s\<lparr>ch_recvWaiters := hs\<rparr>))"

definition ch_wakeNextSender :: "'a chan \<Rightarrow> 'a chan" where
  "ch_wakeNextSender s =
     (case ch_sendWaiters s of
        [] \<Rightarrow> s
      | (h, v) # ws \<Rightarrow>
          if length (ch_buffer s) < ch_capacity s
          then ch_resumeHandle h (ch_wakeNextReceiver
                 (s\<lparr>ch_sendWaiters := ws, ch_buffer := ch_buffer s @ [v],
                    ch_sent_flag := (ch_sent_flag s)(h := True)\<rparr>))
          else s)"

definition ch_trySend :: "'a \<Rightarrow> 'a chan \<Rightarrow> bool \<times> 'a chan" where
  "ch_trySend v s =
     (if ch_closed s then (False, s)
      else if length (ch_buffer s) \<ge> ch_capacity s then (False, s)
      else (True, ch_wakeNextReceiver (s\<lparr>ch_buffer := ch_buffer s @ [v]\<rparr>)))"

definition ch_tryRecv :: "'a chan \<Rightarrow> 'a option \<times> 'a chan" where
  "ch_tryRecv s =
     (case ch_buffer s of
        [] \<Rightarrow> (None, s)
      | v # vs \<Rightarrow> (Some v, ch_wakeNextSender (s\<lparr>ch_buffer := vs\<rparr>)))"

definition ch_close :: "'a chan \<Rightarrow> 'a chan" where
  "ch_close s =
     (if ch_closed s then s
      else (let s1 = fold ch_resumeHandle (ch_recvWaiters s) (s\<lparr>ch_closed := True\<rparr>);
                s2 = s1\<lparr>ch_recvWaiters := []\<rparr>;
                s3 = fold (\<lambda>w. ch_resumeHandle (fst w)) (ch_sendWaiters s2) s2
            in s3\<lparr>ch_sendWaiters := []\<rparr>))"

text \<open>\<open>SendAwaiter\<close>\<close>

definition ch_sendAwaiter :: "nat \<Rightarrow> 'a chan \<Rightarrow> 'a chan" where
  "ch_sendAwaiter c s = s\<lparr>ch_sent_flag := (ch_sent_flag s)(c := False)\<rparr>"

definition ch_send_ready :: "'a chan \<Rightarrow> bool" where
  "ch_send_ready s = (if ch_closed s then True else length (ch_buffer s) < ch_capacity s)"

definition ch_send_suspend :: "nat \<Rightarrow> 'a \<Rightarrow> 'a chan \<Rightarrow> 'a chan" where
  "ch_send_suspend c v s = s\<lparr>ch_sendWaiters := ch_sendWaiters s @ [(c, v)]\<rparr>"

definition ch_send_resume :: "nat \<Rightarrow> 'a chan \<Rightarrow> bool" where
  "ch_send_resume c s = (if ch_closed s then False else ch_sent_flag s c)"

text \<open>\<open>RecvAwaiter\<close>; its \<open>await_resume\<close> is \<open>tryRecv\<close> under the same lock.\<close>

definition ch_recv_ready :: "'a chan \<Rightarrow> bool" where
  "ch_recv_ready s = (if ch_closed s then True else ch_buffer s \<noteq> [])"

definition ch_recv_suspend :: "nat \<Rightarrow> 'a chan \<Rightarrow> 'a chan" where
  "ch_recv_suspend c s = s\<lparr>ch_recvWaiters := ch_recvWaiters s @ [c]\<rparr>"

definition ch_recv_resume :: "'a chan \<Rightarrow> 'a option \<times> 'a chan" where
  "ch_recv_resume s =
     (case ch_buffer s of
        v # vs \<Rightarrow> (Some v, ch_wakeNextSender (s\<lparr>ch_buffer := vs\<rparr>))
      | [] \<Rightarrow> (None, s))"

section \<open>Sender and Receiver\<close>

datatype 'r outcome = Returned 'r | Suspended

text \<open>
  \<open>Sender::send\<close> up to its suspension. \<open>impl_->trySend(std::move(value))\<close> takes its parameter by
  value, so the caller's \<open>value\<close> is moved from even when the call fails; the awaiter then gets what
  the move left.
\<close>

definition ch_send :: "('a \<Rightarrow> 'a) \<Rightarrow> nat \<Rightarrow> 'a \<Rightarrow> 'a chan \<Rightarrow> bool outcome \<times> 'a chan" where
  "ch_send moved c v s =
     (if ch_closed s then (Returned False, s)
      else case ch_trySend v s of
        (True, s1) \<Rightarrow> (Returned True, s1)
      | (False, s1) \<Rightarrow>
          (let s2 = ch_sendAwaiter c s1 in
           if ch_send_ready s2 then (Returned (ch_send_resume c s2), s2)
           else (Suspended, ch_send_suspend c (moved v) s2)))"

definition ch_recv :: "nat \<Rightarrow> 'a chan \<Rightarrow> 'a option outcome \<times> 'a chan" where
  "ch_recv c s =
     (case ch_tryRecv s of
        (Some v, s1) \<Rightarrow> (Returned (Some v), s1)
      | (None, s1) \<Rightarrow>
          if ch_closed s1 then (Returned None, s1)
          else if ch_recv_ready s1 then (case ch_recv_resume s1 of (r, s2) \<Rightarrow> (Returned r, s2))
          else (Suspended, ch_recv_suspend c s1))"

section \<open>Coroutines on one event loop\<close>

text \<open>
  The client: coroutines call the channel and are resumed by the loop, one at a time.
  \<open>cc_submitted\<close> records the values the channel took charge of, in the order of the calls, and
  \<open>cc_taken\<close> the values handed to receivers.
\<close>

datatype cc_pc = Free | In_send | In_recv

record 'a cc =
  cc_chan :: "'a chan"
  cc_pcs :: "nat \<Rightarrow> cc_pc"
  cc_submitted :: "'a list"
  cc_taken :: "'a list"

datatype 'a cc_op =
    Send nat 'a
  | Recv nat
  | Try_send 'a
  | Try_recv
  | Close
  | Resume nat

definition cc_new :: "nat \<Rightarrow> 'a cc" where
  "cc_new n = \<lparr>cc_chan = ch_new n, cc_pcs = (\<lambda>_. Free), cc_submitted = [], cc_taken = []\<rparr>"

definition cc_take :: "'a option \<Rightarrow> 'a cc \<Rightarrow> 'a cc" where
  "cc_take r x = (case r of None \<Rightarrow> x | Some v \<Rightarrow> x\<lparr>cc_taken := cc_taken x @ [v]\<rparr>)"

definition cc_send :: "('a \<Rightarrow> 'a) \<Rightarrow> nat \<Rightarrow> 'a \<Rightarrow> 'a cc \<Rightarrow> 'a cc" where
  "cc_send moved c v x =
     (case ch_send moved c v (cc_chan x) of
        (Returned True, s) \<Rightarrow> x\<lparr>cc_chan := s, cc_submitted := cc_submitted x @ [v]\<rparr>
      | (Returned False, s) \<Rightarrow> x\<lparr>cc_chan := s\<rparr>
      | (Suspended, s) \<Rightarrow> x\<lparr>cc_chan := s, cc_pcs := (cc_pcs x)(c := In_send),
                             cc_submitted := cc_submitted x @ [v]\<rparr>)"

definition cc_recv :: "nat \<Rightarrow> 'a cc \<Rightarrow> 'a cc" where
  "cc_recv c x =
     (case ch_recv c (cc_chan x) of
        (Returned r, s) \<Rightarrow> cc_take r (x\<lparr>cc_chan := s\<rparr>)
      | (Suspended, s) \<Rightarrow> x\<lparr>cc_chan := s, cc_pcs := (cc_pcs x)(c := In_recv)\<rparr>)"

definition cc_resume :: "nat \<Rightarrow> 'a cc \<Rightarrow> 'a cc" where
  "cc_resume c x =
     (let s = (cc_chan x)\<lparr>ch_resumed := remove1 c (ch_resumed (cc_chan x))\<rparr>;
          y = x\<lparr>cc_pcs := (cc_pcs x)(c := Free)\<rparr> in
      case cc_pcs x c of
        In_recv \<Rightarrow> (case ch_recv_resume s of (r, s1) \<Rightarrow> cc_take r (y\<lparr>cc_chan := s1\<rparr>))
      | _ \<Rightarrow> y\<lparr>cc_chan := s\<rparr>)"

fun cc_step :: "('a \<Rightarrow> 'a) \<Rightarrow> 'a cc_op \<Rightarrow> 'a cc \<Rightarrow> 'a cc option" where
  "cc_step moved (Send c v) x = (if cc_pcs x c = Free then Some (cc_send moved c v x) else None)"
| "cc_step moved (Recv c) x = (if cc_pcs x c = Free then Some (cc_recv c x) else None)"
| "cc_step moved (Try_send v) x =
     (case ch_trySend v (cc_chan x) of
        (True, s) \<Rightarrow> Some (x\<lparr>cc_chan := s, cc_submitted := cc_submitted x @ [v]\<rparr>)
      | (False, s) \<Rightarrow> Some (x\<lparr>cc_chan := s\<rparr>))"
| "cc_step moved Try_recv x =
     (case ch_tryRecv (cc_chan x) of (r, s) \<Rightarrow> Some (cc_take r (x\<lparr>cc_chan := s\<rparr>)))"
| "cc_step moved Close x = Some (x\<lparr>cc_chan := ch_close (cc_chan x)\<rparr>)"
| "cc_step moved (Resume c) x =
     (if c \<in> set (ch_resumed (cc_chan x)) then Some (cc_resume c x) else None)"

section \<open>Invariant\<close>

text \<open>The coroutines parked in the channel or on their way back from it.\<close>

definition ch_parked :: "'a chan \<Rightarrow> nat list" where
  "ch_parked s = ch_recvWaiters s @ map fst (ch_sendWaiters s) @ ch_resumed s"

definition cc_woken :: "(nat \<Rightarrow> cc_pc) \<Rightarrow> 'a chan \<Rightarrow> nat" where
  "cc_woken pcs s = length (filter (\<lambda>c. pcs c = In_recv) (ch_resumed s))"

definition ch_inv :: "(nat \<Rightarrow> cc_pc) \<Rightarrow> 'a chan \<Rightarrow> bool" where
  "ch_inv pcs s \<longleftrightarrow>
     length (ch_buffer s) \<le> ch_capacity s \<and>
     (ch_closed s \<longrightarrow> ch_recvWaiters s = [] \<and> ch_sendWaiters s = []) \<and>
     (ch_sendWaiters s \<noteq> [] \<longrightarrow> length (ch_buffer s) = ch_capacity s) \<and>
     (ch_recvWaiters s \<noteq> [] \<longrightarrow> length (ch_buffer s) \<le> cc_woken pcs s) \<and>
     distinct (ch_parked s) \<and>
     (\<forall>c \<in> set (ch_recvWaiters s). pcs c = In_recv) \<and>
     (\<forall>c \<in> set (ch_parked s). pcs c \<noteq> Free)"

text \<open>The values the channel still owes, in order; after \<open>close\<close> those of dropped senders are missing.\<close>

definition ch_pending :: "'a chan \<Rightarrow> 'a list" where
  "ch_pending s = ch_buffer s @ map snd (ch_sendWaiters s)"

definition cc_ledger :: "'a cc \<Rightarrow> bool" where
  "cc_ledger x \<longleftrightarrow>
     (if ch_closed (cc_chan x) then prefix (cc_taken x @ ch_pending (cc_chan x)) (cc_submitted x)
      else cc_taken x @ ch_pending (cc_chan x) = cc_submitted x)"


lemma ch_resumeHandle_fields [simp]:
  "ch_capacity (ch_resumeHandle h s) = ch_capacity s"
  "ch_closed (ch_resumeHandle h s) = ch_closed s"
  "ch_buffer (ch_resumeHandle h s) = ch_buffer s"
  "ch_recvWaiters (ch_resumeHandle h s) = ch_recvWaiters s"
  "ch_sendWaiters (ch_resumeHandle h s) = ch_sendWaiters s"
  "ch_resumed (ch_resumeHandle h s) = ch_resumed s @ [h]"
  by (simp_all add: ch_resumeHandle_def)

lemma ch_wakeNextReceiver_fields [simp]:
  "ch_capacity (ch_wakeNextReceiver s) = ch_capacity s"
  "ch_closed (ch_wakeNextReceiver s) = ch_closed s"
  "ch_buffer (ch_wakeNextReceiver s) = ch_buffer s"
  "ch_sendWaiters (ch_wakeNextReceiver s) = ch_sendWaiters s"
  "ch_recvWaiters (ch_wakeNextReceiver s) = tl (ch_recvWaiters s)"
  "ch_resumed (ch_wakeNextReceiver s) = ch_resumed s @ take 1 (ch_recvWaiters s)"
  by (simp_all add: ch_wakeNextReceiver_def split: list.splits)

lemma wake_receiver_inv:
  assumes "length (ch_buffer s) \<le> ch_capacity s"
    and "ch_closed s \<longrightarrow> ch_recvWaiters s = [] \<and> ch_sendWaiters s = []"
    and "ch_sendWaiters s \<noteq> [] \<longrightarrow> length (ch_buffer s) = ch_capacity s"
    and "ch_recvWaiters s \<noteq> [] \<longrightarrow> length (ch_buffer s) \<le> Suc (cc_woken pcs s)"
    and "distinct (ch_parked s)" and "\<forall>c \<in> set (ch_recvWaiters s). pcs c = In_recv"
    and "\<forall>c \<in> set (ch_parked s). pcs c \<noteq> Free"
  shows "ch_inv pcs (ch_wakeNextReceiver s)"
proof (cases "ch_recvWaiters s")
  case Nil
  then show ?thesis using assms by (simp add: ch_inv_def ch_parked_def cc_woken_def)
next
  case (Cons h hs)
  then show ?thesis using assms by (auto simp: ch_inv_def ch_parked_def cc_woken_def)
qed

lemma resumeHandle_inv:
  assumes "ch_inv pcs s" and "h \<notin> set (ch_parked s)" and "pcs h \<noteq> Free"
  shows "ch_inv pcs (ch_resumeHandle h s)"
  using assms by (auto simp: ch_inv_def ch_parked_def cc_woken_def)

lemma push_inv:
  assumes "ch_inv pcs s" and "\<not> ch_closed s" and "length (ch_buffer s) < ch_capacity s"
  shows "ch_inv pcs (ch_wakeNextReceiver (s\<lparr>ch_buffer := ch_buffer s @ [v]\<rparr>))"
  using assms by (intro wake_receiver_inv) (auto simp: ch_inv_def ch_parked_def cc_woken_def)

lemma trySend_inv:
  assumes "ch_inv pcs s" and "ch_trySend v s = (b, s')"
  shows "ch_inv pcs s'"
  using assms by (auto intro: push_inv simp: ch_trySend_def not_le split: if_splits)

text \<open>After a value has been popped, waking the next sender restores the invariant.\<close>

lemma wake_sender_inv:
  assumes "length (ch_buffer s) < ch_capacity s"
    and "ch_closed s \<longrightarrow> ch_recvWaiters s = [] \<and> ch_sendWaiters s = []"
    and "ch_sendWaiters s \<noteq> [] \<longrightarrow> Suc (length (ch_buffer s)) = ch_capacity s"
    and "ch_recvWaiters s \<noteq> [] \<longrightarrow> length (ch_buffer s) \<le> cc_woken pcs s"
    and "distinct (ch_parked s)" and "\<forall>c \<in> set (ch_recvWaiters s). pcs c = In_recv"
    and "\<forall>c \<in> set (ch_parked s). pcs c \<noteq> Free"
  shows "ch_inv pcs (ch_wakeNextSender s)"
proof (cases "ch_sendWaiters s")
  case Nil
  then show ?thesis using assms by (simp add: ch_inv_def ch_wakeNextSender_def)
next
  case (Cons w ws)
  obtain h v where w: "w = (h, v)" by (cases w)
  let ?s = "s\<lparr>ch_sendWaiters := ws, ch_buffer := ch_buffer s @ [v],
    ch_sent_flag := (ch_sent_flag s)(h := True)\<rparr>"
  have "ch_inv pcs (ch_wakeNextReceiver ?s)"
    using assms Cons w by (intro wake_receiver_inv) (auto simp: ch_parked_def cc_woken_def)
  then have "ch_inv pcs (ch_resumeHandle h (ch_wakeNextReceiver ?s))"
    using assms Cons w
    by (intro resumeHandle_inv) (auto simp: ch_parked_def dest: in_set_takeD in_set_tlD)
  then show ?thesis using assms(1) Cons w by (simp add: ch_wakeNextSender_def)
qed

lemma tryRecv_inv:
  assumes "ch_inv pcs s" and "ch_tryRecv s = (r, s')"
  shows "ch_inv pcs s'"
proof (cases "ch_buffer s")
  case Nil
  then show ?thesis using assms by (simp add: ch_tryRecv_def)
next
  case (Cons v vs)
  have "ch_inv pcs (ch_wakeNextSender (s\<lparr>ch_buffer := vs\<rparr>))"
    using assms(1) Cons by (intro wake_sender_inv) (auto simp: ch_inv_def ch_parked_def cc_woken_def)
  then show ?thesis using assms(2) Cons by (simp add: ch_tryRecv_def)
qed

lemma recv_resume_eq: "ch_recv_resume = ch_tryRecv"
  by (rule ext) (simp add: ch_recv_resume_def ch_tryRecv_def split: list.splits)

lemma fold_resumeHandle:
  "fold (\<lambda>w. ch_resumeHandle (f w)) hs s = s\<lparr>ch_resumed := ch_resumed s @ map f hs\<rparr>"
  by (induction hs arbitrary: s) (simp_all add: ch_resumeHandle_def)

lemma ch_close_eq:
  "ch_close s = (if ch_closed s then s else
     s\<lparr>ch_closed := True, ch_recvWaiters := [], ch_sendWaiters := [],
       ch_resumed := ch_resumed s @ ch_recvWaiters s @ map fst (ch_sendWaiters s)\<rparr>)"
  using fold_resumeHandle [where f = "\<lambda>h. h"]
  by (simp add: ch_close_def Let_def fold_resumeHandle)

lemma close_inv:
  assumes "ch_inv pcs s"
  shows "ch_inv pcs (ch_close s)"
  using assms by (auto simp: ch_inv_def ch_close_eq ch_parked_def)

section \<open>Every operation keeps the invariant\<close>

lemma parked_notin: "ch_inv pcs s \<Longrightarrow> pcs c = Free \<Longrightarrow> c \<notin> set (ch_parked s)"
  unfolding ch_inv_def by blast

text \<open>A coroutine that is not parked may change its program counter.\<close>

lemma ch_inv_pcs:
  assumes "ch_inv pcs s" and "c \<notin> set (ch_parked s)"
  shows "ch_inv (pcs(c := p)) s"
proof -
  have "filter (\<lambda>d. (pcs(c := p)) d = In_recv) (ch_resumed s) = filter (\<lambda>d. pcs d = In_recv) (ch_resumed s)"
    using assms(2) by (intro filter_cong) (auto simp: ch_parked_def)
  then show ?thesis using assms by (auto simp: ch_inv_def ch_parked_def cc_woken_def)
qed

lemma send_suspend_inv:
  assumes "ch_inv pcs s" and "pcs c = Free" and "\<not> ch_send_ready s"
  shows "ch_inv (pcs(c := In_send)) (ch_send_suspend c v s)"
proof -
  have c: "c \<notin> set (ch_parked s)" using assms by (simp add: parked_notin)
  then have "ch_inv (pcs(c := In_send)) s" using assms(1) by (simp add: ch_inv_pcs)
  then show ?thesis
    using c assms(1,3)
    by (auto simp: ch_inv_def ch_send_suspend_def ch_parked_def cc_woken_def ch_send_ready_def
        split: if_splits)
qed

lemma recv_suspend_inv:
  assumes "ch_inv pcs s" and "pcs c = Free" and "\<not> ch_recv_ready s"
  shows "ch_inv (pcs(c := In_recv)) (ch_recv_suspend c s)"
proof -
  have c: "c \<notin> set (ch_parked s)" using assms by (simp add: parked_notin)
  then have "ch_inv (pcs(c := In_recv)) s" using assms(1) by (simp add: ch_inv_pcs)
  then show ?thesis
    using c assms(1,3)
    by (auto simp: ch_inv_def ch_recv_suspend_def ch_parked_def cc_woken_def ch_recv_ready_def
        split: if_splits)
qed

lemma sendAwaiter_inv: "ch_inv pcs (ch_sendAwaiter c s) = ch_inv pcs s"
  by (simp add: ch_inv_def ch_sendAwaiter_def ch_parked_def cc_woken_def)

lemma remove_resumed_woken:
  assumes "distinct xs" and "c \<in> set xs"
  shows "length (filter (\<lambda>d. pcs d = In_recv) xs) =
    (if pcs c = In_recv then 1 else 0) +
    length (filter (\<lambda>d. (pcs(c := Free)) d = In_recv) (remove1 c xs))"
  using assms
proof (induction xs)
  case (Cons x xs)
  then show ?case
    by (cases "x = c") (auto intro!: arg_cong [where f = length] filter_cong)
qed simp

text \<open>A resumed coroutine leaves; a receiver takes one of the buffered values with it.\<close>

lemma resume_send_inv:
  assumes "ch_inv pcs s" and "c \<in> set (ch_resumed s)" and "pcs c \<noteq> In_recv"
  shows "ch_inv (pcs(c := Free)) (s\<lparr>ch_resumed := remove1 c (ch_resumed s)\<rparr>)"
proof -
  have d: "distinct (ch_parked s)" using assms(1) by (simp add: ch_inv_def)
  then have "cc_woken (pcs(c := Free)) (s\<lparr>ch_resumed := remove1 c (ch_resumed s)\<rparr>) = cc_woken pcs s"
    using remove_resumed_woken [of "ch_resumed s" c pcs] assms(2,3)
    by (simp add: cc_woken_def ch_parked_def)
  then show ?thesis
    using assms d by (auto simp: ch_inv_def ch_parked_def distinct_remove1 dest: notin_set_remove1)
qed

lemma resume_recv_inv:
  assumes "ch_inv pcs s" and "c \<in> set (ch_resumed s)" and "pcs c = In_recv"
    and "ch_recv_resume (s\<lparr>ch_resumed := remove1 c (ch_resumed s)\<rparr>) = (r, s')"
  shows "ch_inv (pcs(c := Free)) s'"
proof -
  let ?s = "s\<lparr>ch_resumed := remove1 c (ch_resumed s)\<rparr>"
  have d: "distinct (ch_parked s)" using assms(1) by (simp add: ch_inv_def)
  then have wk: "cc_woken pcs s = Suc (cc_woken (pcs(c := Free)) ?s)"
    using remove_resumed_woken [of "ch_resumed s" c pcs] assms(2,3)
    by (simp add: cc_woken_def ch_parked_def)
  have park: "distinct (ch_parked ?s)" "\<forall>d \<in> set (ch_parked ?s). (pcs(c := Free)) d \<noteq> Free"
    "\<forall>d \<in> set (ch_recvWaiters ?s). (pcs(c := Free)) d = In_recv"
    using assms(1,2) d by (auto simp: ch_inv_def ch_parked_def distinct_remove1 dest: notin_set_remove1)
  show ?thesis
  proof (cases "ch_buffer s")
    case Nil
    then show ?thesis
      using assms(1,4) park by (auto simp: ch_inv_def ch_recv_resume_def)
  next
    case (Cons v vs)
    have "ch_inv (pcs(c := Free)) (ch_wakeNextSender (?s\<lparr>ch_buffer := vs\<rparr>))"
      using assms(1) Cons park wk
      by (intro wake_sender_inv) (auto simp: ch_inv_def ch_parked_def cc_woken_def)
    then show ?thesis using assms(4) Cons by (simp add: ch_recv_resume_def)
  qed
qed

section \<open>The ledger\<close>

lemma wakeNextSender_closed [simp]: "ch_closed (ch_wakeNextSender s) = ch_closed s"
  by (simp add: ch_wakeNextSender_def split: list.splits prod.splits)

lemma wakeNextReceiver_pending [simp]: "ch_pending (ch_wakeNextReceiver s) = ch_pending s"
  by (simp add: ch_pending_def)

lemma wakeNextSender_pending [simp]: "ch_pending (ch_wakeNextSender s) = ch_pending s"
  by (simp add: ch_pending_def ch_wakeNextSender_def split: list.splits prod.splits)

lemma trySend_pending:
  assumes "ch_inv pcs s" and "ch_trySend v s = (b, s')"
  shows "ch_pending s' = ch_pending s @ (if b then [v] else [])" and "ch_closed s' = ch_closed s"
    and "b \<Longrightarrow> \<not> ch_closed s"
proof -
  have "ch_sendWaiters s = []" if "length (ch_buffer s) < ch_capacity s"
    using assms(1) that by (auto simp: ch_inv_def)
  then show "ch_pending s' = ch_pending s @ (if b then [v] else [])"
    using assms(2) by (auto simp: ch_trySend_def ch_pending_def not_le split: if_splits)
  show "ch_closed s' = ch_closed s" "b \<Longrightarrow> \<not> ch_closed s"
    using assms(2) by (auto simp: ch_trySend_def split: if_splits)
qed

lemma tryRecv_pending:
  assumes "ch_tryRecv s = (r, s')"
  shows "ch_pending s = (case r of None \<Rightarrow> [] | Some v \<Rightarrow> [v]) @ ch_pending s'"
    and "ch_closed s' = ch_closed s"
proof -
  have pop: "ch_pending s = v # ch_pending (s\<lparr>ch_buffer := vs\<rparr>)" if "ch_buffer s = v # vs" for v vs
    using that by (simp add: ch_pending_def)
  show "ch_pending s = (case r of None \<Rightarrow> [] | Some v \<Rightarrow> [v]) @ ch_pending s'" "ch_closed s' = ch_closed s"
    using assms by (auto simp: ch_tryRecv_def pop split: list.splits)
qed

definition cc_inv :: "'a cc \<Rightarrow> bool" where
  "cc_inv x \<longleftrightarrow> ch_inv (cc_pcs x) (cc_chan x) \<and> cc_ledger x"

lemma cc_take_fields [simp]:
  "cc_chan (cc_take r x) = cc_chan x"
  "cc_pcs (cc_take r x) = cc_pcs x"
  "cc_submitted (cc_take r x) = cc_submitted x"
  "cc_taken (cc_take r x) = cc_taken x @ (case r of None \<Rightarrow> [] | Some v \<Rightarrow> [v])"
  by (simp_all add: cc_take_def split: option.splits)

lemma ledger_take:
  assumes "cc_ledger x" and "ch_pending (cc_chan x) = (case r of None \<Rightarrow> [] | Some v \<Rightarrow> [v]) @ ch_pending s"
    and "ch_closed s = ch_closed (cc_chan x)"
  shows "cc_ledger (cc_take r (x\<lparr>cc_pcs := p, cc_chan := s\<rparr>))"
    and "cc_ledger (cc_take r (x\<lparr>cc_chan := s\<rparr>))"
  using assms by (auto simp: cc_ledger_def split: if_splits option.splits)

lemma ledger_same:
  assumes "cc_ledger x" and "ch_pending s = ch_pending (cc_chan x)" and "ch_closed s = ch_closed (cc_chan x)"
  shows "cc_ledger (x\<lparr>cc_chan := s, cc_pcs := p\<rparr>)" and "cc_ledger (x\<lparr>cc_chan := s\<rparr>)"
  using assms by (auto simp: cc_ledger_def split: if_splits)

lemma ledger_submit:
  assumes "cc_ledger x" and "ch_pending s = ch_pending (cc_chan x) @ [v]"
    and "ch_closed s = ch_closed (cc_chan x)" and "\<not> ch_closed s"
  shows "cc_ledger (x\<lparr>cc_chan := s, cc_pcs := p, cc_submitted := cc_submitted x @ [v]\<rparr>)"
    and "cc_ledger (x\<lparr>cc_chan := s, cc_submitted := cc_submitted x @ [v]\<rparr>)"
  using assms by (auto simp: cc_ledger_def)

lemma ledger_close:
  assumes "cc_ledger x"
  shows "cc_ledger (x\<lparr>cc_chan := ch_close (cc_chan x)\<rparr>)"
proof (cases "ch_closed (cc_chan x)")
  case True
  then show ?thesis using assms by (simp add: ch_close_eq)
next
  case False
  then have "cc_submitted x =
      (cc_taken x @ ch_buffer (cc_chan x)) @ map snd (ch_sendWaiters (cc_chan x))"
    using assms by (simp add: cc_ledger_def ch_pending_def)
  then have "prefix (cc_taken x @ ch_buffer (cc_chan x)) (cc_submitted x)" by (rule prefixI)
  then show ?thesis using False by (simp add: cc_ledger_def ch_close_eq ch_pending_def)
qed

text \<open>
  Inside one run of the loop \<open>send\<close> has three outcomes: the channel is closed, the value is in the
  buffer, or the buffer is full and the coroutine waits with the value.
\<close>

lemma ch_send_cases:
  assumes "ch_inv pcs s"
  shows "(ch_closed s \<and> ch_send moved c v s = (Returned False, s)) \<or>
    (\<exists>s'. ch_trySend v s = (True, s') \<and> ch_send moved c v s = (Returned True, s')) \<or>
    (\<not> ch_closed s \<and> \<not> ch_send_ready (ch_sendAwaiter c s) \<and>
      ch_send moved c v s = (Suspended, ch_send_suspend c (moved v) (ch_sendAwaiter c s)))"
  by (auto simp: ch_send_def ch_trySend_def ch_send_ready_def ch_sendAwaiter_def Let_def)

lemma ch_recv_cases:
  "(\<exists>r s'. ch_tryRecv s = (r, s') \<and> ch_recv c s = (Returned r, s')) \<or>
    (\<not> ch_recv_ready s \<and> ch_recv c s = (Suspended, ch_recv_suspend c s))"
  by (auto simp: ch_recv_def ch_tryRecv_def ch_recv_ready_def split: list.splits)

lemma cc_send_inv:
  assumes "cc_inv x" and "cc_pcs x c = Free" and "\<And>v. moved v = v"
  shows "cc_inv (cc_send moved c v x)"
proof -
  have inv: "ch_inv (cc_pcs x) (cc_chan x)" and led: "cc_ledger x"
    using assms(1) by (simp_all add: cc_inv_def)
  from ch_send_cases [OF inv, of moved c v] show ?thesis
  proof (elim disjE conjE exE)
    assume "ch_send moved c v (cc_chan x) = (Returned False, cc_chan x)"
    then show ?thesis using assms(1) by (simp add: cc_send_def)
  next
    fix s' assume s': "ch_trySend v (cc_chan x) = (True, s')"
      "ch_send moved c v (cc_chan x) = (Returned True, s')"
    then show ?thesis
      using trySend_inv [OF inv s'(1)] trySend_pending [OF inv s'(1)] led
      by (simp add: cc_send_def cc_inv_def ledger_submit)
  next
    let ?s = "ch_send_suspend c (moved v) (ch_sendAwaiter c (cc_chan x))"
    assume s': "\<not> ch_closed (cc_chan x)" "\<not> ch_send_ready (ch_sendAwaiter c (cc_chan x))"
      "ch_send moved c v (cc_chan x) = (Suspended, ?s)"
    have "ch_inv ((cc_pcs x)(c := In_send)) ?s"
      using inv s'(2) assms(2) by (intro send_suspend_inv) (simp_all add: sendAwaiter_inv)
    moreover have "ch_pending ?s = ch_pending (cc_chan x) @ [v]" "ch_closed ?s = ch_closed (cc_chan x)"
      using assms(3) by (simp_all add: ch_pending_def ch_send_suspend_def ch_sendAwaiter_def)
    ultimately show ?thesis
      using s' led by (simp add: cc_send_def cc_inv_def ledger_submit)
  qed
qed

lemma cc_recv_inv:
  assumes "cc_inv x" and "cc_pcs x c = Free"
  shows "cc_inv (cc_recv c x)"
proof -
  have inv: "ch_inv (cc_pcs x) (cc_chan x)" and led: "cc_ledger x"
    using assms(1) by (simp_all add: cc_inv_def)
  from ch_recv_cases [of "cc_chan x" c] show ?thesis
  proof (elim disjE conjE exE)
    fix r s' assume s': "ch_tryRecv (cc_chan x) = (r, s')" "ch_recv c (cc_chan x) = (Returned r, s')"
    then show ?thesis
      using tryRecv_inv [OF inv s'(1)] ledger_take(2) [OF led tryRecv_pending [OF s'(1)]]
      by (simp add: cc_recv_def cc_inv_def)
  next
    assume s': "\<not> ch_recv_ready (cc_chan x)"
      "ch_recv c (cc_chan x) = (Suspended, ch_recv_suspend c (cc_chan x))"
    have "ch_pending (ch_recv_suspend c (cc_chan x)) = ch_pending (cc_chan x)"
      "ch_closed (ch_recv_suspend c (cc_chan x)) = ch_closed (cc_chan x)"
      by (simp_all add: ch_pending_def ch_recv_suspend_def)
    then show ?thesis
      using recv_suspend_inv [OF inv assms(2) s'(1)] s'(2) led
      by (simp add: cc_recv_def cc_inv_def ledger_same)
  qed
qed

lemma cc_resume_inv:
  assumes "cc_inv x" and "c \<in> set (ch_resumed (cc_chan x))"
  shows "cc_inv (cc_resume c x)"
proof -
  let ?s = "(cc_chan x)\<lparr>ch_resumed := remove1 c (ch_resumed (cc_chan x))\<rparr>"
  have inv: "ch_inv (cc_pcs x) (cc_chan x)" and led: "cc_ledger x"
    using assms(1) by (simp_all add: cc_inv_def)
  have s: "ch_pending ?s = ch_pending (cc_chan x)" "ch_closed ?s = ch_closed (cc_chan x)"
    by (simp_all add: ch_pending_def)
  show ?thesis
  proof (cases "cc_pcs x c = In_recv")
    case True
    obtain r s' where s': "ch_recv_resume ?s = (r, s')" by (cases "ch_recv_resume ?s")
    have "cc_ledger (cc_take r (x\<lparr>cc_pcs := (cc_pcs x)(c := Free), cc_chan := s'\<rparr>))"
      using tryRecv_pending [OF s' [unfolded recv_resume_eq]] s by (intro ledger_take(1) [OF led]) simp_all
    then show ?thesis
      using resume_recv_inv [OF inv assms(2) True s'] True s'
      by (simp add: cc_resume_def cc_inv_def Let_def)
  next
    case False
    then have "cc_resume c x = x\<lparr>cc_chan := ?s, cc_pcs := (cc_pcs x)(c := Free)\<rparr>"
      by (simp add: cc_resume_def Let_def split: cc_pc.splits)
    then show ?thesis
      using resume_send_inv [OF inv assms(2) False] ledger_same(1) [OF led s] by (simp add: cc_inv_def)
  qed
qed

lemma cc_step_inv:
  assumes "cc_step moved p x = Some x'" and "cc_inv x" and "\<And>v. moved v = v"
  shows "cc_inv x'"
proof (cases p)
  case (Send c v)
  then show ?thesis using assms by (auto intro: cc_send_inv split: if_splits)
next
  case (Recv c)
  then show ?thesis using assms by (auto intro: cc_recv_inv split: if_splits)
next
  case (Try_send v)
  obtain b s where s: "ch_trySend v (cc_chan x) = (b, s)" by (cases "ch_trySend v (cc_chan x)")
  have inv: "ch_inv (cc_pcs x) (cc_chan x)" using assms(2) by (simp add: cc_inv_def)
  show ?thesis
    using assms Try_send s trySend_inv [OF inv s] trySend_pending [OF inv s]
    by (cases b) (auto simp: cc_inv_def ledger_submit ledger_same)
next
  case Try_recv
  obtain r s where s: "ch_tryRecv (cc_chan x) = (r, s)" by (cases "ch_tryRecv (cc_chan x)")
  have inv: "ch_inv (cc_pcs x) (cc_chan x)" using assms(2) by (simp add: cc_inv_def)
  show ?thesis
    using assms Try_recv s tryRecv_inv [OF inv s] ledger_take(2) [OF _ tryRecv_pending [OF s]]
    by (auto simp: cc_inv_def)
next
  case Close
  then show ?thesis using assms by (auto simp: cc_inv_def close_inv ledger_close)
next
  case (Resume c)
  then show ?thesis using assms by (auto intro: cc_resume_inv split: if_splits)
qed

interpretation chx: step_system "cc_step id" "cc_new n :: 'a cc" cc_inv for n
proof
  show "cc_inv (cc_new n :: 'a cc)"
    by (simp add: cc_inv_def cc_new_def ch_new_def ch_inv_def cc_ledger_def ch_parked_def ch_pending_def)
  show "cc_inv x'" if "cc_step id p x = Some x'" "cc_inv x" for p and x x' :: "'a cc"
    using that by (rule cc_step_inv) simp
qed

section \<open>Properties\<close>


definition ch_schedule :: "nat cc_op list" where
  "ch_schedule = [Recv 9, Send 1 10, Send 2 20, Send 3 30, Resume 9, Try_recv, Resume 2, Recv 8]"

lemmas ch_exec = cc_new_def ch_new_def cc_send_def cc_recv_def cc_resume_def cc_take_def ch_send_def
  ch_recv_def ch_trySend_def ch_tryRecv_def ch_sendAwaiter_def ch_send_ready_def ch_send_suspend_def
  ch_send_resume_def ch_recv_ready_def ch_recv_suspend_def ch_recv_resume_def ch_wakeNextSender_def
  ch_wakeNextReceiver_def ch_resumeHandle_def Let_def

definition ch_schedule_end :: "nat cc" where
  "ch_schedule_end =
    \<lparr>cc_chan = \<lparr>ch_capacity = 1, ch_closed = False, ch_buffer = [], ch_recvWaiters = [],
       ch_sendWaiters = [], ch_sent_flag = (\<lambda>_. False)(2 := True, 3 := True), ch_resumed = [3]\<rparr>,
     cc_pcs = (\<lambda>_. Free)(3 := In_send), cc_submitted = [10, 20, 30], cc_taken = [10, 20, 30]\<rparr>"

lemma ch_schedule_run: "run (cc_step id) ch_schedule (cc_new 1) = Some ch_schedule_end"
  by (simp add: ch_schedule_def ch_exec ch_schedule_end_def fun_eq_iff)


text \<open>
  Claim C10. No wake-up is lost on one event loop: a sender waits only while the buffer is full, a
  receiver waits only while every buffered value already has a woken receiver on its way, and
  nobody waits on a closed channel.
\<close>

theorem channel_no_lost_wakeup:
  assumes "run (cc_step id) ps (cc_new n) = Some x"
  shows "(ch_sendWaiters (cc_chan x) \<noteq> [] \<longrightarrow> length (ch_buffer (cc_chan x)) = ch_capacity (cc_chan x)) \<and>
    (ch_recvWaiters (cc_chan x) \<noteq> [] \<longrightarrow>
      length (ch_buffer (cc_chan x)) \<le> length (filter (\<lambda>c. cc_pcs x c = In_recv) (ch_resumed (cc_chan x)))) \<and>
    (ch_closed (cc_chan x) \<longrightarrow> ch_recvWaiters (cc_chan x) = [] \<and> ch_sendWaiters (cc_chan x) = [])"
  using chx.inv_run [OF assms] by (auto simp: cc_inv_def ch_inv_def cc_woken_def)

definition ch_wait_schedule :: "nat cc_op list" where
  "ch_wait_schedule = [Recv 8, Recv 9, Send 1 10]"

definition ch_wait_end :: "nat cc" where
  "ch_wait_end =
    \<lparr>cc_chan = \<lparr>ch_capacity = 1, ch_closed = False, ch_buffer = [10], ch_recvWaiters = [9],
       ch_sendWaiters = [], ch_sent_flag = (\<lambda>_. False), ch_resumed = [8]\<rparr>,
     cc_pcs = (\<lambda>_. Free)(8 := In_recv, 9 := In_recv), cc_submitted = [10], cc_taken = []\<rparr>"

lemma ch_wait_run: "run (cc_step id) ch_wait_schedule (cc_new 1) = Some ch_wait_end"
  by (simp add: ch_wait_schedule_def ch_exec ch_wait_end_def)

theorem channel_no_lost_wakeup_witness:
  "run (cc_step id) ch_wait_schedule (cc_new 1) = Some ch_wait_end \<and>
   ch_recvWaiters (cc_chan ch_wait_end) = [9] \<and>
   length (ch_buffer (cc_chan ch_wait_end)) \<le>
     length (filter (\<lambda>c. cc_pcs ch_wait_end c = In_recv) (ch_resumed (cc_chan ch_wait_end)))"
  using channel_no_lost_wakeup [OF ch_wait_run] ch_wait_run by (simp add: ch_wait_end_def)

section \<open>Where the code differs from its documentation\<close>

text \<open>
  A send that has to wait delivers the moved-from value: on a full channel of capacity 1
  a coroutine sends \<open>v\<close>, the receiver takes the first value and then receives what the failed
  \<open>trySend\<close> left of \<open>v\<close> instead of \<open>v\<close>.
\<close>

theorem channel_delivers_moved_value:
  "\<exists>x. run (cc_step moved) [Send 1 u, Send 2 v, Try_recv, Try_recv] (cc_new 1) = Some x \<and>
     cc_taken x = [u, moved v]"
  by (simp add: ch_exec)

text \<open>
  \<open>recv\<close> can return \<open>nullopt\<close> on an open channel: a waiting receiver is woken for a value,
  another coroutine takes that value with \<open>tryRecv\<close> before the loop resumes the receiver, and the
  resumed receiver gets nothing although the channel was never closed.
\<close>

theorem channel_recv_spurious_none:
  "\<exists>x. run (cc_step id) [Recv 1, Try_send v, Try_recv] (cc_new 1) = Some x \<and>
     cc_pcs x 1 = In_recv \<and> ch_resumed (cc_chan x) = [1] \<and> \<not> ch_closed (cc_chan x) \<and>
     fst (ch_recv_resume (cc_chan x)) = None"
  by (simp add: ch_exec)

text \<open>
  \<open>send\<close> can report failure for a delivered value: a waiting sender's value is moved into
  the buffer, the channel is closed before the sender is resumed, and the resumed sender returns
  false while the receiver still gets the value.
\<close>

theorem channel_send_false_but_delivered:
  "\<exists>x y. run (cc_step id) [Try_send u, Send 1 v, Try_recv, Close] (cc_new 1) = Some x \<and>
     ch_resumed (cc_chan x) = [1] \<and> cc_pcs x 1 = In_send \<and> ch_send_resume 1 (cc_chan x) = False \<and>
     run (cc_step id) [Resume 1, Try_recv] x = Some y \<and> cc_taken y = [u, v]"
  by (simp add: ch_exec ch_close_eq)

text \<open>
  With a second thread \<open>send\<close> can drop a value on an open channel that has room: between
  the failed \<open>trySend\<close> and \<open>await_ready\<close> another thread receives, \<open>await_ready\<close> then sees room and
  does not suspend, and \<open>await_resume\<close> reports false with the value in neither the buffer nor the
  queue.
\<close>

theorem channel_send_race_drops_value:
  assumes "ch_trySend v s = (False, s)" and "\<not> ch_closed s" and "ch_sendWaiters s = []"
    and "length (ch_buffer s) \<le> ch_capacity s" and "ch_tryRecv s = (Some u, s')"
  shows "ch_send_ready (ch_sendAwaiter c s') \<and> ch_send_resume c (ch_sendAwaiter c s') = False \<and>
    \<not> ch_closed s' \<and> u # ch_buffer s' = ch_buffer s \<and> ch_sendWaiters s' = []"
  using assms
  by (auto simp: ch_trySend_def ch_tryRecv_def ch_wakeNextSender_def ch_sendAwaiter_def
      ch_send_ready_def ch_send_resume_def split: list.splits if_splits)

theorem channel_send_race_drops_value_witness:
  "\<exists>s s' :: nat chan. ch_trySend 7 s = (False, s) \<and> ch_tryRecv s = (Some 5, s') \<and>
     ch_send_ready (ch_sendAwaiter 1 s') \<and> ch_send_resume 1 (ch_sendAwaiter 1 s') = False"
proof -
  define s :: "nat chan" where "s = (ch_new 1)\<lparr>ch_buffer := [5]\<rparr>"
  define s' :: "nat chan" where "s' = ch_new 1"
  have h: "ch_trySend 7 s = (False, s)" "\<not> ch_closed s" "ch_sendWaiters s = []"
    "length (ch_buffer s) \<le> ch_capacity s" "ch_tryRecv s = (Some 5, s')"
    by (simp_all add: s_def s'_def ch_exec)
  show ?thesis using channel_send_race_drops_value [OF h, of 1] h by blast
qed

end
