(* ===== verification/Async_Actor.thy ===== *)
theory Async_Actor
  imports Async_Channel
begin

text \<open>
  Actors and \<open>ProcessRegistry\<close> of src/include/pman/async/actor.hpp. The registry, its name tables, the links
  and monitors, and the exit of an actor with everything it sets off; mailboxes are the channels of
  \<open>Async_Channel\<close>. The body of an actor is user code: what it does is the sequence of operations. An object
  lives as long as the registry holds it, and the use of one that is gone sets \<open>rg_dangling\<close>. An exit takes
  down exactly the actors that are linked to it through actors that do not trap exits.
\<close>

section \<open>Actors and the registry\<close>

datatype ExitReason = Normal | Killed | Exception | Linked

datatype 'p payload = User 'p | DownMessage nat nat ExitReason

record 'p message =
  msg_from :: nat
  msg_payload :: "'p payload"

record 'p actor =
  ac_stopped :: bool
  ac_started :: bool
  ac_mailbox :: "'p message chan"
  ac_links :: "nat list"
  ac_monitors :: "nat list"

record 'p rg =
  rg_next_pid :: nat
  rg_actors :: "(nat \<times> 'p actor) list"
  rg_names :: "string \<rightharpoonup> nat"
  rg_reverse_names :: "nat \<rightharpoonup> string"
  rg_dangling :: bool

definition INVALID_PID :: nat where
  "INVALID_PID = 0"

definition ac_new :: "'p actor" where
  "ac_new = \<lparr>ac_stopped = False, ac_started = False, ac_mailbox = ch_new 1000, ac_links = [], ac_monitors = []\<rparr>"

definition rg_new :: "'p rg" where
  "rg_new = \<lparr>rg_next_pid = 1, rg_actors = [], rg_names = Map.empty, rg_reverse_names = Map.empty, rg_dangling = False\<rparr>"

definition rg_getActor :: "nat \<Rightarrow> 'p rg \<Rightarrow> 'p actor option" where
  "rg_getActor pid s = map_of (rg_actors s) pid"

text \<open>A change of one actor object, which the registry shares with its users.\<close>

definition rg_update :: "nat \<Rightarrow> ('p actor \<Rightarrow> 'p actor) \<Rightarrow> 'p rg \<Rightarrow> 'p rg" where
  "rg_update pid f s = s\<lparr>rg_actors := map (\<lambda>(q, a). (q, if q = pid then f a else a)) (rg_actors s)\<rparr>"

definition ac_stop :: "'p actor \<Rightarrow> 'p actor" where
  "ac_stop a = (if ac_stopped a then a else a\<lparr>ac_stopped := True, ac_mailbox := ch_close (ac_mailbox a)\<rparr>)"

definition ac_sendMessage :: "nat \<Rightarrow> 'p message \<Rightarrow> 'p actor \<Rightarrow> bool outcome \<times> 'p actor" where
  "ac_sendMessage c m a =
     (if ac_stopped a then (Returned False, a)
      else (case ch_send id c m (ac_mailbox a) of (r, ch) \<Rightarrow> (r, a\<lparr>ac_mailbox := ch\<rparr>)))"

definition ac_receive :: "nat \<Rightarrow> 'p actor \<Rightarrow> 'p message option outcome \<times> 'p actor" where
  "ac_receive c a = (case ch_recv c (ac_mailbox a) of (r, ch) \<Rightarrow> (r, a\<lparr>ac_mailbox := ch\<rparr>))"

definition ac_start :: "'p actor \<Rightarrow> 'p actor" where
  "ac_start a = (if ac_started a then a else a\<lparr>ac_started := True\<rparr>)"

definition rg_spawn :: "'p rg \<Rightarrow> nat \<times> 'p rg" where
  "rg_spawn s =
     (let pid = rg_next_pid s;
          s1 = s\<lparr>rg_next_pid := pid + 1, rg_actors := (pid, ac_new) # rg_actors s\<rparr>
      in (pid, rg_update pid ac_start s1))"

section \<open>Names\<close>

definition rg_registerName :: "string \<Rightarrow> nat \<Rightarrow> 'p rg \<Rightarrow> bool \<times> 'p rg" where
  "rg_registerName name pid s =
     (if rg_names s name \<noteq> None then (False, s)
      else (True, s\<lparr>rg_names := (rg_names s)(name \<mapsto> pid), rg_reverse_names := (rg_reverse_names s)(pid \<mapsto> name)\<rparr>))"

definition rg_unregisterName :: "string \<Rightarrow> 'p rg \<Rightarrow> 'p rg" where
  "rg_unregisterName name s =
     (case rg_names s name of
        None \<Rightarrow> s
      | Some pid \<Rightarrow> s\<lparr>rg_reverse_names := (rg_reverse_names s)(pid := None), rg_names := (rg_names s)(name := None)\<rparr>)"

definition rg_whereis :: "string \<Rightarrow> 'p rg \<Rightarrow> nat option" where
  "rg_whereis name s = rg_names s name"

section \<open>Messages, links and monitors\<close>

definition rg_send :: "nat \<Rightarrow> nat \<Rightarrow> nat \<Rightarrow> 'p payload \<Rightarrow> 'p rg \<Rightarrow> bool outcome \<times> 'p rg" where
  "rg_send c to from payload s =
     (case rg_getActor to s of
        None \<Rightarrow> (Returned False, s)
      | Some a \<Rightarrow>
          (case ac_sendMessage c \<lparr>msg_from = from, msg_payload = payload\<rparr> a of
             (r, a') \<Rightarrow> (r, rg_update to (\<lambda>_. a') s)))"

definition rg_send_name :: "nat \<Rightarrow> string \<Rightarrow> nat \<Rightarrow> 'p payload \<Rightarrow> 'p rg \<Rightarrow> bool outcome \<times> 'p rg" where
  "rg_send_name c name from payload s =
     (case rg_whereis name s of None \<Rightarrow> (Returned False, s) | Some pid \<Rightarrow> rg_send c pid from payload s)"

definition rg_link :: "nat \<Rightarrow> nat \<Rightarrow> 'p rg \<Rightarrow> 'p rg" where
  "rg_link pid1 pid2 s =
     (if rg_getActor pid1 s = None \<or> rg_getActor pid2 s = None then s
      else rg_update pid2 (\<lambda>a. a\<lparr>ac_links := List.insert pid1 (ac_links a)\<rparr>)
             (rg_update pid1 (\<lambda>a. a\<lparr>ac_links := List.insert pid2 (ac_links a)\<rparr>) s))"

definition rg_monitor :: "nat \<Rightarrow> nat \<Rightarrow> 'p rg \<Rightarrow> nat \<times> 'p rg" where
  "rg_monitor watcher watched s =
     (if rg_getActor watched s = None then (INVALID_PID, s)
      else (watcher, rg_update watched (\<lambda>a. a\<lparr>ac_monitors := List.insert watcher (ac_monitors a)\<rparr>) s))"

section \<open>Exit\<close>

text \<open>
  \<open>notifyExit\<close> calls \<open>handleExitSignal\<close> of the linked actors, whose default ends them and calls \<open>notifyExit\<close>
  again, before it goes on with the next link and then with the monitors. \<open>rg_notify\<close> is this recursion with
  its stack of calls still to make. \<open>trap\<close> tells the actors that override \<open>handleExitSignal\<close> and stay. The
  order in which an \<open>unordered_set\<close> is traversed is the order of insertion here.
\<close>

datatype work = Signal nat | Down nat nat ExitReason

definition rg_remove :: "nat \<Rightarrow> 'p rg \<Rightarrow> 'p rg" where
  "rg_remove pid s =
     (let s1 = s\<lparr>rg_actors := filter (\<lambda>(q, a). q \<noteq> pid) (rg_actors s)\<rparr>
      in case rg_reverse_names s1 pid of
           None \<Rightarrow> s1
         | Some name \<Rightarrow> s1\<lparr>rg_names := (rg_names s1)(name := None), rg_reverse_names := (rg_reverse_names s1)(pid := None)\<rparr>)"

definition rg_works :: "nat \<Rightarrow> ExitReason \<Rightarrow> 'p rg \<Rightarrow> work list" where
  "rg_works pid reason s =
     (case rg_getActor pid s of
        None \<Rightarrow> []
      | Some a \<Rightarrow> map Signal (ac_links a) @ map (\<lambda>m. Down m pid reason) (ac_monitors a))"

definition rg_stop :: "nat \<Rightarrow> 'p rg \<Rightarrow> 'p rg" where
  "rg_stop pid s = rg_update pid ac_stop s"

lemma rg_update_length [simp]: "length (rg_actors (rg_update p f s)) = length (rg_actors s)"
  by (simp add: rg_update_def)

lemma rg_remove_actors: "rg_actors (rg_remove pid s) = filter (\<lambda>(q, a). q \<noteq> pid) (rg_actors s)"
  by (simp add: rg_remove_def Let_def split: option.splits)

lemma rg_remove_shrinks: "rg_getActor pid s \<noteq> None \<Longrightarrow> length (rg_actors (rg_remove pid s)) < length (rg_actors s)"
  unfolding rg_remove_actors rg_getActor_def
  by (auto simp: map_of_eq_None_iff intro!: length_filter_less)

lemma rg_send_length [simp]: "length (rg_actors (snd (rg_send c to from v s))) = length (rg_actors s)"
  by (simp add: rg_send_def split: option.splits prod.splits)

function rg_notify :: "(nat \<Rightarrow> bool) \<Rightarrow> work list \<Rightarrow> 'p rg \<Rightarrow> 'p rg" where
  "rg_notify trap [] s = s"
| "rg_notify trap (Signal linked # ws) s =
     (if rg_getActor linked s = None \<or> trap linked then rg_notify trap ws s
      else rg_notify trap (rg_works linked Linked s @ ws) (rg_remove linked (rg_stop linked s)))"
| "rg_notify trap (Down monitor pid reason # ws) s =
     rg_notify trap ws (snd (rg_send 0 monitor INVALID_PID (DownMessage pid monitor reason) s))"
  by pat_completeness auto
termination
proof (relation "measures [\<lambda>(_, _, s). length (rg_actors s), \<lambda>(_, ws, _). length ws]", goal_cases)
  case (3 trap linked ws s)
  then have "rg_getActor linked (rg_stop linked s) \<noteq> None"
    by (auto simp: rg_getActor_def rg_stop_def rg_update_def map_of_eq_None_iff image_iff case_prod_beta)
  then show ?case using rg_remove_shrinks [of linked "rg_stop linked s"] by (simp add: rg_stop_def)
qed auto

definition rg_notifyExit :: "(nat \<Rightarrow> bool) \<Rightarrow> nat \<Rightarrow> ExitReason \<Rightarrow> 'p rg \<Rightarrow> 'p rg" where
  "rg_notifyExit trap pid reason s = rg_notify trap (rg_works pid reason s) (rg_remove pid s)"

text \<open>\<open>handleCrash\<close> runs on the actor object.\<close>

definition rg_handleCrash :: "(nat \<Rightarrow> bool) \<Rightarrow> nat \<Rightarrow> ExitReason \<Rightarrow> 'p rg \<Rightarrow> 'p rg" where
  "rg_handleCrash trap pid reason s =
     (if rg_getActor pid s = None then s\<lparr>rg_dangling := True\<rparr> else rg_notifyExit trap pid reason (rg_stop pid s))"

text \<open>
  How the coroutine of \<open>start\<close> ends: the body returns, it throws, or it calls \<open>ActorContext::exit\<close>, which
  notifies and then throws.
\<close>

datatype run_end = Returns | Throws | Exits ExitReason

fun ac_run_end :: "(nat \<Rightarrow> bool) \<Rightarrow> nat \<Rightarrow> run_end \<Rightarrow> 'p rg \<Rightarrow> 'p rg" where
  "ac_run_end trap pid Returns s = rg_handleCrash trap pid Normal s"
| "ac_run_end trap pid Throws s = rg_handleCrash trap pid Exception s"
| "ac_run_end trap pid (Exits reason) s = rg_handleCrash trap pid Exception (rg_notifyExit trap pid reason s)"

section \<open>Who exits\<close>

definition rg_alive :: "'p rg \<Rightarrow> nat set" where
  "rg_alive s = fst ` set (rg_actors s)"

definition rg_neighbours :: "'p rg \<Rightarrow> nat \<Rightarrow> nat set" where
  "rg_neighbours s p = (case rg_getActor p s of None \<Rightarrow> {} | Some a \<Rightarrow> set (ac_links a))"

text \<open>The links that an exit follows, among the actors \<open>A\<close> that do not trap it.\<close>

definition link_edges :: "(nat \<Rightarrow> nat set) \<Rightarrow> nat set \<Rightarrow> (nat \<times> nat) set" where
  "link_edges N A = {(p, q). p \<in> A \<and> q \<in> A \<and> q \<in> N p}"

definition linked_set :: "(nat \<Rightarrow> nat set) \<Rightarrow> nat set \<Rightarrow> nat set \<Rightarrow> nat set" where
  "linked_set N A T = {x. \<exists>t \<in> T \<inter> A. (t, x) \<in> (link_edges N A)\<^sup>*}"

lemma link_path_stays:
  assumes "(t, x) \<in> (link_edges N A)\<^sup>*" "t \<in> A"
  shows "x \<in> A"
  using assms by (induction rule: rtrancl_induct) (auto simp: link_edges_def)

text \<open>A path among \<open>A\<close> that may go through \<open>q\<close> is a path without \<open>q\<close>, or its part after the last \<open>q\<close> is.\<close>

lemma link_path_split:
  assumes "(t, x) \<in> (link_edges N A)\<^sup>*" "t \<in> A"
  shows "x = q \<or> x \<in> linked_set N (A - {q}) (insert t (N q))"
  using assms(1)
proof (induction rule: rtrancl_induct)
  case base
  then show ?case using assms(2) by (auto simp: linked_set_def)
next
  case (step y x)
  have y: "y \<in> A" "x \<in> A" "x \<in> N y" using step.hyps(2) by (auto simp: link_edges_def)
  show ?case
  proof (cases "x = q \<or> y = q")
    case True
    then show ?thesis using y by (auto simp: linked_set_def)
  next
    case False
    then obtain u where u: "u \<in> insert t (N q)" "u \<in> A - {q}" "(u, y) \<in> (link_edges N (A - {q}))\<^sup>*"
      using step.IH by (auto simp: linked_set_def)
    have "(y, x) \<in> link_edges N (A - {q})" using y False by (simp add: link_edges_def)
    then show ?thesis using u by (auto simp: linked_set_def intro: rtrancl.rtrancl_into_rtrancl)
  qed
qed

lemma link_edges_mono: "A \<subseteq> B \<Longrightarrow> (link_edges N A)\<^sup>* \<subseteq> (link_edges N B)\<^sup>*"
  by (rule rtrancl_mono) (auto simp: link_edges_def)

text \<open>One visit of the exit: \<open>q\<close> goes, and its neighbours are to be visited among the rest.\<close>

lemma linked_set_visit:
  assumes "q \<in> A"
  shows "linked_set N A (insert q T) = insert q (linked_set N (A - {q}) (N q \<union> T))"
proof (rule subset_antisym)
  show "linked_set N A (insert q T) \<subseteq> insert q (linked_set N (A - {q}) (N q \<union> T))"
  proof
    fix x assume "x \<in> linked_set N A (insert q T)"
    then obtain t where t: "t \<in> insert q T" "t \<in> A" "(t, x) \<in> (link_edges N A)\<^sup>*" by (auto simp: linked_set_def)
    then show "x \<in> insert q (linked_set N (A - {q}) (N q \<union> T))"
      using link_path_split [OF t(3,2), of q] by (auto simp: linked_set_def)
  qed
  have "x \<in> linked_set N A (insert q T)" if "u \<in> N q \<union> T" "u \<in> A - {q}" "(u, x) \<in> (link_edges N (A - {q}))\<^sup>*" for u x
  proof -
    have ux: "(u, x) \<in> (link_edges N A)\<^sup>*" using that(3) link_edges_mono [of "A - {q}" A N] by blast
    show ?thesis
    proof (cases "u \<in> T")
      case True
      then show ?thesis using ux that(2) by (auto simp: linked_set_def)
    next
      case False
      then have "(q, u) \<in> link_edges N A" using that(1,2) assms by (simp add: link_edges_def)
      then show ?thesis using ux assms by (auto simp: linked_set_def intro: converse_rtrancl_into_rtrancl)
    qed
  qed
  then show "insert q (linked_set N (A - {q}) (N q \<union> T)) \<subseteq> linked_set N A (insert q T)"
    using assms by (auto simp: linked_set_def)
qed

lemma linked_set_cong:
  assumes "\<And>p. p \<in> A \<Longrightarrow> N p = N' p" "T \<inter> A = T' \<inter> A"
  shows "linked_set N A T = linked_set N' A T'"
proof -
  have "link_edges N A = link_edges N' A" using assms(1) by (auto simp: link_edges_def)
  then show ?thesis using assms(2) by (simp add: linked_set_def)
qed

subsection \<open>What the operations do to the living and their links\<close>

lemma map_of_update:
  "map_of (map (\<lambda>(q, a). (q, if q = pid then f a else a)) xs) p =
     (if p = pid then map_option f (map_of xs p) else map_of xs p)"
  by (induction xs) auto

lemma getActor_update [simp]:
  "rg_getActor p (rg_update pid f s) = (if p = pid then map_option f (rg_getActor p s) else rg_getActor p s)"
  by (simp add: rg_getActor_def rg_update_def map_of_update)

lemma getActor_remove [simp]: "rg_getActor p (rg_remove pid s) = (if p = pid then None else rg_getActor p s)"
proof -
  have "map_of (filter (\<lambda>(q, a). q \<noteq> pid) xs) p = (if p = pid then None else map_of xs p)" for xs :: "(nat \<times> 'a actor) list"
    by (induction xs) auto
  then show ?thesis by (simp add: rg_getActor_def rg_remove_actors)
qed

lemma alive_iff: "p \<in> rg_alive s \<longleftrightarrow> rg_getActor p s \<noteq> None"
  by (simp add: rg_alive_def rg_getActor_def map_of_eq_None_iff)

lemma alive_remove [simp]: "rg_alive (rg_remove pid s) = rg_alive s - {pid}"
  by (auto simp: alive_iff split: if_splits)

lemma alive_update [simp]: "rg_alive (rg_update pid f s) = rg_alive s"
  by (auto simp: alive_iff split: if_splits)

lemma neighbours_update:
  "(\<And>a. ac_links (f a) = ac_links a) \<Longrightarrow> rg_neighbours (rg_update pid f s) = rg_neighbours s"
  by (rule ext) (simp add: rg_neighbours_def split: option.splits)

lemma neighbours_remove: "p \<noteq> pid \<Longrightarrow> rg_neighbours (rg_remove pid s) p = rg_neighbours s p"
  by (simp add: rg_neighbours_def)

lemma ac_stop_links [simp]: "ac_links (ac_stop a) = ac_links a"
  by (simp add: ac_stop_def)

lemma sendMessage_links: "ac_sendMessage c m a = (r, a') \<Longrightarrow> ac_links a' = ac_links a"
  by (auto simp: ac_sendMessage_def split: if_splits prod.splits)

lemma send_alive [simp]: "rg_alive (snd (rg_send c to from v s)) = rg_alive s"
  by (simp add: rg_send_def split: option.splits prod.splits)

lemma send_neighbours [simp]: "rg_neighbours (snd (rg_send c to from v s)) = rg_neighbours s"
proof (cases "rg_getActor to s")
  case (Some a)
  obtain r a' where m: "ac_sendMessage c \<lparr>msg_from = from, msg_payload = v\<rparr> a = (r, a')" by fastforce
  have "rg_neighbours (rg_update to (\<lambda>_. a') s) p = rg_neighbours s p" for p
    using Some sendMessage_links [OF m] by (simp add: rg_neighbours_def)
  then show ?thesis using Some m by (simp add: rg_send_def fun_eq_iff)
qed (simp add: rg_send_def)

definition signals :: "work list \<Rightarrow> nat set" where
  "signals ws = {p. Signal p \<in> set ws}"

lemma signals_simps [simp]:
  "signals [] = {}" "signals (Signal p # ws) = insert p (signals ws)" "signals (Down m p r # ws) = signals ws"
  "signals (vs @ ws) = signals vs \<union> signals ws"
  by (auto simp: signals_def)

lemma signals_works: "signals (rg_works p r s) = rg_neighbours s p"
  by (auto simp: signals_def rg_works_def rg_neighbours_def split: option.splits)

lemma notify_alive:
  "rg_alive (rg_notify trap ws s) = rg_alive s - linked_set (rg_neighbours s) {p \<in> rg_alive s. \<not> trap p} (signals ws)"
proof (induction trap ws s rule: rg_notify.induct)
  case (1 trap s)
  then show ?case by (simp add: linked_set_def)
next
  case (2 trap q ws s)
  let ?N = "rg_neighbours s" and ?A = "{p \<in> rg_alive s. \<not> trap p}"
  show ?case
  proof (cases "rg_getActor q s = None \<or> trap q")
    case True
    then have "insert q (signals ws) \<inter> ?A = signals ws \<inter> ?A" by (auto simp: alive_iff)
    then have "linked_set ?N ?A (insert q (signals ws)) = linked_set ?N ?A (signals ws)" by (intro linked_set_cong) auto
    then show ?thesis using 2(1) True by simp
  next
    case False
    let ?s = "rg_remove q (rg_stop q s)"
    have qA: "q \<in> ?A" using False by (simp add: alive_iff)
    have A: "{p \<in> rg_alive ?s. \<not> trap p} = ?A - {q}" by (auto simp: rg_stop_def)
    have N: "rg_neighbours ?s p = ?N p" if "p \<in> ?A - {q}" for p
      using that neighbours_update [of ac_stop q s] by (simp add: neighbours_remove rg_stop_def)
    have "linked_set (rg_neighbours ?s) (?A - {q}) (?N q \<union> signals ws) = linked_set ?N (?A - {q}) (?N q \<union> signals ws)"
      by (rule linked_set_cong) (use N in auto)
    then have "rg_alive (rg_notify trap (Signal q # ws) s) = rg_alive s - {q} - linked_set ?N (?A - {q}) (?N q \<union> signals ws)"
      using 2(2) [OF False] False unfolding A by (auto simp: signals_works rg_stop_def)
    then show ?thesis unfolding signals_simps linked_set_visit [OF qA] by blast
  qed
next
  case (3 trap m pid r ws s)
  then show ?case by simp
qed

section \<open>Properties\<close>

lemma notifyExit_alive:
  "rg_alive (rg_notifyExit trap pid reason s) =
     rg_alive s - linked_set (rg_neighbours s) {p \<in> rg_alive s. p = pid \<or> \<not> trap p} {pid}"
proof -
  let ?N = "rg_neighbours s" and ?A = "{p \<in> rg_alive s. p = pid \<or> \<not> trap p}"
  have A: "{p \<in> rg_alive (rg_remove pid s). \<not> trap p} = ?A - {pid}" by auto
  have "linked_set (rg_neighbours (rg_remove pid s)) (?A - {pid}) (?N pid) = linked_set ?N (?A - {pid}) (?N pid)"
    by (rule linked_set_cong) (auto simp: neighbours_remove)
  then have e: "rg_alive (rg_notifyExit trap pid reason s) = rg_alive s - insert pid (linked_set ?N (?A - {pid}) (?N pid))"
    unfolding rg_notifyExit_def notify_alive signals_works A by auto
  show ?thesis
  proof (cases "pid \<in> rg_alive s")
    case True
    then show ?thesis using e linked_set_visit [of pid ?A ?N "{}"] by simp
  next
    case False
    then have "?N pid = {}" by (simp add: alive_iff rg_neighbours_def)
    then show ?thesis using e False by (simp add: linked_set_def)
  qed
qed

lemma stop_alive [simp]: "rg_alive (rg_stop pid s) = rg_alive s" "rg_neighbours (rg_stop pid s) = rg_neighbours s"
  by (simp_all add: rg_stop_def neighbours_update)

text \<open>
  Claim C14. When the body of an actor ends, the registry loses exactly the actors that are connected to it by
  links through living actors that do not trap exits; everybody else stays.
\<close>

theorem actor_exit_takes_linked:
  "rg_alive (rg_handleCrash trap pid reason s) =
     rg_alive s - linked_set (rg_neighbours s) {p \<in> rg_alive s. p = pid \<or> \<not> trap p} {pid}"
proof (cases "pid \<in> rg_alive s")
  case True
  then have "rg_handleCrash trap pid reason s = rg_notifyExit trap pid reason (rg_stop pid s)"
    by (auto simp: rg_handleCrash_def alive_iff)
  then show ?thesis by (simp add: notifyExit_alive)
next
  case False
  then have "rg_getActor pid s = None" by (simp add: alive_iff)
  then have "rg_alive (rg_handleCrash trap pid reason s) = rg_alive s" by (simp add: rg_handleCrash_def rg_alive_def)
  then show ?thesis using False by (simp add: linked_set_def)
qed

text \<open>Three actors, of which the first two are linked.\<close>

definition rg_demo :: "nat rg" where
  "rg_demo = rg_link 1 2 (snd (rg_spawn (snd (rg_spawn (snd (rg_spawn rg_new))))))"

lemma rg_demo_facts:
  "rg_alive rg_demo = {1, 2, 3}" "rg_neighbours rg_demo 1 = {2}" "rg_neighbours rg_demo 2 = {1}" "rg_neighbours rg_demo 3 = {}"
  by (auto simp: rg_demo_def rg_spawn_def rg_new_def rg_link_def rg_update_def rg_getActor_def rg_alive_def rg_neighbours_def
      ac_new_def ac_start_def Let_def eval_nat_numeral)

lemma rg_demo_linked: "linked_set (rg_neighbours rg_demo) {1, 2, 3} {1} = {1, 2}"
proof -
  have edges: "link_edges (rg_neighbours rg_demo) {1, 2, 3} = {(1, 2), (2, 1)}"
    by (auto simp: link_edges_def rg_demo_facts rg_demo_facts(2) [unfolded One_nat_def])
  have "x = 1 \<or> x = 2" if "(1, x) \<in> {(1, 2), (2, 1)}\<^sup>*" for x :: nat
    using that by (induction rule: rtrancl_induct) auto
  then show ?thesis unfolding linked_set_def edges by auto
qed

theorem actor_exit_takes_linked_witness:
  "rg_alive (rg_handleCrash (\<lambda>_. False) 1 Normal rg_demo) = {3}"
proof -
  have "{p \<in> rg_alive rg_demo. p = 1 \<or> \<not> False} = {1, 2, 3}" by (auto simp: rg_demo_facts)
  then show ?thesis
    using actor_exit_takes_linked [of "\<lambda>_. False" 1 Normal rg_demo] rg_demo_linked unfolding rg_demo_facts(1) by auto
qed

lemma exit_removes: "pid \<notin> rg_alive (rg_notifyExit trap pid reason s)"
  unfolding rg_notifyExit_def notify_alive by simp

text \<open>A message goes to the end of the mailbox of its receiver, and only there; the dead get none.\<close>

lemma actor_send:
  assumes "rg_getActor to s = Some a" "\<not> ac_stopped a" "\<not> ch_closed (ac_mailbox a)"
    "length (ch_buffer (ac_mailbox a)) < ch_capacity (ac_mailbox a)"
  shows "\<exists>s' a'. rg_send c to from v s = (Returned True, s') \<and> rg_getActor to s' = Some a' \<and>
    ch_buffer (ac_mailbox a') = ch_buffer (ac_mailbox a) @ [\<lparr>msg_from = from, msg_payload = v\<rparr>] \<and>
    (\<forall>q. q \<noteq> to \<longrightarrow> rg_getActor q s' = rg_getActor q s)"
  using assms by (simp add: rg_send_def ac_sendMessage_def ch_send_def ch_trySend_def ch_wakeNextReceiver_def
      ch_resumeHandle_def split: list.splits)

lemma actor_send_dead: "to \<notin> rg_alive s \<Longrightarrow> rg_send c to from v s = (Returned False, s)"
  by (simp add: alive_iff rg_send_def)

text \<open>Pids are not used twice: the actors the registry holds are below the next pid.\<close>

lemma spawn_fresh:
  assumes "\<And>p. p \<in> rg_alive s \<Longrightarrow> p < rg_next_pid s" "rg_spawn s = (pid, s')"
  shows "pid \<notin> rg_alive s \<and> rg_alive s' = insert pid (rg_alive s) \<and> (\<forall>p \<in> rg_alive s'. p < rg_next_pid s')"
proof -
  let ?s = "s\<lparr>rg_next_pid := rg_next_pid s + 1, rg_actors := (rg_next_pid s, ac_new) # rg_actors s\<rparr>"
  have e: "pid = rg_next_pid s" "s' = rg_update (rg_next_pid s) ac_start ?s" using assms(2) by (auto simp: rg_spawn_def Let_def)
  have "rg_alive ?s = insert (rg_next_pid s) (rg_alive s)" by (simp add: rg_alive_def)
  then have s': "pid = rg_next_pid s" "rg_alive s' = insert pid (rg_alive s)" "rg_next_pid s' = Suc (rg_next_pid s)"
    unfolding e by simp_all (simp add: rg_update_def)
  then show ?thesis using assms(1) less_Suc_eq by auto
qed

subsection \<open>Names\<close>

text \<open>The two tables are inverse to each other as long as nobody has two names.\<close>

definition rg_names_ok :: "'p rg \<Rightarrow> bool" where
  "rg_names_ok s \<longleftrightarrow> (\<forall>name pid. rg_names s name = Some pid \<longleftrightarrow> rg_reverse_names s pid = Some name)"

lemma names_register:
  assumes "rg_names_ok s" "rg_reverse_names s pid = None"
  shows "rg_names_ok (snd (rg_registerName name pid s))"
  using assms by (auto simp: rg_names_ok_def rg_registerName_def)

lemma names_drop:
  assumes "rg_names_ok s" "rg_names s name = Some pid"
  shows "rg_names_ok (s\<lparr>rg_names := (rg_names s)(name := None), rg_reverse_names := (rg_reverse_names s)(pid := None)\<rparr>)"
  unfolding rg_names_ok_def
proof (intro allI)
  fix n p
  have "n = name \<longleftrightarrow> p = pid" if "rg_names s n = Some p" using assms that unfolding rg_names_ok_def by (metis option.inject)
  then show "rg_names (s\<lparr>rg_names := (rg_names s)(name := None), rg_reverse_names := (rg_reverse_names s)(pid := None)\<rparr>) n = Some p \<longleftrightarrow>
      rg_reverse_names (s\<lparr>rg_names := (rg_names s)(name := None), rg_reverse_names := (rg_reverse_names s)(pid := None)\<rparr>) p = Some n"
    using assms(1) unfolding rg_names_ok_def by auto
qed

lemma names_unregister:
  assumes "rg_names_ok s"
  shows "rg_names_ok (rg_unregisterName name s)"
proof (cases "rg_names s name")
  case (Some pid)
  then show ?thesis using names_drop [OF assms Some] by (simp add: rg_unregisterName_def rg_names_ok_def)
qed (use assms in \<open>simp add: rg_unregisterName_def\<close>)

lemma names_exit_one:
  assumes "rg_names_ok s"
  shows "rg_names_ok (rg_remove pid s)" "rg_whereis name (rg_remove pid s) \<noteq> Some pid"
proof -
  let ?s = "s\<lparr>rg_actors := filter (\<lambda>(q, a). q \<noteq> pid) (rg_actors s)\<rparr>"
  have ok: "rg_names_ok ?s" using assms by (simp add: rg_names_ok_def)
  have "rg_names_ok (rg_remove pid s) \<and> rg_reverse_names (rg_remove pid s) pid = None"
  proof (cases "rg_reverse_names s pid")
    case None
    then show ?thesis using ok by (simp add: rg_remove_def)
  next
    case (Some n)
    then have "rg_names ?s n = Some pid" using assms by (simp add: rg_names_ok_def)
    then show ?thesis using names_drop [OF ok] Some by (simp add: rg_remove_def)
  qed
  then show "rg_names_ok (rg_remove pid s)" "rg_whereis name (rg_remove pid s) \<noteq> Some pid"
    by (simp_all add: rg_names_ok_def rg_whereis_def)
qed

text \<open>
  An actor with two names keeps the first one after its exit: \<open>whereis\<close> goes on naming a dead actor, and the
  name cannot be taken again.
\<close>

lemma stale_name:
  assumes "rg_names s = Map.empty" "pid \<in> rg_alive s" "n1 \<noteq> n2"
  shows "rg_whereis n1 (rg_remove pid (snd (rg_registerName n2 pid (snd (rg_registerName n1 pid s))))) = Some pid"
  using assms by (simp add: rg_registerName_def rg_remove_def rg_whereis_def Let_def)

text \<open>\<open>ActorContext::exit\<close> drops the actor object and then throws into code that calls \<open>handleCrash\<close> on it.\<close>

lemma exit_then_crash_dangles: "rg_dangling (ac_run_end trap pid (Exits reason) s)"
  using exit_removes [of pid trap reason s] by (simp add: rg_handleCrash_def alive_iff)

text \<open>The coroutine of an actor that a linked exit took down ends on an object that is gone.\<close>

lemma linked_exit_dangles:
  assumes "q \<in> linked_set (rg_neighbours s) {p \<in> rg_alive s. p = pid \<or> \<not> trap p} {pid}"
  shows "rg_dangling (ac_run_end trap q Returns (rg_notifyExit trap pid reason s))"
proof -
  have "q \<notin> rg_alive (rg_notifyExit trap pid reason s)" using notifyExit_alive [of trap pid reason s] assms by blast
  then show ?thesis by (simp add: rg_handleCrash_def alive_iff)
qed

end
