(* ===== verification/Async_Stream.thy ===== *)
theory Async_Stream
  imports Pman_Prelude
begin

text \<open>
  The stream adaptors of src/include/pman/async/stream.hpp. A stream object is a value of a datatype with
  one constructor per class and the members of the class as arguments; \<open>next\<close> gives the value and the
  changed object. The loops of the adaptors may in principle not end, so \<open>next\<close> and the consumers are
  partial functions, whose results are then shown to exist: every adaptor denotes the list function of the
  same name on the values of its source. The lifetime of the sources is not part of the objects here:
  they are assumed to outlive their adaptors.
\<close>

section \<open>Streams\<close>

text \<open>
  A channel stream is given by the answers its \<open>recv\<close> calls will get; after them the channel is closed.
  The functions and predicates of the user are pure here, and \<open>map\<close> keeps the type of the values.
\<close>

datatype 'a stream =
    ChannelStream "'a option list"
  | VectorStream "'a list" nat
  | MapStream "'a stream" "'a \<Rightarrow> 'a"
  | FilterStream "'a stream" "'a \<Rightarrow> bool"
  | TakeStream "'a stream" nat nat
  | SkipStream "'a stream" nat nat
  | TakeWhileStream "'a stream" "'a \<Rightarrow> bool" bool
  | ChainStream "'a stream" "'a stream" bool

definition st_fromChannel :: "'a option list \<Rightarrow> 'a stream" where
  "st_fromChannel answers = ChannelStream answers"

definition st_fromVector :: "'a list \<Rightarrow> 'a stream" where
  "st_fromVector values = VectorStream values 0"

definition st_map :: "('a \<Rightarrow> 'a) \<Rightarrow> 'a stream \<Rightarrow> 'a stream" where
  "st_map f s = MapStream s f"

definition st_filter :: "('a \<Rightarrow> bool) \<Rightarrow> 'a stream \<Rightarrow> 'a stream" where
  "st_filter p s = FilterStream s p"

definition st_take :: "nat \<Rightarrow> 'a stream \<Rightarrow> 'a stream" where
  "st_take n s = TakeStream s n 0"

definition st_skip :: "nat \<Rightarrow> 'a stream \<Rightarrow> 'a stream" where
  "st_skip n s = SkipStream s n 0"

definition st_takeWhile :: "('a \<Rightarrow> bool) \<Rightarrow> 'a stream \<Rightarrow> 'a stream" where
  "st_takeWhile p s = TakeWhileStream s p False"

definition st_chain :: "'a stream \<Rightarrow> 'a stream \<Rightarrow> 'a stream" where
  "st_chain other s = ChainStream s other False"

text \<open>\<open>None\<close> is a call that never returns; the loops of \<open>FilterStream\<close> and \<open>SkipStream\<close> are recursive calls.\<close>

partial_function (option) st_next :: "'a stream \<Rightarrow> ('a option \<times> 'a stream) option" where
  "st_next s =
     (case s of
        ChannelStream answers \<Rightarrow>
          (case answers of [] \<Rightarrow> Some (None, ChannelStream []) | v # vs \<Rightarrow> Some (v, ChannelStream vs))
      | VectorStream values index \<Rightarrow>
          (if index < length values then Some (Some (values ! index), VectorStream values (index + 1))
           else Some (None, VectorStream values index))
      | MapStream source func \<Rightarrow>
          Option.bind (st_next source) (\<lambda>(value, source').
            Some (map_option func value, MapStream source' func))
      | FilterStream source pred \<Rightarrow>
          Option.bind (st_next source) (\<lambda>(value, source').
            case value of
              None \<Rightarrow> Some (None, FilterStream source' pred)
            | Some x \<Rightarrow> (if pred x then Some (Some x, FilterStream source' pred) else st_next (FilterStream source' pred)))
      | TakeStream source n count \<Rightarrow>
          (if count \<ge> n then Some (None, TakeStream source n count)
           else Option.bind (st_next source) (\<lambda>(value, source'). Some (value, TakeStream source' n (count + 1))))
      | SkipStream source n skipped \<Rightarrow>
          Option.bind (st_next source) (\<lambda>(value, source').
            if skipped < n
            then (case value of
                    None \<Rightarrow> Some (None, SkipStream source' n skipped)
                  | Some x \<Rightarrow> st_next (SkipStream source' n (skipped + 1)))
            else Some (value, SkipStream source' n skipped))
      | TakeWhileStream source pred done \<Rightarrow>
          (if done then Some (None, TakeWhileStream source pred done)
           else Option.bind (st_next source) (\<lambda>(value, source').
             case value of
               None \<Rightarrow> Some (None, TakeWhileStream source' pred True)
             | Some x \<Rightarrow>
                 (if pred x then Some (Some x, TakeWhileStream source' pred False)
                  else Some (None, TakeWhileStream source' pred True))))
      | ChainStream first second on_second \<Rightarrow>
          (if on_second
           then Option.bind (st_next second) (\<lambda>(value, second'). Some (value, ChainStream first second' True))
           else Option.bind (st_next first) (\<lambda>(value, first').
             case value of
               Some x \<Rightarrow> Some (Some x, ChainStream first' second False)
             | None \<Rightarrow> Option.bind (st_next second) (\<lambda>(value, second'). Some (value, ChainStream first' second' True)))))"

section \<open>Consumers\<close>

partial_function (option) st_collect_loop :: "'a list \<Rightarrow> 'a stream \<Rightarrow> ('a list \<times> 'a stream) option" where
  "st_collect_loop result s =
     Option.bind (st_next s) (\<lambda>(value, s').
       case value of None \<Rightarrow> Some (result, s') | Some x \<Rightarrow> st_collect_loop (result @ [x]) s')"

definition st_collect :: "'a stream \<Rightarrow> ('a list \<times> 'a stream) option" where
  "st_collect s = st_collect_loop [] s"

partial_function (option) st_count_loop :: "nat \<Rightarrow> 'a stream \<Rightarrow> (nat \<times> 'a stream) option" where
  "st_count_loop n s =
     Option.bind (st_next s) (\<lambda>(value, s').
       case value of None \<Rightarrow> Some (n, s') | Some x \<Rightarrow> st_count_loop (n + 1) s')"

definition st_count :: "'a stream \<Rightarrow> (nat \<times> 'a stream) option" where
  "st_count s = st_count_loop 0 s"

partial_function (option) st_forEach :: "('a \<Rightarrow> 'b \<Rightarrow> 'b) \<Rightarrow> 'b \<Rightarrow> 'a stream \<Rightarrow> ('b \<times> 'a stream) option" where
  "st_forEach func w s =
     Option.bind (st_next s) (\<lambda>(value, s').
       case value of None \<Rightarrow> Some (w, s') | Some x \<Rightarrow> st_forEach func (func x w) s')"

section \<open>What a stream denotes\<close>

primrec st_values :: "'a stream \<Rightarrow> 'a list" where
  "st_values (ChannelStream answers) = map the (takeWhile (\<lambda>v. v \<noteq> None) answers)"
| "st_values (VectorStream values index) = drop index values"
| "st_values (MapStream s f) = map f (st_values s)"
| "st_values (FilterStream s p) = filter p (st_values s)"
| "st_values (TakeStream s n c) = take (n - c) (st_values s)"
| "st_values (SkipStream s n k) = drop (n - k) (st_values s)"
| "st_values (TakeWhileStream s p d) = (if d then [] else takeWhile p (st_values s))"
| "st_values (ChainStream a b on) = (if on then [] else st_values a) @ st_values b"

text \<open>
  One call of \<open>next\<close> returns, takes the first value if there is one, and keeps the nesting of the adaptors.
\<close>

primrec st_depth :: "'a stream \<Rightarrow> nat" where
  "st_depth (ChannelStream answers) = 0"
| "st_depth (VectorStream values index) = 0"
| "st_depth (MapStream s f) = Suc (st_depth s)"
| "st_depth (FilterStream s p) = Suc (st_depth s)"
| "st_depth (TakeStream s n c) = Suc (st_depth s)"
| "st_depth (SkipStream s n k) = Suc (st_depth s)"
| "st_depth (TakeWhileStream s p d) = Suc (st_depth s)"
| "st_depth (ChainStream a b on) = Suc (max (st_depth a) (st_depth b))"

definition st_ok :: "'a stream \<Rightarrow> bool" where
  "st_ok s \<longleftrightarrow>
     (\<exists>s'. st_depth s' = st_depth s \<and>
       (case st_values s of
          [] \<Rightarrow> st_next s = Some (None, s')
        | x # xs \<Rightarrow> st_next s = Some (Some x, s') \<and> st_values s' = xs))"

lemma st_ok_cases:
  assumes "st_ok s"
  obtains (empty) s' where "st_values s = []" "st_next s = Some (None, s')" "st_depth s' = st_depth s"
  | (elem) x s' where "st_values s = x # st_values s'" "st_next s = Some (Some x, s')" "st_depth s' = st_depth s"
proof (cases "st_values s")
  case Nil
  then show ?thesis using assms empty unfolding st_ok_def by auto
next
  case (Cons y ys)
  then show ?thesis using assms elem unfolding st_ok_def by fastforce
qed

lemma st_ok_emptyI: "st_next s = Some (None, s') \<Longrightarrow> st_values s = [] \<Longrightarrow> st_depth s' = st_depth s \<Longrightarrow> st_ok s"
  unfolding st_ok_def by auto

lemma st_ok_valueI:
  "st_next s = Some (Some x, s') \<Longrightarrow> st_values s = x # st_values s' \<Longrightarrow> st_depth s' = st_depth s \<Longrightarrow> st_ok s"
  unfolding st_ok_def by auto

lemma st_ok_same:
  "st_ok s' \<Longrightarrow> st_next s = st_next s' \<Longrightarrow> st_values s = st_values s' \<Longrightarrow> st_depth s = st_depth s' \<Longrightarrow> st_ok s"
  unfolding st_ok_def by presburger

lemmas st_okI = st_ok_emptyI st_ok_valueI

lemma st_ok_channel: "st_ok (ChannelStream answers)"
proof (cases answers)
  case Nil
  then show ?thesis by (auto intro!: st_ok_emptyI simp: st_next.simps)
next
  case (Cons v vs)
  then show ?thesis by (cases v) (auto intro: st_okI simp: st_next.simps)
qed

lemma st_ok_vector: "st_ok (VectorStream values index)"
  by (cases "index < length values") (auto intro: st_okI simp: st_next.simps Cons_nth_drop_Suc)

lemma st_ok_map:
  assumes "st_ok s"
  shows "st_ok (MapStream s f)"
  using assms by (cases rule: st_ok_cases) (auto intro: st_okI simp: st_next.simps [of "MapStream s f"])

text \<open>The loop of \<open>FilterStream\<close> ends because every round takes a value from the source.\<close>

lemma st_ok_filter:
  fixes s :: "'a stream"
  assumes "\<And>t :: 'a stream. st_depth t = d \<Longrightarrow> st_ok t" "st_depth s = d"
  shows "st_ok (FilterStream s p)"
  using assms(2)
proof (induction "length (st_values s)" arbitrary: s rule: less_induct)
  case less
  note nx = st_next.simps [of "FilterStream s p"]
  show ?case using assms(1) [OF less.prems]
  proof (cases rule: st_ok_cases)
    case (empty s')
    then show ?thesis by (auto intro!: st_ok_emptyI simp: nx)
  next
    case (elem x s')
    show ?thesis
    proof (cases "p x")
      case True
      then show ?thesis using elem by (auto intro!: st_ok_valueI simp: nx)
    next
      case False
      have "st_ok (FilterStream s' p)" by (rule less.hyps) (use elem less.prems in simp_all)
      moreover have "st_next (FilterStream s p) = st_next (FilterStream s' p)" using elem False by (simp add: nx)
      ultimately show ?thesis by (rule st_ok_same) (use elem False in simp_all)
    qed
  qed
qed

lemma st_ok_take:
  assumes "st_ok s"
  shows "st_ok (TakeStream s n c)"
proof (cases "c \<ge> n")
  case True
  then show ?thesis by (auto intro!: st_ok_emptyI simp: st_next.simps [of "TakeStream s n c"])
next
  case False
  then obtain k where k: "n - c = Suc k" "n - Suc c = k" by (metis Suc_diff_Suc not_le)
  then show ?thesis using False assms
    by (cases rule: st_ok_cases [OF assms]) (auto intro: st_okI simp: st_next.simps [of "TakeStream s n c"] k)
qed

text \<open>The loop of \<open>SkipStream\<close> ends because it counts.\<close>

lemma st_ok_skip:
  fixes s :: "'a stream"
  assumes "\<And>t :: 'a stream. st_depth t = d \<Longrightarrow> st_ok t" "st_depth s = d"
  shows "st_ok (SkipStream s n k)"
  using assms(2)
proof (induction "n - k" arbitrary: s k)
  case 0
  then show ?case
    by (cases rule: st_ok_cases [OF assms(1) [OF 0(2)]]) (auto intro: st_okI simp: st_next.simps [of "SkipStream s n k"])
next
  case (Suc m)
  have lt: "k < n" and m: "m = n - Suc k" using Suc.hyps(2) by auto
  note nx = st_next.simps [of "SkipStream s n k"]
  show ?case using assms(1) [OF Suc.prems]
  proof (cases rule: st_ok_cases)
    case (empty s')
    then show ?thesis using lt by (auto intro!: st_ok_emptyI simp: nx)
  next
    case (elem x s')
    have "st_ok (SkipStream s' n (Suc k))" by (rule Suc.hyps(1) [OF m]) (use elem Suc.prems in simp)
    moreover have "st_next (SkipStream s n k) = st_next (SkipStream s' n (Suc k))" using elem lt by (simp add: nx)
    moreover have "st_values (SkipStream s n k) = st_values (SkipStream s' n (Suc k))"
      using elem by (simp flip: Suc.hyps(2) m)
    ultimately show ?thesis by (rule st_ok_same) (use elem in simp)
  qed
qed

lemma st_ok_takeWhile:
  assumes "st_ok s"
  shows "st_ok (TakeWhileStream s p d)"
proof (cases d)
  case True
  then show ?thesis by (auto intro!: st_ok_emptyI simp: st_next.simps [of "TakeWhileStream s p True"])
next
  case False
  note nx = st_next.simps [of "TakeWhileStream s p False"]
  show ?thesis using assms
  proof (cases rule: st_ok_cases)
    case (empty s')
    then show ?thesis using False by (auto intro!: st_ok_emptyI simp: nx)
  next
    case (elem x s')
    then show ?thesis using False by (cases "p x") (auto intro: st_okI simp: nx)
  qed
qed

lemma st_ok_chain:
  assumes "st_ok a" "st_ok b"
  shows "st_ok (ChainStream a b on)"
proof -
  note nx = st_next.simps [of "ChainStream a b c" for c]
  show ?thesis
  proof (cases on)
    case True
    then show ?thesis by (cases rule: st_ok_cases [OF assms(2)]) (auto intro: st_okI simp: nx)
  next
    case False
    show ?thesis using assms(1)
    proof (cases rule: st_ok_cases)
      case (empty a')
      then show ?thesis using False by (cases rule: st_ok_cases [OF assms(2)]) (auto intro: st_okI simp: nx)
    next
      case (elem x a')
      then show ?thesis using False by (auto intro!: st_ok_valueI simp: nx)
    qed
  qed
qed

lemma st_next_ok:
  fixes s :: "'a stream"
  shows "st_ok s"
proof (induction "st_depth s" arbitrary: s rule: less_induct)
  case less
  show ?case
  proof (cases s)
    case (FilterStream t p)
    have "st_ok u" if "st_depth u = st_depth t" for u :: "'a stream" by (rule less) (simp add: FilterStream that)
    then show ?thesis unfolding FilterStream using st_ok_filter by blast
  next
    case (SkipStream t n k)
    have "st_ok u" if "st_depth u = st_depth t" for u :: "'a stream" by (rule less) (simp add: SkipStream that)
    then show ?thesis unfolding SkipStream using st_ok_skip by blast
  qed (simp_all add: st_ok_channel st_ok_vector st_ok_map st_ok_take st_ok_takeWhile st_ok_chain less)
qed

section \<open>Properties\<close>

text \<open>
  The loops over \<open>next\<close>: they return, see exactly the denoted values, in order. The three consumers are
  instances of one fold.
\<close>

lemma st_forEach_fold: "\<exists>s'. st_forEach f w s = Some (fold f (st_values s) w, s')"
proof (induction "st_values s" arbitrary: s w)
  case Nil
  then show ?case by (cases rule: st_ok_cases [OF st_next_ok [of s]]) (auto simp: st_forEach.simps [of f w s])
next
  case (Cons x xs)
  then obtain s' where n: "st_next s = Some (Some x, s')" "st_values s' = xs"
    by (cases rule: st_ok_cases [OF st_next_ok [of s]]) auto
  then have "st_forEach f w s = st_forEach f (f x w) s'" by (simp add: st_forEach.simps [of f w s])
  then show ?case using Cons.hyps(1) [of s' "f x w"] n by (simp flip: Cons.hyps(2))
qed

lemma st_collect_forEach: "st_collect_loop r s = st_forEach (\<lambda>x r. r @ [x]) r s"
proof (induction "st_values s" arbitrary: s r)
  case Nil
  then show ?case
    by (cases rule: st_ok_cases [OF st_next_ok [of s]]) (auto simp: st_collect_loop.simps [of r s] st_forEach.simps [of _ r s])
next
  case (Cons x xs)
  then obtain s' where n: "st_next s = Some (Some x, s')" "st_values s' = xs"
    by (cases rule: st_ok_cases [OF st_next_ok [of s]]) auto
  then show ?case
    using Cons.hyps(1) [of s' "r @ [x]"] by (simp add: st_collect_loop.simps [of r s] st_forEach.simps [of _ r s])
qed

lemma st_count_forEach: "st_count_loop n s = st_forEach (\<lambda>x n. n + 1) n s"
proof (induction "st_values s" arbitrary: s n)
  case Nil
  then show ?case
    by (cases rule: st_ok_cases [OF st_next_ok [of s]]) (auto simp: st_count_loop.simps [of n s] st_forEach.simps [of _ n s])
next
  case (Cons x xs)
  then obtain s' where n: "st_next s = Some (Some x, s')" "st_values s' = xs"
    by (cases rule: st_ok_cases [OF st_next_ok [of s]]) auto
  then show ?case
    using Cons.hyps(1) [of s' "n + 1"] by (simp add: st_count_loop.simps [of n s] st_forEach.simps [of _ n s])
qed

lemma fold_append_singletons: "fold (\<lambda>x r. r @ [x]) xs r = r @ xs"
  by (induction xs arbitrary: r) auto

lemma fold_count: "fold (\<lambda>x. Suc) xs n = n + length xs"
  by (induction xs arbitrary: n) auto

lemma stream_collect_values: "\<exists>s'. st_collect s = Some (st_values s, s')"
  using st_forEach_fold [of "\<lambda>x r. r @ [x]" "[]" s]
  by (simp add: st_collect_def st_collect_forEach fold_append_singletons)

lemma stream_count_values: "\<exists>s'. st_count s = Some (length (st_values s), s')"
  using st_forEach_fold [of "\<lambda>x. Suc" 0 s]
  by (simp add: st_count_def st_count_forEach fold_count)


text \<open>A pipeline with every adaptor, from the constructors the users call.\<close>

lemma stream_pipeline:
  "\<exists>s'. st_collect (st_chain (st_fromChannel answers)
            (st_takeWhile q (st_take n (st_skip m (st_filter p (st_map f (st_fromVector xs))))))) =
     Some (takeWhile q (take n (drop m (filter p (map f xs)))) @ map the (takeWhile (\<lambda>v. v \<noteq> None) answers), s')"
  using stream_collect_values [of "st_chain (st_fromChannel answers)
    (st_takeWhile q (st_take n (st_skip m (st_filter p (st_map f (st_fromVector xs))))))"]
  by (simp add: st_chain_def st_fromChannel_def st_takeWhile_def st_take_def st_skip_def st_filter_def st_map_def st_fromVector_def)

text \<open>
  \<open>take\<close> leaves the rest in the source: an adaptor only points to its source, which goes on after it.
\<close>

lemma stream_take_leaves_rest:
  assumes "n - c \<le> length (st_values s)"
  shows "\<exists>s' c'. st_collect (TakeStream s n c) = Some (take (n - c) (st_values s), TakeStream s' n c') \<and>
           st_values s' = drop (n - c) (st_values s)"
proof -
  have "\<exists>s' c'. st_collect_loop r (TakeStream s n c) = Some (r @ take (n - c) (st_values s), TakeStream s' n c') \<and>
           st_values s' = drop (n - c) (st_values s)" for r
    using assms
  proof (induction "n - c" arbitrary: s c r)
    case 0
    then show ?case by (simp add: st_collect_loop.simps [of r] st_next.simps [of "TakeStream s n c"])
  next
    case (Suc m)
    then have lt: "c < n" and m: "m = n - Suc c" by auto
    from Suc obtain x s' where v: "st_values s = x # st_values s'" "st_next s = Some (Some x, s')"
      by (cases rule: st_ok_cases [OF st_next_ok [of s]]) auto
    have "st_collect_loop r (TakeStream s n c) = st_collect_loop (r @ [x]) (TakeStream s' n (Suc c))"
      using v lt by (simp add: st_collect_loop.simps [of r] st_next.simps [of "TakeStream s n c"])
    then show ?case
      using Suc.hyps(1) [OF m, of s' "r @ [x]"] Suc.hyps(2) Suc.prems v m by (auto simp flip: Suc.hyps(2))
  qed
  from this [of "[]"] show ?thesis by (simp add: st_collect_def)
qed

end
