(* ===== verification/Async_Combinators.thy ===== *)
theory Async_Combinators
  imports Pman_Prelude
begin

text \<open>
  \<open>all\<close>, \<open>any\<close> and \<open>first\<close> of src/include/pman/async/combinators.hpp. The tasks are given by when and how they
  end: a task ends inside the \<open>start\<close> call of \<open>await_suspend\<close>, or later when the event loop resumes it. The
  coroutine that continues destroys the awaiter (\<open>_alive\<close>); an access to it after that sets \<open>_dangling\<close>.
  \<open>all\<close> gives the values in the order of the tasks, in whatever order they end, or the first exception;
  \<open>any\<close> gives the first task that ends. The specialisations for \<open>void\<close> are shown to be the general code
  without its results.
\<close>

section \<open>all\<close>

record 'a al =
  al_completed :: nat
  al_hasError :: bool
  al_results :: "'a option list"
  al_error :: "exn option"
  al_total :: nat
  al_started :: nat
  al_outcome :: "nat \<Rightarrow> (exn + 'a) option"
  al_failures :: "exn list"
  al_resumed :: nat
  al_value :: "(exn + 'a list) option"
  al_alive :: bool
  al_dangling :: bool

definition al_new :: "nat \<Rightarrow> 'a al" where
  "al_new n = \<lparr>al_completed = 0, al_hasError = False, al_results = replicate n None, al_error = None, al_total = n,
     al_started = 0, al_outcome = (\<lambda>_. None), al_failures = [], al_resumed = 0, al_value = None, al_alive = True, al_dangling = False\<rparr>"

definition al_await_ready :: "'a al \<Rightarrow> bool" where
  "al_await_ready s \<longleftrightarrow> al_total s = 0"

definition al_await_resume :: "'a al \<Rightarrow> exn + 'a list" where
  "al_await_resume s =
     (case al_error s of Some e \<Rightarrow> Inl e | None \<Rightarrow> Inr (map the (filter (\<lambda>opt. opt \<noteq> None) (al_results s))))"

definition al_continuation :: "'a al \<Rightarrow> 'a al" where
  "al_continuation s = s\<lparr>al_value := Some (al_await_resume s), al_resumed := al_resumed s + 1, al_alive := False\<rparr>"

text \<open>The coroutine \<open>wrapper\<close> from the end of its task on.\<close>

definition al_store :: "nat \<Rightarrow> exn + 'a \<Rightarrow> 'a al \<Rightarrow> 'a al" where
  "al_store idx r s =
     (case r of
        Inr v \<Rightarrow> s\<lparr>al_results := (al_results s)[idx := Some v]\<rparr>
      | Inl e \<Rightarrow> if al_hasError s then s else s\<lparr>al_hasError := True, al_error := Some e\<rparr>)"

definition al_wrapper :: "nat \<Rightarrow> exn + 'a \<Rightarrow> 'a al \<Rightarrow> 'a al" where
  "al_wrapper idx r s =
     (let s1 = al_store idx r s; s2 = s1\<lparr>al_completed := al_completed s1 + 1\<rparr>
      in if al_completed s2 = al_total s2 then al_continuation s2 else s2)"

text \<open>The record of what ended and how.\<close>

definition al_ends :: "nat \<Rightarrow> exn + 'a \<Rightarrow> 'a al \<Rightarrow> 'a al" where
  "al_ends idx r s =
     al_wrapper idx r (s\<lparr>al_outcome := (al_outcome s)(idx \<mapsto> r),
       al_failures := al_failures s @ (case r of Inl e \<Rightarrow> [e] | Inr v \<Rightarrow> [])\<rparr>)"

datatype 'a al_act = Al_start "(exn + 'a) option" | Al_end nat "exn + 'a"

text \<open>A turn of the loop in \<open>await_suspend\<close> ends with reading \<open>tasks_.size()\<close>.\<close>

definition al_await_suspend :: "(exn + 'a) option \<Rightarrow> 'a al \<Rightarrow> 'a al" where
  "al_await_suspend now s =
     (let s1 = s\<lparr>al_started := al_started s + 1\<rparr>;
          s2 = (case now of None \<Rightarrow> s1 | Some r \<Rightarrow> al_ends (al_started s) r s1)
      in s2\<lparr>al_dangling := (al_dangling s2 \<or> \<not> al_alive s2)\<rparr>)"

fun al_next :: "'a al_act \<Rightarrow> 'a al \<Rightarrow> 'a al option" where
  "al_next (Al_start now) s = (if al_started s < al_total s then Some (al_await_suspend now s) else None)"
| "al_next (Al_end i r) s = (if i < al_started s \<and> al_outcome s i = None then Some (al_ends i r s) else None)"

fun ok_value :: "(exn + 'a) option \<Rightarrow> 'a option" where
  "ok_value (Some (Inr v)) = Some v"
| "ok_value _ = None"

definition al_ended :: "'a al \<Rightarrow> nat set" where
  "al_ended s = {i. i < al_total s \<and> al_outcome s i \<noteq> None}"

text \<open>What the awaiter has to hand over when all tasks have ended.\<close>

definition al_verdict :: "'a al \<Rightarrow> exn + 'a list" where
  "al_verdict s =
     (case al_failures s of e # es \<Rightarrow> Inl e | [] \<Rightarrow> Inr (map (\<lambda>i. the (ok_value (al_outcome s i))) [0..<al_total s]))"

definition al_core :: "'a al \<Rightarrow> bool" where
  "al_core s \<longleftrightarrow>
     al_started s \<le> al_total s \<and> (\<forall>i \<ge> al_started s. al_outcome s i = None) \<and>
     al_completed s = card (al_ended s) \<and>
     al_results s = map (\<lambda>i. ok_value (al_outcome s i)) [0..<al_total s] \<and>
     al_error s = (case al_failures s of [] \<Rightarrow> None | e # es \<Rightarrow> Some e) \<and> (al_hasError s \<longleftrightarrow> al_failures s \<noteq> []) \<and>
     (al_failures s = [] \<longrightarrow> (\<forall>i \<in> al_ended s. ok_value (al_outcome s i) \<noteq> None))"

definition al_over :: "'a al \<Rightarrow> bool" where
  "al_over s \<longleftrightarrow> al_ended s = {..<al_total s}"

definition al_inv :: "'a al \<Rightarrow> bool" where
  "al_inv s \<longleftrightarrow> al_core s \<and> al_total s > 0 \<and>
     (if al_over s then al_resumed s = 1 \<and> \<not> al_alive s \<and> al_value s = Some (al_verdict s)
      else al_resumed s = 0 \<and> al_alive s \<and> al_value s = None)"

lemma finite_al_ended [simp]: "finite (al_ended s)"
  by (simp add: al_ended_def)

lemma al_over_card: "card (al_ended s) = al_total s \<longleftrightarrow> al_over s"
proof
  assume "card (al_ended s) = al_total s"
  then have "al_ended s = {..<al_total s}" by (intro card_subset_eq) (auto simp: al_ended_def)
  then show "al_over s" by (simp add: al_over_def)
qed (simp add: al_over_def)

lemma map_upd_index:
  assumes "i < n"
  shows "map (\<lambda>j. f ((g(i := y)) j)) [0..<n] = (map (\<lambda>j. f (g j)) [0..<n])[i := f y]"
  using assms by (auto intro!: nth_equalityI simp: nth_list_update)

text \<open>The state after the end of a task has been recorded and counted.\<close>

definition al_counted :: "nat \<Rightarrow> exn + 'a \<Rightarrow> 'a al \<Rightarrow> 'a al" where
  "al_counted i r s = (al_store i r (s\<lparr>al_outcome := (al_outcome s)(i \<mapsto> r),
     al_failures := al_failures s @ (case r of Inl e \<Rightarrow> [e] | Inr v \<Rightarrow> [])\<rparr>))\<lparr>al_completed := al_completed s + 1\<rparr>"

lemma al_counted_fields [simp]:
  "al_outcome (al_counted i r s) = (al_outcome s)(i \<mapsto> r)"
  "al_failures (al_counted i r s) = al_failures s @ (case r of Inl e \<Rightarrow> [e] | Inr v \<Rightarrow> [])"
  "al_completed (al_counted i r s) = al_completed s + 1"
  "al_total (al_counted i r s) = al_total s" "al_started (al_counted i r s) = al_started s"
  "al_resumed (al_counted i r s) = al_resumed s" "al_alive (al_counted i r s) = al_alive s" "al_value (al_counted i r s) = al_value s"
  by (simp_all add: al_counted_def al_store_def split: sum.splits)

lemma al_counted_ended: "i < al_total s \<Longrightarrow> al_ended (al_counted i r s) = insert i (al_ended s)"
  by (auto simp: al_ended_def)

lemma al_counted_results:
  assumes "al_core s" "i < al_total s" "al_outcome s i = None"
  shows "al_results (al_counted i r s) = map (\<lambda>j. ok_value (al_outcome (al_counted i r s) j)) [0..<al_total s]"
proof (cases r)
  case (Inl x)
  then have "ok_value (((al_outcome s)(i \<mapsto> r)) j) = ok_value (al_outcome s j)" for j using assms(3) by simp
  then show ?thesis using assms(1) Inl by (simp add: al_counted_def al_store_def al_core_def)
next
  case (Inr v)
  then show ?thesis using assms(1) map_upd_index [OF assms(2), of ok_value "al_outcome s" "Some r"]
    by (simp add: al_counted_def al_store_def al_core_def)
qed

lemma al_counted_error:
  assumes "al_core s"
  shows "al_error (al_counted i r s) = (case al_failures (al_counted i r s) of [] \<Rightarrow> None | e # es \<Rightarrow> Some e)"
    and "al_hasError (al_counted i r s) \<longleftrightarrow> al_failures (al_counted i r s) \<noteq> []"
  using assms by (cases r; cases "al_failures s"; simp add: al_counted_def al_store_def al_core_def)+

lemma al_counted_values:
  assumes "al_core s" "i < al_total s" "al_failures (al_counted i r s) = []" "j \<in> al_ended (al_counted i r s)"
  shows "ok_value (al_outcome (al_counted i r s) j) \<noteq> None"
proof (cases "j = i")
  case True
  then show ?thesis using assms(3) by (cases r) simp_all
next
  case False
  then have "j \<in> al_ended s" using assms(2,4) by (simp add: al_counted_ended)
  then show ?thesis using assms(1,3) False by (simp add: al_core_def)
qed

lemma al_core_counted:
  assumes "al_core s" "i < al_started s" "al_outcome s i = None"
  shows "al_core (al_counted i r s)"
proof -
  have it: "i < al_total s" using assms by (simp add: al_core_def)
  have "card (al_ended (al_counted i r s)) = al_completed s + 1"
    using assms(1,3) unfolding al_counted_ended [OF it] by (simp add: al_core_def al_ended_def)
  then show ?thesis
    using assms al_counted_results [OF assms(1) it assms(3)] al_counted_error [OF assms(1), of i r] al_counted_values [OF assms(1) it, of r]
    unfolding al_core_def [of "al_counted i r s"] by (auto simp: al_core_def [of s])
qed

lemma filter_map_Some: "(\<And>x. x \<in> set xs \<Longrightarrow> f x \<noteq> None) \<Longrightarrow> map the (filter (\<lambda>v. v \<noteq> None) (map f xs)) = map (\<lambda>x. the (f x)) xs"
  by (induction xs) auto

lemma al_resume_verdict:
  assumes "al_core s" "al_over s"
  shows "al_await_resume s = al_verdict s"
proof (cases "al_failures s")
  case Nil
  then have "ok_value (al_outcome s i) \<noteq> None" if "i \<in> set [0..<al_total s]" for i
    using assms that unfolding al_core_def al_over_def by auto
  then have "map the (filter (\<lambda>opt. opt \<noteq> None) (map (\<lambda>i. ok_value (al_outcome s i)) [0..<al_total s])) =
      map (\<lambda>i. the (ok_value (al_outcome s i))) [0..<al_total s]" by (rule filter_map_Some)
  then show ?thesis using assms(1) Nil by (simp add: al_await_resume_def al_verdict_def al_core_def)
qed (use assms(1) in \<open>simp add: al_await_resume_def al_verdict_def al_core_def\<close>)

lemma al_store_fields [simp]:
  "al_completed (al_store i r s) = al_completed s" "al_total (al_store i r s) = al_total s"
  by (simp_all add: al_store_def split: sum.splits)

lemma al_ends_eq:
  assumes "al_core (al_counted i r s)"
  shows "al_ends i r s = (if al_over (al_counted i r s) then al_continuation (al_counted i r s) else al_counted i r s)"
proof -
  have "al_completed s + 1 = al_total s \<longleftrightarrow> al_over (al_counted i r s)"
    using assms al_over_card [of "al_counted i r s"] by (simp add: al_core_def)
  moreover have "al_ends i r s =
      (if al_completed s + 1 = al_total s then al_continuation (al_counted i r s) else al_counted i r s)"
    by (simp add: al_ends_def al_wrapper_def al_counted_def Let_def)
  ultimately show ?thesis by simp
qed

lemma al_continuation_core [simp]:
  "al_core (al_continuation s) = al_core s" "al_over (al_continuation s) = al_over s" "al_verdict (al_continuation s) = al_verdict s"
  by (simp_all add: al_continuation_def al_core_def al_over_def al_ended_def al_verdict_def cong: list.case_cong)

lemma al_ends_inv:
  assumes "al_inv s" "i < al_started s" "al_outcome s i = None"
  shows "al_inv (al_ends i r s)"
proof -
  have core: "al_core (al_counted i r s)" using al_core_counted [OF _ assms(2,3)] assms(1) by (simp add: al_inv_def)
  have it: "i \<in> {..<al_total s}" using assms by (simp add: al_inv_def al_core_def)
  have "i \<notin> al_ended s" using assms(3) by (simp add: al_ended_def)
  then have "\<not> al_over s" using it unfolding al_over_def by metis
  then have b: "al_resumed s = 0" "al_alive s" "al_value s = None" "al_total s > 0" using assms(1) by (simp_all add: al_inv_def)
  show ?thesis
  proof (cases "al_over (al_counted i r s)")
    case True
    let ?c = "al_continuation (al_counted i r s)"
    have "al_resumed ?c = 1" "\<not> al_alive ?c" "al_value ?c = Some (al_verdict (al_counted i r s))" "al_total ?c > 0"
      using b al_resume_verdict [OF core True] by (simp_all add: al_continuation_def)
    then show ?thesis using core True unfolding al_ends_eq [OF core] al_inv_def by simp
  next
    case False
    then show ?thesis using core b unfolding al_ends_eq [OF core] al_inv_def by simp
  qed
qed

lemma al_inv_dangling [simp]: "al_inv (s\<lparr>al_dangling := b\<rparr>) = al_inv s"
  by (simp add: al_inv_def al_core_def al_over_def al_ended_def al_verdict_def cong: list.case_cong)

lemma al_inv_started:
  assumes "al_inv s" "al_started s < al_total s"
  shows "al_inv (s\<lparr>al_started := al_started s + 1\<rparr>)"
  using assms by (simp add: al_inv_def al_core_def al_over_def al_ended_def al_verdict_def cong: list.case_cong)

lemma al_inv_next:
  assumes "al_next a s = Some s'" "al_inv s"
  shows "al_inv s'"
proof (cases a)
  case (Al_start now)
  then have lt: "al_started s < al_total s" and s': "s' = al_await_suspend now s" using assms(1) by (auto split: if_splits)
  have "al_outcome s (al_started s) = None" using assms(2) by (simp add: al_inv_def al_core_def)
  then show ?thesis using al_inv_started [OF assms(2) lt] al_ends_inv [of "s\<lparr>al_started := al_started s + 1\<rparr>" "al_started s"]
    by (simp add: s' al_await_suspend_def Let_def split: option.splits)
next
  case (Al_end i r)
  then show ?thesis using assms al_ends_inv by (auto split: if_splits)
qed

interpretation alx: step_system al_next "al_new (Suc n) :: 'a al" al_inv for n
proof unfold_locales
  show "al_inv (al_new (Suc n))"
    by (auto simp: al_inv_def al_core_def al_new_def al_over_def al_ended_def map_replicate_const)
qed (rule al_inv_next)

lemma al_total_ends [simp]: "al_total (al_ends i r s) = al_total s"
  by (simp add: al_ends_def al_wrapper_def al_continuation_def Let_def)

lemma al_total_next: "al_next a s = Some s' \<Longrightarrow> al_total s' = al_total s"
  by (cases a) (auto simp: al_await_suspend_def Let_def split: if_splits option.splits)

lemma al_total_reachable:
  assumes "reachable al_next (al_new n) s"
  shows "al_total s = n"
proof -
  obtain ls where r: "run al_next ls (al_new n) = Some s" using assms by (auto simp: reachable_def)
  show ?thesis by (rule run_invariant [OF r, where I = "\<lambda>s. al_total s = n"]) (simp_all add: al_new_def al_total_next)
qed

section \<open>any and first\<close>

record 'a ay =
  ay_done :: bool
  ay_winnerIndex :: "nat option"
  ay_result :: "'a option"
  ay_error :: "exn option"
  ay_total :: nat
  ay_started :: nat
  ay_order :: "(nat \<times> (exn + 'a)) list"
  ay_resumed :: nat
  ay_value :: "(exn + nat \<times> 'a) option"
  ay_alive :: bool
  ay_dangling :: bool

definition ay_new :: "nat \<Rightarrow> 'a ay" where
  "ay_new n = \<lparr>ay_done = False, ay_winnerIndex = None, ay_result = None, ay_error = None, ay_total = n, ay_started = 0,
     ay_order = [], ay_resumed = 0, ay_value = None, ay_alive = True, ay_dangling = False\<rparr>"

definition ay_await_ready :: "'a ay \<Rightarrow> bool" where
  "ay_await_ready s \<longleftrightarrow> ay_total s = 0"

text \<open>\<open>*state_->result\<close> of an empty optional is undefined: \<open>None\<close>.\<close>

definition ay_await_resume :: "'a ay \<Rightarrow> (exn + nat \<times> 'a) option" where
  "ay_await_resume s =
     (case ay_error s of
        Some e \<Rightarrow> Some (Inl e)
      | None \<Rightarrow> map_option (\<lambda>v. Inr (case ay_winnerIndex s of None \<Rightarrow> 0 | Some i \<Rightarrow> i, v)) (ay_result s))"

definition ay_continuation :: "'a ay \<Rightarrow> 'a ay" where
  "ay_continuation s = s\<lparr>ay_value := ay_await_resume s, ay_resumed := ay_resumed s + 1, ay_alive := False\<rparr>"

definition ay_wrapper :: "nat \<Rightarrow> exn + 'a \<Rightarrow> 'a ay \<Rightarrow> 'a ay" where
  "ay_wrapper idx r s =
     (if ay_done s then s
      else (case r of
              Inr v \<Rightarrow> ay_continuation (s\<lparr>ay_done := True, ay_winnerIndex := Some idx, ay_result := Some v\<rparr>)
            | Inl e \<Rightarrow> ay_continuation (s\<lparr>ay_done := True, ay_error := Some e\<rparr>)))"

definition ay_ends :: "nat \<Rightarrow> exn + 'a \<Rightarrow> 'a ay \<Rightarrow> 'a ay" where
  "ay_ends idx r s = ay_wrapper idx r (s\<lparr>ay_order := ay_order s @ [(idx, r)]\<rparr>)"

text \<open>A turn of the loop reads \<open>tasks_\<close> first.\<close>

definition ay_await_suspend :: "(exn + 'a) option \<Rightarrow> 'a ay \<Rightarrow> 'a ay" where
  "ay_await_suspend now s =
     (if \<not> ay_alive s then s\<lparr>ay_dangling := True\<rparr>
      else (let s1 = s\<lparr>ay_started := ay_started s + 1\<rparr>
            in case now of None \<Rightarrow> s1 | Some r \<Rightarrow> ay_ends (ay_started s) r s1))"

fun ay_next :: "'a al_act \<Rightarrow> 'a ay \<Rightarrow> 'a ay option" where
  "ay_next (Al_start now) s = (if ay_started s < ay_total s then Some (ay_await_suspend now s) else None)"
| "ay_next (Al_end i r) s = (if i < ay_started s \<and> i \<notin> fst ` set (ay_order s) then Some (ay_ends i r s) else None)"

definition first_result :: "exn + nat \<times> 'a \<Rightarrow> exn + 'a" where
  "first_result r = map_sum id snd r"

fun ay_verdict :: "nat \<times> (exn + 'a) \<Rightarrow> exn + nat \<times> 'a" where
  "ay_verdict (i, Inr v) = Inr (i, v)"
| "ay_verdict (i, Inl e) = Inl e"

definition ay_inv :: "'a ay \<Rightarrow> bool" where
  "ay_inv s \<longleftrightarrow>
     (case ay_order s of
        [] \<Rightarrow> \<not> ay_done s \<and> ay_resumed s = 0 \<and> ay_value s = None \<and> ay_error s = None \<and> ay_alive s
      | w # ws \<Rightarrow> ay_done s \<and> ay_resumed s = 1 \<and> ay_value s = Some (ay_verdict w) \<and> \<not> ay_alive s)"

lemma ay_ends_inv:
  assumes "ay_inv s"
  shows "ay_inv (ay_ends i r s)"
proof (cases "ay_order s")
  case Nil
  then show ?thesis using assms
    by (cases r) (simp_all add: ay_inv_def ay_ends_def ay_wrapper_def ay_continuation_def ay_await_resume_def)
next
  case (Cons w ws)
  then show ?thesis using assms by (simp add: ay_inv_def ay_ends_def ay_wrapper_def)
qed

lemma ay_inv_fields [simp]:
  "ay_inv (s\<lparr>ay_started := n\<rparr>) = ay_inv s" "ay_inv (s\<lparr>ay_dangling := b\<rparr>) = ay_inv s"
  by (simp_all add: ay_inv_def split: list.splits)

lemma ay_inv_next: "ay_next a s = Some s' \<Longrightarrow> ay_inv s \<Longrightarrow> ay_inv s'"
  by (cases a) (auto simp: ay_await_suspend_def Let_def intro!: ay_ends_inv split: if_splits option.splits)

interpretation ayx: step_system ay_next "ay_new n :: 'a ay" ay_inv for n
proof unfold_locales
  show "ay_inv (ay_new n)" by (simp add: ay_inv_def ay_new_def)
qed (rule ay_inv_next)

section \<open>The specialisations for void\<close>

record alv =
  alv_completed :: nat
  alv_hasError :: bool
  alv_error :: "exn option"
  alv_total :: nat
  alv_resumed :: nat

definition alv_await_resume :: "alv \<Rightarrow> unit result" where
  "alv_await_resume s = (case alv_error s of Some e \<Rightarrow> Inl e | None \<Rightarrow> Inr ())"

definition alv_wrapper :: "unit result \<Rightarrow> alv \<Rightarrow> alv" where
  "alv_wrapper r s =
     (let s1 = (case r of
                  Inr _ \<Rightarrow> s
                | Inl e \<Rightarrow> if alv_hasError s then s else s\<lparr>alv_hasError := True, alv_error := Some e\<rparr>);
          s2 = s1\<lparr>alv_completed := alv_completed s1 + 1\<rparr>
      in if alv_completed s2 = alv_total s2 then s2\<lparr>alv_resumed := alv_resumed s2 + 1\<rparr> else s2)"

definition al_forget :: "unit al \<Rightarrow> alv" where
  "al_forget s = \<lparr>alv_completed = al_completed s, alv_hasError = al_hasError s, alv_error = al_error s,
     alv_total = al_total s, alv_resumed = al_resumed s\<rparr>"

lemma all_void_refines: "al_forget (al_wrapper i r s) = alv_wrapper r (al_forget s)"
  by (cases r) (simp_all add: al_forget_def al_wrapper_def alv_wrapper_def al_store_def al_continuation_def Let_def)

lemma all_void_result: "alv_await_resume (al_forget s) = map_sum id (\<lambda>_. ()) (al_await_resume s)"
  by (simp add: alv_await_resume_def al_forget_def al_await_resume_def split: option.splits)

record ayv =
  ayv_done :: bool
  ayv_winnerIndex :: "nat option"
  ayv_error :: "exn option"
  ayv_resumed :: nat

definition ayv_await_resume :: "ayv \<Rightarrow> nat result" where
  "ayv_await_resume s =
     (case ayv_error s of Some e \<Rightarrow> Inl e | None \<Rightarrow> Inr (case ayv_winnerIndex s of None \<Rightarrow> 0 | Some i \<Rightarrow> i))"

definition ayv_wrapper :: "nat \<Rightarrow> unit result \<Rightarrow> ayv \<Rightarrow> ayv" where
  "ayv_wrapper idx r s =
     (if ayv_done s then s
      else (case r of
              Inr _ \<Rightarrow> s\<lparr>ayv_done := True, ayv_winnerIndex := Some idx, ayv_resumed := ayv_resumed s + 1\<rparr>
            | Inl e \<Rightarrow> s\<lparr>ayv_done := True, ayv_error := Some e, ayv_resumed := ayv_resumed s + 1\<rparr>))"

definition ay_forget :: "unit ay \<Rightarrow> ayv" where
  "ay_forget s = \<lparr>ayv_done = ay_done s, ayv_winnerIndex = ay_winnerIndex s, ayv_error = ay_error s, ayv_resumed = ay_resumed s\<rparr>"

lemma any_void_refines: "ay_forget (ay_wrapper i r s) = ayv_wrapper i r (ay_forget s)"
  by (cases r) (simp_all add: ay_forget_def ay_wrapper_def ayv_wrapper_def ay_continuation_def)

section \<open>Properties\<close>

text \<open>
  Claim C16. In whatever order its tasks end, \<open>all\<close> continues exactly once, when the last one has ended; it
  gives the values in the order of the tasks, or the exception that was thrown first.
\<close>

theorem all_collects_in_order:
  assumes "reachable al_next (al_new n :: 'a al) s" "0 < n"
  shows "(if \<forall>i < n. al_outcome s i \<noteq> None then al_resumed s = 1 \<and> al_value s = Some (al_verdict s)
          else al_resumed s = 0 \<and> al_value s = None)"
proof -
  obtain m where n: "n = Suc m" using assms(2) by (cases n) auto
  have i: "al_inv s" using alx.inv_reachable [of m s] assms(1) unfolding n by simp
  have "al_total s = n" by (rule al_total_reachable [OF assms(1)])
  then have "al_over s \<longleftrightarrow> (\<forall>i < n. al_outcome s i \<noteq> None)" unfolding al_over_def al_ended_def by blast
  then show ?thesis using i by (simp add: al_inv_def)
qed

theorem all_collects_in_order_witness:
  "\<exists>s. run al_next [Al_start None, Al_start None, Al_end 1 (Inr 20), Al_end 0 (Inr 10)] (al_new 2 :: nat al) = Some s \<and>
     al_resumed s = 1 \<and> al_value s = Some (Inr [10, 20])"
proof -
  obtain s where s: "run al_next [Al_start None, Al_start None, Al_end 1 (Inr 20), Al_end 0 (Inr 10)] (al_new 2 :: nat al) = Some s"
    "al_outcome s = (\<lambda>_. None)(1 \<mapsto> Inr 20, 0 \<mapsto> Inr 10)" "al_failures s = []" "al_total s = 2"
    by (simp add: al_new_def al_await_suspend_def al_ends_def al_wrapper_def al_store_def al_continuation_def Let_def)
  then have "\<forall>i < 2. al_outcome s i \<noteq> None" "al_verdict s = Inr [10, 20]"
    by (simp_all add: less_2_cases_iff al_verdict_def upt_rec)
  then show ?thesis using all_collects_in_order [OF reachableI [OF s(1)]] s(1) by simp
qed

text \<open>
  \<open>any\<close> continues exactly once, when the first task ends, with the index and value or the exception of that
  task, and nothing that ends later changes it.
\<close>

lemma any_first_wins:
  assumes "reachable ay_next (ay_new n :: 'a ay) s"
  shows "(case ay_order s of [] \<Rightarrow> ay_resumed s = 0 \<and> ay_value s = None
     | w # ws \<Rightarrow> ay_resumed s = 1 \<and> ay_value s = Some (ay_verdict w))"
  using ayx.inv_reachable [OF assms] by (simp add: ay_inv_def split: list.splits)

text \<open>
  A task that ends inside \<open>start\<close> lets the coroutine continue, and destroy the awaiter, while \<open>await_suspend\<close>
  still uses it: with \<open>any\<close> this takes one such task that is not the last, with \<open>all\<close> it takes only such tasks.
\<close>

lemma any_uses_destroyed_awaiter:
  "\<exists>s. run ay_next [Al_start (Some (Inr v)), Al_start None] (ay_new 2) = Some s \<and> ay_dangling s"
  by (simp add: ay_new_def ay_await_suspend_def ay_ends_def ay_wrapper_def ay_continuation_def)

lemma all_uses_destroyed_awaiter:
  "\<exists>s. run al_next [Al_start (Some (Inr v))] (al_new 1) = Some s \<and> al_dangling s"
  by (simp add: al_new_def al_await_suspend_def al_ends_def al_wrapper_def al_store_def al_continuation_def Let_def)

text \<open>\<open>any\<close> of no tasks is ready at once and then reads an empty result.\<close>

lemma any_of_nothing: "ay_await_ready (ay_new 0) \<and> ay_await_resume (ay_new 0) = None"
  by (simp add: ay_await_ready_def ay_await_resume_def ay_new_def)

end
