(* ===== verification/Event_Loop.thy ===== *)
theory Event_Loop
  imports Pman_Prelude
begin

unbundle bit_operations_syntax

text \<open>
  \<open>EpollLoop\<close> of src/src/async/epoll_loop.cpp and the thread-local bookkeeping of
  src/src/async/event_loop.cpp. Callbacks are user code: a callback is a number, and the parameter
  \<open>beh\<close> says which calls of the loop's interface it makes in the state in which it runs. The
  kernel's answers to \<open>epoll_wait\<close> are an input, and so are the readings of \<open>steady_clock\<close>:
  \<open>clock k\<close> is the k-th reading (in nanoseconds), documented to be monotone.

  A \<open>std::multimap\<close> is a list sorted by key in which \<open>emplace\<close> goes behind equal keys; its iterators
  are node numbers, so that \<open>timerById_\<close> and \<open>timersByExpiry_\<close> stay two structures that have to agree.
\<close>

section \<open>Timers\<close>

record tentry =
  te_id :: nat
  te_callback :: "nat option"
  te_period :: nat

type_synonym tnode = "nat \<times> nat \<times> tentry"

fun mm_emplace :: "tnode \<Rightarrow> tnode list \<Rightarrow> tnode list" where
  "mm_emplace n [] = [n]"
| "mm_emplace n (x # xs) = (if fst x \<le> fst n then x # mm_emplace n xs else n # x # xs)"

definition mm_erase :: "nat \<Rightarrow> tnode list \<Rightarrow> tnode list" where
  "mm_erase i xs = filter (\<lambda>x. fst (snd x) \<noteq> i) xs"

record el =
  el_reads :: nat
  el_running :: bool
  el_timersByExpiry :: "tnode list"
  el_timerById :: "nat \<rightharpoonup> nat"
  el_nextNode :: nat
  el_nextTimerId :: nat
  el_interest :: "nat \<rightharpoonup> nat"
  el_fdCallbacks :: "nat \<rightharpoonup> nat"
  el_posted :: "nat option list"
  el_eventfd :: nat
  el_log :: "nat list"

definition el_new :: el where
  "el_new = \<lparr>el_reads = 0, el_running = False, el_timersByExpiry = [], el_timerById = (\<lambda>_. None),
     el_nextNode = 0, el_nextTimerId = 1, el_interest = (\<lambda>_. None),
     el_fdCallbacks = (\<lambda>_. None), el_posted = [], el_eventfd = 0, el_log = []\<rparr>"

text \<open>\<open>steady_clock::now()\<close>\<close>

definition el_now :: "(nat \<Rightarrow> nat) \<Rightarrow> el \<Rightarrow> nat \<times> el" where
  "el_now clock s = (clock (el_reads s), s\<lparr>el_reads := el_reads s + 1\<rparr>)"

text \<open>\<open>timersByExpiry_.emplace(expiry, entry)\<close> followed by \<open>timerById_[id] = it\<close>\<close>

definition el_insert :: "nat \<Rightarrow> tentry \<Rightarrow> el \<Rightarrow> el" where
  "el_insert expiry e s =
     s\<lparr>el_timersByExpiry := mm_emplace (expiry, el_nextNode s, e) (el_timersByExpiry s),
       el_timerById := (el_timerById s)(te_id e \<mapsto> el_nextNode s),
       el_nextNode := el_nextNode s + 1\<rparr>"

definition el_addTimer :: "(nat \<Rightarrow> nat) \<Rightarrow> nat \<Rightarrow> nat option \<Rightarrow> el \<Rightarrow> nat \<times> el" where
  "el_addTimer clock duration callback s =
     (let i = el_nextTimerId s;
          (now, s1) = el_now clock (s\<lparr>el_nextTimerId := i + 1\<rparr>)
      in (i, el_insert (now + duration) \<lparr>te_id = i, te_callback = callback, te_period = 0\<rparr> s1))"

definition el_addPeriodicTimer :: "(nat \<Rightarrow> nat) \<Rightarrow> nat \<Rightarrow> nat option \<Rightarrow> el \<Rightarrow> nat \<times> el" where
  "el_addPeriodicTimer clock period callback s =
     (let i = el_nextTimerId s;
          (now, s1) = el_now clock (s\<lparr>el_nextTimerId := i + 1\<rparr>)
      in (i, el_insert (now + period) \<lparr>te_id = i, te_callback = callback, te_period = period\<rparr> s1))"

definition el_cancelTimer :: "nat \<Rightarrow> el \<Rightarrow> bool \<times> el" where
  "el_cancelTimer i s =
     (case el_timerById s i of
        None \<Rightarrow> (False, s)
      | Some n \<Rightarrow> (True, s\<lparr>el_timersByExpiry := mm_erase n (el_timersByExpiry s),
                          el_timerById := (el_timerById s)(i := None)\<rparr>))"

definition el_activeTimers :: "el \<Rightarrow> nat" where
  "el_activeTimers s = card (dom (el_timerById s))"

section \<open>Posting, stopping, descriptors\<close>

definition el_post :: "nat option \<Rightarrow> el \<Rightarrow> el" where
  "el_post callback s = s\<lparr>el_posted := el_posted s @ [callback], el_eventfd := el_eventfd s + 1\<rparr>"

definition el_stop :: "el \<Rightarrow> el" where
  "el_stop s = s\<lparr>el_running := False, el_eventfd := el_eventfd s + 1\<rparr>"

text \<open>
  \<open>el_interest\<close> is the kernel's epoll set: the event mask registered for a descriptor. \<open>accepted\<close> is
  the kernel's answer to \<open>EPOLL_CTL_ADD\<close>.
\<close>

definition el_addFd :: "bool \<Rightarrow> nat \<Rightarrow> nat \<Rightarrow> nat \<Rightarrow> el \<Rightarrow> unit result \<times> el" where
  "el_addFd accepted fd events callback s =
     (if accepted
      then (Inr (), s\<lparr>el_interest := (el_interest s)(fd \<mapsto> events),
                      el_fdCallbacks := (el_fdCallbacks s)(fd \<mapsto> callback)\<rparr>)
      else (Inl Runtime_error, s))"

definition el_modifyFd :: "nat \<Rightarrow> nat \<Rightarrow> el \<Rightarrow> el" where
  "el_modifyFd fd events s =
     (case el_interest s fd of
        None \<Rightarrow> s
      | Some _ \<Rightarrow> s\<lparr>el_interest := (el_interest s)(fd \<mapsto> events)\<rparr>)"

definition el_removeFd :: "nat \<Rightarrow> el \<Rightarrow> el" where
  "el_removeFd fd s = s\<lparr>el_interest := (el_interest s)(fd := None),
     el_fdCallbacks := (el_fdCallbacks s)(fd := None)\<rparr>"

definition el_activeFds :: "el \<Rightarrow> nat" where
  "el_activeFds s = card (dom (el_fdCallbacks s))"

text \<open>The constants of \<open>enum class Event\<close>.\<close>

definition Event_Read :: nat where "Event_Read = push_bit 0 1"
definition Event_Write :: nat where "Event_Write = push_bit 1 1"
definition Event_Error :: nat where "Event_Error = push_bit 2 1"
definition Event_HangUp :: nat where "Event_HangUp = push_bit 3 1"

text \<open>
  The interface a callback may call. A callback that lets an exception escape ends the loop and is
  outside the model.
\<close>

datatype el_call =
    Add_timer nat "nat option"
  | Add_periodic nat "nat option"
  | Cancel_timer nat
  | Post "nat option"
  | Stop
  | Add_fd nat nat nat
  | Modify_fd nat nat
  | Remove_fd nat

fun el_do :: "(nat \<Rightarrow> nat) \<Rightarrow> el_call \<Rightarrow> el \<Rightarrow> el" where
  "el_do clock (Add_timer d c) s = snd (el_addTimer clock d c s)"
| "el_do clock (Add_periodic d c) s = snd (el_addPeriodicTimer clock d c s)"
| "el_do clock (Cancel_timer i) s = snd (el_cancelTimer i s)"
| "el_do clock (Post c) s = el_post c s"
| "el_do clock Stop s = el_stop s"
| "el_do clock (Add_fd fd ev c) s = snd (el_addFd True fd ev c s)"
| "el_do clock (Modify_fd fd ev) s = el_modifyFd fd ev s"
| "el_do clock (Remove_fd fd) s = el_removeFd fd s"

definition el_invoke :: "(nat \<Rightarrow> nat) \<Rightarrow> (nat \<Rightarrow> el \<Rightarrow> el_call list) \<Rightarrow> nat \<Rightarrow> el \<Rightarrow> el" where
  "el_invoke clock beh c s = fold (el_do clock) (beh c s) (s\<lparr>el_log := el_log s @ [c]\<rparr>)"

section \<open>One iteration\<close>

text \<open>
  The collecting loop of \<open>processTimers\<close>: it erases the expired front of the multimap and returns
  the callbacks to run and the periodic timers to insert again.
\<close>

fun el_collect :: "nat \<Rightarrow> tnode list \<Rightarrow> (nat \<rightharpoonup> nat) \<Rightarrow>
    nat list \<times> (nat \<times> tentry) list \<times> tnode list \<times> (nat \<rightharpoonup> nat)" where
  "el_collect now [] byId = ([], [], [], byId)"
| "el_collect now ((expiry, n, e) # ts) byId =
     (if expiry > now then ([], [], (expiry, n, e) # ts, byId)
      else case el_collect now ts (byId(te_id e := None)) of (batch, again, rest, byId') \<Rightarrow>
        ((case te_callback e of None \<Rightarrow> batch | Some c \<Rightarrow> c # batch),
         (if te_period e > 0 then (now + te_period e, e) # again else again), rest, byId'))"

definition el_processTimers :: "(nat \<Rightarrow> nat) \<Rightarrow> (nat \<Rightarrow> el \<Rightarrow> el_call list) \<Rightarrow> el \<Rightarrow> el" where
  "el_processTimers clock beh s =
     (let (now, s1) = el_now clock s;
          (batch, toReschedule, rest, byId) =
            el_collect now (el_timersByExpiry s1) (el_timerById s1);
          s2 = s1\<lparr>el_timersByExpiry := rest, el_timerById := byId\<rparr>;
          s3 = fold (\<lambda>(expiry, e). el_insert expiry e) toReschedule s2
      in fold (el_invoke clock beh) batch s3)"

definition el_processPosted :: "(nat \<Rightarrow> nat) \<Rightarrow> (nat \<Rightarrow> el \<Rightarrow> el_call list) \<Rightarrow> el \<Rightarrow> el" where
  "el_processPosted clock beh s =
     (if el_posted s = [] then s
      else fold (\<lambda>c s. case c of None \<Rightarrow> s | Some f \<Rightarrow> el_invoke clock beh f s)
             (el_posted s) (s\<lparr>el_posted := []\<rparr>))"

text \<open>
  The descriptors \<open>epoll_wait\<close> reported; \<open>evfd\<close> is the loop's own \<open>eventFd_\<close>, whose \<open>read\<close> resets
  the counter.
\<close>

definition el_dispatch :: "(nat \<Rightarrow> nat) \<Rightarrow> (nat \<Rightarrow> el \<Rightarrow> el_call list) \<Rightarrow> nat \<Rightarrow> nat list \<Rightarrow> el \<Rightarrow> el" where
  "el_dispatch clock beh evfd fds s =
     fold (\<lambda>fd s. if fd = evfd then s\<lparr>el_eventfd := 0\<rparr>
                  else case el_fdCallbacks s fd of None \<Rightarrow> s | Some c \<Rightarrow> el_invoke clock beh c s) fds s"

datatype epoll_result = Epoll_errno nat | Epoll_ready "nat list"

text \<open>\<open>getNextTimerTimeout\<close> in milliseconds.\<close>

definition el_getNextTimerTimeout :: "(nat \<Rightarrow> nat) \<Rightarrow> el \<Rightarrow> nat \<times> el" where
  "el_getNextTimerTimeout clock s =
     (case el_timersByExpiry s of
        [] \<Rightarrow> (1000, s)
      | (expiry, _) # _ \<Rightarrow>
          (case el_now clock s of (now, s1) \<Rightarrow>
             if expiry \<le> now then (0, s1) else ((expiry - now) div 1000000, s1)))"

text \<open>
  \<open>run\<close> with the results of its successive \<open>epoll_wait\<close> calls; \<open>None\<close> in the first component means
  that it is still running when the results are used up.
\<close>

fun el_loop :: "(nat \<Rightarrow> nat) \<Rightarrow> (nat \<Rightarrow> el \<Rightarrow> el_call list) \<Rightarrow> nat \<Rightarrow> epoll_result list \<Rightarrow> el \<Rightarrow>
    unit result option \<times> el" where
  "el_loop clock beh evfd ks s =
     (if \<not> el_running s then (Some (Inr ()), s)
      else case ks of
        [] \<Rightarrow> (None, s)
      | k # ks' \<Rightarrow>
          (let s1 = snd (el_getNextTimerTimeout clock s) in
           case k of
             Epoll_errno e \<Rightarrow>
               if e = EINTR then el_loop clock beh evfd ks' s1 else (Some (Inl Runtime_error), s1)
           | Epoll_ready fds \<Rightarrow>
               el_loop clock beh evfd ks'
                 (el_processPosted clock beh
                   (el_dispatch clock beh evfd fds (el_processTimers clock beh s1)))))"

definition el_run :: "(nat \<Rightarrow> nat) \<Rightarrow> (nat \<Rightarrow> el \<Rightarrow> el_call list) \<Rightarrow> nat \<Rightarrow> epoll_result list \<Rightarrow> el \<Rightarrow>
    unit result option \<times> el" where
  "el_run clock beh evfd ks s = el_loop clock beh evfd ks (s\<lparr>el_running := True\<rparr>)"

text \<open>The guarded call of \<open>processTimers\<close> in \<open>runOnce\<close>.\<close>

definition el_expired :: "(nat \<Rightarrow> nat) \<Rightarrow> (nat \<Rightarrow> el \<Rightarrow> el_call list) \<Rightarrow> el \<Rightarrow> el" where
  "el_expired clock beh s =
     (case el_timersByExpiry s of
        [] \<Rightarrow> s
      | (expiry, _) # _ \<Rightarrow>
          (case el_now clock s of (now, s1) \<Rightarrow>
             if expiry \<le> now then el_processTimers clock beh s1 else s1))"

definition el_runOnce :: "(nat \<Rightarrow> nat) \<Rightarrow> (nat \<Rightarrow> el \<Rightarrow> el_call list) \<Rightarrow> nat \<Rightarrow> epoll_result \<Rightarrow> el \<Rightarrow>
    bool \<times> el" where
  "el_runOnce clock beh evfd k s =
     (case k of
        Epoll_errno e \<Rightarrow>
          if e \<noteq> EINTR then (False, s)
          else (False, el_processPosted clock beh (el_expired clock beh s))
      | Epoll_ready fds \<Rightarrow>
          (fds \<noteq> [], el_processPosted clock beh (el_dispatch clock beh evfd fds (el_expired clock beh s))))"

section \<open>The thread's current loop\<close>

datatype BackendType = Auto | Epoll | IoUring

text \<open>\<open>createBackend\<close>: which implementation a configuration gets.\<close>

definition createBackend :: "BackendType \<Rightarrow> BackendType" where
  "createBackend b = (if b = Auto then Epoll else b)"

text \<open>
  \<open>gCurrentLoop\<close> as an optional loop identity. \<open>run\<close> and \<open>runOnce\<close> enter with it or throw; only the
  destructor of the loop itself clears it.
\<close>

definition evl_run :: "nat \<Rightarrow> nat option \<Rightarrow> unit result \<times> nat option" where
  "evl_run this cur =
     (if cur \<noteq> None \<and> cur \<noteq> Some this then (Inl Logic_error, cur) else (Inr (), Some this))"

definition evl_runOnce :: "nat \<Rightarrow> nat option \<Rightarrow> unit result \<times> nat option" where
  "evl_runOnce this cur =
     (if cur = None then (Inr (), Some this)
      else if cur \<noteq> Some this then (Inl Logic_error, cur)
      else (Inr (), cur))"

definition evl_destroy :: "nat \<Rightarrow> nat option \<Rightarrow> nat option" where
  "evl_destroy this cur = (if cur = Some this then None else cur)"

lemma evl_run_eq_runOnce: "evl_run this cur = evl_runOnce this cur"
  by (auto simp: evl_run_def evl_runOnce_def)

text \<open>
  Once a loop has run on a thread, another one is refused there until the first is destroyed, also
  after the first has stopped.
\<close>

lemma evl_second_loop:
  assumes "evl_run a cur = (Inr (), cur1)" and "a \<noteq> b"
  shows "fst (evl_run b cur1) = Inl Logic_error \<and> fst (evl_run b (evl_destroy a cur1)) = Inr ()"
  using assms by (auto simp: evl_run_def evl_destroy_def split: if_splits)

section \<open>The two timer indexes agree\<close>

definition tn_id :: "tnode \<Rightarrow> nat" where
  "tn_id x = te_id (snd (snd x))"

definition tn_node :: "tnode \<Rightarrow> nat" where
  "tn_node x = fst (snd x)"

definition tn_index :: "tnode list \<Rightarrow> nat \<rightharpoonup> nat" where
  "tn_index xs = map_of (map (\<lambda>x. (tn_id x, tn_node x)) xs)"

definition el_inv :: "el \<Rightarrow> bool" where
  "el_inv s \<longleftrightarrow>
     sorted (map fst (el_timersByExpiry s)) \<and>
     distinct (map tn_node (el_timersByExpiry s)) \<and>
     distinct (map tn_id (el_timersByExpiry s)) \<and>
     (\<forall>x \<in> set (el_timersByExpiry s). tn_node x < el_nextNode s \<and> tn_id x < el_nextTimerId s) \<and>
     el_timerById s = tn_index (el_timersByExpiry s)"

lemma tn_simps [simp]: "tn_id (x, n, e) = te_id e" "tn_node (x, n, e) = n"
  by (simp_all add: tn_id_def tn_node_def)

lemma mm_erase_node: "mm_erase n xs = filter (\<lambda>x. tn_node x \<noteq> n) xs"
  by (simp add: mm_erase_def tn_node_def)

lemma mm_emplace_set [simp]: "set (mm_emplace n xs) = insert n (set xs)"
  by (induction xs) auto

lemma mm_emplace_length [simp]: "length (mm_emplace n xs) = Suc (length xs)"
  by (induction xs) auto

lemma mm_emplace_distinct:
  "f n \<notin> f ` set xs \<Longrightarrow> distinct (map f xs) \<Longrightarrow> distinct (map f (mm_emplace n xs))"
  by (induction xs) auto

lemma mm_emplace_sorted: "sorted (map fst xs) \<Longrightarrow> sorted (map fst (mm_emplace n xs))"
  by (induction xs) auto

lemma tn_index_emplace:
  "tn_id n \<notin> tn_id ` set xs \<Longrightarrow> tn_index (mm_emplace n xs) = (tn_index xs)(tn_id n \<mapsto> tn_node n)"
  by (induction xs) (auto simp: tn_index_def fun_upd_twist)

lemma tn_index_dom: "dom (tn_index xs) = tn_id ` set xs"
  by (simp add: tn_index_def dom_map_of_conv_image_fst image_image)

lemma tn_index_Some:
  "distinct (map tn_id xs) \<Longrightarrow> tn_index xs i = Some n \<longleftrightarrow> (\<exists>x \<in> set xs. tn_id x = i \<and> tn_node x = n)"
  by (auto simp: tn_index_def map_of_eq_Some_iff comp_def)

lemma tn_index_filter:
  assumes "distinct (map tn_id xs)" and "distinct (map tn_node xs)" and "tn_index xs i = Some n"
  shows "tn_index (mm_erase n xs) = (tn_index xs)(i := None)"
  using assms
proof (induction xs)
  case Nil
  then show ?case by (simp add: tn_index_def mm_erase_def)
next
  case (Cons x xs)
  show ?case
  proof (cases "tn_id x = i")
    case True
    then have n: "tn_node x = n" using Cons.prems(3) by (simp add: tn_index_def)
    then have "\<forall>y \<in> set xs. tn_node y \<noteq> n" using Cons.prems(2) by (simp add: image_iff) metis
    then have "mm_erase n (x # xs) = xs" using n by (simp add: mm_erase_node)
    moreover have "tn_index xs i = None"
      using Cons.prems(1) True tn_index_dom [of xs] by auto
    ultimately show ?thesis using True by (auto simp: tn_index_def fun_eq_iff)
  next
    case False
    then have i: "tn_index xs i = Some n" using Cons.prems(3) by (simp add: tn_index_def)
    then have "n \<in> tn_node ` set xs"
      using tn_index_Some [of xs i n] Cons.prems(1) by auto
    then have "tn_node x \<noteq> n" using Cons.prems(2) by auto
    then show ?thesis
      using Cons False i by (auto simp: tn_index_def mm_erase_node fun_upd_twist)
  qed
qed

lemma el_new_inv: "el_inv el_new"
  by (simp add: el_inv_def el_new_def tn_index_def)

lemma el_insert_inv:
  assumes "el_inv s" and "te_id e \<notin> tn_id ` set (el_timersByExpiry s)" and "te_id e < el_nextTimerId s"
  shows "el_inv (el_insert expiry e s)"
proof -
  have "tn_node (expiry, el_nextNode s, e) \<notin> tn_node ` set (el_timersByExpiry s)"
    using assms(1) by (auto simp: el_inv_def)
  then have "distinct (map tn_node (mm_emplace (expiry, el_nextNode s, e) (el_timersByExpiry s)))"
    "distinct (map tn_id (mm_emplace (expiry, el_nextNode s, e) (el_timersByExpiry s)))"
    using assms by (simp_all add: el_inv_def mm_emplace_distinct)
  then show ?thesis
    using assms by (simp add: el_inv_def el_insert_def mm_emplace_sorted tn_index_emplace less_Suc_eq)
qed

lemma el_inv_fields [simp]:
  "el_inv (s\<lparr>el_reads := a\<rparr>) = el_inv s"
  "el_inv (s\<lparr>el_running := b\<rparr>) = el_inv s"
  "el_inv (s\<lparr>el_fdCallbacks := f\<rparr>) = el_inv s"
  "el_inv (s\<lparr>el_interest := m\<rparr>) = el_inv s"
  "el_inv (s\<lparr>el_posted := p\<rparr>) = el_inv s"
  "el_inv (s\<lparr>el_eventfd := v\<rparr>) = el_inv s"
  "el_inv (s\<lparr>el_log := l\<rparr>) = el_inv s"
  by (simp_all add: el_inv_def)

lemma el_inv_next_id: "el_inv s \<Longrightarrow> el_inv (s\<lparr>el_nextTimerId := Suc (el_nextTimerId s)\<rparr>)"
  by (auto simp: el_inv_def less_SucI)

lemma el_add_inv:
  assumes "el_inv s"
  shows "el_inv (el_insert expiry \<lparr>te_id = el_nextTimerId s, te_callback = c, te_period = p\<rparr>
    (s\<lparr>el_nextTimerId := Suc (el_nextTimerId s), el_reads := r\<rparr>))"
proof (rule el_insert_inv)
  show "el_inv (s\<lparr>el_nextTimerId := Suc (el_nextTimerId s), el_reads := r\<rparr>)"
    using el_inv_next_id [OF assms] by simp
qed (use assms in \<open>auto simp: el_inv_def\<close>)

lemma el_addTimer_inv: "el_inv s \<Longrightarrow> el_inv (snd (el_addTimer clock d c s))"
  by (simp add: el_addTimer_def el_now_def Let_def el_add_inv)

lemma el_addPeriodicTimer_inv: "el_inv s \<Longrightarrow> el_inv (snd (el_addPeriodicTimer clock d c s))"
  by (simp add: el_addPeriodicTimer_def el_now_def Let_def el_add_inv)

lemma mm_erase_sublist: "sorted (map fst xs) \<Longrightarrow> sorted (map fst (mm_erase n xs))"
  "distinct (map f xs) \<Longrightarrow> distinct (map f (mm_erase n xs))"
  by (simp_all add: mm_erase_def sorted_filter distinct_map_filter)

lemma el_cancelTimer_inv:
  assumes "el_inv s"
  shows "el_inv (snd (el_cancelTimer i s))"
proof (cases "el_timerById s i")
  case None
  then show ?thesis using assms by (simp add: el_cancelTimer_def)
next
  case (Some n)
  moreover have "set (mm_erase n (el_timersByExpiry s)) \<subseteq> set (el_timersByExpiry s)"
    by (auto simp: mm_erase_node)
  ultimately show ?thesis
    using assms by (auto simp: el_cancelTimer_def el_inv_def mm_erase_sublist tn_index_filter)
qed

lemma el_do_inv: "el_inv s \<Longrightarrow> el_inv (el_do clock k s)"
  by (cases k)
    (simp_all add: el_addTimer_inv el_addPeriodicTimer_inv el_cancelTimer_inv el_post_def el_stop_def
      el_addFd_def el_modifyFd_def el_removeFd_def split: option.splits)

lemma fold_inv: "(\<And>x s. I s \<Longrightarrow> I (f x s)) \<Longrightarrow> I s \<Longrightarrow> I (fold f xs s)"
  by (induction xs arbitrary: s) auto

lemma el_invoke_inv: "el_inv s \<Longrightarrow> el_inv (el_invoke clock beh c s)"
  unfolding el_invoke_def by (rule fold_inv) (simp_all add: el_do_inv)

section \<open>Processing expired timers\<close>

text \<open>What the collecting loop computes.\<close>

lemma el_collect_eq:
  "el_collect now ts byId =
     (List.map_filter (\<lambda>x. te_callback (snd (snd x))) (takeWhile (\<lambda>x. fst x \<le> now) ts),
      map (\<lambda>x. (now + te_period (snd (snd x)), snd (snd x)))
        (filter (\<lambda>x. te_period (snd (snd x)) > 0) (takeWhile (\<lambda>x. fst x \<le> now) ts)),
      dropWhile (\<lambda>x. fst x \<le> now) ts,
      byId |` (- (tn_id ` set (takeWhile (\<lambda>x. fst x \<le> now) ts))))"
proof (induction now ts byId rule: el_collect.induct)
  case (1 now byId)
  then show ?case by (simp add: map_filter_simps)
next
  case (2 now expiry n e ts byId)
  have upd: "(byId(te_id e := None)) |` (- A) = byId |` (- insert (te_id e) A)" for A
    by (auto simp: restrict_map_def)
  show ?case
  proof (cases "expiry > now")
    case True
    then show ?thesis by (simp add: map_filter_simps)
  next
    case False
    note ih = "2.IH" [OF False, unfolded upd]
    show ?thesis
      using False by (simp add: ih map_filter_simps not_less split: option.splits)
  qed
qed

lemma tn_index_append:
  "distinct (map tn_id (xs @ ys)) \<Longrightarrow> tn_index ys = tn_index (xs @ ys) |` (- (tn_id ` set xs))"
proof
  fix i assume d: "distinct (map tn_id (xs @ ys))"
  have "tn_index (xs @ ys) i = (case tn_index xs i of None \<Rightarrow> tn_index ys i | Some n \<Rightarrow> Some n)"
    if "i \<notin> tn_id ` set xs"
    using that tn_index_dom [of xs] by (auto simp: tn_index_def map_add_def split: option.splits)
  moreover have "tn_index ys i = None" if "i \<in> tn_id ` set xs"
    using that d tn_index_dom [of ys] by auto
  ultimately show "tn_index ys i = (tn_index (xs @ ys) |` (- (tn_id ` set xs))) i"
    using tn_index_dom [of xs] by (auto simp: restrict_map_def split: option.splits)
qed

lemma el_reschedule_inv:
  assumes "el_inv s" and "distinct (map (te_id \<circ> snd) rs)"
    and "\<forall>r \<in> set rs. te_id (snd r) \<notin> tn_id ` set (el_timersByExpiry s) \<and> te_id (snd r) < el_nextTimerId s"
  shows "el_inv (fold (\<lambda>(expiry, e). el_insert expiry e) rs s)"
  using assms
proof (induction rs arbitrary: s)
  case (Cons r rs)
  obtain x e where r: "r = (x, e)" by (cases r)
  have "el_inv (el_insert x e s)" using Cons.prems r by (intro el_insert_inv) auto
  moreover have "\<forall>r \<in> set rs. te_id (snd r) \<notin> tn_id ` set (el_timersByExpiry (el_insert x e s)) \<and>
      te_id (snd r) < el_nextTimerId (el_insert x e s)"
    using Cons.prems r by (simp add: el_insert_def image_iff) metis
  ultimately show ?case using Cons r by simp
qed simp

definition el_due :: "nat \<Rightarrow> el \<Rightarrow> tnode list" where
  "el_due now s = takeWhile (\<lambda>x. fst x \<le> now) (el_timersByExpiry s)"

text \<open>The state of \<open>processTimers\<close> between the rescheduling and the first callback.\<close>

definition el_settled :: "nat \<Rightarrow> el \<Rightarrow> el" where
  "el_settled now s =
     fold (\<lambda>(expiry, e). el_insert expiry e)
       (map (\<lambda>x. (now + te_period (snd (snd x)), snd (snd x)))
          (filter (\<lambda>x. te_period (snd (snd x)) > 0) (el_due now s)))
       (s\<lparr>el_timersByExpiry := dropWhile (\<lambda>x. fst x \<le> now) (el_timersByExpiry s),
          el_timerById := el_timerById s |` (- (tn_id ` set (el_due now s)))\<rparr>)"

lemma el_processTimers_eq:
  "el_processTimers clock beh s =
     fold (el_invoke clock beh) (List.map_filter (\<lambda>x. te_callback (snd (snd x))) (el_due (clock (el_reads s)) s))
       (el_settled (clock (el_reads s)) (s\<lparr>el_reads := el_reads s + 1\<rparr>))"
  by (simp add: el_processTimers_def el_now_def el_collect_eq el_settled_def el_due_def Let_def)

lemma el_drop_inv:
  assumes "el_inv s"
  shows "el_inv (s\<lparr>el_timersByExpiry := dropWhile P (el_timersByExpiry s),
    el_timerById := el_timerById s |` (- (tn_id ` set (takeWhile P (el_timersByExpiry s))))\<rparr>)"
proof -
  let ?xs = "takeWhile P (el_timersByExpiry s)" and ?ys = "dropWhile P (el_timersByExpiry s)"
  have app: "?xs @ ?ys = el_timersByExpiry s" by simp
  have "sorted (map fst (?xs @ ?ys))" "distinct (map tn_node (?xs @ ?ys))" "distinct (map tn_id (?xs @ ?ys))"
    using assms unfolding app by (simp_all add: el_inv_def)
  then have "sorted (map fst ?ys)" "distinct (map tn_node ?ys)" "distinct (map tn_id ?ys)"
    "tn_index ?ys = el_timerById s |` (- (tn_id ` set ?xs))"
    using tn_index_append [of ?xs ?ys] assms
    by (simp_all add: sorted_append el_inv_def del: takeWhile_dropWhile_id) (simp add: el_inv_def)
  then show ?thesis
    using assms set_dropWhileD [of _ P "el_timersByExpiry s"] by (auto simp: el_inv_def)
qed

lemma el_settled_inv:
  assumes "el_inv s"
  shows "el_inv (el_settled now s)"
proof -
  let ?xs = "el_due now s"
  have app: "el_timersByExpiry s = ?xs @ dropWhile (\<lambda>x. fst x \<le> now) (el_timersByExpiry s)"
    by (simp add: el_due_def)
  have d: "distinct (map tn_id (el_timersByExpiry s))" using assms by (simp add: el_inv_def)
  then have dx: "distinct (map tn_id ?xs)"
    and disj: "tn_id ` set ?xs \<inter> tn_id ` set (dropWhile (\<lambda>x. fst x \<le> now) (el_timersByExpiry s)) = {}"
    by (subst (asm) app, simp)+
  have lt: "\<forall>x \<in> set ?xs. tn_id x < el_nextTimerId s"
    using assms by (auto simp: el_inv_def el_due_def dest: set_takeWhileD)
  show ?thesis
    unfolding el_settled_def
  proof (rule el_reschedule_inv)
    show "el_inv (s\<lparr>el_timersByExpiry := dropWhile (\<lambda>x. fst x \<le> now) (el_timersByExpiry s),
        el_timerById := el_timerById s |` (- (tn_id ` set ?xs))\<rparr>)"
      unfolding el_due_def by (rule el_drop_inv [OF assms])
    have "distinct (map tn_id (filter (\<lambda>x. te_period (snd (snd x)) > 0) ?xs))"
      using dx by (rule distinct_map_filter)
    then show "distinct (map (te_id \<circ> snd) (map (\<lambda>x. (now + te_period (snd (snd x)), snd (snd x)))
        (filter (\<lambda>x. te_period (snd (snd x)) > 0) ?xs)))"
      by (simp add: comp_def flip: tn_id_def)
  qed (use disj lt in \<open>force simp: tn_id_def\<close>)
qed

lemma el_processTimers_inv: "el_inv s \<Longrightarrow> el_inv (el_processTimers clock beh s)"
  unfolding el_processTimers_eq by (rule fold_inv) (simp_all add: el_invoke_inv el_settled_inv)

lemma el_processPosted_inv:
  assumes "el_inv s"
  shows "el_inv (el_processPosted clock beh s)"
proof -
  have "el_inv (fold (\<lambda>c s. case c of None \<Rightarrow> s | Some f \<Rightarrow> el_invoke clock beh f s) (el_posted s)
      (s\<lparr>el_posted := []\<rparr>))"
    using assms by (intro fold_inv [where I = el_inv]) (auto intro: el_invoke_inv split: option.splits)
  then show ?thesis using assms by (simp add: el_processPosted_def)
qed

lemma el_dispatch_inv: "el_inv s \<Longrightarrow> el_inv (el_dispatch clock beh evfd fds s)"
  unfolding el_dispatch_def
  by (rule fold_inv [where I = el_inv]) (auto intro: el_invoke_inv split: option.splits)

lemma el_now_inv: "el_inv (snd (el_now clock s)) = el_inv s"
  by (simp add: el_now_def)

lemma el_getNextTimerTimeout_inv: "el_inv s \<Longrightarrow> el_inv (snd (el_getNextTimerTimeout clock s))"
  by (auto simp: el_getNextTimerTimeout_def el_now_def split: list.splits)

declare el_loop.simps [simp del]

lemma el_loop_inv: "el_inv s \<Longrightarrow> el_inv (snd (el_loop clock beh evfd ks s))"
proof (induction ks arbitrary: s)
  case Nil
  then show ?case by (simp add: el_loop.simps)
next
  case (Cons k ks)
  have s1: "el_inv (snd (el_getNextTimerTimeout clock s))"
    using Cons.prems by (rule el_getNextTimerTimeout_inv)
  show ?case
    using Cons.prems s1
    by (subst el_loop.simps)
      (auto simp: Let_def Cons.IH el_processTimers_inv el_processPosted_inv el_dispatch_inv
        split: epoll_result.splits)
qed

lemma el_runOnce_inv: "el_inv s \<Longrightarrow> el_inv (snd (el_runOnce clock beh evfd k s))"
  by (auto simp: el_runOnce_def el_expired_def el_now_def el_processTimers_inv el_processPosted_inv
      el_dispatch_inv split: epoll_result.splits list.splits)

section \<open>What runs, and in which order\<close>

lemma el_do_log: "el_log (el_do clock k s) = el_log s"
  by (cases k)
    (auto simp: el_addTimer_def el_addPeriodicTimer_def el_now_def el_insert_def Let_def el_cancelTimer_def
      el_post_def el_stop_def el_addFd_def el_modifyFd_def el_removeFd_def split: option.splits)

lemma fold_el_do_log: "el_log (fold (el_do clock) ks s) = el_log s"
  by (induction ks arbitrary: s) (simp_all add: el_do_log)

lemma el_invoke_log: "el_log (el_invoke clock beh c s) = el_log s @ [c]"
  by (simp add: el_invoke_def fold_el_do_log)

lemma fold_invoke_log: "el_log (fold (el_invoke clock beh) cs s) = el_log s @ cs"
  by (induction cs arbitrary: s) (simp_all add: el_invoke_log)

lemma fold_insert_log: "el_log (fold (\<lambda>(expiry, e). el_insert expiry e) rs s) = el_log s"
  by (induction rs arbitrary: s) (auto simp: el_insert_def)

lemma el_settled_log: "el_log (el_settled now s) = el_log s"
  by (simp add: el_settled_def fold_insert_log)

text \<open>A node without its number.\<close>

definition tn_strip :: "tnode \<Rightarrow> nat \<times> tentry" where
  "tn_strip x = (fst x, snd (snd x))"

lemma tn_strip_simp [simp]: "tn_strip (x, n, e) = (x, e)"
  by (simp add: tn_strip_def)

lemma fold_insert_timers:
  "tn_strip ` set (el_timersByExpiry (fold (\<lambda>(expiry, e). el_insert expiry e) rs s)) =
     tn_strip ` set (el_timersByExpiry s) \<union> set rs"
proof (induction rs arbitrary: s)
  case (Cons r rs)
  obtain x e where r: "r = (x, e)" by (cases r)
  have "tn_strip ` set (el_timersByExpiry (el_insert x e s)) =
      insert (x, e) (tn_strip ` set (el_timersByExpiry s))"
    by (simp add: el_insert_def tn_strip_def)
  then show ?case using Cons.IH [of "el_insert x e s"] by (simp add: r)
qed simp

lemma el_settled_timers:
  "tn_strip ` set (el_timersByExpiry (el_settled now s)) =
     tn_strip ` set (dropWhile (\<lambda>x. fst x \<le> now) (el_timersByExpiry s)) \<union>
     (\<lambda>x. (now + te_period (snd (snd x)), snd (snd x))) `
       {x \<in> set (el_due now s). te_period (snd (snd x)) > 0}"
  by (simp add: el_settled_def fold_insert_timers)

lemma sorted_dropWhile_filter:
  "sorted (map fst xs) \<Longrightarrow> dropWhile (\<lambda>x. fst x \<le> now) xs = filter (\<lambda>x. (now::nat) < fst x) xs"
proof (induction xs)
  case (Cons x xs)
  have "filter (\<lambda>x. now < fst x) xs = xs" if "\<not> fst x \<le> now"
    using Cons.prems that by (fastforce simp: filter_id_conv)
  then show ?case using Cons by auto
qed simp

lemma sorted_takeWhile_filter:
  "sorted (map fst xs) \<Longrightarrow> takeWhile (\<lambda>x. fst x \<le> now) xs = filter (\<lambda>x. fst x \<le> (now::nat)) xs"
proof (induction xs)
  case (Cons x xs)
  have "filter (\<lambda>x. fst x \<le> now) xs = []" if "\<not> fst x \<le> now"
    using Cons.prems that by (fastforce simp: filter_empty_conv)
  then show ?case using Cons by auto
qed simp

lemma el_processPosted_log:
  "el_log (el_processPosted clock beh s) = el_log s @ List.map_filter (\<lambda>c. c) (el_posted s)"
proof -
  have "el_log (fold (\<lambda>c s. case c of None \<Rightarrow> s | Some f \<Rightarrow> el_invoke clock beh f s) cs s) =
      el_log s @ List.map_filter (\<lambda>c. c) cs" for cs s
    by (induction cs arbitrary: s) (auto simp: map_filter_simps el_invoke_log split: option.splits)
  then show ?thesis by (simp add: el_processPosted_def map_filter_simps)
qed

section \<open>The interface of a timer service\<close>

text \<open>
  What a client of a timer service relies on: adding a request gives an identifier that is not in
  use, cancelling says whether the identifier was in use and removes exactly it.
\<close>

locale timer_service =
  fixes inv :: "'s \<Rightarrow> bool"
    and pend :: "'s \<Rightarrow> nat \<rightharpoonup> 'e"
    and add :: "'q \<Rightarrow> 's \<Rightarrow> nat \<times> 's"
    and entry_of :: "'q \<Rightarrow> 's \<Rightarrow> 'e"
    and cancel :: "nat \<Rightarrow> 's \<Rightarrow> bool \<times> 's"
  assumes add_law: "inv s \<Longrightarrow> add q s = (i, s') \<Longrightarrow>
      inv s' \<and> pend s i = None \<and> pend s' = (pend s)(i \<mapsto> entry_of q s)"
    and cancel_law: "inv s \<Longrightarrow> cancel i s = (b, s') \<Longrightarrow>
      inv s' \<and> (b \<longleftrightarrow> pend s i \<noteq> None) \<and> pend s' = (pend s)(i := None)"
begin

lemma add_then_cancel:
  assumes "inv s" and "add q s = (i, s1)" and "cancel i s1 = (b, s2)"
  shows "b \<and> pend s2 = pend s"
  using add_law [OF assms(1,2)] cancel_law [OF _ assms(3)] by auto

lemma cancel_twice:
  assumes "inv s" and "cancel i s = (b, s1)" and "cancel i s1 = (b', s2)"
  shows "\<not> b' \<and> pend s2 = pend s1"
  using cancel_law [OF assms(1,2)] cancel_law [OF _ assms(3)] by auto

lemma add_keeps_others:
  assumes "inv s" and "add q s = (i, s1)" and "pend s j \<noteq> None"
  shows "j \<noteq> i \<and> pend s1 j = pend s j"
  using add_law [OF assms(1,2)] assms(3) by auto

lemma cancel_commutes_with_add:
  assumes "inv s" and "pend s j \<noteq> None" and "add q s = (i, s1)" and "cancel j s1 = (b, s2)"
  shows "b \<and> pend s2 = (pend s)(j := None, i \<mapsto> entry_of q s)"
  using add_law [OF assms(1,3)] cancel_law [OF _ assms(4)] assms(2) by (auto simp: fun_upd_twist)

end

definition el_pending :: "el \<Rightarrow> nat \<rightharpoonup> nat \<times> tentry" where
  "el_pending s = map_of (map (\<lambda>x. (tn_id x, tn_strip x)) (el_timersByExpiry s))"

datatype timer_request = One_shot nat "nat option" | Periodic nat "nat option"

fun el_request :: "(nat \<Rightarrow> nat) \<Rightarrow> timer_request \<Rightarrow> el \<Rightarrow> nat \<times> el" where
  "el_request clock (One_shot d c) s = el_addTimer clock d c s"
| "el_request clock (Periodic p c) s = el_addPeriodicTimer clock p c s"

fun el_entry :: "(nat \<Rightarrow> nat) \<Rightarrow> timer_request \<Rightarrow> el \<Rightarrow> nat \<times> tentry" where
  "el_entry clock (One_shot d c) s =
     (clock (el_reads s) + d, \<lparr>te_id = el_nextTimerId s, te_callback = c, te_period = 0\<rparr>)"
| "el_entry clock (Periodic p c) s =
     (clock (el_reads s) + p, \<lparr>te_id = el_nextTimerId s, te_callback = c, te_period = p\<rparr>)"

lemma pending_emplace:
  "tn_id n \<notin> tn_id ` set xs \<Longrightarrow>
    map_of (map (\<lambda>x. (tn_id x, tn_strip x)) (mm_emplace n xs)) =
      (map_of (map (\<lambda>x. (tn_id x, tn_strip x)) xs))(tn_id n \<mapsto> tn_strip n)"
  by (induction xs) (auto simp: fun_upd_twist)

lemma pending_None:
  "el_pending s i = None \<longleftrightarrow> i \<notin> tn_id ` set (el_timersByExpiry s)"
  by (simp add: el_pending_def map_of_eq_None_iff image_image)

lemma pending_add:
  assumes "el_inv s"
  shows "el_pending (el_insert x \<lparr>te_id = el_nextTimerId s, te_callback = c, te_period = p\<rparr>
      (s\<lparr>el_nextTimerId := Suc (el_nextTimerId s), el_reads := r\<rparr>)) =
    (el_pending s)(el_nextTimerId s \<mapsto> (x, \<lparr>te_id = el_nextTimerId s, te_callback = c, te_period = p\<rparr>))"
    and "el_pending s (el_nextTimerId s) = None"
proof -
  have "el_nextTimerId s \<notin> tn_id ` set (el_timersByExpiry s)"
    using assms by (auto simp: el_inv_def)
  then show "el_pending s (el_nextTimerId s) = None"
    "el_pending (el_insert x \<lparr>te_id = el_nextTimerId s, te_callback = c, te_period = p\<rparr>
      (s\<lparr>el_nextTimerId := Suc (el_nextTimerId s), el_reads := r\<rparr>)) =
    (el_pending s)(el_nextTimerId s \<mapsto> (x, \<lparr>te_id = el_nextTimerId s, te_callback = c, te_period = p\<rparr>))"
    by (simp_all add: pending_None) (simp add: el_pending_def el_insert_def pending_emplace)
qed

lemma pending_cancel:
  assumes "el_inv s" and "el_cancelTimer i s = (b, s')"
  shows "(b \<longleftrightarrow> el_pending s i \<noteq> None) \<and> el_pending s' = (el_pending s)(i := None)"
proof (cases "el_timerById s i")
  case None
  then have "i \<notin> tn_id ` set (el_timersByExpiry s)"
    using assms(1) tn_index_dom [of "el_timersByExpiry s"] by (auto simp: el_inv_def)
  then have "el_pending s i = None" by (simp add: pending_None)
  then show ?thesis using assms(2) None by (auto simp: el_cancelTimer_def fun_upd_idem)
next
  case (Some n)
  let ?xs = "el_timersByExpiry s"
  have d: "distinct (map tn_id ?xs)" "distinct (map tn_node ?xs)" "tn_index ?xs i = Some n"
    using assms(1) Some by (simp_all add: el_inv_def)
  obtain x where x: "x \<in> set ?xs" "tn_id x = i" "tn_node x = n"
    using tn_index_Some [OF d(1)] d(3) by auto
  have keep: "y \<in> set ?xs \<Longrightarrow> tn_node y \<noteq> n \<longleftrightarrow> tn_id y \<noteq> i" for y
    using x d(1,2) by (metis distinct_map inj_onD)
  have "mm_erase n ?xs = filter (\<lambda>y. tn_id y \<noteq> i) ?xs"
    unfolding mm_erase_node using keep by (rule filter_cong [OF refl])
  moreover have "map_of (map (\<lambda>x. (tn_id x, tn_strip x)) (filter (\<lambda>y. tn_id y \<noteq> i) ys)) =
      (map_of (map (\<lambda>x. (tn_id x, tn_strip x)) ys))(i := None)" for ys
    by (induction ys) (auto simp: fun_upd_twist)
  moreover have "el_pending s i \<noteq> None" using x(1,2) by (auto simp: pending_None)
  ultimately show ?thesis
    using assms(2) Some by (auto simp: el_cancelTimer_def el_pending_def)
qed

interpretation epoll_timers: timer_service el_inv el_pending "el_request clock" "el_entry clock"
  el_cancelTimer for clock
proof
  show "el_inv s' \<and> el_pending s i = None \<and> el_pending s' = (el_pending s)(i \<mapsto> el_entry clock q s)"
    if "el_inv s" "el_request clock q s = (i, s')" for s q i s'
    using that pending_add [OF that(1)] el_add_inv [OF that(1)]
    by (cases q) (auto simp: el_addTimer_def el_addPeriodicTimer_def el_now_def Let_def)
  show "el_inv s' \<and> (b \<longleftrightarrow> el_pending s i \<noteq> None) \<and> el_pending s' = (el_pending s)(i := None)"
    if "el_inv s" "el_cancelTimer i s = (b, s')" for s i b s'
    using pending_cancel [OF that] el_cancelTimer_inv [OF that(1), of i] that(2) by simp
qed

section \<open>Properties\<close>

text \<open>
  The two timer indexes of \<open>EpollLoop\<close> never disagree: starting from a new loop, whatever
  the kernel reports and whatever the callbacks do (add, cancel, post, stop, register), after any
  number of iterations of \<open>run\<close> the multimap is sorted by expiry, \<open>timerById_\<close> maps every identifier
  to exactly the node that holds it, identifiers are unique, and \<open>activeTimers()\<close> is the number of
  pending timers.
\<close>

lemma epoll_indexes_agree:
  "let s = snd (el_run clock beh evfd ks el_new) in
     sorted (map fst (el_timersByExpiry s)) \<and> distinct (map tn_id (el_timersByExpiry s)) \<and>
     el_timerById s = tn_index (el_timersByExpiry s) \<and>
     el_activeTimers s = length (el_timersByExpiry s)"
proof -
  have inv: "el_inv (snd (el_run clock beh evfd ks el_new))"
    unfolding el_run_def by (rule el_loop_inv) (simp add: el_new_inv)
  then have "el_activeTimers (snd (el_run clock beh evfd ks el_new)) =
      length (el_timersByExpiry (snd (el_run clock beh evfd ks el_new)))"
    using distinct_card [of "map tn_id (el_timersByExpiry (snd (el_run clock beh evfd ks el_new)))"]
    by (simp add: el_activeTimers_def el_inv_def tn_index_dom)
  then show ?thesis using inv by (simp add: el_inv_def Let_def)
qed


definition el_demo :: el where
  "el_demo = el_do (\<lambda>k. k) (Add_periodic 3 (Some 8)) (el_do (\<lambda>k. k) (Add_timer 9 (Some 7)) el_new)"

lemma el_demo_inv: "el_inv el_demo"
  unfolding el_demo_def by (intro el_do_inv el_new_inv)


text \<open>
  The loop never sleeps past a timer: the timeout it passes to \<open>epoll_wait\<close>, in
  milliseconds, ends no later than the expiry of any pending timer that is still in the future, and
  is 0 when some timer is already due.
\<close>

lemma epoll_timeout_not_late:
  assumes "el_inv s" and "x \<in> set (el_timersByExpiry s)" and "now = clock (el_reads s)"
  shows "(if fst x \<le> now then fst (el_getNextTimerTimeout clock s) = 0
          else now + fst (el_getNextTimerTimeout clock s) * 1000000 \<le> fst x)"
proof (cases "el_timersByExpiry s")
  case Nil
  then show ?thesis using assms(2) by simp
next
  case (Cons y ys)
  obtain e n where y: "y = (e, n)" by (cases y)
  have le: "e \<le> fst x" using assms(1,2) Cons y by (auto simp: el_inv_def)
  have "(e - now) div 1000000 * 1000000 \<le> e - now" by simp
  then show ?thesis
    using le assms(3) Cons y by (auto simp: el_getNextTimerTimeout_def el_now_def)
qed

text \<open>
  Claim C24. Timer identifiers behave like handles: a timer just added can be cancelled once, the
  cancellation reports true and restores the set of pending timers exactly as it was before, and a
  second cancellation reports false and changes nothing.
\<close>

theorem epoll_add_cancel_roundtrip:
  assumes "el_inv s" and "el_request clock q s = (i, s1)"
    and "el_cancelTimer i s1 = (b, s2)" and "el_cancelTimer i s2 = (b', s3)"
  shows "b \<and> el_pending s2 = el_pending s \<and> \<not> b' \<and> el_pending s3 = el_pending s"
proof -
  have "b \<and> el_pending s2 = el_pending s"
    using assms(1-3) by (rule epoll_timers.add_then_cancel)
  moreover have "el_inv s1" using epoll_timers.add_law [OF assms(1,2)] by simp
  then have "\<not> b' \<and> el_pending s3 = el_pending s2"
    using assms(3,4) by (rule epoll_timers.cancel_twice)
  ultimately show ?thesis by simp
qed

theorem epoll_add_cancel_roundtrip_witness:
  "\<exists>i s1 b s2 b' s3. el_inv el_demo \<and> el_request (\<lambda>k. k) (Periodic 5 (Some 1)) el_demo = (i, s1) \<and>
     el_cancelTimer i s1 = (b, s2) \<and> el_cancelTimer i s2 = (b', s3) \<and> b \<and> \<not> b' \<and>
     el_pending s3 = el_pending el_demo"
  using epoll_add_cancel_roundtrip [OF el_demo_inv] el_demo_inv by (metis surj_pair)

section \<open>Where the code differs from its documentation\<close>

text \<open>
  A callback that cancels another timer due in the same batch does not stop it: the batch is
  collected first. Callback 1 cancels the periodic timer 2; the cancellation succeeds (the timer is
  gone afterwards), and callback 2 still runs after it.
\<close>

lemma epoll_cancel_in_batch:
  "\<exists>s. s = el_processTimers (\<lambda>_. 5) (\<lambda>c _. if c = 1 then [Cancel_timer 2] else [])
        (snd (el_addPeriodicTimer (\<lambda>_. 0) 5 (Some 2) (snd (el_addTimer (\<lambda>_. 0) 5 (Some 1) el_new)))) \<and>
     el_log s = [1, 2] \<and> el_timerById s 2 = None"
  by (simp add: el_processTimers_def el_addTimer_def el_addPeriodicTimer_def el_now_def el_insert_def
      el_new_def el_invoke_def el_cancelTimer_def mm_erase_def)

text \<open>
  The mask given to \<open>epoll_ctl\<close> is the \<open>Event\<close> value itself. In the kernel's interface 1 is
  \<open>EPOLLIN\<close>, 2 \<open>EPOLLPRI\<close>, 4 \<open>EPOLLOUT\<close>, 8 \<open>EPOLLERR\<close> and 16 \<open>EPOLLHUP\<close>: registering \<open>Event::Write\<close>
  asks for \<open>EPOLLPRI\<close> and not for \<open>EPOLLOUT\<close>, and a reported \<open>EPOLLOUT\<close> reads as \<open>Event::Error\<close>.
\<close>

lemma epoll_write_mask:
  "el_interest (snd (el_addFd True fd Event_Write c s)) fd = Some 2 \<and> Event_Write AND 4 = 0 \<and>
   Event_Error = 4 \<and> Event_HangUp = 8"
  by (simp add: el_addFd_def Event_Write_def Event_Error_def Event_HangUp_def push_bit_eq_mult)

end
