(* ===== verification/Async_Time.thy ===== *)
theory Async_Time
  imports Event_Loop
begin

text \<open>
  \<open>Duration\<close> and \<open>Instant\<close> (src/include/pman/async/time.hpp), the awaiters of sleep.hpp, \<open>Interval\<close>
  (src/src/async/interval.cpp) and the races against a timer of timeout.hpp, on top of the timers of
  \<open>Event_Loop\<close>. A signed overflow of \<open>int64_t\<close> is undefined in C++ and the value \<open>None\<close> here. A timer with a
  negative duration is due at once, like one with duration zero.
\<close>

section \<open>Duration and Instant\<close>

definition i64 :: "int \<Rightarrow> int option" where
  "i64 x = (if - (2 ^ 63) \<le> x \<and> x < 2 ^ 63 then Some x else None)"

text \<open>C++ division truncates towards zero.\<close>

definition cdiv :: "int \<Rightarrow> int \<Rightarrow> int" where
  "cdiv a b = sgn a * sgn b * (\<bar>a\<bar> div \<bar>b\<bar>)"

definition du_fromNanos :: "int \<Rightarrow> int" where
  "du_fromNanos nanos = nanos"

definition du_fromMicros :: "int \<Rightarrow> int option" where
  "du_fromMicros micros = map_option du_fromNanos (i64 (micros * 1000))"

definition du_fromMillis :: "int \<Rightarrow> int option" where
  "du_fromMillis millis = map_option du_fromNanos (i64 (millis * 1000000))"

definition du_fromSeconds :: "int \<Rightarrow> int option" where
  "du_fromSeconds secs = map_option du_fromNanos (i64 (secs * 1000000000))"

definition du_asMicros :: "int \<Rightarrow> int" where
  "du_asMicros d = cdiv d 1000"

definition du_asMillis :: "int \<Rightarrow> int" where
  "du_asMillis d = cdiv d 1000000"

definition du_asSeconds :: "int \<Rightarrow> int" where
  "du_asSeconds d = cdiv d 1000000000"

definition du_plus :: "int \<Rightarrow> int \<Rightarrow> int option" where
  "du_plus d e = map_option du_fromNanos (i64 (d + e))"

definition du_minus :: "int \<Rightarrow> int \<Rightarrow> int option" where
  "du_minus d e = map_option du_fromNanos (i64 (d - e))"

text \<open>An instant is its distance in nanoseconds from the epoch of \<open>steady_clock\<close>; \<open>now\<close> is a clock reading.\<close>

definition in_hasPassed :: "nat \<Rightarrow> int \<Rightarrow> bool" where
  "in_hasPassed now tp \<longleftrightarrow> int now \<ge> tp"

definition in_durationUntil :: "nat \<Rightarrow> int \<Rightarrow> int option" where
  "in_durationUntil now tp = (if int now \<ge> tp then Some (du_fromNanos 0) else map_option du_fromNanos (i64 (tp - int now)))"

definition in_plus :: "int \<Rightarrow> int \<Rightarrow> int option" where
  "in_plus tp d = i64 (tp + d)"

definition in_minus :: "int \<Rightarrow> int \<Rightarrow> int option" where
  "in_minus tp d = i64 (tp - d)"

definition in_diff :: "int \<Rightarrow> int \<Rightarrow> int option" where
  "in_diff tp other = map_option du_fromNanos (i64 (tp - other))"

lemma cdiv_mult [simp]: "0 < b \<Longrightarrow> cdiv (a * b) b = a"
  by (auto simp: cdiv_def abs_mult sgn_mult abs_sgn mult.commute)

lemma cdiv_bounds:
  assumes "0 < b"
  shows "\<bar>cdiv a b * b - a\<bar> < b" "\<bar>cdiv a b * b\<bar> \<le> \<bar>a\<bar>"
proof -
  have m: "\<bar>a\<bar> = \<bar>a\<bar> div b * b + \<bar>a\<bar> mod b" "0 \<le> \<bar>a\<bar> mod b" "\<bar>a\<bar> mod b < b" using assms by simp_all
  have "\<bar>a\<bar> mod b = \<bar>a\<bar> - \<bar>a\<bar> div b * b" using m(1) by linarith
  then have "a - cdiv a b * b = sgn a * (\<bar>a\<bar> mod b)"
    using assms by (cases "0::int" a rule: linorder_cases) (simp_all add: cdiv_def)
  then have "\<bar>cdiv a b * b - a\<bar> = \<bar>sgn a * (\<bar>a\<bar> mod b)\<bar>" by (metis abs_minus_commute)
  also have "\<dots> \<le> \<bar>a\<bar> mod b" using m(2) by (simp add: abs_mult abs_sgn_eq)
  finally show "\<bar>cdiv a b * b - a\<bar> < b" using m(3) by simp
  have "\<bar>cdiv a b * b\<bar> \<le> \<bar>\<bar>a\<bar> div b * b\<bar>" using assms by (simp add: cdiv_def abs_mult abs_sgn_eq)
  also have "\<dots> = \<bar>a\<bar> div b * b" using assms by (simp add: pos_imp_zdiv_nonneg_iff)
  also have "\<dots> \<le> \<bar>a\<bar>" using m by linarith
  finally show "\<bar>cdiv a b * b\<bar> \<le> \<bar>a\<bar>" .
qed

text \<open>The conversions are inverse where the product does not overflow, and lose less than a unit otherwise.\<close>

lemma duration_roundtrip:
  "du_fromMicros n = Some d \<Longrightarrow> du_asMicros d = n"
  "du_fromMillis n = Some d \<Longrightarrow> du_asMillis d = n"
  "du_fromSeconds n = Some d \<Longrightarrow> du_asSeconds d = n"
  by (auto simp: du_fromMicros_def du_fromMillis_def du_fromSeconds_def du_fromNanos_def i64_def
      du_asMicros_def du_asMillis_def du_asSeconds_def split: if_splits)

lemma duration_truncates:
  "\<bar>du_asMillis d * 1000000 - d\<bar> < 1000000" "\<bar>du_asMillis d * 1000000\<bar> \<le> \<bar>d\<bar>"
  using cdiv_bounds [of 1000000 d] by (simp_all add: du_asMillis_def)

lemma instant_plus_diff: "in_plus tp d = Some tp' \<Longrightarrow> i64 d = Some d \<Longrightarrow> in_diff tp' tp = Some d"
  by (auto simp: in_plus_def in_diff_def du_fromNanos_def i64_def split: if_splits)

section \<open>Sleeping\<close>

text \<open>
  \<open>SleepAwaiter\<close> and \<open>SleepUntilAwaiter\<close>: the callback \<open>c\<close> of the timer is the resumption of the coroutine.
  \<open>have_loop\<close> says whether a loop was given or is current.
\<close>

record sl =
  sl_timerId :: nat
  sl_eventLoop :: bool
  sl_completed :: bool

definition sl_new :: sl where
  "sl_new = \<lparr>sl_timerId = 0, sl_eventLoop = False, sl_completed = False\<rparr>"

definition sl_await_suspend :: "(nat \<Rightarrow> nat) \<Rightarrow> bool \<Rightarrow> int \<Rightarrow> nat \<Rightarrow> sl \<times> el \<Rightarrow> (sl \<times> el) result" where
  "sl_await_suspend clock have_loop duration c sl_l =
     (case sl_l of (s, l) \<Rightarrow>
        if \<not> have_loop then Inl Runtime_error
        else (case el_addTimer clock (nat duration) (Some c) l of
                (i, l') \<Rightarrow> Inr (s\<lparr>sl_eventLoop := True, sl_timerId := i\<rparr>, l')))"

definition sl_fired :: "sl \<Rightarrow> sl" where
  "sl_fired s = s\<lparr>sl_completed := True, sl_timerId := 0\<rparr>"

definition sl_destroy :: "sl \<times> el \<Rightarrow> el" where
  "sl_destroy sl_l =
     (case sl_l of (s, l) \<Rightarrow> if sl_timerId s \<noteq> 0 \<and> sl_eventLoop s then snd (el_cancelTimer (sl_timerId s) l) else l)"

definition su_await_ready :: "nat \<Rightarrow> int \<Rightarrow> bool" where
  "su_await_ready now deadline = in_hasPassed now deadline"

definition su_await_suspend :: "(nat \<Rightarrow> nat) \<Rightarrow> bool \<Rightarrow> int \<Rightarrow> nat \<Rightarrow> sl \<times> el \<Rightarrow> (sl \<times> el) result option" where
  "su_await_suspend clock have_loop deadline c sl_l =
     (case sl_l of (s, l) \<Rightarrow>
        if \<not> have_loop then Some (Inl Runtime_error)
        else (case el_now clock l of (now, l') \<Rightarrow>
          map_option (\<lambda>d. sl_await_suspend clock True d c (s, l')) (in_durationUntil now deadline)))"

definition yieldNow_duration :: int where
  "yieldNow_duration = du_fromNanos 0"

text \<open>Timer ids start at one, so that zero can say that there is no timer.\<close>

definition el_ok :: "el \<Rightarrow> bool" where
  "el_ok l \<longleftrightarrow> el_inv l \<and> 0 < el_nextTimerId l"

lemma el_ok_new: "el_ok el_new"
  using el_new_inv by (simp add: el_ok_def el_new_def)

lemma el_addTimer_law:
  assumes "el_ok l" "el_addTimer clock d c l = (i, l')"
  shows "el_ok l'" "i \<noteq> 0" "el_pending l i = None"
    "el_pending l' = (el_pending l)(i \<mapsto> (clock (el_reads l) + d, \<lparr>te_id = i, te_callback = c, te_period = 0\<rparr>))"
proof -
  have i: "i = el_nextTimerId l" "el_nextTimerId l' = Suc (el_nextTimerId l)"
    using assms(2) by (auto simp: el_addTimer_def el_now_def el_insert_def Let_def)
  have law: "el_inv l' \<and> el_pending l i = None \<and> el_pending l' = (el_pending l)(i \<mapsto> el_entry clock (One_shot d c) l)"
    using epoll_timers.add_law [of l clock "One_shot d c" i l'] assms by (simp add: el_ok_def)
  show "el_ok l'" "i \<noteq> 0" "el_pending l i = None"
    "el_pending l' = (el_pending l)(i \<mapsto> (clock (el_reads l) + d, \<lparr>te_id = i, te_callback = c, te_period = 0\<rparr>))"
    using law i assms(1) by (simp_all add: el_ok_def)
qed

lemma el_cancelTimer_law:
  assumes "el_ok l" "el_cancelTimer i l = (b, l')"
  shows "el_ok l'" "b \<longleftrightarrow> el_pending l i \<noteq> None" "el_pending l' = (el_pending l)(i := None)"
proof -
  have "el_nextTimerId l' = el_nextTimerId l" using assms(2) by (auto simp: el_cancelTimer_def split: option.splits)
  moreover have "el_inv l' \<and> (b \<longleftrightarrow> el_pending l i \<noteq> None) \<and> el_pending l' = (el_pending l)(i := None)"
    by (rule epoll_timers.cancel_law [OF _ assms(2)]) (use assms(1) in \<open>simp add: el_ok_def\<close>)
  ultimately show "el_ok l'" "b \<longleftrightarrow> el_pending l i \<noteq> None" "el_pending l' = (el_pending l)(i := None)"
    using assms(1) unfolding el_ok_def by simp_all
qed

text \<open>A sleeper leaves no timer behind, and nobody is woken before the time asked for.\<close>

lemma sleep_timer:
  assumes "el_ok l" "sl_await_suspend clock True d c (s, l) = Inr (s', l')"
  shows "el_ok l'" "sl_timerId s' \<noteq> 0" "sl_eventLoop s'" "el_pending l (sl_timerId s') = None"
    and "el_pending l' = (el_pending l)(sl_timerId s' \<mapsto>
           (clock (el_reads l) + nat d, \<lparr>te_id = sl_timerId s', te_callback = Some c, te_period = 0\<rparr>))"
proof -
  obtain i where a: "el_addTimer clock (nat d) (Some c) l = (i, l')" and s': "s' = s\<lparr>sl_eventLoop := True, sl_timerId := i\<rparr>"
    using assms(2) by (auto simp: sl_await_suspend_def split: prod.splits)
  show "el_ok l'" "sl_timerId s' \<noteq> 0" "sl_eventLoop s'" "el_pending l (sl_timerId s') = None"
    "el_pending l' = (el_pending l)(sl_timerId s' \<mapsto>
      (clock (el_reads l) + nat d, \<lparr>te_id = sl_timerId s', te_callback = Some c, te_period = 0\<rparr>))"
    using el_addTimer_law [OF assms(1) a] s' by simp_all
qed

lemma sleep_destroy_cancels:
  assumes "el_ok l" "sl_await_suspend clock True d c (s, l) = Inr (s', l')"
  shows "el_pending (sl_destroy (s', l')) = el_pending l"
proof -
  note T = sleep_timer [OF assms]
  obtain b l2 where c: "el_cancelTimer (sl_timerId s') l' = (b, l2)" by fastforce
  show ?thesis using T(2-5) c el_cancelTimer_law(3) [OF T(1) c] by (simp add: sl_destroy_def fun_upd_idem)
qed

lemma sleepUntil_not_early:
  assumes "mono clock" "el_ok l" "su_await_suspend clock True deadline c (s, l) = Some (Inr (s', l'))"
  shows "\<exists>e x. el_pending l' (sl_timerId s') = Some (x, e) \<and> te_callback e = Some c \<and> deadline \<le> int x"
proof -
  let ?now = "clock (el_reads l)" and ?l = "l\<lparr>el_reads := el_reads l + 1\<rparr>"
  obtain d where d: "in_durationUntil ?now deadline = Some d" "sl_await_suspend clock True d c (s, ?l) = Inr (s', l')"
    using assms(3) by (auto simp: su_await_suspend_def el_now_def)
  have inv: "el_ok ?l" using assms(2) by (simp add: el_ok_def)
  have le: "?now \<le> clock (el_reads l + 1)" using assms(1) by (simp add: monoD)
  have "deadline \<le> int ?now + int (nat d)"
    using d(1) by (auto simp: in_durationUntil_def du_fromNanos_def i64_def split: if_splits)
  then have "deadline \<le> int (clock (el_reads l + 1) + nat d)" using le by simp
  then show ?thesis using sleep_timer(5) [OF inv d(2)] by simp
qed

section \<open>Interval\<close>

text \<open>\<open>next\<close> has two parts, before and after its sleep; \<open>stop\<close> may come in between.\<close>

record iv =
  iv_period :: int
  iv_tick :: nat
  iv_stopped :: bool

definition iv_create :: "int \<Rightarrow> iv" where
  "iv_create period = \<lparr>iv_period = period, iv_tick = 0, iv_stopped = False\<rparr>"

definition iv_next_begin :: "iv \<Rightarrow> bool" where
  "iv_next_begin s \<longleftrightarrow> \<not> iv_stopped s"

definition iv_next_end :: "iv \<Rightarrow> nat option \<times> iv" where
  "iv_next_end s = (if iv_stopped s then (None, s) else (Some (iv_tick s), s\<lparr>iv_tick := iv_tick s + 1\<rparr>))"

definition iv_stop :: "iv \<Rightarrow> iv" where
  "iv_stop s = s\<lparr>iv_stopped := True\<rparr>"

definition iv_isStopped :: "iv \<Rightarrow> bool" where
  "iv_isStopped s = iv_stopped s"

text \<open>The answers of successive calls, each with the information whether \<open>stop\<close> came during its sleep.\<close>

fun iv_ticks :: "bool list \<Rightarrow> iv \<Rightarrow> nat option list" where
  "iv_ticks [] s = []"
| "iv_ticks (st # sts) s =
     (if \<not> iv_next_begin s then None # iv_ticks sts s
      else case iv_next_end (if st then iv_stop s else s) of (r, s') \<Rightarrow> r # iv_ticks sts s')"

lemma iv_ticks_stopped: "iv_isStopped s \<Longrightarrow> iv_ticks sts s = map (\<lambda>_. None) sts"
  by (induction sts) (simp_all add: iv_isStopped_def iv_next_begin_def)

text \<open>Ticks count up from zero without gaps until \<open>stop\<close>, and there are none after it.\<close>

lemma interval_ticks:
  assumes "\<not> iv_stopped s"
  shows "iv_ticks (replicate n False @ True # sts) s = map Some [iv_tick s ..< iv_tick s + n] @ map (\<lambda>_. None) (True # sts)"
  using assms
proof (induction n arbitrary: s)
  case 0
  then show ?case by (simp add: iv_next_begin_def iv_next_end_def iv_stop_def iv_ticks_stopped iv_isStopped_def)
next
  case (Suc n)
  then show ?case using Suc.IH [of "s\<lparr>iv_tick := iv_tick s + 1\<rparr>"]
    by (simp add: iv_next_begin_def iv_next_end_def upt_conv_Cons)
qed

section \<open>Racing a task against a timer\<close>

text \<open>
  The awaiter of \<open>timeout\<close> and its task. The task ends with a value or an exception, which may itself be a
  \<open>TimeoutError\<close>. \<open>ta_result\<close> is what \<open>await_resume\<close> gave the coroutine; after that the awaiter and the task
  in it are destroyed. The loop first collects the due timers and then runs their callbacks, so a timer can
  be out of the loop and its callback still to come (\<open>ta_collected\<close>); a callback that runs after the awaiter
  is gone sets \<open>ta_dangling\<close>.
\<close>

datatype ta_exn = TimeoutError | Other_exn exn

datatype 'a ta_task = Created | Executing | Finished "ta_exn + 'a" | Destroyed

record 'a ta =
  ta_task :: "'a ta_task"
  ta_timeout :: int
  ta_completed :: bool
  ta_timedOut :: bool
  ta_timerId :: nat
  ta_handle :: bool
  ta_result :: "(ta_exn + 'a) option"
  ta_resumptions :: nat
  ta_collected :: bool
  ta_dangling :: bool
  ta_loop :: el

definition ta_new :: "bool \<Rightarrow> int \<Rightarrow> el \<Rightarrow> 'a ta result" where
  "ta_new have_loop timeout l =
     (if \<not> have_loop then Inl Runtime_error
      else Inr \<lparr>ta_task = Created, ta_timeout = timeout, ta_completed = False, ta_timedOut = False, ta_timerId = 0,
        ta_handle = False, ta_result = None, ta_resumptions = 0, ta_collected = False, ta_dangling = False, ta_loop = l\<rparr>)"

definition ta_await_suspend :: "(nat \<Rightarrow> nat) \<Rightarrow> nat \<Rightarrow> 'a ta \<Rightarrow> 'a ta" where
  "ta_await_suspend clock c s =
     (case el_addTimer clock (nat (ta_timeout s)) (Some c) (ta_loop s) of
        (i, l) \<Rightarrow> s\<lparr>ta_handle := True, ta_timerId := i, ta_loop := l, ta_task := Executing\<rparr>)"

fun ta_task_result :: "'a ta_task \<Rightarrow> (ta_exn + 'a) option" where
  "ta_task_result (Finished r) = Some r"
| "ta_task_result _ = None"

definition ta_await_resume :: "'a ta \<Rightarrow> (ta_exn + 'a) option \<times> 'a ta" where
  "ta_await_resume s =
     (let s1 = (if ta_timerId s \<noteq> 0 then s\<lparr>ta_loop := snd (el_cancelTimer (ta_timerId s) (ta_loop s))\<rparr> else s)
      in (if ta_timedOut s1 then Some (Inl TimeoutError) else ta_task_result (ta_task s1), s1))"

text \<open>\<open>handle_.resume()\<close>: the coroutine takes the result and destroys the awaiter with its task.\<close>

definition ta_resume :: "'a ta \<Rightarrow> 'a ta" where
  "ta_resume s =
     (case ta_await_resume s of
        (r, s1) \<Rightarrow> s1\<lparr>ta_result := r, ta_task := Destroyed, ta_resumptions := ta_resumptions s1 + 1\<rparr>)"

definition ta_onTimeout :: "'a ta \<Rightarrow> 'a ta" where
  "ta_onTimeout s =
     (if ta_completed s then s
      else (let s1 = s\<lparr>ta_completed := True, ta_timedOut := True\<rparr> in if ta_handle s1 then ta_resume s1 else s1))"

definition ta_onTaskComplete :: "'a ta \<Rightarrow> 'a ta" where
  "ta_onTaskComplete s =
     (if ta_completed s then s
      else (let s1 = s\<lparr>ta_completed := True, ta_timedOut := False\<rparr> in if ta_handle s1 then ta_resume s1 else s1))"

datatype 'a ta_act = Ta_suspend nat | Ta_task_ends "ta_exn + 'a" | Ta_collect | Ta_fire | Ta_loop el_call

text \<open>The rest of the program uses the loop too, but does not know the id of this timer.\<close>

fun ta_next :: "(nat \<Rightarrow> nat) \<Rightarrow> 'a ta_act \<Rightarrow> 'a ta \<Rightarrow> 'a ta option" where
  "ta_next clock (Ta_suspend c) s =
     (if ta_task s = Created then Some (ta_await_suspend clock c s) else None)"
| "ta_next clock (Ta_task_ends r) s =
     (if ta_task s = Executing then Some (ta_onTaskComplete (s\<lparr>ta_task := Finished r\<rparr>)) else None)"
| "ta_next clock Ta_collect s =
     (if ta_timerId s \<noteq> 0 \<and> el_pending (ta_loop s) (ta_timerId s) \<noteq> None
      then Some (s\<lparr>ta_loop := snd (el_cancelTimer (ta_timerId s) (ta_loop s)), ta_collected := True\<rparr>) else None)"
| "ta_next clock Ta_fire s =
     (if \<not> ta_collected s then None
      else if ta_task s = Destroyed then Some (s\<lparr>ta_collected := False, ta_dangling := True\<rparr>)
      else Some (ta_onTimeout (s\<lparr>ta_collected := False\<rparr>)))"
| "ta_next clock (Ta_loop k) s =
     (if k = Cancel_timer (ta_timerId s) then None else Some (s\<lparr>ta_loop := el_do clock k (ta_loop s)\<rparr>))"

definition tryTimeout_result :: "ta_exn + 'a \<Rightarrow> ta_exn + 'a option" where
  "tryTimeout_result r =
     (case r of Inr v \<Rightarrow> Inr (Some v) | Inl TimeoutError \<Rightarrow> Inr None | Inl (Other_exn e) \<Rightarrow> Inl (Other_exn e))"

text \<open>\<open>withDeadline\<close> compares whole milliseconds.\<close>

definition withDeadline :: "nat \<Rightarrow> int \<Rightarrow> bool \<Rightarrow> el \<Rightarrow> (ta_exn + 'a ta) option" where
  "withDeadline now deadline have_loop l =
     map_option (\<lambda>duration.
       if du_asMillis duration \<le> 0 then Inl TimeoutError
       else (case ta_new have_loop duration l of Inl e \<Rightarrow> Inl (Other_exn e) | Inr s \<Rightarrow> Inr s))
     (in_diff deadline (int now))"

subsection \<open>Invariant\<close>

fun ta_phase :: "'a ta \<Rightarrow> 'a ta_task \<Rightarrow> bool" where
  "ta_phase s Created \<longleftrightarrow> \<not> ta_completed s \<and> \<not> ta_handle s \<and> ta_timerId s = 0 \<and> ta_resumptions s = 0 \<and> ta_result s = None \<and>
     \<not> ta_collected s \<and> \<not> ta_timedOut s"
| "ta_phase s Executing \<longleftrightarrow> \<not> ta_completed s \<and> ta_handle s \<and> ta_timerId s \<noteq> 0 \<and> ta_resumptions s = 0 \<and> ta_result s = None \<and>
     \<not> ta_timedOut s \<and> (el_pending (ta_loop s) (ta_timerId s) = None \<longleftrightarrow> ta_collected s)"
| "ta_phase s (Finished r) \<longleftrightarrow> False"
| "ta_phase s Destroyed \<longleftrightarrow> ta_completed s \<and> ta_handle s \<and> ta_timerId s \<noteq> 0 \<and> ta_resumptions s = 1 \<and> ta_result s \<noteq> None \<and>
     (ta_timedOut s \<longrightarrow> ta_result s = Some (Inl TimeoutError)) \<and> el_pending (ta_loop s) (ta_timerId s) = None"

definition ta_inv :: "'a ta \<Rightarrow> bool" where
  "ta_inv s \<longleftrightarrow> el_ok (ta_loop s) \<and> ta_timerId s < el_nextTimerId (ta_loop s) \<and> ta_phase s (ta_task s)"

text \<open>What the rest of the program does to the loop leaves this timer alone.\<close>

lemma el_do_other:
  assumes "el_ok l" "i < el_nextTimerId l" "k \<noteq> Cancel_timer i"
  shows "el_ok (el_do clock k l)" "i < el_nextTimerId (el_do clock k l)" "el_pending (el_do clock k l) i = el_pending l i"
proof -
  have add: "el_ok l' \<and> i < el_nextTimerId l' \<and> el_pending l' i = el_pending l i"
    if a: "el_request clock q l = (j, l')" for q j l'
  proof -
    have inv: "el_inv l" using assms(1) by (simp add: el_ok_def)
    have j: "j = el_nextTimerId l" "el_nextTimerId l' = Suc (el_nextTimerId l)"
      using a by (cases q; auto simp: el_addTimer_def el_addPeriodicTimer_def el_now_def el_insert_def Let_def)+
    show ?thesis using epoll_timers.add_law [OF inv a] j assms(2) by (auto simp: el_ok_def)
  qed
  have "el_ok (el_do clock k l) \<and> i < el_nextTimerId (el_do clock k l) \<and> el_pending (el_do clock k l) i = el_pending l i"
  proof (cases k)
    case (Add_timer d c)
    then show ?thesis using add [of "One_shot d c" "fst (el_addTimer clock d c l)" "snd (el_addTimer clock d c l)"] by simp
  next
    case (Add_periodic d c)
    then show ?thesis
      using add [of "Periodic d c" "fst (el_addPeriodicTimer clock d c l)" "snd (el_addPeriodicTimer clock d c l)"] by simp
  next
    case (Cancel_timer j)
    obtain b l' where c: "el_cancelTimer j l = (b, l')" by fastforce
    have "el_nextTimerId l' = el_nextTimerId l" using c by (auto simp: el_cancelTimer_def split: option.splits)
    then show ?thesis using el_cancelTimer_law [OF assms(1) c] assms(2,3) Cancel_timer c by simp
  qed (use assms(1,2) el_do_inv [of l clock k] in
      \<open>auto simp: el_ok_def el_pending_def el_post_def el_stop_def el_addFd_def el_modifyFd_def el_removeFd_def split: option.splits\<close>)
  then show "el_ok (el_do clock k l)" "i < el_nextTimerId (el_do clock k l)" "el_pending (el_do clock k l) i = el_pending l i"
    by simp_all
qed

lemma el_cancelTimer_next [simp]: "el_nextTimerId (snd (el_cancelTimer i l)) = el_nextTimerId l"
  by (simp add: el_cancelTimer_def split: option.splits)

lemma el_cancel_ok:
  assumes "el_ok l"
  shows "el_ok (snd (el_cancelTimer i l))" "el_pending (snd (el_cancelTimer i l)) = (el_pending l)(i := None)"
proof -
  obtain b l' where "el_cancelTimer i l = (b, l')" by fastforce
  then show "el_ok (snd (el_cancelTimer i l))" "el_pending (snd (el_cancelTimer i l)) = (el_pending l)(i := None)"
    using el_cancelTimer_law [OF assms] by simp_all
qed

lemma ta_resume_eq:
  assumes "ta_timerId s \<noteq> 0"
  shows "ta_resume s = s\<lparr>ta_loop := snd (el_cancelTimer (ta_timerId s) (ta_loop s)),
     ta_result := (if ta_timedOut s then Some (Inl TimeoutError) else ta_task_result (ta_task s)),
     ta_task := Destroyed, ta_resumptions := ta_resumptions s + 1\<rparr>"
  using assms by (simp add: ta_resume_def ta_await_resume_def)

text \<open>Either side of the race ends it: the coroutine is resumed once and the timer is gone.\<close>

lemma ta_inv_ends:
  assumes "ta_inv s" "ta_task s = Executing"
  shows "ta_inv (ta_onTimeout (s\<lparr>ta_collected := False\<rparr>))"
    and "ta_inv (ta_onTaskComplete (s\<lparr>ta_task := Finished r\<rparr>))"
  using assms el_cancel_ok [of "ta_loop s" "ta_timerId s"]
  by (auto simp: ta_inv_def ta_onTimeout_def ta_onTaskComplete_def ta_resume_eq)

lemma ta_inv_collect:
  assumes "ta_inv s" "ta_timerId s \<noteq> 0" "el_pending (ta_loop s) (ta_timerId s) \<noteq> None"
  shows "ta_inv (s\<lparr>ta_loop := snd (el_cancelTimer (ta_timerId s) (ta_loop s)), ta_collected := True\<rparr>)"
  using assms el_cancel_ok [of "ta_loop s" "ta_timerId s"] by (cases "ta_task s") (auto simp: ta_inv_def)

lemma ta_inv_suspend:
  assumes "ta_inv s" "ta_task s = Created"
  shows "ta_inv (ta_await_suspend clock c s)"
proof -
  obtain i l where a: "el_addTimer clock (nat (ta_timeout s)) (Some c) (ta_loop s) = (i, l)" by fastforce
  have i: "i < el_nextTimerId l"
    using a by (auto simp: el_addTimer_def el_now_def el_insert_def Let_def)
  show ?thesis using el_addTimer_law [OF _ a] assms a i by (auto simp: ta_inv_def ta_await_suspend_def)
qed

lemma ta_inv_loop:
  assumes "ta_inv s" "k \<noteq> Cancel_timer (ta_timerId s)"
  shows "ta_inv (s\<lparr>ta_loop := el_do clock k (ta_loop s)\<rparr>)"
  using el_do_other [of "ta_loop s" "ta_timerId s" k clock] assms by (cases "ta_task s") (simp_all add: ta_inv_def)

lemma ta_inv_next:
  assumes "ta_next clock a s = Some s'" "ta_inv s"
  shows "ta_inv s'"
proof (cases a)
  case (Ta_suspend c)
  then show ?thesis using assms ta_inv_suspend by (auto split: if_splits)
next
  case (Ta_task_ends r)
  then have "ta_task s = Executing" "s' = ta_onTaskComplete (s\<lparr>ta_task := Finished r\<rparr>)" using assms(1) by (auto split: if_splits)
  then show ?thesis using ta_inv_ends(2) [OF assms(2)] by simp
next
  case Ta_collect
  then show ?thesis using assms ta_inv_collect by (auto split: if_splits)
next
  case Ta_fire
  then have c: "ta_collected s" using assms(1) by (simp split: if_splits)
  show ?thesis
  proof (cases "ta_task s = Destroyed")
    case True
    then show ?thesis using assms Ta_fire c by (auto simp: ta_inv_def)
  next
    case False
    then have e: "ta_task s = Executing" using assms(2) c by (cases "ta_task s") (auto simp: ta_inv_def)
    then have "s' = ta_onTimeout (s\<lparr>ta_collected := False\<rparr>)" using assms(1) Ta_fire c by simp
    then show ?thesis using ta_inv_ends(1) [OF assms(2) e] by simp
  qed
next
  case (Ta_loop k)
  then show ?thesis using assms ta_inv_loop by (auto split: if_splits)
qed

lemma ta_inv_new: "ta_new True d l = Inr s \<Longrightarrow> el_ok l \<Longrightarrow> ta_inv s"
  by (auto simp: ta_new_def ta_inv_def el_ok_def)

definition ta_init :: "int \<Rightarrow> 'a ta" where
  "ta_init d = projr (ta_new True d el_new)"

interpretation tax: step_system "ta_next clock" "ta_init d :: 'a ta" ta_inv for clock d
proof unfold_locales
  show "ta_inv (ta_init d)" using ta_inv_new [OF _ el_ok_new] by (simp add: ta_init_def ta_new_def)
qed (rule ta_inv_next)

subsection \<open>Properties\<close>


definition ta_clock :: "nat \<Rightarrow> nat" where
  "ta_clock k = k"

lemmas ta_exec = ta_init_def ta_new_def ta_clock_def ta_await_suspend_def el_addTimer_def el_now_def el_new_def
  el_insert_def ta_onTaskComplete_def ta_onTimeout_def ta_resume_def ta_await_resume_def el_cancelTimer_def mm_erase_def
  el_pending_def tn_strip_def


text \<open>Who comes first decides.\<close>

lemma timeout_outcomes:
  assumes "ta_inv s" "ta_task s = Executing"
  shows "ta_result (ta_onTaskComplete (s\<lparr>ta_task := Finished r\<rparr>)) = Some r"
    and "ta_result (ta_onTimeout s) = Some (Inl TimeoutError)"
  using assms by (auto simp: ta_inv_def ta_onTaskComplete_def ta_onTimeout_def ta_resume_eq)

text \<open>
  The loop runs the callbacks it has collected even when one of them ends the task: the callback of the
  timer then runs on an awaiter that no longer exists.
\<close>

lemma timeout_dangling_callback:
  "\<exists>s. run (ta_next ta_clock) [Ta_suspend 7, Ta_collect, Ta_task_ends (Inr 5), Ta_fire] (ta_init 10 :: nat ta) = Some s \<and>
     ta_dangling s"
  by (simp add: ta_exec)

text \<open>\<open>tryTimeout\<close> cannot tell its own timeout from a \<open>TimeoutError\<close> of the task.\<close>

lemma tryTimeout_result_none: "tryTimeout_result r = Inr None \<longleftrightarrow> r = Inl TimeoutError"
  by (auto simp: tryTimeout_result_def split: sum.splits ta_exn.splits)

text \<open>A deadline less than a millisecond ahead counts as passed, although nothing has been tried.\<close>

lemma withDeadline_too_early: "withDeadline 1000 999999 True el_new = Some (Inl TimeoutError)"
  by (simp add: withDeadline_def in_diff_def i64_def du_fromNanos_def du_asMillis_def cdiv_def)

section \<open>race\<close>

text \<open>
  \<open>NonCancellingTimeoutAwaiter\<close>: the constructor starts the task. The general one resumes the coroutine when
  the task completes, with \<open>nullopt\<close>; the one for \<open>void\<close> does not hear of the task.
\<close>

definition ra_new :: "bool \<Rightarrow> int \<Rightarrow> el \<Rightarrow> 'a option ta result" where
  "ra_new have_loop timeout l = map_sum id (\<lambda>s. s\<lparr>ta_task := Executing\<rparr>) (ta_new have_loop timeout l)"

definition ra_await_suspend :: "(nat \<Rightarrow> nat) \<Rightarrow> nat \<Rightarrow> 'a ta \<Rightarrow> 'a ta" where
  "ra_await_suspend clock c s =
     (case el_addTimer clock (nat (ta_timeout s)) (Some c) (ta_loop s) of
        (i, l) \<Rightarrow> s\<lparr>ta_handle := True, ta_timerId := i, ta_loop := l\<rparr>)"

definition ra_cancel :: "'a ta \<Rightarrow> 'a ta" where
  "ra_cancel s = (if ta_timerId s \<noteq> 0 then s\<lparr>ta_loop := snd (el_cancelTimer (ta_timerId s) (ta_loop s))\<rparr> else s)"

definition ra_await_resume :: "'a option ta \<Rightarrow> 'a option ta" where
  "ra_await_resume s =
     (ra_cancel s)\<lparr>ta_result := Some (Inr (if ta_timedOut s then None else None)), ta_resumptions := ta_resumptions s + 1\<rparr>"

definition ra_onTimeout :: "'a option ta \<Rightarrow> 'a option ta" where
  "ra_onTimeout s =
     (if ta_completed s then s
      else (let s1 = s\<lparr>ta_completed := True, ta_timedOut := True\<rparr> in if ta_handle s1 then ra_await_resume s1 else s1))"

definition ra_onTaskComplete :: "'a option ta \<Rightarrow> 'a option ta" where
  "ra_onTaskComplete s =
     (if ta_completed s then s
      else (let s1 = s\<lparr>ta_completed := True, ta_timedOut := False\<rparr> in if ta_handle s1 then ra_await_resume s1 else s1))"

fun ra_next :: "(nat \<Rightarrow> nat) \<Rightarrow> 'a option ta_act \<Rightarrow> 'a option ta \<Rightarrow> 'a option ta option" where
  "ra_next clock (Ta_suspend c) s = (if ta_handle s then None else Some (ra_await_suspend clock c s))"
| "ra_next clock (Ta_task_ends r) s =
     (if ta_task s = Executing then Some (ra_onTaskComplete (s\<lparr>ta_task := Finished r\<rparr>)) else None)"
| "ra_next clock Ta_collect s =
     (if ta_timerId s \<noteq> 0 \<and> el_pending (ta_loop s) (ta_timerId s) \<noteq> None
      then Some (s\<lparr>ta_loop := snd (el_cancelTimer (ta_timerId s) (ta_loop s)), ta_collected := True\<rparr>) else None)"
| "ra_next clock Ta_fire s =
     (if \<not> ta_collected s then None
      else if ta_resumptions s > 0 then Some (s\<lparr>ta_collected := False, ta_dangling := True\<rparr>)
      else Some (ra_onTimeout (s\<lparr>ta_collected := False\<rparr>)))"
| "ra_next clock (Ta_loop k) s =
     (if k = Cancel_timer (ta_timerId s) then None else Some (s\<lparr>ta_loop := el_do clock k (ta_loop s)\<rparr>))"

definition rv_new :: "bool \<Rightarrow> int \<Rightarrow> el \<Rightarrow> bool ta result" where
  "rv_new have_loop timeout l = map_sum id (\<lambda>s. s\<lparr>ta_task := Executing\<rparr>) (ta_new have_loop timeout l)"

definition rv_await_resume :: "bool ta \<Rightarrow> bool ta" where
  "rv_await_resume s =
     (ra_cancel s)\<lparr>ta_result := Some (Inr (\<not> ta_timedOut s)), ta_resumptions := ta_resumptions s + 1\<rparr>"

definition rv_onTimeout :: "bool ta \<Rightarrow> bool ta" where
  "rv_onTimeout s =
     (if ta_completed s then s
      else (let s1 = s\<lparr>ta_completed := True, ta_timedOut := True\<rparr> in if ta_handle s1 then rv_await_resume s1 else s1))"

fun rv_next :: "(nat \<Rightarrow> nat) \<Rightarrow> bool ta_act \<Rightarrow> bool ta \<Rightarrow> bool ta option" where
  "rv_next clock (Ta_suspend c) s = (if ta_handle s then None else Some (ra_await_suspend clock c s))"
| "rv_next clock (Ta_task_ends r) s = (if ta_task s = Executing then Some (s\<lparr>ta_task := Finished r\<rparr>) else None)"
| "rv_next clock Ta_collect s =
     (if ta_timerId s \<noteq> 0 \<and> el_pending (ta_loop s) (ta_timerId s) \<noteq> None
      then Some (s\<lparr>ta_loop := snd (el_cancelTimer (ta_timerId s) (ta_loop s)), ta_collected := True\<rparr>) else None)"
| "rv_next clock Ta_fire s =
     (if \<not> ta_collected s then None
      else if ta_resumptions s > 0 then Some (s\<lparr>ta_collected := False, ta_dangling := True\<rparr>)
      else Some (rv_onTimeout (s\<lparr>ta_collected := False\<rparr>)))"
| "rv_next clock (Ta_loop k) s =
     (if k = Cancel_timer (ta_timerId s) then None else Some (s\<lparr>ta_loop := el_do clock k (ta_loop s)\<rparr>))"

text \<open>A task that completes before the coroutine suspends is forgotten: nothing ever resumes the coroutine.\<close>

definition ra_hung :: "'a option ta \<Rightarrow> bool" where
  "ra_hung s \<longleftrightarrow> ta_completed s \<and> ta_resumptions s = 0 \<and> ta_task s \<noteq> Executing"

lemma ra_hung_next: "ra_next clock a s = Some s' \<Longrightarrow> ra_hung s \<Longrightarrow> ra_hung s'"
  by (cases a) (auto simp: ra_hung_def ra_await_suspend_def ra_onTimeout_def ra_onTaskComplete_def split: if_splits prod.splits)

lemma race_hangs_after_early_completion:
  assumes "ra_new True d l = Inr s0" "ra_next clock (Ta_task_ends r) s0 = Some s1" "run (ra_next clock) ls s1 = Some s"
  shows "ta_resumptions s = 0 \<and> ta_result s0 = None"
proof -
  have "ra_hung s1" and n: "ta_result s0 = None"
    using assms(1,2) by (auto simp: ra_new_def ta_new_def ra_hung_def ra_onTaskComplete_def)
  then have "ra_hung s" using run_invariant [OF assms(3), where I = ra_hung] ra_hung_next by blast
  then show ?thesis using n by (simp add: ra_hung_def)
qed

text \<open>\<open>race\<close> on a \<open>void\<close> task only ever reports a timeout, however early the task completes.\<close>

definition rv_never :: "bool ta \<Rightarrow> bool" where
  "rv_never s \<longleftrightarrow> ta_result s = None \<or> ta_result s = Some (Inr False)"

lemma rv_never_next: "rv_next clock a s = Some s' \<Longrightarrow> rv_never s \<Longrightarrow> rv_never s'"
  by (cases a) (auto simp: rv_never_def ra_await_suspend_def rv_onTimeout_def rv_await_resume_def ra_cancel_def Let_def
      split: if_splits prod.splits)

lemma race_void_never_completes:
  assumes "rv_new True d l = Inr s0" "run (rv_next clock) ls s0 = Some s"
  shows "ta_result s \<noteq> Some (Inr True)"
proof -
  have "rv_never s0" using assms(1) by (auto simp: rv_new_def ta_new_def rv_never_def)
  then have "rv_never s" using run_invariant [OF assms(2), where I = rv_never] rv_never_next by blast
  then show ?thesis by (auto simp: rv_never_def)
qed

end
