(* ===== verification/Timer_Wheel.thy ===== *)
theory Timer_Wheel
  imports Pman_Prelude "HOL-Library.Multiset"
begin

text \<open>
  \<open>TimerWheel\<close> of src/include/pman/timer_wheel.hpp and src/src/timer_wheel.cpp: a hierarchy of
  wheels of slots, insertion by remaining delay, cascading, cancellation by flag and the timer
  thread's step. Times are in nanoseconds; \<open>clock k\<close> is the k-th reading of \<open>steady_clock\<close>. The
  mutex is a flag of the state, so that locking it again on the same thread shows up as \<open>Deadlock\<close>.
  Callbacks are user code: \<open>beh\<close> says which calls of the wheel a callback makes.
\<close>

section \<open>State\<close>

record tw_config =
  tc_tickDuration :: int
  tc_wheelSize :: nat
  tc_numWheels :: nat

record tw_entry =
  we_id :: nat
  we_expiry :: int
  we_period :: int
  we_callback :: nat
  we_cancelled :: bool

record tw =
  tw_config :: tw_config
  tw_wheels :: "tw_entry list list list"
  tw_currentSlots :: "nat list"
  tw_lastTick :: int
  tw_nextId :: nat
  tw_activeCount :: int
  tw_running :: bool
  tw_locked :: bool
  tw_reads :: nat
  tw_fired :: "(nat \<times> int) list"

datatype 'a tw_out = Done 'a | Thrown exn | Deadlock

definition tw_now :: "(nat \<Rightarrow> int) \<Rightarrow> tw \<Rightarrow> int \<times> tw" where
  "tw_now clock s = (clock (tw_reads s), s\<lparr>tw_reads := tw_reads s + 1\<rparr>)"

text \<open>The constructor, up to \<open>timerfd_create\<close>.\<close>

definition tw_new :: "tw_config \<Rightarrow> int \<Rightarrow> tw result" where
  "tw_new cfg now =
     (if tc_wheelSize cfg = 0 \<or> tc_numWheels cfg = 0 then Inl Invalid_argument
      else Inr \<lparr>tw_config = cfg,
             tw_wheels = replicate (tc_numWheels cfg) (replicate (tc_wheelSize cfg) []),
             tw_currentSlots = replicate (tc_numWheels cfg) 0, tw_lastTick = now, tw_nextId = 1,
             tw_activeCount = 0, tw_running = False, tw_locked = False, tw_reads = 0, tw_fired = []\<rparr>)"

section \<open>Insertion\<close>

definition tw_computeSlot :: "tw_config \<Rightarrow> int \<Rightarrow> nat \<Rightarrow> nat" where
  "tw_computeSlot cfg delay w = nat (delay div (tc_tickDuration cfg * int (tc_wheelSize cfg) ^ w))"

text \<open>The loop of \<open>insert\<close> over the wheels: the first wheel that can hold the delay, or the last.\<close>

fun tw_choose :: "tw_config \<Rightarrow> int \<Rightarrow> nat list \<Rightarrow> (nat \<times> nat) option" where
  "tw_choose cfg delay [] = None"
| "tw_choose cfg delay (w # ws) =
     (let slot = tw_computeSlot cfg delay w in
      if slot < tc_wheelSize cfg \<or> w = tc_numWheels cfg - 1
      then Some (w, min slot (tc_wheelSize cfg - 1))
      else tw_choose cfg delay ws)"

definition tw_slot :: "nat \<Rightarrow> nat \<Rightarrow> tw \<Rightarrow> tw_entry list" where
  "tw_slot w k s = tw_wheels s ! w ! k"

definition tw_set_slot :: "nat \<Rightarrow> nat \<Rightarrow> tw_entry list \<Rightarrow> tw \<Rightarrow> tw" where
  "tw_set_slot w k es s = s\<lparr>tw_wheels := (tw_wheels s)[w := (tw_wheels s ! w)[k := es]]\<rparr>"

definition tw_insert :: "(nat \<Rightarrow> int) \<Rightarrow> tw_entry \<Rightarrow> tw \<Rightarrow> tw" where
  "tw_insert clock e s =
     (let (now, s1) = tw_now clock s;
          delay = (if we_expiry e > now then we_expiry e - now else 0)
      in case tw_choose (tw_config s1) delay [0..<tc_numWheels (tw_config s1)] of
           None \<Rightarrow> s1
         | Some (w, slot) \<Rightarrow>
             (let actualSlot = (tw_currentSlots s1 ! w + slot) mod tc_wheelSize (tw_config s1)
              in tw_set_slot w actualSlot (tw_slot w actualSlot s1 @ [e]) s1))"

section \<open>Arming the descriptor\<close>

definition tw_entries :: "tw \<Rightarrow> tw_entry list" where
  "tw_entries s = concat (concat (tw_wheels s))"

text \<open>\<open>timeUntilNextExpiry\<close> locks \<open>mutex_\<close>.\<close>

definition tw_timeUntilNextExpiry :: "(nat \<Rightarrow> int) \<Rightarrow> tw \<Rightarrow> (int \<times> tw) tw_out" where
  "tw_timeUntilNextExpiry clock s =
     (if tw_locked s then Deadlock
      else (let (now, s1) = tw_now clock s;
                earliest = fold (\<lambda>e m. if \<not> we_cancelled e \<and> we_expiry e < m then we_expiry e else m)
                             (tw_entries s1) (now + 24 * 3600 * 1000000000)
            in Done (if earliest \<le> now then 0 else earliest - now, s1)))"

text \<open>The value \<open>armTimerFd\<close> gives to \<open>timerfd_settime\<close>, in nanoseconds.\<close>

definition tw_armTimerFd :: "(nat \<Rightarrow> int) \<Rightarrow> tw \<Rightarrow> (int \<times> tw) tw_out" where
  "tw_armTimerFd clock s =
     (case tw_timeUntilNextExpiry clock s of
        Done (next, s1) \<Rightarrow>
          (let next1 = (if next > 3600 * 1000000000 then tc_tickDuration (tw_config s) else next);
               next2 = (if next1 < tc_tickDuration (tw_config s) then tc_tickDuration (tw_config s) else next1);
               secs = next2 div 1000000000;
               nsecs = next2 - secs * 1000000000
           in Done (if secs = 0 \<and> nsecs = 0 then 1 else secs * 1000000000 + nsecs, s1))
      | Thrown e \<Rightarrow> Thrown e
      | Deadlock \<Rightarrow> Deadlock)"

section \<open>Scheduling and cancelling\<close>

text \<open>
  The common tail of \<open>schedule\<close> and \<open>schedulePeriodic\<close>: build the entry, then under the lock insert
  it, count it and, when the timer thread runs, re-arm the descriptor.
\<close>

definition tw_enter :: "(nat \<Rightarrow> int) \<Rightarrow> int \<Rightarrow> int \<Rightarrow> nat \<Rightarrow> tw \<Rightarrow> (nat \<times> tw) tw_out" where
  "tw_enter clock delay period callback s =
     (let i = tw_nextId s;
          (now, s1) = tw_now clock (s\<lparr>tw_nextId := i + 1\<rparr>);
          e = \<lparr>we_id = i, we_expiry = now + delay, we_period = period, we_callback = callback,
               we_cancelled = False\<rparr>
      in if tw_locked s1 then Deadlock
         else (let s2 = tw_insert clock e (s1\<lparr>tw_locked := True\<rparr>);
                   s3 = s2\<lparr>tw_activeCount := tw_activeCount s2 + 1\<rparr>
               in if tw_running s3
                  then (case tw_armTimerFd clock s3 of
                          Done (_, s4) \<Rightarrow> Done (i, s4\<lparr>tw_locked := False\<rparr>)
                        | Thrown x \<Rightarrow> Thrown x
                        | Deadlock \<Rightarrow> Deadlock)
                  else Done (i, s3\<lparr>tw_locked := False\<rparr>)))"

definition tw_schedule :: "(nat \<Rightarrow> int) \<Rightarrow> int \<Rightarrow> nat option \<Rightarrow> tw \<Rightarrow> (nat \<times> tw) tw_out" where
  "tw_schedule clock delay callback s =
     (case callback of None \<Rightarrow> Thrown Invalid_argument | Some c \<Rightarrow> tw_enter clock delay 0 c s)"

definition tw_schedulePeriodic :: "(nat \<Rightarrow> int) \<Rightarrow> int \<Rightarrow> nat option \<Rightarrow> tw \<Rightarrow> (nat \<times> tw) tw_out" where
  "tw_schedulePeriodic clock period callback s =
     (case callback of
        None \<Rightarrow> Thrown Invalid_argument
      | Some c \<Rightarrow> if period \<le> 0 then Thrown Invalid_argument else tw_enter clock period period c s)"

text \<open>A nested loop that updates the first element satisfying its test.\<close>

fun upd_first :: "('a \<Rightarrow> 'a option) \<Rightarrow> 'a list \<Rightarrow> 'a list option" where
  "upd_first f [] = None"
| "upd_first f (x # xs) =
     (case f x of Some y \<Rightarrow> Some (y # xs) | None \<Rightarrow> map_option (Cons x) (upd_first f xs))"

definition tw_cancel_entry :: "nat \<Rightarrow> tw_entry \<Rightarrow> tw_entry option" where
  "tw_cancel_entry i e =
     (if we_id e = i \<and> \<not> we_cancelled e then Some (e\<lparr>we_cancelled := True\<rparr>) else None)"

definition tw_cancel :: "nat \<Rightarrow> tw \<Rightarrow> (bool \<times> tw) tw_out" where
  "tw_cancel i s =
     (if tw_locked s then Deadlock
      else case upd_first (upd_first (upd_first (tw_cancel_entry i))) (tw_wheels s) of
        Some ws \<Rightarrow> Done (True, s\<lparr>tw_wheels := ws, tw_activeCount := tw_activeCount s - 1\<rparr>)
      | None \<Rightarrow> Done (False, s))"

definition tw_activeTimers :: "tw \<Rightarrow> int" where
  "tw_activeTimers s = tw_activeCount s"

definition tw_pendingExpirations :: "(nat \<Rightarrow> int) \<Rightarrow> tw \<Rightarrow> nat" where
  "tw_pendingExpirations clock s =
     length (filter (\<lambda>e. \<not> we_cancelled e \<and> we_expiry e \<le> fst (tw_now clock s)) (tw_entries s))"

section \<open>Advancing\<close>

definition tw_cascade :: "(nat \<Rightarrow> int) \<Rightarrow> nat \<Rightarrow> tw \<Rightarrow> tw" where
  "tw_cascade clock w s =
     (if w \<ge> tc_numWheels (tw_config s) then s
      else (let k = tw_currentSlots s ! w; entries = tw_slot w k s
            in fold (\<lambda>e s. if \<not> we_cancelled e then tw_insert clock e s else s) entries
                 (tw_set_slot w k [] s)))"

text \<open>\<open>currentSlots_[w] = (currentSlots_[w] + 1) % wheelSize\<close>\<close>

definition tw_step_slot :: "nat \<Rightarrow> tw \<Rightarrow> tw" where
  "tw_step_slot w s =
     s\<lparr>tw_currentSlots := (tw_currentSlots s)
         [w := (tw_currentSlots s ! w + 1) mod tc_wheelSize (tw_config s)]\<rparr>"

fun tw_cascades :: "(nat \<Rightarrow> int) \<Rightarrow> nat list \<Rightarrow> tw \<Rightarrow> tw" where
  "tw_cascades clock [] s = s"
| "tw_cascades clock (w # ws) s =
     (let s1 = tw_step_slot w (tw_cascade clock w s) in
      if tw_currentSlots s1 ! w \<noteq> 0 then s1 else tw_cascades clock ws s1)"

definition tw_one_tick :: "(nat \<Rightarrow> int) \<Rightarrow> tw \<Rightarrow> tw" where
  "tw_one_tick clock s =
     (let s1 = tw_step_slot 0 s in
      if tw_currentSlots s1 ! 0 = 0
      then tw_cascades clock [1..<tc_numWheels (tw_config s1)] s1 else s1)"

definition tw_advance :: "(nat \<Rightarrow> int) \<Rightarrow> int \<Rightarrow> tw \<Rightarrow> tw tw_out" where
  "tw_advance clock elapsed s =
     (if tw_locked s then Deadlock
      else (let ticks = nat (elapsed div tc_tickDuration (tw_config s));
                s1 = (tw_one_tick clock ^^ ticks) s;
                (now, s2) = tw_now clock s1
            in Done (s2\<lparr>tw_lastTick := now\<rparr>)))"

definition tw_tick :: "(nat \<Rightarrow> int) \<Rightarrow> tw \<Rightarrow> tw tw_out" where
  "tw_tick clock s = tw_advance clock (tc_tickDuration (tw_config s)) s"

section \<open>Firing\<close>

datatype tw_call = Call_schedule int nat | Call_periodic int nat | Call_cancel nat

fun tw_do :: "(nat \<Rightarrow> int) \<Rightarrow> tw_call \<Rightarrow> tw \<Rightarrow> tw tw_out" where
  "tw_do clock (Call_schedule d c) s =
     (case tw_schedule clock d (Some c) s of
        Done (_, s') \<Rightarrow> Done s' | Thrown x \<Rightarrow> Done s | Deadlock \<Rightarrow> Deadlock)"
| "tw_do clock (Call_periodic p c) s =
     (case tw_schedulePeriodic clock p (Some c) s of
        Done (_, s') \<Rightarrow> Done s' | Thrown x \<Rightarrow> Done s | Deadlock \<Rightarrow> Deadlock)"
| "tw_do clock (Call_cancel i) s =
     (case tw_cancel i s of Done (_, s') \<Rightarrow> Done s' | Thrown x \<Rightarrow> Done s | Deadlock \<Rightarrow> Deadlock)"

fun tw_do_all :: "(nat \<Rightarrow> int) \<Rightarrow> tw_call list \<Rightarrow> tw \<Rightarrow> tw tw_out" where
  "tw_do_all clock [] s = Done s"
| "tw_do_all clock (k # ks) s =
     (case tw_do clock k s of Done s' \<Rightarrow> tw_do_all clock ks s' | r \<Rightarrow> r)"

text \<open>
  The second loop of \<open>processExpired\<close> for one entry: run the callback, then re-insert a periodic
  entry or give up its count. The entry has left the wheels, so nothing can cancel it meanwhile.
\<close>

definition tw_fire :: "(nat \<Rightarrow> int) \<Rightarrow> (nat \<Rightarrow> tw \<Rightarrow> tw_call list) \<Rightarrow> int \<Rightarrow> tw_entry \<Rightarrow> tw \<Rightarrow> tw tw_out" where
  "tw_fire clock beh t e s =
     (if \<not> we_cancelled e
      then (case tw_do_all clock (beh (we_callback e) s) (s\<lparr>tw_fired := tw_fired s @ [(we_id e, t)]\<rparr>) of
              Done s1 \<Rightarrow>
                if we_period e > 0
                then (let (now, s2) = tw_now clock s1 in
                      if tw_locked s2 then Deadlock
                      else Done (tw_insert clock (e\<lparr>we_expiry := now + we_period e\<rparr>) s2))
                else Done (s1\<lparr>tw_activeCount := tw_activeCount s1 - 1\<rparr>)
            | r \<Rightarrow> r)
      else Done (s\<lparr>tw_activeCount := tw_activeCount s - 1\<rparr>))"

fun tw_fire_all :: "(nat \<Rightarrow> int) \<Rightarrow> (nat \<Rightarrow> tw \<Rightarrow> tw_call list) \<Rightarrow> int \<Rightarrow> tw_entry list \<Rightarrow> tw \<Rightarrow> tw tw_out" where
  "tw_fire_all clock beh t [] s = Done s"
| "tw_fire_all clock beh t (e # es) s =
     (case tw_fire clock beh t e s of Done s' \<Rightarrow> tw_fire_all clock beh t es s' | r \<Rightarrow> r)"

definition tw_expired :: "int \<Rightarrow> tw_entry \<Rightarrow> bool" where
  "tw_expired now e \<longleftrightarrow> \<not> we_cancelled e \<and> we_expiry e \<le> now"

definition tw_processExpired :: "(nat \<Rightarrow> int) \<Rightarrow> (nat \<Rightarrow> tw \<Rightarrow> tw_call list) \<Rightarrow> tw \<Rightarrow> (nat \<times> tw) tw_out" where
  "tw_processExpired clock beh s =
     (let (now, s1) = tw_now clock s in
      if tw_locked s1 then Deadlock
      else (let k = tw_currentSlots s1 ! 0; slot = tw_slot 0 k s1;
                expired = filter (tw_expired now) slot;
                s2 = tw_set_slot 0 k (filter (\<lambda>e. \<not> we_cancelled e \<and> \<not> we_expiry e \<le> now) slot) s1
            in case tw_fire_all clock beh now expired s2 of
                 Done s3 \<Rightarrow> Done (length expired, s3)
               | Thrown x \<Rightarrow> Thrown x
               | Deadlock \<Rightarrow> Deadlock))"

text \<open>One iteration of the timer thread after \<open>poll\<close> returned readable or timed out.\<close>

definition tw_thread_step :: "(nat \<Rightarrow> int) \<Rightarrow> (nat \<Rightarrow> tw \<Rightarrow> tw_call list) \<Rightarrow> tw \<Rightarrow> (int \<times> tw) tw_out" where
  "tw_thread_step clock beh s =
     (case tw_tick clock s of
        Done s1 \<Rightarrow>
          (case tw_processExpired clock beh s1 of
             Done (_, s2) \<Rightarrow> tw_armTimerFd clock s2
           | Thrown x \<Rightarrow> Thrown x
           | Deadlock \<Rightarrow> Deadlock)
      | Thrown x \<Rightarrow> Thrown x
      | Deadlock \<Rightarrow> Deadlock)"

definition tw_start :: "(nat \<Rightarrow> int) \<Rightarrow> tw \<Rightarrow> tw tw_out" where
  "tw_start clock s =
     (if tw_running s then Done s
      else case tw_armTimerFd clock (s\<lparr>tw_running := True\<rparr>) of
        Done (_, s1) \<Rightarrow> Done s1
      | Thrown x \<Rightarrow> Thrown x
      | Deadlock \<Rightarrow> Deadlock)"

definition tw_stop :: "tw \<Rightarrow> tw" where
  "tw_stop s = s\<lparr>tw_running := False\<rparr>"

section \<open>Well-formed wheels\<close>

definition tw_wf :: "tw \<Rightarrow> bool" where
  "tw_wf s \<longleftrightarrow>
     tc_tickDuration (tw_config s) > 0 \<and> tc_wheelSize (tw_config s) > 0 \<and> tc_numWheels (tw_config s) > 0 \<and>
     length (tw_wheels s) = tc_numWheels (tw_config s) \<and>
     (\<forall>w < tc_numWheels (tw_config s). length (tw_wheels s ! w) = tc_wheelSize (tw_config s)) \<and>
     length (tw_currentSlots s) = tc_numWheels (tw_config s) \<and>
     (\<forall>w < tc_numWheels (tw_config s). tw_currentSlots s ! w < tc_wheelSize (tw_config s))"

definition tw_live :: "tw \<Rightarrow> tw_entry multiset" where
  "tw_live s = filter_mset (\<lambda>e. \<not> we_cancelled e) (mset (tw_entries s))"

text \<open>The counter is the number of live entries plus \<open>n\<close> entries taken out to be fired.\<close>

definition tw_acc :: "nat \<Rightarrow> tw \<Rightarrow> bool" where
  "tw_acc n s \<longleftrightarrow> tw_wf s \<and> \<not> tw_locked s \<and> tw_activeCount s = int (size (tw_live s)) + int n"

lemma mset_concat_update:
  "i < length xss \<Longrightarrow> mset (concat (xss[i := ys])) + mset (xss ! i) = mset (concat xss) + mset ys"
proof (induction xss arbitrary: i)
  case (Cons xs xss)
  show ?case
  proof (cases i)
    case 0
    then show ?thesis by (simp add: ac_simps)
  next
    case (Suc j)
    then have "mset (concat (xss[j := ys])) + mset (xss ! j) = mset (concat xss) + mset ys"
      using Cons by simp
    then show ?thesis using Suc by (simp add: union_assoc)
  qed
qed simp

lemma mset_concat2_update:
  "w < length wss \<Longrightarrow> k < length (wss ! w) \<Longrightarrow>
    mset (concat (concat (wss[w := (wss ! w)[k := es]]))) + mset (wss ! w ! k) =
      mset (concat (concat wss)) + mset es"
proof (induction wss arbitrary: w)
  case (Cons ws wss)
  show ?case
  proof (cases w)
    case 0
    then show ?thesis
      using mset_concat_update [of k ws es] Cons.prems by (simp add: ac_simps)
  next
    case (Suc v)
    then have "mset (concat (concat (wss[v := (wss ! v)[k := es]]))) + mset (wss ! v ! k) =
        mset (concat (concat wss)) + mset es"
      using Cons by simp
    then show ?thesis using Suc by (simp add: union_assoc)
  qed
qed simp

lemma entries_set_slot:
  assumes "tw_wf s" and "w < tc_numWheels (tw_config s)" and "k < tc_wheelSize (tw_config s)"
  shows "mset (tw_entries (tw_set_slot w k es s)) + mset (tw_slot w k s) = mset (tw_entries s) + mset es"
proof -
  have w: "w < length (tw_wheels s)" "k < length (tw_wheels s ! w)"
    using assms by (simp_all add: tw_wf_def)
  then show ?thesis
    using mset_concat2_update [OF w] by (simp add: tw_entries_def tw_set_slot_def tw_slot_def)
qed

lemma wf_set_slot: "tw_wf s \<Longrightarrow> tw_wf (tw_set_slot w k es s)"
  by (cases "w < length (tw_wheels s)")
    (auto simp: tw_wf_def tw_set_slot_def nth_list_update list_update_beyond)

lemma set_slot_fields [simp]:
  "tw_config (tw_set_slot w k es s) = tw_config s"
  "tw_currentSlots (tw_set_slot w k es s) = tw_currentSlots s"
  "tw_activeCount (tw_set_slot w k es s) = tw_activeCount s"
  "tw_locked (tw_set_slot w k es s) = tw_locked s"
  "tw_running (tw_set_slot w k es s) = tw_running s"
  "tw_fired (tw_set_slot w k es s) = tw_fired s"
  "tw_nextId (tw_set_slot w k es s) = tw_nextId s"
  by (simp_all add: tw_set_slot_def)

lemma slot_set_slot:
  assumes "tw_wf s" and "w < tc_numWheels (tw_config s)" and "k < tc_wheelSize (tw_config s)"
  shows "tw_slot v j (tw_set_slot w k es s) = (if v = w \<and> j = k then es else tw_slot v j s)"
  using assms by (auto simp: tw_wf_def tw_slot_def tw_set_slot_def nth_list_update)

section \<open>Insertion puts an entry into exactly one slot\<close>

lemma tw_choose_last:
  assumes "n - 1 \<in> set ws" and "tc_numWheels cfg = n" and "tc_wheelSize cfg > 0" and "\<forall>w \<in> set ws. w < n"
  shows "\<exists>w k. tw_choose cfg delay ws = Some (w, k) \<and> w < n \<and> k < tc_wheelSize cfg"
  using assms(1,4)
proof (induction ws)
  case (Cons w ws)
  show ?case
  proof (cases "tw_computeSlot cfg delay w < tc_wheelSize cfg \<or> w = tc_numWheels cfg - 1")
    case True
    then show ?thesis using Cons.prems assms(3) by (auto simp: Let_def)
  next
    case False
    then show ?thesis using Cons assms(2) by (auto simp: Let_def)
  qed
qed simp

lemma tw_insert_cases:
  assumes "tw_wf s"
  obtains w k where "w < tc_numWheels (tw_config s)" and "k < tc_wheelSize (tw_config s)"
    and "tw_insert clock e s = tw_set_slot w k (tw_slot w k s @ [e]) (s\<lparr>tw_reads := tw_reads s + 1\<rparr>)"
proof -
  define delay where
    "delay = (if we_expiry e > clock (tw_reads s) then we_expiry e - clock (tw_reads s) else 0)"
  obtain w k where c: "tw_choose (tw_config s) delay [0..<tc_numWheels (tw_config s)] = Some (w, k)"
    "w < tc_numWheels (tw_config s)" "k < tc_wheelSize (tw_config s)"
    using tw_choose_last [of "tc_numWheels (tw_config s)" "[0..<tc_numWheels (tw_config s)]" "tw_config s" delay]
      assms by (auto simp: tw_wf_def)
  let ?k = "(tw_currentSlots s ! w + k) mod tc_wheelSize (tw_config s)"
  have "?k < tc_wheelSize (tw_config s)" using assms by (simp add: tw_wf_def)
  moreover have "tw_insert clock e s = tw_set_slot w ?k (tw_slot w ?k s @ [e]) (s\<lparr>tw_reads := tw_reads s + 1\<rparr>)"
    using c(1) by (simp add: tw_insert_def tw_now_def Let_def delay_def tw_slot_def)
  ultimately show ?thesis using c(2) that by blast
qed

lemma wf_reads [simp]: "tw_wf (s\<lparr>tw_reads := r\<rparr>) = tw_wf s"
  by (simp add: tw_wf_def)

lemma entries_reads [simp]: "tw_entries (s\<lparr>tw_reads := r\<rparr>) = tw_entries s"
  by (simp add: tw_entries_def)

lemma tw_insert_entries:
  assumes "tw_wf s"
  shows "tw_wf (tw_insert clock e s)"
    and "mset (tw_entries (tw_insert clock e s)) = add_mset e (mset (tw_entries s))"
proof -
  let ?s = "s\<lparr>tw_reads := tw_reads s + 1\<rparr>"
  obtain w k where w: "w < tc_numWheels (tw_config s)" "k < tc_wheelSize (tw_config s)"
    "tw_insert clock e s = tw_set_slot w k (tw_slot w k s @ [e]) ?s"
    using assms by (rule tw_insert_cases)
  show "tw_wf (tw_insert clock e s)" unfolding w(3) using assms by (intro wf_set_slot) simp
  have "mset (tw_entries (tw_set_slot w k (tw_slot w k s @ [e]) ?s)) + mset (tw_slot w k ?s) =
      mset (tw_entries ?s) + mset (tw_slot w k s @ [e])"
    using assms w(1,2) by (intro entries_set_slot) simp_all
  then show "mset (tw_entries (tw_insert clock e s)) = add_mset e (mset (tw_entries s))"
    unfolding w(3) by (simp add: tw_slot_def union_mset_add_mset_right)
qed

lemma tw_insert_fields [simp]:
  "tw_config (tw_insert clock e s) = tw_config s"
  "tw_currentSlots (tw_insert clock e s) = tw_currentSlots s"
  "tw_activeCount (tw_insert clock e s) = tw_activeCount s"
  "tw_locked (tw_insert clock e s) = tw_locked s"
  "tw_running (tw_insert clock e s) = tw_running s"
  "tw_fired (tw_insert clock e s) = tw_fired s"
  "tw_nextId (tw_insert clock e s) = tw_nextId s"
  by (simp_all add: tw_insert_def tw_now_def Let_def split: option.splits prod.splits)

lemma tw_insert_live:
  "tw_wf s \<Longrightarrow> tw_live (tw_insert clock e s) =
    (if we_cancelled e then tw_live s else add_mset e (tw_live s))"
  by (simp add: tw_live_def tw_insert_entries)

lemma tw_insert_slot_mono:
  assumes "tw_wf s"
  shows "set (tw_slot v j s) \<subseteq> set (tw_slot v j (tw_insert clock e s))"
proof -
  let ?s = "s\<lparr>tw_reads := tw_reads s + 1\<rparr>"
  obtain w k where w: "w < tc_numWheels (tw_config s)" "k < tc_wheelSize (tw_config s)"
    "tw_insert clock e s = tw_set_slot w k (tw_slot w k s @ [e]) ?s"
    using assms by (rule tw_insert_cases)
  have "tw_slot v j (tw_set_slot w k (tw_slot w k s @ [e]) ?s) =
      (if v = w \<and> j = k then tw_slot w k s @ [e] else tw_slot v j ?s)"
    using assms w by (intro slot_set_slot) simp_all
  then show ?thesis unfolding w(3) by (auto simp: tw_slot_def)
qed

section \<open>Cascading and ticking lose no timer\<close>

text \<open>What every internal move keeps: the shape, the live timers and the bookkeeping fields.\<close>

definition tw_same :: "tw \<Rightarrow> tw \<Rightarrow> bool" where
  "tw_same s s' \<longleftrightarrow> tw_wf s' \<and> tw_live s' = tw_live s \<and> tw_config s' = tw_config s \<and>
     tw_activeCount s' = tw_activeCount s \<and> tw_locked s' = tw_locked s \<and>
     tw_running s' = tw_running s \<and> tw_fired s' = tw_fired s \<and> tw_nextId s' = tw_nextId s"

lemma tw_same_trans: "tw_same s s' \<Longrightarrow> tw_same s' s'' \<Longrightarrow> tw_same s s''"
  unfolding tw_same_def by simp

lemma tw_same_refl: "tw_wf s \<Longrightarrow> tw_same s s"
  unfolding tw_same_def by simp

lemma tw_same_wf: "tw_same s s' \<Longrightarrow> tw_wf s'"
  unfolding tw_same_def by simp

lemma cascade_fold:
  assumes "tw_wf s"
  shows "tw_wf (fold (\<lambda>e s. if \<not> we_cancelled e then tw_insert clock e s else s) es s)"
    and "tw_live (fold (\<lambda>e s. if \<not> we_cancelled e then tw_insert clock e s else s) es s) =
      tw_live s + filter_mset (\<lambda>e. \<not> we_cancelled e) (mset es)"
  using assms
  by (induction es arbitrary: s) (auto simp: tw_insert_entries tw_insert_live)

lemma cascade_fold_fields [simp]:
  "tw_config (fold (\<lambda>e s. if \<not> we_cancelled e then tw_insert clock e s else s) es s) = tw_config s"
  "tw_currentSlots (fold (\<lambda>e s. if \<not> we_cancelled e then tw_insert clock e s else s) es s) = tw_currentSlots s"
  "tw_activeCount (fold (\<lambda>e s. if \<not> we_cancelled e then tw_insert clock e s else s) es s) = tw_activeCount s"
  "tw_locked (fold (\<lambda>e s. if \<not> we_cancelled e then tw_insert clock e s else s) es s) = tw_locked s"
  "tw_running (fold (\<lambda>e s. if \<not> we_cancelled e then tw_insert clock e s else s) es s) = tw_running s"
  "tw_fired (fold (\<lambda>e s. if \<not> we_cancelled e then tw_insert clock e s else s) es s) = tw_fired s"
  "tw_nextId (fold (\<lambda>e s. if \<not> we_cancelled e then tw_insert clock e s else s) es s) = tw_nextId s"
  by (induction es arbitrary: s) auto

lemma tw_cascade_same:
  assumes "tw_wf s"
  shows "tw_same s (tw_cascade clock w s)" and "tw_currentSlots (tw_cascade clock w s) = tw_currentSlots s"
proof -
  show "tw_same s (tw_cascade clock w s)"
  proof (cases "w < tc_numWheels (tw_config s)")
    case True
    let ?k = "tw_currentSlots s ! w"
    have k: "?k < tc_wheelSize (tw_config s)" using assms True by (simp add: tw_wf_def)
    have "mset (tw_entries (tw_set_slot w ?k [] s)) + mset (tw_slot w ?k s) = mset (tw_entries s)"
      using entries_set_slot [OF assms True k, of "[]"] by simp
    then have "tw_live (tw_set_slot w ?k [] s) + filter_mset (\<lambda>e. \<not> we_cancelled e) (mset (tw_slot w ?k s)) =
        tw_live s"
      by (simp add: tw_live_def flip: filter_union_mset)
    then show ?thesis
      using True cascade_fold [OF wf_set_slot [OF assms], of clock "tw_slot w ?k s" w ?k "[]"]
      by (simp add: tw_cascade_def tw_same_def Let_def)
  next
    case False
    then show ?thesis using assms by (simp add: tw_cascade_def tw_same_refl)
  qed
qed (simp add: tw_cascade_def Let_def)

lemma tw_step_slot_same:
  assumes "tw_wf s"
  shows "tw_same s (tw_step_slot w s)"
proof -
  have "(tw_currentSlots s)[w := (tw_currentSlots s ! w + 1) mod tc_wheelSize (tw_config s)] ! v
      < tc_wheelSize (tw_config s)" if "v < tc_numWheels (tw_config s)" for v
    using assms that by (cases "v = w") (simp_all add: tw_wf_def)
  then have "tw_wf (tw_step_slot w s)"
    using assms by (simp add: tw_wf_def tw_step_slot_def)
  then show ?thesis by (simp add: tw_same_def tw_step_slot_def tw_live_def tw_entries_def)
qed

lemma tw_cascades_same: "tw_wf s \<Longrightarrow> tw_same s (tw_cascades clock ws s)"
proof (induction ws arbitrary: s)
  case Nil
  then show ?case by (simp add: tw_same_refl)
next
  case (Cons w ws)
  have 1: "tw_same s (tw_step_slot w (tw_cascade clock w s))"
    using tw_cascade_same(1) [OF Cons.prems] tw_step_slot_same by (blast intro: tw_same_trans tw_same_wf)
  then show ?case
    using Cons.IH [OF tw_same_wf [OF 1]] by (auto simp: Let_def intro: tw_same_trans)
qed

lemma tw_one_tick_same:
  assumes "tw_wf s"
  shows "tw_same s (tw_one_tick clock s)"
proof -
  note 1 = tw_step_slot_same [OF assms, of 0]
  note 2 = tw_cascades_same [OF tw_same_wf [OF 1], of clock]
  show ?thesis using 1 tw_same_trans [OF 1 2] by (simp add: tw_one_tick_def Let_def)
qed

lemma tw_ticks_same: "tw_wf s \<Longrightarrow> tw_same s ((tw_one_tick clock ^^ n) s)"
proof (induction n)
  case 0
  then show ?case by (simp add: tw_same_refl)
next
  case (Suc n)
  note 1 = Suc.IH [OF Suc.prems]
  show ?case using tw_same_trans [OF 1 tw_one_tick_same [OF tw_same_wf [OF 1]]] by simp
qed

lemma tw_advance_same:
  assumes "tw_wf s" and "tw_advance clock elapsed s = Done s'"
  shows "tw_same s s'"
proof -
  have "tw_same s ((tw_one_tick clock ^^ nat (elapsed div tc_tickDuration (tw_config s))) s)"
    using assms(1) by (rule tw_ticks_same)
  then show ?thesis
    using assms(2)
    by (auto simp: tw_advance_def tw_now_def Let_def tw_same_def tw_wf_def tw_live_def tw_entries_def
        split: if_splits)
qed

text \<open>Entries of the first wheel stay where they are while the cursor moves.\<close>

lemma tw_cascade_keeps_slot:
  assumes "tw_wf s" and "w > 0"
  shows "set (tw_slot 0 j s) \<subseteq> set (tw_slot 0 j (tw_cascade clock w s))"
proof (cases "w < tc_numWheels (tw_config s)")
  case True
  let ?k = "tw_currentSlots s ! w"
  have k: "?k < tc_wheelSize (tw_config s)" using assms True by (simp add: tw_wf_def)
  have mono: "set (tw_slot 0 j s) \<subseteq>
      set (tw_slot 0 j (fold (\<lambda>e s. if \<not> we_cancelled e then tw_insert clock e s else s) es s))"
    if "tw_wf s" for es s
    using that
  proof (induction es arbitrary: s)
    case (Cons e es)
    then show ?case
      using Cons.IH [OF tw_insert_entries(1) [OF Cons.prems]] tw_insert_slot_mono [OF Cons.prems]
      by (auto simp: subset_iff)
  qed simp
  have "tw_slot 0 j (tw_set_slot w ?k [] s) = tw_slot 0 j s"
    using assms True k by (simp add: slot_set_slot)
  then show ?thesis
    using mono [OF wf_set_slot [OF assms(1)], of w ?k "[]" "tw_slot w ?k s"] True
    by (simp add: tw_cascade_def Let_def)
next
  case False
  then show ?thesis by (simp add: tw_cascade_def)
qed

lemma slot_step_slot: "tw_slot v j (tw_step_slot w s) = tw_slot v j s"
  by (simp add: tw_slot_def tw_step_slot_def)

lemma tw_cascades_keep:
  assumes "tw_wf s" and "\<forall>w \<in> set ws. w > 0"
  shows "set (tw_slot 0 j s) \<subseteq> set (tw_slot 0 j (tw_cascades clock ws s))"
    and "tw_currentSlots (tw_cascades clock ws s) ! 0 = tw_currentSlots s ! 0"
proof -
  have "set (tw_slot 0 j s) \<subseteq> set (tw_slot 0 j (tw_cascades clock ws s)) \<and>
      tw_currentSlots (tw_cascades clock ws s) ! 0 = tw_currentSlots s ! 0"
    using assms
  proof (induction ws arbitrary: s)
    case (Cons w ws)
    let ?s = "tw_step_slot w (tw_cascade clock w s)"
    have w: "w > 0" using Cons.prems by simp
    have wf: "tw_wf ?s"
      using tw_cascade_same(1) [OF Cons.prems(1)] tw_step_slot_same by (blast intro: tw_same_wf)
    have sl: "set (tw_slot 0 j s) \<subseteq> set (tw_slot 0 j ?s)"
      using tw_cascade_keeps_slot [OF Cons.prems(1) w] by (simp add: slot_step_slot)
    have cur: "tw_currentSlots ?s ! 0 = tw_currentSlots s ! 0"
      using w tw_cascade_same(2) [OF Cons.prems(1)] by (simp add: tw_step_slot_def)
    show ?case
      using Cons.IH [OF wf] Cons.prems(2) sl cur by (auto simp: Let_def)
  qed simp
  then show "set (tw_slot 0 j s) \<subseteq> set (tw_slot 0 j (tw_cascades clock ws s))"
    "tw_currentSlots (tw_cascades clock ws s) ! 0 = tw_currentSlots s ! 0" by auto
qed

lemma tw_one_tick_keep:
  assumes "tw_wf s"
  shows "set (tw_slot 0 j s) \<subseteq> set (tw_slot 0 j (tw_one_tick clock s))"
    and "tw_currentSlots (tw_one_tick clock s) ! 0 =
      (tw_currentSlots s ! 0 + 1) mod tc_wheelSize (tw_config s)"
proof -
  have wf: "tw_wf (tw_step_slot 0 s)" using tw_step_slot_same [OF assms] by (rule tw_same_wf)
  have cur: "tw_currentSlots (tw_step_slot 0 s) ! 0 = (tw_currentSlots s ! 0 + 1) mod tc_wheelSize (tw_config s)"
    using assms by (simp add: tw_step_slot_def tw_wf_def)
  note keep = tw_cascades_keep [OF wf, of "[1..<tc_numWheels (tw_config (tw_step_slot 0 s))]"]
  show "set (tw_slot 0 j s) \<subseteq> set (tw_slot 0 j (tw_one_tick clock s))"
    using keep(1) [of j clock] by (auto simp: tw_one_tick_def Let_def slot_step_slot)
  show "tw_currentSlots (tw_one_tick clock s) ! 0 = (tw_currentSlots s ! 0 + 1) mod tc_wheelSize (tw_config s)"
    using keep(2) [of clock] cur by (auto simp: tw_one_tick_def Let_def)
qed

lemma tw_ticks_keep:
  assumes "tw_wf s"
  shows "set (tw_slot 0 j s) \<subseteq> set (tw_slot 0 j ((tw_one_tick clock ^^ n) s))"
    and "tw_currentSlots ((tw_one_tick clock ^^ n) s) ! 0 =
      (tw_currentSlots s ! 0 + n) mod tc_wheelSize (tw_config s)"
proof (induction n)
  case 0
  case 1
  show ?case by simp
  case 2
  show ?case using assms by (simp add: tw_wf_def)
next
  case (Suc n)
  let ?s = "(tw_one_tick clock ^^ n) s"
  have same: "tw_same s ?s" using assms by (rule tw_ticks_same)
  then have wf: "tw_wf ?s" by (rule tw_same_wf)
  have cfg: "tw_config ?s = tw_config s" using same by (simp add: tw_same_def)
  {
    case 1
    show ?case using Suc(1) tw_one_tick_keep(1) [OF wf] by auto
  next
    case 2
    show ?case using Suc(2) tw_one_tick_keep(2) [OF wf] cfg by (simp add: mod_simps)
  }
qed

section \<open>The counter\<close>

lemma upd_first_Some:
  assumes "upd_first f xs = Some ys"
  obtains us x y vs where "xs = us @ x # vs" and "f x = Some y" and "ys = us @ y # vs"
  using assms
proof (induction xs arbitrary: ys thesis)
  case (Cons x xs)
  show ?case
  proof (cases "f x")
    case None
    then obtain zs where z: "upd_first f xs = Some zs" "ys = x # zs" using Cons.prems(2) by auto
    show ?thesis
      by (rule Cons.IH [OF _ z(1)]) (use Cons.prems(1) z(2) in \<open>metis append_Cons\<close>)
  next
    case (Some y)
    then show ?thesis using Cons.prems(1) [of "[]" x xs y] Cons.prems(2) by auto
  qed
qed simp

lemma tw_cancel_effect:
  assumes "tw_cancel i s = Done (True, s')"
  obtains e where "e \<in># tw_live s" and "we_id e = i" and "tw_live s' = tw_live s - {#e#}"
    and "s' = s\<lparr>tw_wheels := tw_wheels s', tw_activeCount := tw_activeCount s - 1\<rparr>"
    and "length (tw_wheels s') = length (tw_wheels s)"
    and "\<forall>w < length (tw_wheels s). length (tw_wheels s' ! w) = length (tw_wheels s ! w)"
proof -
  obtain ws where ws: "upd_first (upd_first (upd_first (tw_cancel_entry i))) (tw_wheels s) = Some ws"
    "s' = s\<lparr>tw_wheels := ws, tw_activeCount := tw_activeCount s - 1\<rparr>"
    using assms by (auto simp: tw_cancel_def split: if_splits option.splits)
  obtain us1 x1 y1 vs1 where 1: "tw_wheels s = us1 @ x1 # vs1"
    "upd_first (upd_first (tw_cancel_entry i)) x1 = Some y1" "ws = us1 @ y1 # vs1"
    using ws(1) by (rule upd_first_Some)
  obtain us2 x2 y2 vs2 where 2: "x1 = us2 @ x2 # vs2" "upd_first (tw_cancel_entry i) x2 = Some y2"
    "y1 = us2 @ y2 # vs2"
    using 1(2) by (rule upd_first_Some)
  obtain us3 e e' vs3 where 3: "x2 = us3 @ e # vs3" "tw_cancel_entry i e = Some e'" "y2 = us3 @ e' # vs3"
    using 2(2) by (rule upd_first_Some)
  have e: "we_id e = i" "\<not> we_cancelled e" "e' = e\<lparr>we_cancelled := True\<rparr>"
    using 3(2) by (auto simp: tw_cancel_entry_def split: if_splits)
  have "tw_live s = add_mset e (tw_live s')"
    using e by (simp add: tw_live_def tw_entries_def ws(2) 1 2 3)
  moreover have "length ws = length (tw_wheels s)"
    "\<forall>w < length (tw_wheels s). length (ws ! w) = length (tw_wheels s ! w)"
    unfolding 1 2 by (auto simp: nth_append nth_Cons split: nat.splits)
  ultimately show ?thesis using that [of e] e ws(2) by simp
qed

lemma tw_acc_cong:
  assumes "tw_acc n s" and "tw_same s s'"
  shows "tw_acc n s'"
  using assms by (simp add: tw_acc_def tw_same_def)

lemma tw_same_simple:
  "tw_wf s \<Longrightarrow> tw_same s (s\<lparr>tw_reads := r\<rparr>)"
  by (simp add: tw_same_def tw_live_def)

lemma tw_armTimerFd_reads:
  assumes "tw_armTimerFd clock s = Done (v, s')"
  shows "s' = s\<lparr>tw_reads := tw_reads s + 1\<rparr>" and "\<not> tw_locked s"
  using assms
  by (auto simp: tw_armTimerFd_def tw_timeUntilNextExpiry_def tw_now_def Let_def
      split: tw_out.splits if_splits)

lemma tw_enter_acc:
  assumes "tw_acc n s" and "tw_enter clock d p c s = Done (i, s')"
  shows "tw_acc n s'"
proof -
  let ?e = "\<lparr>we_id = tw_nextId s, we_expiry = clock (tw_reads s) + d, we_period = p, we_callback = c,
    we_cancelled = False\<rparr>"
  let ?s = "s\<lparr>tw_nextId := tw_nextId s + 1, tw_reads := tw_reads s + 1, tw_locked := True\<rparr>"
  have wf: "tw_wf ?s" using assms(1) by (simp add: tw_acc_def tw_wf_def)
  have run: "\<not> tw_running s"
    using assms(2) tw_armTimerFd_reads(2)
    by (fastforce simp: tw_enter_def tw_now_def Let_def split: if_splits tw_out.splits)
  then have s': "s' = (tw_insert clock ?e ?s)
      \<lparr>tw_activeCount := tw_activeCount (tw_insert clock ?e ?s) + 1, tw_locked := False\<rparr>"
    using assms(2) by (auto simp: tw_enter_def tw_now_def Let_def split: if_splits)
  have "tw_wf s'" using tw_insert_entries(1) [OF wf, of clock ?e] by (simp add: s' tw_wf_def)
  moreover have "tw_live s' = add_mset ?e (tw_live s)"
    using tw_insert_live [OF wf, of clock ?e] by (simp add: s' tw_live_def tw_entries_def)
  ultimately show ?thesis using assms(1) by (simp add: tw_acc_def s')
qed

lemma tw_schedule_acc:
  "tw_acc n s \<Longrightarrow> tw_schedule clock d c s = Done (i, s') \<Longrightarrow> tw_acc n s'"
  "tw_acc n s \<Longrightarrow> tw_schedulePeriodic clock d c s = Done (i, s') \<Longrightarrow> tw_acc n s'"
  by (auto simp: tw_schedule_def tw_schedulePeriodic_def split: option.splits if_splits intro: tw_enter_acc)

lemma tw_cancel_acc:
  assumes "tw_acc n s" and "tw_cancel i s = Done (b, s')"
  shows "tw_acc n s'"
proof (cases b)
  case False
  then have "s' = s"
    using assms(2) by (auto simp: tw_cancel_def split: if_splits option.splits)
  then show ?thesis using assms(1) by simp
next
  case True
  then obtain e where e: "e \<in># tw_live s" "tw_live s' = tw_live s - {#e#}"
    "s' = s\<lparr>tw_wheels := tw_wheels s', tw_activeCount := tw_activeCount s - 1\<rparr>"
    "length (tw_wheels s') = length (tw_wheels s)"
    "\<forall>w < length (tw_wheels s). length (tw_wheels s' ! w) = length (tw_wheels s ! w)"
    using assms(2) by (auto elim: tw_cancel_effect)
  have f: "tw_config s' = tw_config s" "tw_currentSlots s' = tw_currentSlots s"
    "tw_locked s' = tw_locked s" "tw_activeCount s' = tw_activeCount s - 1"
    by (subst e(3), simp)+
  have "tw_wf s'" using assms(1) e(4,5) f by (simp add: tw_acc_def tw_wf_def)
  moreover have "int (size (tw_live s')) = int (size (tw_live s)) - 1"
    unfolding e(2) using size_Suc_Diff1 [OF e(1)] by linarith
  ultimately show ?thesis using assms(1) f by (simp add: tw_acc_def)
qed

lemma tw_do_acc: "tw_acc n s \<Longrightarrow> tw_do clock k s = Done s' \<Longrightarrow> tw_acc n s'"
  by (cases k) (auto split: tw_out.splits prod.splits intro: tw_schedule_acc tw_cancel_acc)

lemma tw_do_all_acc: "tw_acc n s \<Longrightarrow> tw_do_all clock ks s = Done s' \<Longrightarrow> tw_acc n s'"
  by (induction ks arbitrary: s) (auto split: tw_out.splits dest: tw_do_acc)

lemma tw_acc_fired [simp]: "tw_acc n (s\<lparr>tw_fired := l\<rparr>) = tw_acc n s"
  by (simp add: tw_acc_def tw_wf_def tw_live_def tw_entries_def)

lemma tw_acc_count: "tw_acc (Suc n) s \<Longrightarrow> tw_acc n (s\<lparr>tw_activeCount := tw_activeCount s - 1\<rparr>)"
  by (simp add: tw_acc_def tw_wf_def tw_live_def tw_entries_def)

lemma tw_insert_acc:
  assumes "tw_acc (Suc n) s" and "\<not> we_cancelled e"
  shows "tw_acc n (tw_insert clock e s)"
  using assms tw_insert_entries(1) [of s clock e] tw_insert_live [of s clock e] by (simp add: tw_acc_def)

lemma tw_fire_acc:
  assumes "tw_acc (Suc n) s" and "tw_fire clock beh t e s = Done s'"
  shows "tw_acc n s'"
proof (cases "we_cancelled e")
  case True
  then show ?thesis using assms tw_acc_count by (auto simp: tw_fire_def)
next
  case False
  then obtain s1 where s1: "tw_do_all clock (beh (we_callback e) s) (s\<lparr>tw_fired := tw_fired s @ [(we_id e, t)]\<rparr>) = Done s1"
    using assms(2) by (auto simp: tw_fire_def split: tw_out.splits)
  have acc1: "tw_acc (Suc n) s1"
    using tw_do_all_acc [OF _ s1] assms(1) by simp
  show ?thesis
  proof (cases "we_period e > 0")
    case True
    then have "s' = tw_insert clock (e\<lparr>we_expiry := clock (tw_reads s1) + we_period e\<rparr>)
        (s1\<lparr>tw_reads := tw_reads s1 + 1\<rparr>)"
      using assms(2) False s1 by (auto simp: tw_fire_def tw_now_def Let_def split: if_splits)
    moreover have "tw_acc (Suc n) (s1\<lparr>tw_reads := tw_reads s1 + 1\<rparr>)"
      using acc1 by (simp add: tw_acc_def tw_live_def)
    ultimately show ?thesis using False tw_insert_acc by simp
  next
    case no_period: False
    then show ?thesis using assms(2) False s1 tw_acc_count [OF acc1] by (simp add: tw_fire_def)
  qed
qed

lemma tw_fire_all_acc:
  "tw_acc (length es + n) s \<Longrightarrow> tw_fire_all clock beh t es s = Done s' \<Longrightarrow> tw_acc n s'"
proof (induction es arbitrary: s)
  case (Cons e es)
  then obtain s1 where s1: "tw_fire clock beh t e s = Done s1" "tw_fire_all clock beh t es s1 = Done s'"
    by (auto split: tw_out.splits)
  have "tw_acc (length es + n) s1"
    using tw_fire_acc [OF _ s1(1)] Cons.prems(1) by simp
  then show ?case using s1(2) by (rule Cons.IH)
qed simp

lemma tw_take_expired:
  assumes "tw_acc n s"
  defines "k \<equiv> tw_currentSlots s ! 0"
  shows "tw_acc (length (filter (tw_expired now) (tw_slot 0 k s)) + n)
    (tw_set_slot 0 k (filter (\<lambda>e. \<not> we_cancelled e \<and> \<not> we_expiry e \<le> now) (tw_slot 0 k s)) s)"
    (is "tw_acc _ ?s")
proof -
  have wf: "tw_wf s" using assms(1) by (simp add: tw_acc_def)
  then have k: "0 < tc_numWheels (tw_config s)" "k < tc_wheelSize (tw_config s)"
    by (simp_all add: tw_wf_def k_def)
  have "mset (tw_entries ?s) + mset (tw_slot 0 k s) =
      mset (tw_entries s) + mset (filter (\<lambda>e. \<not> we_cancelled e \<and> \<not> we_expiry e \<le> now) (tw_slot 0 k s))"
    by (rule entries_set_slot [OF wf k])
  then have "size (filter_mset (\<lambda>e. \<not> we_cancelled e) (mset (tw_entries ?s) + mset (tw_slot 0 k s))) =
      size (filter_mset (\<lambda>e. \<not> we_cancelled e) (mset (tw_entries s) +
        mset (filter (\<lambda>e. \<not> we_cancelled e \<and> \<not> we_expiry e \<le> now) (tw_slot 0 k s))))"
    by simp
  then have sizes: "size (tw_live ?s) + length (filter (\<lambda>e. \<not> we_cancelled e) (tw_slot 0 k s)) =
      size (tw_live s) + length (filter (\<lambda>e. \<not> we_cancelled e)
        (filter (\<lambda>e. \<not> we_cancelled e \<and> \<not> we_expiry e \<le> now) (tw_slot 0 k s)))"
    by (simp add: tw_live_def flip: mset_filter)
  have dup: "filter (\<lambda>e. \<not> we_cancelled e) (filter (\<lambda>e. \<not> we_cancelled e \<and> \<not> we_expiry e \<le> now) xs) =
      filter (\<lambda>e. \<not> we_cancelled e \<and> \<not> we_expiry e \<le> now) xs" for xs
    by (rule filter_True) simp
  have parts: "length (filter (\<lambda>e. \<not> we_cancelled e) xs) =
      length (filter (tw_expired now) xs) + length (filter (\<lambda>e. \<not> we_cancelled e \<and> \<not> we_expiry e \<le> now) xs)" for xs
    by (induction xs) (auto simp: tw_expired_def)
  have "size (tw_live s) = size (tw_live ?s) + length (filter (tw_expired now) (tw_slot 0 k s))"
    using sizes [unfolded dup] parts [of "tw_slot 0 k s"] by linarith
  then show ?thesis using assms(1) wf_set_slot [OF wf] by (simp add: tw_acc_def)
qed

lemma tw_processExpired_acc:
  assumes "tw_acc n s" and "tw_processExpired clock beh s = Done (m, s')"
  shows "tw_acc n s'"
proof -
  let ?s = "s\<lparr>tw_reads := tw_reads s + 1\<rparr>"
  have "tw_acc n ?s" using assms(1) by (simp add: tw_acc_def tw_live_def)
  from tw_take_expired [OF this, of "clock (tw_reads s)"] show ?thesis
    using assms(2)
    by (auto simp: tw_processExpired_def tw_now_def Let_def split: if_splits tw_out.splits
        intro: tw_fire_all_acc)
qed

section \<open>What fires\<close>

lemma tw_enter_fired: "tw_enter clock d p c s = Done (i, s') \<Longrightarrow> tw_fired s' = tw_fired s"
  by (auto simp: tw_enter_def tw_now_def Let_def split: if_splits tw_out.splits
      dest: tw_armTimerFd_reads(1))

lemma tw_do_fired: "tw_do clock k s = Done s' \<Longrightarrow> tw_fired s' = tw_fired s"
  by (cases k)
    (auto simp: tw_schedule_def tw_schedulePeriodic_def tw_cancel_def
      split: tw_out.splits if_splits option.splits dest: tw_enter_fired)

lemma tw_do_all_fired: "tw_do_all clock ks s = Done s' \<Longrightarrow> tw_fired s' = tw_fired s"
  by (induction ks arbitrary: s) (auto split: tw_out.splits dest: tw_do_fired)

lemma tw_fire_fired:
  assumes "tw_fire clock beh t e s = Done s'" and "\<not> we_cancelled e"
  shows "tw_fired s' = tw_fired s @ [(we_id e, t)]"
  using assms
  by (auto simp: tw_fire_def tw_now_def Let_def split: if_splits tw_out.splits dest: tw_do_all_fired)

lemma tw_fire_all_fired:
  assumes "tw_fire_all clock beh t es s = Done s'" and "\<forall>e \<in> set es. \<not> we_cancelled e"
  shows "tw_fired s' = tw_fired s @ map (\<lambda>e. (we_id e, t)) es"
  using assms
proof (induction es arbitrary: s)
  case (Cons e es)
  then obtain s1 where s1: "tw_fire clock beh t e s = Done s1" "tw_fire_all clock beh t es s1 = Done s'"
    by (auto split: tw_out.splits)
  then show ?case using Cons.IH [OF s1(2)] tw_fire_fired [OF s1(1)] Cons.prems(2) by simp
qed simp

section \<open>The wheel as its clients drive it\<close>

datatype tw_op =
    Schedule int "nat option"
  | Schedule_periodic int "nat option"
  | Cancel nat
  | Tick
  | Advance int
  | Process_expired
  | Start
  | Stop
  | Thread_step

text \<open>\<open>None\<close> is a call that never returns; a throwing call leaves the wheel as it was.\<close>

fun tw_next :: "(nat \<Rightarrow> int) \<Rightarrow> (nat \<Rightarrow> tw \<Rightarrow> tw_call list) \<Rightarrow> tw_op \<Rightarrow> tw \<Rightarrow> tw option" where
  "tw_next clock beh (Schedule d c) s =
     (case tw_schedule clock d c s of Done (_, s') \<Rightarrow> Some s' | Thrown _ \<Rightarrow> Some s | Deadlock \<Rightarrow> None)"
| "tw_next clock beh (Schedule_periodic p c) s =
     (case tw_schedulePeriodic clock p c s of Done (_, s') \<Rightarrow> Some s' | Thrown _ \<Rightarrow> Some s | Deadlock \<Rightarrow> None)"
| "tw_next clock beh (Cancel i) s =
     (case tw_cancel i s of Done (_, s') \<Rightarrow> Some s' | Thrown _ \<Rightarrow> Some s | Deadlock \<Rightarrow> None)"
| "tw_next clock beh Tick s =
     (case tw_tick clock s of Done s' \<Rightarrow> Some s' | Thrown _ \<Rightarrow> Some s | Deadlock \<Rightarrow> None)"
| "tw_next clock beh (Advance d) s =
     (case tw_advance clock d s of Done s' \<Rightarrow> Some s' | Thrown _ \<Rightarrow> Some s | Deadlock \<Rightarrow> None)"
| "tw_next clock beh Process_expired s =
     (case tw_processExpired clock beh s of Done (_, s') \<Rightarrow> Some s' | Thrown _ \<Rightarrow> Some s | Deadlock \<Rightarrow> None)"
| "tw_next clock beh Start s =
     (case tw_start clock s of Done s' \<Rightarrow> Some s' | Thrown _ \<Rightarrow> Some s | Deadlock \<Rightarrow> None)"
| "tw_next clock beh Stop s = Some (tw_stop s)"
| "tw_next clock beh Thread_step s =
     (case tw_thread_step clock beh s of Done (_, s') \<Rightarrow> Some s' | Thrown _ \<Rightarrow> Some s | Deadlock \<Rightarrow> None)"

lemma tw_arm_acc: "tw_acc n s \<Longrightarrow> tw_armTimerFd clock s = Done (v, s') \<Longrightarrow> tw_acc n s'"
  by (drule tw_armTimerFd_reads(1)) (simp add: tw_acc_def tw_live_def)

lemma tw_advance_acc:
  assumes "tw_acc n s" and "tw_advance clock d s = Done s'"
  shows "tw_acc n s'"
  using assms(1) tw_advance_same [OF _ assms(2)] by (intro tw_acc_cong [OF assms(1)]) (simp add: tw_acc_def)

lemma tw_acc_running [simp]: "tw_acc n (s\<lparr>tw_running := b\<rparr>) = tw_acc n s"
  by (simp add: tw_acc_def tw_wf_def tw_live_def tw_entries_def)

lemma tw_thread_step_acc:
  assumes "tw_acc n s" and "tw_thread_step clock beh s = Done (v, s')"
  shows "tw_acc n s'"
proof -
  obtain s1 m s2 where s: "tw_tick clock s = Done s1" "tw_processExpired clock beh s1 = Done (m, s2)"
    "tw_armTimerFd clock s2 = Done (v, s')"
    using assms(2) by (auto simp: tw_thread_step_def split: tw_out.splits)
  have "tw_acc n s1" using tw_advance_acc [OF assms(1)] s(1) by (simp add: tw_tick_def)
  then have "tw_acc n s2" using s(2) by (rule tw_processExpired_acc)
  then show ?thesis using s(3) by (rule tw_arm_acc)
qed

lemma tw_start_acc: "tw_acc n s \<Longrightarrow> tw_start clock s = Done s' \<Longrightarrow> tw_acc n s'"
  using tw_arm_acc [of n "s\<lparr>tw_running := True\<rparr>" clock]
  by (auto simp: tw_start_def split: if_splits tw_out.splits)

lemma tw_next_acc:
  assumes "tw_next clock beh p s = Some s'" and "tw_acc 0 s"
  shows "tw_acc 0 s'"
  using assms
  by (cases p)
    (auto split: tw_out.splits if_splits simp: tw_tick_def tw_stop_def
      dest: tw_schedule_acc tw_cancel_acc tw_advance_acc tw_processExpired_acc tw_thread_step_acc tw_start_acc)

lemma tw_new_acc:
  assumes "tw_new cfg t = Inr s" and "tc_tickDuration cfg > 0"
  shows "tw_acc 0 s"
proof -
  have "concat (concat (replicate m (replicate n []))) = ([] :: tw_entry list)" for m n
    by (induction m) auto
  then show ?thesis
    using assms by (auto simp: tw_new_def tw_acc_def tw_wf_def tw_live_def tw_entries_def split: if_splits)
qed

section \<open>Properties\<close>

text \<open>
  Claim C25. \<open>activeTimers()\<close> is exact: after any sequence of schedule, cancel, tick, advance,
  processExpired, start, stop and timer-thread steps that all return, with callbacks that schedule
  and cancel as they like, the counter equals the number of entries in the wheels that are not
  cancelled.
\<close>

theorem timer_wheel_count_exact:
  assumes "tw_new cfg t = Inr s0" and "tc_tickDuration cfg > 0"
    and "run (tw_next clock beh) ps s0 = Some s"
  shows "tw_activeTimers s = int (length (filter (\<lambda>e. \<not> we_cancelled e) (tw_entries s)))"
proof -
  have "tw_acc 0 s"
    using assms(3) tw_new_acc [OF assms(1,2)]
    by (rule run_invariant [where I = "tw_acc 0" and nxt = "tw_next clock beh"]) (rule tw_next_acc)
  then show ?thesis
    by (simp add: tw_acc_def tw_live_def tw_activeTimers_def flip: mset_filter)
qed

definition tw_demo_config :: tw_config where
  "tw_demo_config = \<lparr>tc_tickDuration = 10, tc_wheelSize = 4, tc_numWheels = 2\<rparr>"

definition tw_demo_start :: tw where
  "tw_demo_start =
     \<lparr>tw_config = tw_demo_config, tw_wheels = [[[], [], [], []], [[], [], [], []]],
      tw_currentSlots = [0, 0], tw_lastTick = 0, tw_nextId = 1, tw_activeCount = 0, tw_running = False,
      tw_locked = False, tw_reads = 0, tw_fired = []\<rparr>"

lemma tw_demo_new: "tw_new tw_demo_config 0 = Inr tw_demo_start"
  by (simp add: tw_new_def tw_demo_config_def tw_demo_start_def numeral_eq_Suc)

theorem timer_wheel_count_exact_witness:
  "\<exists>s. tw_new tw_demo_config 0 = Inr tw_demo_start \<and> tc_tickDuration tw_demo_config > 0 \<and>
     run (tw_next (\<lambda>_. 0) (\<lambda>_ _. [])) [Schedule 15 (Some 1), Schedule 90 (Some 2), Cancel 1] tw_demo_start
       = Some s \<and>
     tw_activeTimers s = int (length (filter (\<lambda>e. \<not> we_cancelled e) (tw_entries s)))"
proof -
  have t: "tc_tickDuration tw_demo_config > 0" by (simp add: tw_demo_config_def)
  have "run (tw_next (\<lambda>_. 0) (\<lambda>_ _. [])) [Schedule 15 (Some 1), Schedule 90 (Some 2), Cancel 1]
      tw_demo_start \<noteq> None"
    by code_simp
  then obtain s where s: "run (tw_next (\<lambda>_. 0) (\<lambda>_ _. []))
      [Schedule 15 (Some 1), Schedule 90 (Some 2), Cancel 1] tw_demo_start = Some s" by blast
  show ?thesis
    using timer_wheel_count_exact [OF tw_demo_new t s] tw_demo_new t s by blast
qed

text \<open>
  Advancing loses and duplicates nothing: however many ticks \<open>advance\<close> makes and whatever
  it cascades, the timers in the wheels that are not cancelled are the same multiset before and
  after, and none fires.
\<close>

lemma timer_wheel_advance_keeps_timers:
  assumes "tw_wf s" and "tw_advance clock elapsed s = Done s'"
  shows "filter_mset (\<lambda>e. \<not> we_cancelled e) (mset (tw_entries s')) =
      filter_mset (\<lambda>e. \<not> we_cancelled e) (mset (tw_entries s)) \<and>
    tw_fired s' = tw_fired s \<and> tw_wf s'"
  using tw_advance_same [OF assms] by (simp add: tw_same_def tw_live_def)

text \<open>
  Claim C29. A timer in the first wheel is reached within one revolution: after
  \<open>(k - current) mod wheelSize\<close> ticks the cursor stands on slot \<open>k\<close>, every entry that was in that slot
  is still there, and \<open>processExpired\<close> then fires exactly the entries of the slot that are neither
  cancelled nor before their expiry, in order, each stamped with the time it read.
\<close>

theorem timer_wheel_fires_when_reached:
  assumes "tw_wf s" and "k < tc_wheelSize (tw_config s)"
    and "n = (k + tc_wheelSize (tw_config s) - tw_currentSlots s ! 0) mod tc_wheelSize (tw_config s)"
    and "s1 = (tw_one_tick clock ^^ n) s" and "tw_processExpired clock beh s1 = Done (m, s2)"
  shows "set (tw_slot 0 k s) \<subseteq> set (tw_slot 0 k s1) \<and>
    tw_fired s2 = tw_fired s @
      map (\<lambda>e. (we_id e, clock (tw_reads s1)))
        (filter (\<lambda>e. \<not> we_cancelled e \<and> we_expiry e \<le> clock (tw_reads s1)) (tw_slot 0 k s1))"
proof -
  have c: "tw_currentSlots s ! 0 < tc_wheelSize (tw_config s)" using assms(1) by (simp add: tw_wf_def)
  then have "(tw_currentSlots s ! 0 + (k + tc_wheelSize (tw_config s) - tw_currentSlots s ! 0)) mod
      tc_wheelSize (tw_config s) = k"
    using assms(2) by simp
  then have cur: "tw_currentSlots s1 ! 0 = k"
    using tw_ticks_keep(2) [OF assms(1), where clock = clock and n = n] assms(3,4) by (simp add: mod_simps)
  have "tw_fired s1 = tw_fired s"
    using tw_ticks_same [OF assms(1), where clock = clock and n = n] assms(4) by (simp add: tw_same_def)
  then have "tw_fired s2 = tw_fired s @ map (\<lambda>e. (we_id e, clock (tw_reads s1)))
      (filter (tw_expired (clock (tw_reads s1))) (tw_slot 0 k s1))"
    using assms(5) cur
    by (auto simp: tw_processExpired_def tw_now_def Let_def tw_slot_def tw_expired_def
        split: if_splits tw_out.splits dest!: tw_fire_all_fired)
  then show ?thesis
    using tw_ticks_keep(1) [OF assms(1), where j = k and clock = clock and n = n] assms(4) by (simp add: tw_expired_def [abs_def])
qed

definition tw_demo_loaded :: tw where
  "tw_demo_loaded = tw_set_slot 0 2
     [\<lparr>we_id = 1, we_expiry = 25, we_period = 0, we_callback = 9, we_cancelled = False\<rparr>] tw_demo_start"

theorem timer_wheel_fires_when_reached_witness:
  "\<exists>s1 m s2. tw_wf tw_demo_loaded \<and> s1 = (tw_one_tick (\<lambda>_. 30) ^^ 2) tw_demo_loaded \<and>
     tw_processExpired (\<lambda>_. 30) (\<lambda>_ _. []) s1 = Done (m, s2) \<and> tw_fired s2 = [(1, 30)]"
proof -
  have wf: "tw_wf tw_demo_loaded"
    unfolding tw_demo_loaded_def
    using tw_new_acc [OF tw_demo_new] by (intro wf_set_slot) (simp add: tw_acc_def tw_demo_config_def)
  define s1 where "s1 = (tw_one_tick (\<lambda>_. 30) ^^ 2) tw_demo_loaded"
  have n: "(2::nat) < tc_wheelSize (tw_config tw_demo_loaded)"
    "2 = (2 + tc_wheelSize (tw_config tw_demo_loaded) - tw_currentSlots tw_demo_loaded ! 0) mod
      tc_wheelSize (tw_config tw_demo_loaded)"
    by (simp_all add: tw_demo_loaded_def tw_demo_start_def tw_demo_config_def)
  have "case tw_processExpired (\<lambda>_. 30) (\<lambda>_ _. []) ((tw_one_tick (\<lambda>_. 30) ^^ 2) tw_demo_loaded) of
      Done _ \<Rightarrow> True | _ \<Rightarrow> False"
    by code_simp
  then obtain m s2 where p: "tw_processExpired (\<lambda>_. 30) (\<lambda>_ _. []) s1 = Done (m, s2)"
    unfolding s1_def by (auto split: tw_out.splits)
  have "tw_fired tw_demo_loaded = []" by (simp add: tw_demo_loaded_def tw_demo_start_def)
  moreover have "map we_id (filter (\<lambda>e. \<not> we_cancelled e \<and> we_expiry e \<le> 30)
      (tw_slot 0 2 ((tw_one_tick (\<lambda>_. 30) ^^ 2) tw_demo_loaded))) = [1]"
    by code_simp
  ultimately have "tw_fired s2 = [(1, 30)]"
    using timer_wheel_fires_when_reached [OF wf n s1_def p] by (auto simp: s1_def map_eq_Cons_conv)
  then show ?thesis using wf p s1_def by blast
qed

text \<open>
  Scheduling on a started wheel never returns: \<open>schedule\<close> and \<open>schedulePeriodic\<close> call
  \<open>armTimerFd\<close> with \<open>mutex_\<close> held, which calls \<open>timeUntilNextExpiry\<close>, which locks the same
  non-recursive mutex; so between \<open>start()\<close> and \<open>stop()\<close> every call with a callback (and a positive
  period) deadlocks the calling thread.
\<close>

lemma timer_wheel_schedule_deadlocks:
  assumes "tw_running s" and "p > 0"
  shows "tw_schedule clock d (Some c) s = Deadlock \<and> tw_schedulePeriodic clock p (Some c) s = Deadlock"
proof -
  have "tw_enter clock d' p' c s = Deadlock" for d' p'
    using assms(1)
    by (simp add: tw_enter_def tw_now_def Let_def tw_armTimerFd_def tw_timeUntilNextExpiry_def)
  then show ?thesis using assms(2) by (simp add: tw_schedule_def tw_schedulePeriodic_def)
qed

section \<open>Late timers\<close>

text \<open>
  The timer thread ticks before it processes. A timer with a delay below one tick goes into the
  current slot, which the next tick leaves: on a wheel of four slots a timer with delay 0 fires at
  the fourth step of the thread and not at the first.
\<close>

lemma timer_wheel_zero_delay_late:
  "map_option tw_fired (run (tw_next (\<lambda>_. 0) (\<lambda>_ _. []))
     [Schedule 0 (Some 1), Start, Thread_step, Thread_step, Thread_step] tw_demo_start) = Some [] \<and>
   map_option tw_fired (run (tw_next (\<lambda>_. 0) (\<lambda>_ _. []))
     [Schedule 0 (Some 1), Start, Thread_step, Thread_step, Thread_step, Thread_step] tw_demo_start) =
     Some [(1, 0)]"
  by code_simp

text \<open>
  \<open>advance\<close> cascades the slot of a higher wheel before it moves that wheel's cursor. A timer due in
  exactly one revolution of the first wheel (four ticks of 10, read at time 40) is still in the
  second wheel after the first cascade and fires only after the second, at tick eight.
\<close>

definition tw_late_clock :: "nat \<Rightarrow> int" where
  "tw_late_clock k = (if k \<le> 1 then 0 else 40)"

lemma timer_wheel_cascade_late:
  "map_option tw_fired (run (tw_next tw_late_clock (\<lambda>_ _. []))
     [Schedule 40 (Some 1), Tick, Tick, Tick, Tick, Process_expired] tw_demo_start) = Some []"
  "map_option tw_fired (run (tw_next tw_late_clock (\<lambda>_ _. []))
     [Schedule 40 (Some 1), Tick, Tick, Tick, Tick, Tick, Tick, Tick, Tick, Process_expired]
       tw_demo_start) = Some [(1, 40)]"
  by code_simp+

text \<open>
  A periodic timer cannot be cancelled from its own callback: while the callback runs the entry is
  in no slot, \<open>cancel\<close> finds nothing, and the timer is inserted again afterwards.
\<close>

lemma timer_wheel_self_cancel_ignored:
  "map_option (\<lambda>s. (tw_fired s, tw_activeTimers s))
     (run (tw_next tw_late_clock (\<lambda>_ _. [Call_cancel 1]))
       [Schedule_periodic 5 (Some 1), Process_expired] tw_demo_start) = Some ([(1, 40)], 1)"
  by code_simp

end
