(* ===== verification/Futex_CondVar.thy ===== *)
theory Futex_CondVar
  imports Pman_Prelude "HOL-Library.Word" "HOL-Library.Signed_Division"
begin

text \<open>
  \<open>FutexCondVar\<close> and \<open>FutexLockGuard\<close> of src/include/pman/futex.hpp and src/src/futex.cpp from the
  point of view of one thread: the kernel's answers to the futex call are an input, the state says
  whether the thread holds the mutex, and \<open>notified\<close> is how often other threads bump \<open>seq_\<close> while
  this one is inside \<open>wait_impl\<close>.
\<close>

section \<open>Waiting on the futex\<close>

datatype futex_answer = Woken | Errno nat

text \<open>
  The loop of \<open>futex_wait_internal\<close>; \<open>None\<close> says that the answers are used up and the thread still
  waits. \<open>timeout\<close> is the \<open>timespec\<close>, or \<open>None\<close> for the null pointer.
\<close>

type_synonym timespec = "int \<times> int"

fun futex_wait_internal :: "timespec option \<Rightarrow> futex_answer list \<Rightarrow> unit result option" where
  "futex_wait_internal timeout [] = None"
| "futex_wait_internal timeout (Woken # as) = Some (Inr ())"
| "futex_wait_internal timeout (Errno e # as) =
     (if e = EAGAIN then Some (Inr ())
      else if e \<noteq> EINTR then Some (Inl (System_error e))
      else if timeout \<noteq> None then Some (Inr ())
      else futex_wait_internal timeout as)"

section \<open>The condition variable\<close>

record cv =
  cv_seq :: "32 word"
  cv_holds :: bool

text \<open>
  \<open>wait_impl\<close>: the result is \<open>Inr (Some b)\<close> for a return with \<open>b\<close>, \<open>Inr None\<close> while still waiting,
  \<open>Inl\<close> for an exception; the mutex is released before the wait and taken again only on the normal
  path.
\<close>

definition cv_wait_impl :: "timespec option \<Rightarrow> futex_answer list \<Rightarrow> nat \<Rightarrow> cv \<Rightarrow> bool option result \<times> cv" where
  "cv_wait_impl timeout as notified s =
     (let seq = cv_seq s;
          s1 = s\<lparr>cv_holds := False\<rparr>;
          s2 = s1\<lparr>cv_seq := cv_seq s1 + of_nat notified\<rparr>
      in case futex_wait_internal timeout as of
           None \<Rightarrow> (Inr None, s2)
         | Some (Inl x) \<Rightarrow> (Inl x, s2)
         | Some (Inr _) \<Rightarrow> (Inr (Some (seq \<noteq> cv_seq s2)), s2\<lparr>cv_holds := True\<rparr>))"

definition cv_wait :: "futex_answer list \<Rightarrow> nat \<Rightarrow> cv \<Rightarrow> bool option result \<times> cv" where
  "cv_wait as notified s = cv_wait_impl None as notified s"

text \<open>\<open>wait_for\<close>: the \<open>timespec\<close> of a duration in nanoseconds, and the timed wait.\<close>

definition cv_timespec :: "int \<Rightarrow> timespec" where
  "cv_timespec ns = (ns sdiv 1000000000, ns smod 1000000000)"

definition cv_wait_for :: "int \<Rightarrow> futex_answer list \<Rightarrow> nat \<Rightarrow> cv \<Rightarrow> bool option result \<times> cv" where
  "cv_wait_for ns as notified s = cv_wait_impl (Some (cv_timespec ns)) as notified s"

definition cv_notify :: "cv \<Rightarrow> cv" where
  "cv_notify s = s\<lparr>cv_seq := cv_seq s + 1\<rparr>"

text \<open>\<open>~FutexLockGuard\<close>: unlocks unconditionally; the flag says whether the thread held the mutex.\<close>

definition guard_unlock :: "cv \<Rightarrow> bool \<times> cv" where
  "guard_unlock s = (cv_holds s, s\<lparr>cv_holds := False\<rparr>)"

section \<open>Lemmas\<close>

lemma futex_wait_internal_inr:
  "futex_wait_internal timeout as = Some (Inr ()) \<Longrightarrow>
    \<exists>a \<in> set as. a = Woken \<or> a = Errno EAGAIN \<or> (timeout \<noteq> None \<and> a = Errno EINTR)"
  by (induction timeout as rule: futex_wait_internal.induct) (auto split: if_splits)

text \<open>Every normal return of a wait holds the mutex again and tells whether somebody notified (up to a wrap of the 32-bit counter).\<close>

lemma cv_wait_returns:
  assumes "cv_wait_impl timeout as n s = (Inr (Some b), s')"
  shows "cv_holds s'" and "b \<longleftrightarrow> \<not> 2 ^ 32 dvd n" and "cv_seq s' = cv_seq s + of_nat n"
  using assms word_of_nat_eq_0_iff [where 'a = 32, of n]
  by (auto simp: cv_wait_impl_def Let_def split: option.splits sum.splits)

text \<open>The timespec stands for the duration it was made from.\<close>

lemma cv_timespec_exact: "case cv_timespec ns of (sec, nsec) \<Rightarrow> sec * 1000000000 + nsec = ns \<and> \<bar>nsec\<bar> < 1000000000"
  using sdiv_mult_smod_eq [of ns 1000000000]
  by (auto simp: cv_timespec_def smod_int_alt_def abs_mult abs_sgn_eq)

text \<open>An untimed wait only ends with an exception for errors the kernel does not report here.\<close>

lemma cv_wait_no_exception:
  assumes "\<forall>a \<in> set as. a \<in> {Woken, Errno EAGAIN, Errno EINTR}"
  shows "cv_wait as n s \<noteq> (Inl x, s')"
proof -
  have "futex_wait_internal None as \<noteq> Some (Inl x)"
    using assms by (induction "None :: timespec option" as rule: futex_wait_internal.induct) auto
  then show ?thesis by (auto simp: cv_wait_def cv_wait_impl_def Let_def split: option.splits sum.splits)
qed

section \<open>The timeout\<close>

text \<open>
  A timed wait does not report its timeout: when the kernel answers \<open>ETIMEDOUT\<close>,
  \<open>FutexCondVar::wait_for\<close> throws \<open>system_error(ETIMEDOUT)\<close> with the mutex released, and a
  \<open>FutexLockGuard\<close> of the caller then unlocks a mutex the thread does not hold.
\<close>

lemma condvar_timeout_throws:
  "\<exists>s'. cv_wait_for ns (Errno ETIMEDOUT # as) n s = (Inl (System_error ETIMEDOUT), s') \<and>
     \<not> cv_holds s' \<and> fst (guard_unlock s') = False"
  by (simp add: cv_wait_for_def cv_wait_impl_def Let_def ETIMEDOUT_def EAGAIN_def EINTR_def guard_unlock_def)

end
