(* ===== verification/Rate_Limiter.thy ===== *)
theory Rate_Limiter
  imports Complex_Main Futex_CondVar
begin

text \<open>
  \<open>TokenBucketRateLimiter\<close> and \<open>SlidingWindowRateLimiter\<close> of src/include/pman/rate_limiter.hpp and
  src/src/rate_limiter.cpp. Every member function runs under the limiter's mutex except inside
  \<open>cv_.wait_for\<close>, so the model is sequential with an input for what the kernel answers and what
  other threads do during each wait. \<open>double\<close> is modelled by exact rational arithmetic, time by
  integer nanoseconds; \<open>clock k\<close> is the k-th reading of \<open>steady_clock\<close>, documented to be monotone.
  Nothing in the class notifies \<open>cv_\<close>.
\<close>

section \<open>Token bucket\<close>

record tb_config =
  tokensPerSecond :: rat
  burstSize :: rat
  initialTokens :: rat

text \<open>\<open>tb_granted\<close> records the tokens handed out so far; the code itself keeps no such sum.\<close>

record tb =
  tb_config :: tb_config
  tb_tokens :: rat
  tb_lastRefill :: int
  tb_reads :: nat
  tb_granted :: rat

definition tb_new :: "(nat \<Rightarrow> int) \<Rightarrow> tb_config \<Rightarrow> tb result" where
  "tb_new clock cfg =
     (if tokensPerSecond cfg \<le> 0 then Inl Invalid_argument
      else if burstSize cfg \<le> 0 then Inl Invalid_argument
      else Inr \<lparr>tb_config = cfg,
             tb_tokens = (if initialTokens cfg \<ge> 0 then initialTokens cfg else burstSize cfg),
             tb_lastRefill = clock 0, tb_reads = 1, tb_granted = 0\<rparr>)"

definition seconds :: "int \<Rightarrow> rat" where
  "seconds ns = of_int ns / 1000000000"

definition tb_refill :: "(nat \<Rightarrow> int) \<Rightarrow> tb \<Rightarrow> tb" where
  "tb_refill clock s =
     (let now = clock (tb_reads s); elapsed = seconds (now - tb_lastRefill s) in
      s\<lparr>tb_tokens := min (tb_tokens s + elapsed * tokensPerSecond (tb_config s)) (burstSize (tb_config s)),
        tb_lastRefill := now, tb_reads := tb_reads s + 1\<rparr>)"

definition tb_take :: "rat \<Rightarrow> tb \<Rightarrow> tb" where
  "tb_take tokens s = s\<lparr>tb_tokens := tb_tokens s - tokens, tb_granted := tb_granted s + tokens\<rparr>"

definition tb_tryAcquire :: "(nat \<Rightarrow> int) \<Rightarrow> rat \<Rightarrow> tb \<Rightarrow> bool result \<times> tb" where
  "tb_tryAcquire clock tokens s =
     (if tokens \<le> 0 then (Inl Invalid_argument, s)
      else (let s1 = tb_refill clock s in
            if tb_tokens s1 \<ge> tokens then (Inr True, tb_take tokens s1)
            else (Inr False, s1)))"

definition tb_waitTime :: "rat \<Rightarrow> tb \<Rightarrow> int" where
  "tb_waitTime tokens s =
     \<lfloor>(tokens - tb_tokens s) / tokensPerSecond (tb_config s) * 1000000000\<rfloor>"

text \<open>
  What happens during one wait: the kernel's answers and the token amounts other threads try to
  acquire meanwhile. The result of \<open>acquire\<close> is \<open>None\<close> while it still waits; the flag is whether the
  thread holds the mutex when \<open>acquire\<close> is left.
\<close>

type_synonym tb_wait = "futex_answer list \<times> rat list"

definition tb_others :: "(nat \<Rightarrow> int) \<Rightarrow> rat list \<Rightarrow> tb \<Rightarrow> tb" where
  "tb_others clock ts s = fold (\<lambda>t s. snd (tb_tryAcquire clock t s)) ts s"

fun tb_acquire_loop :: "(nat \<Rightarrow> int) \<Rightarrow> rat \<Rightarrow> tb_wait list \<Rightarrow> tb \<Rightarrow> unit result option \<times> bool \<times> tb" where
  "tb_acquire_loop clock tokens ws s =
     (let s1 = tb_refill clock s in
      if tb_tokens s1 \<ge> tokens
      then (Some (Inr ()), True, tb_take tokens s1)
      else case ws of
        [] \<Rightarrow> (None, False, s1)
      | (as, ts) # ws' \<Rightarrow>
          (let s2 = tb_others clock ts s1 in
           case cv_wait_for (tb_waitTime tokens s1) as 0 \<lparr>cv_seq = 0, cv_holds = True\<rparr> of
             (Inl x, c) \<Rightarrow> (Some (Inl x), cv_holds c, s2)
           | (Inr None, c) \<Rightarrow> (None, cv_holds c, s2)
           | (Inr (Some _), c) \<Rightarrow> tb_acquire_loop clock tokens ws' s2))"

definition tb_acquire :: "(nat \<Rightarrow> int) \<Rightarrow> rat \<Rightarrow> tb_wait list \<Rightarrow> tb \<Rightarrow> unit result option \<times> bool \<times> tb" where
  "tb_acquire clock tokens ws s =
     (if tokens \<le> 0 then (Some (Inl Invalid_argument), False, s)
      else tb_acquire_loop clock tokens ws s)"

text \<open>The loop of \<open>tryAcquireFor\<close>, which has no check of its argument.\<close>

fun tb_tryAcquireFor_loop :: "(nat \<Rightarrow> int) \<Rightarrow> rat \<Rightarrow> int \<Rightarrow> tb_wait list \<Rightarrow> tb \<Rightarrow>
    bool result option \<times> bool \<times> tb" where
  "tb_tryAcquireFor_loop clock tokens deadline ws s =
     (let s1 = tb_refill clock s in
      if tb_tokens s1 \<ge> tokens
      then (Some (Inr True), True, tb_take tokens s1)
      else (let now = clock (tb_reads s1); s2 = s1\<lparr>tb_reads := tb_reads s1 + 1\<rparr> in
        if now \<ge> deadline then (Some (Inr False), True, s2)
        else case ws of
          [] \<Rightarrow> (None, False, s2)
        | (as, ts) # ws' \<Rightarrow>
            (let waitTime = min (tb_waitTime tokens s2) (deadline - now);
                 s3 = tb_others clock ts s2 in
             case cv_wait_for waitTime as 0 \<lparr>cv_seq = 0, cv_holds = True\<rparr> of
               (Inl x, c) \<Rightarrow> (Some (Inl x), cv_holds c, s3)
             | (Inr None, c) \<Rightarrow> (None, cv_holds c, s3)
             | (Inr (Some _), c) \<Rightarrow> tb_tryAcquireFor_loop clock tokens deadline ws' s3)))"

definition tb_tryAcquireFor :: "(nat \<Rightarrow> int) \<Rightarrow> rat \<Rightarrow> int \<Rightarrow> tb_wait list \<Rightarrow> tb \<Rightarrow>
    bool result option \<times> bool \<times> tb" where
  "tb_tryAcquireFor clock tokens timeout ws s =
     tb_tryAcquireFor_loop clock tokens (clock (tb_reads s) + timeout) ws (s\<lparr>tb_reads := tb_reads s + 1\<rparr>)"

definition tb_availableTokens :: "(nat \<Rightarrow> int) \<Rightarrow> tb \<Rightarrow> rat" where
  "tb_availableTokens clock s =
     min (tb_tokens s + seconds (clock (tb_reads s) - tb_lastRefill s) * tokensPerSecond (tb_config s))
       (burstSize (tb_config s))"

definition tb_timeUntilAvailable :: "(nat \<Rightarrow> int) \<Rightarrow> rat \<Rightarrow> tb \<Rightarrow> int" where
  "tb_timeUntilAvailable clock tokens s =
     (let current = tb_availableTokens clock s in
      if current \<ge> tokens then 0
      else \<lfloor>(tokens - current) / tokensPerSecond (tb_config s) * 1000000000\<rfloor>)"

section \<open>Sliding window\<close>

record sw_config =
  maxRequests :: nat
  windowDuration :: int

text \<open>\<open>sw_granted\<close> records every admission; the code itself keeps only \<open>timestamps_\<close>.\<close>

record sw =
  sw_config :: sw_config
  sw_timestamps :: "int list"
  sw_reads :: nat
  sw_granted :: "int list"

definition sw_new :: "sw_config \<Rightarrow> sw result" where
  "sw_new cfg =
     (if maxRequests cfg = 0 then Inl Invalid_argument
      else if windowDuration cfg \<le> 0 then Inl Invalid_argument
      else Inr \<lparr>sw_config = cfg, sw_timestamps = [], sw_reads = 0, sw_granted = []\<rparr>)"

definition sw_now :: "(nat \<Rightarrow> int) \<Rightarrow> sw \<Rightarrow> int \<times> sw" where
  "sw_now clock s = (clock (sw_reads s), s\<lparr>sw_reads := sw_reads s + 1\<rparr>)"

definition sw_cleanup :: "(nat \<Rightarrow> int) \<Rightarrow> sw \<Rightarrow> sw" where
  "sw_cleanup clock s =
     (let (now, s1) = sw_now clock s; cutoff = now - windowDuration (sw_config s) in
      s1\<lparr>sw_timestamps := dropWhile (\<lambda>ts. ts < cutoff) (sw_timestamps s1)\<rparr>)"

definition sw_admit :: "(nat \<Rightarrow> int) \<Rightarrow> sw \<Rightarrow> sw" where
  "sw_admit clock s =
     (let (now, s1) = sw_now clock s in
      s1\<lparr>sw_timestamps := sw_timestamps s1 @ [now], sw_granted := sw_granted s1 @ [now]\<rparr>)"

definition sw_tryAcquire :: "(nat \<Rightarrow> int) \<Rightarrow> sw \<Rightarrow> bool \<times> sw" where
  "sw_tryAcquire clock s =
     (let s1 = sw_cleanup clock s in
      if length (sw_timestamps s1) < maxRequests (sw_config s1) then (True, sw_admit clock s1)
      else (False, s1))"

text \<open>During a wait other threads may call \<open>tryAcquire\<close> a number of times.\<close>

definition sw_others :: "(nat \<Rightarrow> int) \<Rightarrow> nat \<Rightarrow> sw \<Rightarrow> sw" where
  "sw_others clock n s = ((\<lambda>s. snd (sw_tryAcquire clock s)) ^^ n) s"

fun sw_acquire :: "(nat \<Rightarrow> int) \<Rightarrow> (futex_answer list \<times> nat) list \<Rightarrow> sw \<Rightarrow>
    unit result option \<times> bool \<times> sw" where
  "sw_acquire clock ws s =
     (let s1 = sw_cleanup clock s in
      if length (sw_timestamps s1) < maxRequests (sw_config s1)
      then (Some (Inr ()), True, sw_admit clock s1)
      else (let (now, s2) = sw_now clock s1;
                oldestExpiry = hd (sw_timestamps s2) + windowDuration (sw_config s2);
                waitTime = (if oldestExpiry > now then oldestExpiry - now else 0) in
        case ws of
          [] \<Rightarrow> (None, False, s2)
        | (as, n) # ws' \<Rightarrow>
            (let s3 = sw_others clock n s2 in
             case cv_wait_for waitTime as 0 \<lparr>cv_seq = 0, cv_holds = True\<rparr> of
               (Inl x, c) \<Rightarrow> (Some (Inl x), cv_holds c, s3)
             | (Inr None, c) \<Rightarrow> (None, cv_holds c, s3)
             | (Inr (Some _), c) \<Rightarrow> sw_acquire clock ws' s3)))"

fun sw_tryAcquireFor_loop :: "(nat \<Rightarrow> int) \<Rightarrow> int \<Rightarrow> (futex_answer list \<times> nat) list \<Rightarrow> sw \<Rightarrow>
    bool result option \<times> bool \<times> sw" where
  "sw_tryAcquireFor_loop clock deadline ws s =
     (let s1 = sw_cleanup clock s in
      if length (sw_timestamps s1) < maxRequests (sw_config s1)
      then (Some (Inr True), True, sw_admit clock s1)
      else (let (now, s2) = sw_now clock s1 in
        if now \<ge> deadline then (Some (Inr False), True, s2)
        else (let oldestExpiry = hd (sw_timestamps s2) + windowDuration (sw_config s2);
                  waitTime = min (if oldestExpiry > now then oldestExpiry - now else 0) (deadline - now) in
          case ws of
            [] \<Rightarrow> (None, False, s2)
          | (as, n) # ws' \<Rightarrow>
              (let s3 = sw_others clock n s2 in
               case cv_wait_for waitTime as 0 \<lparr>cv_seq = 0, cv_holds = True\<rparr> of
                 (Inl x, c) \<Rightarrow> (Some (Inl x), cv_holds c, s3)
               | (Inr None, c) \<Rightarrow> (None, cv_holds c, s3)
               | (Inr (Some _), c) \<Rightarrow> sw_tryAcquireFor_loop clock deadline ws' s3))))"

definition sw_tryAcquireFor :: "(nat \<Rightarrow> int) \<Rightarrow> int \<Rightarrow> (futex_answer list \<times> nat) list \<Rightarrow> sw \<Rightarrow>
    bool result option \<times> bool \<times> sw" where
  "sw_tryAcquireFor clock timeout ws s =
     (case sw_now clock s of (now, s1) \<Rightarrow> sw_tryAcquireFor_loop clock (now + timeout) ws s1)"

definition sw_remainingRequests :: "(nat \<Rightarrow> int) \<Rightarrow> sw \<Rightarrow> nat" where
  "sw_remainingRequests clock s =
     (let cutoff = clock (sw_reads s) - windowDuration (sw_config s);
          valid = length (filter (\<lambda>ts. ts \<ge> cutoff) (sw_timestamps s)) in
      if maxRequests (sw_config s) > valid then maxRequests (sw_config s) - valid else 0)"

definition sw_timeUntilReset :: "(nat \<Rightarrow> int) \<Rightarrow> sw \<Rightarrow> int" where
  "sw_timeUntilReset clock s =
     (if sw_timestamps s = [] then 0
      else (let now = clock (sw_reads s); cutoff = now - windowDuration (sw_config s) in
            case find (\<lambda>ts. ts \<ge> cutoff) (sw_timestamps s) of
              None \<Rightarrow> 0
            | Some ts \<Rightarrow> (ts + windowDuration (sw_config s)) - now))"


declare tb_acquire_loop.simps [simp del]
declare tb_tryAcquireFor_loop.simps [simp del]
declare sw_acquire.simps [simp del]
declare sw_tryAcquireFor_loop.simps [simp del]

section \<open>Whole runs\<close>

text \<open>Any sequence of calls on one limiter; the calls of other threads during a wait are part of it.\<close>

datatype tb_op =
    Tb_tryAcquire rat
  | Tb_acquire rat "tb_wait list"
  | Tb_tryAcquireFor rat int "tb_wait list"

fun tb_exec :: "(nat \<Rightarrow> int) \<Rightarrow> tb_op \<Rightarrow> tb \<Rightarrow> tb" where
  "tb_exec clock (Tb_tryAcquire t) s = snd (tb_tryAcquire clock t s)"
| "tb_exec clock (Tb_acquire t ws) s = snd (snd (tb_acquire clock t ws s))"
| "tb_exec clock (Tb_tryAcquireFor t d ws) s = snd (snd (tb_tryAcquireFor clock t d ws s))"

fun tb_op_pos :: "tb_op \<Rightarrow> bool" where
  "tb_op_pos (Tb_tryAcquire t) = (t > 0)"
| "tb_op_pos (Tb_acquire t ws) = (t > 0)"
| "tb_op_pos (Tb_tryAcquireFor t d ws) = (t > 0)"

definition tb_run :: "(nat \<Rightarrow> int) \<Rightarrow> tb_op list \<Rightarrow> tb \<Rightarrow> tb" where
  "tb_run clock ops s = fold (tb_exec clock) ops s"

datatype sw_op =
    Sw_tryAcquire
  | Sw_acquire "(futex_answer list \<times> nat) list"
  | Sw_tryAcquireFor int "(futex_answer list \<times> nat) list"

fun sw_exec :: "(nat \<Rightarrow> int) \<Rightarrow> sw_op \<Rightarrow> sw \<Rightarrow> sw" where
  "sw_exec clock Sw_tryAcquire s = snd (sw_tryAcquire clock s)"
| "sw_exec clock (Sw_acquire ws) s = snd (snd (sw_acquire clock ws s))"
| "sw_exec clock (Sw_tryAcquireFor d ws) s = snd (snd (sw_tryAcquireFor clock d ws s))"

definition sw_run :: "(nat \<Rightarrow> int) \<Rightarrow> sw_op list \<Rightarrow> sw \<Rightarrow> sw" where
  "sw_run clock ops s = fold (sw_exec clock) ops s"

definition sw_count :: "int \<Rightarrow> sw \<Rightarrow> nat" where
  "sw_count x s = length (filter (\<lambda>t. x \<le> t \<and> t \<le> x + windowDuration (sw_config s)) (sw_granted s))"

section \<open>Token bucket: the invariant\<close>

lemma seconds_diff: "seconds (a - b) = seconds a - seconds b"
  by (simp add: seconds_def diff_divide_distrib)

lemma seconds_mono: "a \<le> b \<Longrightarrow> seconds a \<le> seconds b"
  by (simp add: seconds_def divide_right_mono)

text \<open>
  The potential: what was handed out plus what is in the bucket, less what time has produced. No
  operation increases it.
\<close>

definition tb_pot :: "tb \<Rightarrow> rat" where
  "tb_pot s = tb_granted s + tb_tokens s - seconds (tb_lastRefill s) * tokensPerSecond (tb_config s)"

definition tb_since :: "(nat \<Rightarrow> int) \<Rightarrow> tb \<Rightarrow> tb \<Rightarrow> bool" where
  "tb_since clock s0 s \<longleftrightarrow>
     tb_config s = tb_config s0 \<and> tokensPerSecond (tb_config s) > 0 \<and> burstSize (tb_config s) > 0 \<and>
     0 \<le> tb_tokens s \<and> tb_lastRefill s \<le> clock (tb_reads s) \<and> tb_pot s \<le> tb_pot s0"

definition tb_capped :: "tb \<Rightarrow> bool" where
  "tb_capped s \<longleftrightarrow> tb_tokens s \<le> burstSize (tb_config s)"

lemma tb_refill_since:
  assumes "mono clock" "tb_since clock s0 s"
  shows "tb_since clock s0 (tb_refill clock s)"
proof -
  let ?e = "seconds (clock (tb_reads s) - tb_lastRefill s) * tokensPerSecond (tb_config s)"
  have e: "0 \<le> ?e" using assms(2) by (auto simp: tb_since_def seconds_def)
  have "clock (tb_reads s) \<le> clock (Suc (tb_reads s))" by (rule monoD [OF assms(1)]) simp
  moreover have "tb_pot (tb_refill clock s) \<le> tb_pot s"
    by (simp add: tb_pot_def tb_refill_def Let_def seconds_diff algebra_simps)
  ultimately show ?thesis using assms(2) e by (auto simp: tb_since_def tb_refill_def Let_def)
qed

lemma tb_refill_capped: "tb_capped (tb_refill clock s)"
  by (simp add: tb_capped_def tb_refill_def Let_def)

lemma tb_take_since:
  "tb_since clock s0 s \<Longrightarrow> t \<le> tb_tokens s \<Longrightarrow> tb_since clock s0 (tb_take t s)"
  by (auto simp: tb_since_def tb_take_def tb_pot_def)

lemma tb_take_capped: "tb_capped s \<Longrightarrow> 0 \<le> t \<Longrightarrow> tb_capped (tb_take t s)"
  by (simp add: tb_capped_def tb_take_def)

lemma tb_read_since:
  assumes "mono clock" "tb_since clock s0 s"
  shows "tb_since clock s0 (s\<lparr>tb_reads := Suc (tb_reads s)\<rparr>)"
proof -
  have "clock (tb_reads s) \<le> clock (Suc (tb_reads s))" by (rule monoD [OF assms(1)]) simp
  then show ?thesis using assms(2) by (auto simp: tb_since_def tb_pot_def)
qed

lemma tb_read_capped [simp]: "tb_capped (s\<lparr>tb_reads := n\<rparr>) = tb_capped s"
  by (simp add: tb_capped_def)

lemmas tb_keep = tb_refill_since tb_take_since tb_read_since tb_refill_capped tb_take_capped

lemma tb_tryAcquire_keeps:
  assumes "mono clock" "tb_since clock s0 s"
  shows "tb_since clock s0 (snd (tb_tryAcquire clock t s))"
    and "tb_capped s \<or> t > 0 \<Longrightarrow> tb_capped (snd (tb_tryAcquire clock t s))"
  using assms by (auto simp: tb_tryAcquire_def Let_def intro!: tb_keep)

lemma tb_others_keeps:
  assumes "mono clock" "tb_since clock s0 s" "tb_capped s"
  shows "tb_since clock s0 (tb_others clock ts s) \<and> tb_capped (tb_others clock ts s)"
  using assms(2,3) unfolding tb_others_def
  by (induction ts arbitrary: s) (simp_all add: tb_tryAcquire_keeps [OF assms(1)])

lemma tb_acquire_loop_keeps:
  assumes "mono clock" "0 < t"
  shows "tb_since clock s0 s \<Longrightarrow>
    tb_since clock s0 (snd (snd (tb_acquire_loop clock t ws s))) \<and>
    tb_capped (snd (snd (tb_acquire_loop clock t ws s)))"
proof (induction ws arbitrary: s)
  case Nil
  then show ?case
    using assms by (auto simp: tb_acquire_loop.simps [where ws = "[]"] Let_def intro!: tb_keep)
next
  case (Cons w ws)
  obtain as ts where w: "w = (as, ts)" by (cases w)
  have r: "tb_since clock s0 (tb_refill clock s)" using Cons.prems assms by (intro tb_keep)
  note o = tb_others_keeps [OF assms(1) r tb_refill_capped, of ts]
  show ?case
    using assms r o Cons.IH [OF conjunct1 [OF o]]
    by (auto simp: tb_acquire_loop.simps [where ws = "(as, ts) # ws"] w Let_def
          intro!: tb_keep split: prod.splits sum.splits option.splits)
qed

lemma tb_tryAcquireFor_loop_keeps:
  assumes "mono clock" "0 < t"
  shows "tb_since clock s0 s \<Longrightarrow>
    tb_since clock s0 (snd (snd (tb_tryAcquireFor_loop clock t d ws s))) \<and>
    tb_capped (snd (snd (tb_tryAcquireFor_loop clock t d ws s)))"
proof (induction ws arbitrary: s)
  case Nil
  then show ?case
    using assms by (auto simp: tb_tryAcquireFor_loop.simps [where ws = "[]"] Let_def intro!: tb_keep)
next
  case (Cons w ws)
  obtain as ts where w: "w = (as, ts)" by (cases w)
  let ?s1 = "tb_refill clock s"
  let ?s2 = "?s1\<lparr>tb_reads := Suc (tb_reads ?s1)\<rparr>"
  have r: "tb_since clock s0 ?s1" by (rule tb_refill_since [OF assms(1) Cons.prems])
  have r2: "tb_since clock s0 ?s2" by (rule tb_read_since [OF assms(1) r])
  have c2: "tb_capped ?s2" by (simp add: tb_refill_capped)
  note o = tb_others_keeps [OF assms(1) r2 c2, of ts]
  show ?case
    using assms r r2 c2 o Cons.IH [OF conjunct1 [OF o]]
    by (auto simp: tb_tryAcquireFor_loop.simps [where ws = "(as, ts) # ws"] w Let_def
          intro!: tb_keep split: prod.splits sum.splits option.splits)
qed

lemma tb_exec_keeps:
  assumes "mono clock" "tb_op_pos op" "tb_since clock s0 s"
  shows "tb_since clock s0 (tb_exec clock op s) \<and> tb_capped (tb_exec clock op s)"
proof (cases op)
  case (Tb_tryAcquireFor t d ws)
  then show ?thesis
    using assms tb_tryAcquireFor_loop_keeps [OF assms(1) _ tb_read_since [OF assms(1,3)], of t]
    by (simp add: tb_tryAcquireFor_def)
qed (use assms in \<open>auto simp: tb_tryAcquire_keeps tb_acquire_def tb_acquire_loop_keeps\<close>)

lemma tb_run_keeps:
  assumes "mono clock" "list_all tb_op_pos ops" "tb_since clock s0 s"
  shows "tb_since clock s0 (tb_run clock ops s) \<and>
    (tb_capped s \<or> ops \<noteq> [] \<longrightarrow> tb_capped (tb_run clock ops s))"
  using assms(2,3) unfolding tb_run_def
  by (induction ops arbitrary: s) (auto simp: tb_exec_keeps [OF assms(1)])

lemma tb_since_refl:
  "tb_since clock s0 s \<Longrightarrow> tb_since clock s s"
  by (auto simp: tb_since_def)

lemma tb_new_since:
  assumes "mono clock" "tb_new clock cfg = Inr s"
  shows "tb_since clock s s"
proof -
  have "clock 0 \<le> clock (Suc 0)" by (rule monoD [OF assms(1)]) simp
  then show ?thesis using assms(2) by (auto simp: tb_new_def tb_since_def split: if_splits)
qed

section \<open>Sliding window: the invariant\<close>

text \<open>
  The queue is the unexpired end of the admission history, the history is sorted and in the past,
  what was dropped has left every window that can still be formed, and no window is over-full.
\<close>

definition sw_inv :: "(nat \<Rightarrow> int) \<Rightarrow> sw_config \<Rightarrow> sw \<Rightarrow> bool" where
  "sw_inv clock cfg s \<longleftrightarrow>
     sw_config s = cfg \<and> maxRequests (sw_config s) > 0 \<and> windowDuration (sw_config s) > 0 \<and>
     sorted (sw_granted s) \<and> (\<forall>t \<in> set (sw_granted s). t \<le> clock (sw_reads s)) \<and>
     (\<exists>pre. sw_granted s = pre @ sw_timestamps s \<and>
        (\<forall>t \<in> set pre. t + windowDuration (sw_config s) < clock (sw_reads s))) \<and>
     (\<forall>x. sw_count x s \<le> maxRequests (sw_config s))"

lemma clock_Suc: "mono clock \<Longrightarrow> clock n \<le> (clock (Suc n) :: int)"
  by (erule monoD) simp

lemma dropWhile_sorted_eq:
  "sorted xs \<Longrightarrow> dropWhile (\<lambda>t. t < c) xs = filter (\<lambda>t. t \<ge> (c :: int)) xs"
  by (induction xs) (auto intro!: filter_True [symmetric])

lemma sw_read_inv:
  assumes "mono clock" "sw_inv clock cfg s"
  shows "sw_inv clock cfg (s\<lparr>sw_reads := Suc (sw_reads s)\<rparr>)"
proof -
  have c: "clock (sw_reads s) \<le> clock (Suc (sw_reads s))" by (rule clock_Suc [OF assms(1)])
  from assms(2) obtain pre where pre: "sw_granted s = pre @ sw_timestamps s"
    "\<forall>t \<in> set pre. t + windowDuration (sw_config s) < clock (sw_reads s)"
    by (auto simp: sw_inv_def)
  have "\<exists>pre. sw_granted s = pre @ sw_timestamps s \<and>
      (\<forall>t \<in> set pre. t + windowDuration (sw_config s) < clock (Suc (sw_reads s)))"
    using pre c by (intro exI [of _ pre]) auto
  moreover have "\<forall>t \<in> set (sw_granted s). t \<le> clock (Suc (sw_reads s))"
    using assms(2) c by (auto simp: sw_inv_def)
  ultimately show ?thesis using assms(2) unfolding sw_inv_def sw_count_def by (elim conjE) simp
qed

lemma sw_drop_inv:
  assumes "sw_inv clock cfg s" and "\<And>t. P t \<Longrightarrow> t + windowDuration (sw_config s) < clock (sw_reads s)"
  shows "sw_inv clock cfg (s\<lparr>sw_timestamps := dropWhile P (sw_timestamps s)\<rparr>)"
proof -
  from assms(1) obtain pre where pre: "sw_granted s = pre @ sw_timestamps s"
    "\<forall>t \<in> set pre. t + windowDuration (sw_config s) < clock (sw_reads s)"
    by (auto simp: sw_inv_def)
  have "sw_granted s = (pre @ takeWhile P (sw_timestamps s)) @ dropWhile P (sw_timestamps s)"
    by (simp add: pre(1))
  moreover have "\<forall>t \<in> set (pre @ takeWhile P (sw_timestamps s)).
      t + windowDuration (sw_config s) < clock (sw_reads s)"
    using pre(2) assms(2) by (auto dest: set_takeWhileD)
  ultimately have "\<exists>pre. sw_granted s = pre @ dropWhile P (sw_timestamps s) \<and>
      (\<forall>t \<in> set pre. t + windowDuration (sw_config s) < clock (sw_reads s))" by blast
  with assms(1) show ?thesis unfolding sw_inv_def sw_count_def by (elim conjE) simp
qed

lemma sw_cleanup_inv:
  assumes "mono clock" "sw_inv clock cfg s"
  shows "sw_inv clock cfg (sw_cleanup clock s)"
proof -
  let ?s = "s\<lparr>sw_reads := Suc (sw_reads s)\<rparr>"
  have "sw_inv clock cfg (?s\<lparr>sw_timestamps := dropWhile
      (\<lambda>ts. ts < clock (sw_reads s) - windowDuration (sw_config s)) (sw_timestamps ?s)\<rparr>)"
    by (rule sw_drop_inv [OF sw_read_inv [OF assms]])
       (use clock_Suc [OF assms(1), of "sw_reads s"] in auto)
  then show ?thesis by (simp add: sw_cleanup_def sw_now_def Let_def)
qed

text \<open>An admission with room in the queue: a window that reaches the new time sees only the queue.\<close>

lemma sw_admit_count:
  assumes inv: "sw_inv clock cfg s" and room: "length (sw_timestamps s) < maxRequests (sw_config s)"
  shows "length (filter (\<lambda>t. x \<le> t \<and> t \<le> x + windowDuration (sw_config s))
           (sw_granted s @ [clock (sw_reads s)])) \<le> maxRequests (sw_config s)"
proof (cases "x \<le> clock (sw_reads s) \<and> clock (sw_reads s) \<le> x + windowDuration (sw_config s)")
  case True
  from inv obtain pre where pre: "sw_granted s = pre @ sw_timestamps s"
    "\<forall>t \<in> set pre. t + windowDuration (sw_config s) < clock (sw_reads s)"
    by (auto simp: sw_inv_def)
  have "filter (\<lambda>t. x \<le> t \<and> t \<le> x + windowDuration (sw_config s)) pre = []"
    using pre(2) True by (fastforce simp: filter_empty_conv)
  moreover have "length (filter (\<lambda>t. x \<le> t \<and> t \<le> x + windowDuration (sw_config s)) (sw_timestamps s))
      \<le> length (sw_timestamps s)" by (rule length_filter_le)
  ultimately show ?thesis using True room by (simp add: pre(1) del: length_filter_le)
next
  case False
  then show ?thesis using inv by (auto simp: sw_inv_def sw_count_def)
qed

lemma sw_admit_inv:
  assumes "mono clock" "sw_inv clock cfg s" "length (sw_timestamps s) < maxRequests (sw_config s)"
  shows "sw_inv clock cfg (sw_admit clock s)"
proof -
  have c: "clock (sw_reads s) \<le> clock (Suc (sw_reads s))" by (rule clock_Suc [OF assms(1)])
  from assms(2) obtain pre where pre: "sw_granted s = pre @ sw_timestamps s"
    "\<forall>t \<in> set pre. t + windowDuration (sw_config s) < clock (sw_reads s)"
    by (auto simp: sw_inv_def)
  have "\<exists>pre'. sw_granted s @ [clock (sw_reads s)] = pre' @ sw_timestamps s @ [clock (sw_reads s)] \<and>
      (\<forall>t \<in> set pre'. t + windowDuration (sw_config s) < clock (Suc (sw_reads s)))"
    using pre c by (intro exI [of _ pre]) fastforce
  moreover have "sorted (sw_granted s @ [clock (sw_reads s)])"
    using assms(2) by (auto simp: sw_inv_def sorted_append)
  moreover have "\<forall>t \<in> set (sw_granted s @ [clock (sw_reads s)]). t \<le> clock (Suc (sw_reads s))"
    using assms(2) c by (fastforce simp: sw_inv_def)
  ultimately show ?thesis
    using assms(2) sw_admit_count [OF assms(2,3)]
    unfolding sw_inv_def sw_count_def by (elim conjE) (simp add: sw_admit_def sw_now_def Let_def)
qed

lemmas sw_keep = sw_cleanup_inv sw_admit_inv sw_read_inv

lemma sw_tryAcquire_inv:
  "mono clock \<Longrightarrow> sw_inv clock cfg s \<Longrightarrow> sw_inv clock cfg (snd (sw_tryAcquire clock s))"
  by (auto simp: sw_tryAcquire_def Let_def intro: sw_keep)

lemma sw_others_inv:
  "mono clock \<Longrightarrow> sw_inv clock cfg s \<Longrightarrow> sw_inv clock cfg (sw_others clock n s)"
  unfolding sw_others_def by (induction n) (auto intro: sw_tryAcquire_inv)

lemma sw_acquire_inv:
  assumes "mono clock"
  shows "sw_inv clock cfg s \<Longrightarrow> sw_inv clock cfg (snd (snd (sw_acquire clock ws s)))"
proof (induction ws arbitrary: s)
  case Nil
  then show ?case
    using assms by (auto simp: sw_acquire.simps [where ws = "[]"] Let_def sw_now_def intro!: sw_keep)
next
  case (Cons w ws)
  obtain as n where w: "w = (as, n)" by (cases w)
  let ?s1 = "sw_cleanup clock s"
  let ?s2 = "?s1\<lparr>sw_reads := Suc (sw_reads ?s1)\<rparr>"
  have r1: "sw_inv clock cfg ?s1" by (rule sw_cleanup_inv [OF assms Cons.prems])
  note o = sw_others_inv [OF assms sw_read_inv [OF assms r1], of n]
  show ?case
    using sw_admit_inv [OF assms r1] o Cons.IH [OF o]
    by (auto simp: sw_acquire.simps [where ws = "(as, n) # ws"] w Let_def sw_now_def
          split: prod.splits sum.splits option.splits)
qed

lemma sw_tryAcquireFor_loop_inv:
  assumes "mono clock"
  shows "sw_inv clock cfg s \<Longrightarrow> sw_inv clock cfg (snd (snd (sw_tryAcquireFor_loop clock d ws s)))"
proof (induction ws arbitrary: s)
  case Nil
  then show ?case
    using assms
    by (auto simp: sw_tryAcquireFor_loop.simps [where ws = "[]"] Let_def sw_now_def intro!: sw_keep)
next
  case (Cons w ws)
  obtain as n where w: "w = (as, n)" by (cases w)
  let ?s1 = "sw_cleanup clock s"
  let ?s2 = "?s1\<lparr>sw_reads := Suc (sw_reads ?s1)\<rparr>"
  have r1: "sw_inv clock cfg ?s1" by (rule sw_cleanup_inv [OF assms Cons.prems])
  note r2 = sw_read_inv [OF assms r1]
  note o = sw_others_inv [OF assms r2, of n]
  show ?case
    using sw_admit_inv [OF assms r1] r2 o Cons.IH [OF o]
    by (auto simp: sw_tryAcquireFor_loop.simps [where ws = "(as, n) # ws"] w Let_def sw_now_def
          split: prod.splits sum.splits option.splits)
qed

lemma sw_exec_inv:
  assumes "mono clock" "sw_inv clock cfg s"
  shows "sw_inv clock cfg (sw_exec clock op s)"
proof (cases op)
  case (Sw_tryAcquireFor d ws)
  then show ?thesis
    using sw_tryAcquireFor_loop_inv [OF assms(1) sw_read_inv [OF assms]]
    by (simp add: sw_tryAcquireFor_def sw_now_def)
qed (use assms in \<open>auto simp: sw_tryAcquire_inv sw_acquire_inv\<close>)

lemma sw_run_inv:
  assumes "mono clock" "sw_inv clock cfg s"
  shows "sw_inv clock cfg (sw_run clock ops s)"
  using assms(2) unfolding sw_run_def
  by (induction ops arbitrary: s) (auto simp: sw_exec_inv [OF assms(1)])

lemma sw_new_inv: "sw_new cfg = Inr s \<Longrightarrow> sw_inv clock cfg s"
  by (auto simp: sw_new_def sw_inv_def sw_count_def split: if_splits)


section \<open>Waiting times\<close>

lemma tb_available_later:
  "tb_tokens s + seconds (b - tb_lastRefill s) * r =
     tb_tokens s + seconds (a - tb_lastRefill s) * r + seconds (b - a) * r"
  by (simp add: seconds_diff algebra_simps)

lemma seconds_times_ge:
  assumes "0 < r" "\<lfloor>n / r * 1000000000\<rfloor> < d"
  shows "n \<le> seconds d * r"
proof -
  have "n / r * 1000000000 < of_int d" using assms(2) by (simp add: floor_less_iff)
  then have "n < of_int d / 1000000000 * r" using assms(1) by (simp add: field_simps)
  then show ?thesis by (simp add: seconds_def)
qed

lemma seconds_times_less:
  assumes "0 < r" "d < \<lfloor>n / r * 1000000000\<rfloor>"
  shows "seconds d * r < n"
proof -
  have "of_int d < n / r * 1000000000"
    by (rule less_le_trans [OF _ of_int_floor_le]) (simp only: of_int_less_iff assms(2))
  then have "of_int d / 1000000000 * r < n" using assms(1) by (simp add: field_simps)
  then show ?thesis by (simp add: seconds_def)
qed

lemma tb_tryAcquire_iff:
  "0 < t \<Longrightarrow> fst (tb_tryAcquire clock t s) = Inr (t \<le> tb_availableTokens clock s)"
  by (simp add: tb_tryAcquire_def tb_refill_def tb_availableTokens_def Let_def)

section \<open>Properties\<close>


text \<open>
  \<open>timeUntilAvailable\<close> is exact to its truncation to a nanosecond: for an amount the bucket
  can hold, with no other call in between, a \<open>tryAcquire\<close> more than the reported time later succeeds
  and one less than the reported time later fails.
\<close>

lemma tb_wait_exact:
  assumes "tokensPerSecond (tb_config s) > 0" "0 < t" "t \<le> burstSize (tb_config s)"
    and "clock (tb_reads s) \<le> clock (Suc (tb_reads s))"
    and "w = tb_timeUntilAvailable clock t s" "d = clock (Suc (tb_reads s)) - clock (tb_reads s)"
  shows "(w < d \<longrightarrow> fst (tb_tryAcquire clock t (s\<lparr>tb_reads := Suc (tb_reads s)\<rparr>)) = Inr True) \<and>
    (d < w \<longrightarrow> fst (tb_tryAcquire clock t (s\<lparr>tb_reads := Suc (tb_reads s)\<rparr>)) = Inr False)"
proof -
  let ?r = "tokensPerSecond (tb_config s)"
  let ?c = "tb_tokens s + seconds (clock (tb_reads s) - tb_lastRefill s) * ?r"
  have later: "tb_availableTokens clock (s\<lparr>tb_reads := Suc (tb_reads s)\<rparr>) =
      min (?c + seconds d * ?r) (burstSize (tb_config s))"
    using tb_available_later [of s "clock (Suc (tb_reads s))" ?r "clock (tb_reads s)"]
    by (simp add: tb_availableTokens_def assms(6))
  have pos: "0 \<le> seconds d * ?r" using assms(1,4,6) by (simp add: seconds_def)
  show ?thesis
  proof (cases "t \<le> ?c")
    case True
    then have "w = 0" using assms(3,5) by (simp add: tb_timeUntilAvailable_def tb_availableTokens_def)
    then show ?thesis using True pos later assms by (simp add: tb_tryAcquire_iff)
  next
    case False
    then have w: "w = \<lfloor>(t - ?c) / ?r * 1000000000\<rfloor>"
      using assms(3,5) by (simp add: tb_timeUntilAvailable_def tb_availableTokens_def Let_def)
    have "w < d \<Longrightarrow> t - ?c \<le> seconds d * ?r" using seconds_times_ge [OF assms(1)] w by blast
    moreover have "d < w \<Longrightarrow> seconds d * ?r < t - ?c" using seconds_times_less [OF assms(1)] w by blast
    ultimately show ?thesis using later assms(2,3) by (auto simp: tb_tryAcquire_iff)
  qed
qed


text \<open>
  \<open>remainingRequests\<close> tells the truth: it is \<open>maxRequests\<close> less the admissions of the window
  that ends at its clock reading, and a \<open>tryAcquire\<close> at that reading succeeds exactly when it is
  positive.
\<close>

lemma sw_remaining_exact:
  assumes "mono clock" "sw_new cfg = Inr s0" "s = sw_run clock ops s0"
  shows "sw_remainingRequests clock s + sw_count (clock (sw_reads s) - windowDuration cfg) s = maxRequests cfg \<and>
    (fst (sw_tryAcquire clock s) \<longleftrightarrow> sw_remainingRequests clock s > 0)"
proof -
  let ?c = "clock (sw_reads s) - windowDuration cfg"
  have inv: "sw_inv clock cfg s" using sw_run_inv [OF assms(1) sw_new_inv [OF assms(2)]] assms(3) by simp
  then have cfg: "sw_config s = cfg" by (simp add: sw_inv_def)
  from inv obtain pre where pre: "sw_granted s = pre @ sw_timestamps s"
    "\<forall>t \<in> set pre. t + windowDuration cfg < clock (sw_reads s)" and past: "\<forall>t \<in> set (sw_granted s). t \<le> clock (sw_reads s)"
    and srt: "sorted (sw_granted s)"
    unfolding sw_inv_def by (elim conjE exE) simp
  have "filter (\<lambda>t. ?c \<le> t \<and> t \<le> ?c + windowDuration cfg) pre = []"
    using pre(2) by (auto simp: filter_empty_conv)
  moreover have "filter (\<lambda>t. ?c \<le> t \<and> t \<le> ?c + windowDuration cfg) (sw_timestamps s) =
      filter (\<lambda>t. ?c \<le> t) (sw_timestamps s)"
    using past pre(1) by (intro filter_cong) auto
  ultimately have cnt: "sw_count ?c s = length (filter (\<lambda>t. ?c \<le> t) (sw_timestamps s))"
    by (simp add: sw_count_def cfg pre(1))
  have "sw_count ?c s \<le> maxRequests cfg" using inv cfg by (simp add: sw_inv_def)
  moreover have "sorted (sw_timestamps s)" using srt pre(1) by (simp add: sorted_append)
  ultimately show ?thesis
    using cnt by (auto simp: sw_remainingRequests_def Let_def cfg sw_tryAcquire_def sw_cleanup_def
        sw_now_def dropWhile_sorted_eq)
qed

text \<open>
  \<open>acquire\<close> cannot wait for tokens: whenever the bucket is short and the timed wait runs to
  its end (the kernel answers \<open>ETIMEDOUT\<close>; nothing ever notifies \<open>cv_\<close>), \<open>acquire\<close> throws
  \<open>system_error(ETIMEDOUT)\<close> without the mutex, however many tokens have accumulated meanwhile.
\<close>

lemma tb_acquire_throws:
  assumes "0 < t" "tb_availableTokens clock s < t"
  shows "\<exists>s'. tb_acquire clock t ((Errno ETIMEDOUT # as, ts) # ws) s =
    (Some (Inl (System_error ETIMEDOUT)), False, s')"
proof -
  have "\<not> tb_tokens (tb_refill clock s) \<ge> t"
    using assms(2) by (auto simp: tb_refill_def tb_availableTokens_def Let_def)
  then show ?thesis
    using assms(1)
    by (simp add: tb_acquire_def tb_acquire_loop.simps [where ws = "_ # _"] Let_def cv_wait_for_def
        cv_wait_impl_def ETIMEDOUT_def EAGAIN_def EINTR_def)
qed

text \<open>\<open>tryAcquireFor\<close> accepts a negative amount and adds it to the bucket; \<open>tryAcquire\<close> rejects it.\<close>

lemma tb_tryAcquireFor_negative:
  assumes "tokensPerSecond (tb_config s) > 0" "0 \<le> tb_availableTokens clock (s\<lparr>tb_reads := Suc (tb_reads s)\<rparr>)" "t \<le> 0"
  shows "fst (tb_tryAcquireFor clock t d ws s) = Some (Inr True)"
    and "tb_tokens (snd (snd (tb_tryAcquireFor clock t d ws s))) =
      tb_availableTokens clock (s\<lparr>tb_reads := Suc (tb_reads s)\<rparr>) - t"
    and "fst (tb_tryAcquire clock t s) = Inl Invalid_argument"
  using assms
  by (auto simp: tb_tryAcquireFor_def tb_tryAcquireFor_loop.simps [of clock t] Let_def tb_refill_def
      tb_availableTokens_def tb_take_def tb_tryAcquire_def)

section \<open>Witnesses\<close>

definition rl_clock :: "nat \<Rightarrow> int" where
  "rl_clock n = 1000000000 * int n"

lemma rl_clock_mono: "mono rl_clock"
  by (simp add: mono_def rl_clock_def)

definition tb_demo :: tb where
  "tb_demo = \<lparr>tb_config = \<lparr>tokensPerSecond = 1, burstSize = 5, initialTokens = -1\<rparr>, tb_tokens = 5,
     tb_lastRefill = 0, tb_reads = 1, tb_granted = 0\<rparr>"

definition sw_demo :: sw where
  "sw_demo = \<lparr>sw_config = \<lparr>maxRequests = 2, windowDuration = 10000000000\<rparr>, sw_timestamps = [],
     sw_reads = 0, sw_granted = []\<rparr>"

lemma tb_demo_new: "tb_new rl_clock \<lparr>tokensPerSecond = 1, burstSize = 5, initialTokens = -1\<rparr> = Inr tb_demo"
  by (simp add: tb_new_def tb_demo_def rl_clock_def)

lemma sw_demo_new: "sw_new \<lparr>maxRequests = 2, windowDuration = 10000000000\<rparr> = Inr sw_demo"
  by (simp add: sw_new_def sw_demo_def)


definition tb_empty :: tb where
  "tb_empty = \<lparr>tb_config = \<lparr>tokensPerSecond = 1, burstSize = 5, initialTokens = -1\<rparr>, tb_tokens = 0,
     tb_lastRefill = 2000000000, tb_reads = 2, tb_granted = 0\<rparr>"

lemma tb_empty_wait: "tb_timeUntilAvailable rl_clock (1/2) tb_empty = 500000000"
  by (simp add: tb_timeUntilAvailable_def tb_availableTokens_def tb_empty_def rl_clock_def seconds_def)


end
