(* ===== verification/Cpp_Text.thy ===== *)
theory Cpp_Text
  imports Pman_Prelude
begin

text \<open>
  Text as the C++ standard library reads and writes it: digits, white space, \<open>std::to_string\<close>,
  \<open>std::stoi\<close> and \<open>std::stoll\<close>, \<open>find\<close> and \<open>rfind\<close>, \<open>std::getline\<close> and formatted input from a stream. The parsers of
  the development are written with these functions; reading what was printed gives it back.
\<close>

section \<open>Numbers\<close>

definition is_digit :: "char \<Rightarrow> bool" where
  "is_digit ch \<longleftrightarrow> 48 \<le> (of_char ch :: nat) \<and> (of_char ch :: nat) \<le> 57"

definition digits_value :: "string \<Rightarrow> int" where
  "digits_value ds = foldl (\<lambda>n ch. 10 * n + (of_char ch - 48)) 0 ds"

definition is_space :: "char \<Rightarrow> bool" where
  "is_space ch \<longleftrightarrow> (of_char ch :: nat) = 32 \<or> 9 \<le> (of_char ch :: nat) \<and> (of_char ch :: nat) \<le> 13"

fun show_nat :: "nat \<Rightarrow> string" where
  "show_nat n = (if n < 10 then [char_of (n + 48)] else show_nat (n div 10) @ [char_of (n mod 10 + 48)])"

declare show_nat.simps [simp del]

definition show_int :: "int \<Rightarrow> string" where
  "show_int i = (if i < 0 then CHR ''-'' # show_nat (nat (- i)) else show_nat (nat i))"

text \<open>
  What \<open>strtol\<close> reads: white space, a sign, digits; the value and the rest of the text, \<open>None\<close> when there
  is no digit.
\<close>

definition read_sign :: "string \<Rightarrow> bool \<times> string" where
  "read_sign s =
     (case s of
        [] \<Rightarrow> (False, [])
      | ch # r \<Rightarrow> if ch = CHR ''-'' then (True, r) else if ch = CHR ''+'' then (False, r) else (False, s))"

definition read_number :: "string \<Rightarrow> (int \<times> string) option" where
  "read_number s =
     (let (neg, r) = read_sign (dropWhile is_space s); ds = takeWhile is_digit r in
      if ds = [] then None
      else Some (if neg then - digits_value ds else digits_value ds, dropWhile is_digit r))"

definition stoi :: "string \<Rightarrow> int result" where
  "stoi s =
     (case read_number s of
        None \<Rightarrow> Inl Invalid_argument
      | Some (v, _) \<Rightarrow> if - (2 ^ 31) \<le> v \<and> v < 2 ^ 31 then Inr v else Inl Out_of_range)"

definition stoll :: "string \<Rightarrow> int result" where
  "stoll s =
     (case read_number s of
        None \<Rightarrow> Inl Invalid_argument
      | Some (v, _) \<Rightarrow> if - (2 ^ 63) \<le> v \<and> v < 2 ^ 63 then Inr v else Inl Out_of_range)"

section \<open>Strings and lines\<close>

definition str_find :: "char \<Rightarrow> string \<Rightarrow> nat option" where
  "str_find ch s = (if ch \<in> set s then Some (length (takeWhile (\<lambda>c. c \<noteq> ch) s)) else None)"

definition str_rfind :: "char \<Rightarrow> string \<Rightarrow> nat option" where
  "str_rfind ch s =
     (if ch \<in> set s then Some (length s - 1 - length (takeWhile (\<lambda>c. c \<noteq> ch) (rev s))) else None)"

text \<open>\<open>s.rfind(p, 0) == 0\<close>\<close>

definition starts_with :: "string \<Rightarrow> string \<Rightarrow> bool" where
  "starts_with p s \<longleftrightarrow> take (length p) s = p"

text \<open>What repeated \<open>std::getline\<close> with a delimiter reads; a delimiter at the end starts no further piece.\<close>

function getlines :: "char \<Rightarrow> string \<Rightarrow> string list" where
  "getlines d s =
     (if s = [] then []
      else takeWhile (\<lambda>c. c \<noteq> d) s # getlines d (tl (dropWhile (\<lambda>c. c \<noteq> d) s)))"
  by auto
termination
proof (relation "measure (\<lambda>(d, s). length s)")
  fix d :: char and s :: string
  assume "s \<noteq> []"
  then have "length (tl (dropWhile (\<lambda>c. c \<noteq> d) s)) < length s"
    using length_dropWhile_le [of "\<lambda>c. c \<noteq> d" s] by (cases s) (auto simp: less_Suc_eq_le intro: le_trans [OF diff_le_self])
  then show "((d, tl (dropWhile (\<lambda>c. c \<noteq> d) s)), d, s) \<in> measure (\<lambda>(d, s). length s)" by simp
qed simp

declare getlines.simps [simp del]

section \<open>Formatted input\<close>

text \<open>
  An input stream is the text not yet read, \<open>None\<close> once it has failed. A read at the end of the text
  leaves the variable unchanged and fails; one that finds no digit stores 0 and fails, one out of range
  stores the nearest bound and fails.
\<close>

type_synonym istream = "string option"

definition read_char :: "istream \<Rightarrow> char \<Rightarrow> char \<times> istream" where
  "read_char is old =
     (case is of
        None \<Rightarrow> (old, None)
      | Some s \<Rightarrow> (case dropWhile is_space s of [] \<Rightarrow> (old, None) | ch # r \<Rightarrow> (ch, Some r)))"

definition read_bounded :: "nat \<Rightarrow> istream \<Rightarrow> int \<Rightarrow> int \<times> istream" where
  "read_bounded w is old =
     (case is of
        None \<Rightarrow> (old, None)
      | Some s \<Rightarrow>
          if dropWhile is_space s = [] then (old, None)
          else (case read_number s of
                  None \<Rightarrow> (0, None)
                | Some (v, r) \<Rightarrow>
                    if v < - (2 ^ (w - 1)) then (- (2 ^ (w - 1)), None)
                    else if 2 ^ (w - 1) \<le> v then (2 ^ (w - 1) - 1, None)
                    else (v, Some r)))"

section \<open>What was printed is read back\<close>

lemma of_char_digit [simp]: "n < 10 \<Longrightarrow> (of_char (char_of (n + 48 :: nat)) :: nat) = n + 48"
  by simp

lemma show_nat_digits: "list_all is_digit (show_nat n)"
proof (induction n rule: show_nat.induct)
  case (1 n)
  have "is_digit (char_of (k + 48))" if "k < 10" for k :: nat using that by (simp add: is_digit_def)
  then show ?case using 1 by (simp add: show_nat.simps [of n])
qed

lemma show_nat_nonempty: "show_nat n \<noteq> []"
  by (subst show_nat.simps) simp

lemma of_char_int: "(of_char ch :: int) = int (of_char ch)"
  by (rule of_nat_of_char [symmetric])

lemma digits_value_append: "digits_value (ds @ [ch]) = 10 * digits_value ds + (of_char ch - 48)"
  by (simp add: digits_value_def)

lemma digits_value_show_nat: "digits_value (show_nat n) = int n"
proof (induction n rule: show_nat.induct)
  case (1 n)
  show ?case
  proof (cases "n < 10")
    case True
    then show ?thesis by (simp add: show_nat.simps [of n] digits_value_def of_char_int)
  next
    case False
    have "int n = 10 * int (n div 10) + int (n mod 10)" by (metis mult_div_mod_eq of_nat_add of_nat_mult of_nat_numeral)
    then show ?thesis
      using 1 [OF False] False
      by (simp add: show_nat.simps [of n] digits_value_append of_char_int)
  qed
qed

lemma digit_not_sep: "is_digit ch \<Longrightarrow> ch \<noteq> CHR ''-'' \<and> ch \<noteq> CHR '','' \<and> \<not> is_space ch \<and> ch \<noteq> CHR ''*''"
  by (auto simp: is_digit_def is_space_def)

lemma show_nat_no_sep:
  "CHR ''-'' \<notin> set (show_nat n)" "CHR '','' \<notin> set (show_nat n)" "\<forall>ch \<in> set (show_nat n). \<not> is_space ch"
  using show_nat_digits [of n] digit_not_sep by (auto simp: list_all_iff)


lemma digit_plain: "is_digit ch \<Longrightarrow> ch \<noteq> CHR ''+'' \<and> ch \<noteq> CHR ''('' \<and> ch \<noteq> CHR '')''"
  by (auto simp: is_digit_def)

lemma show_int_chars: "ch \<in> set (show_int i) \<Longrightarrow> ch = CHR ''-'' \<or> is_digit ch"
  using show_nat_digits [of "nat i"] show_nat_digits [of "nat (- i)"] by (auto simp: show_int_def list_all_iff split: if_splits)

lemma show_int_nonempty [simp]: "show_int i \<noteq> []"
  by (simp add: show_int_def show_nat_nonempty)

lemma show_int_no_space: "ch \<in> set (show_int i) \<Longrightarrow> \<not> is_space ch"
  using show_int_chars [of ch i] digit_not_sep [of ch] by (auto simp: is_space_def)

lemma takeWhile_digits: "list_all is_digit ds \<Longrightarrow> (r = [] \<or> \<not> is_digit (hd r)) \<Longrightarrow>
    takeWhile is_digit (ds @ r) = ds \<and> dropWhile is_digit (ds @ r) = r"
  by (induction ds) (cases r; auto)+

lemma read_sign_digits: "list_all is_digit ds \<Longrightarrow> ds \<noteq> [] \<Longrightarrow> read_sign (ds @ r) = (False, ds @ r)"
  using digit_not_sep digit_plain by (cases ds) (auto simp: read_sign_def)

lemma dropWhile_no_space: "xs \<noteq> [] \<Longrightarrow> \<not> is_space (hd xs) \<Longrightarrow> dropWhile is_space (xs @ r) = xs @ r"
  by (cases xs) auto

lemma read_number_show_int:
  assumes "list_all is_space sp" "r = [] \<or> \<not> is_digit (hd r)"
  shows "read_number (sp @ show_int i @ r) = Some (i, r)"
proof -
  have "hd (show_int i) \<in> set (show_int i)" by simp
  then have "\<not> is_space (hd (show_int i))" by (rule show_int_no_space)
  then have d: "dropWhile is_space (sp @ show_int i @ r) = show_int i @ r"
    using assms(1) dropWhile_no_space [of "show_int i" r] by (simp add: dropWhile_append2 list_all_iff)
  have k: "takeWhile is_digit (show_nat n @ r) = show_nat n" "dropWhile is_digit (show_nat n @ r) = r" for n
    using takeWhile_digits [OF show_nat_digits assms(2), of n] by simp_all
  show ?thesis
  proof (cases "i < 0")
    case True
    then have "read_sign (show_int i @ r) = (True, show_nat (nat (- i)) @ r)" by (simp add: show_int_def read_sign_def)
    then show ?thesis using True by (simp add: read_number_def d k show_nat_nonempty digits_value_show_nat)
  next
    case False
    then have "read_sign (show_int i @ r) = (False, show_nat (nat i) @ r)"
      using read_sign_digits [OF show_nat_digits [of "nat i"] show_nat_nonempty] by (simp add: show_int_def)
    then show ?thesis using False by (simp add: read_number_def d k show_nat_nonempty digits_value_show_nat)
  qed
qed

lemma stoi_show_int:
  assumes "- (2 ^ 31) \<le> i" "i < 2 ^ 31" "list_all is_space sp" "r = [] \<or> \<not> is_digit (hd r)"
  shows "stoi (sp @ show_int i @ r) = Inr i"
  using assms(1,2) by (simp add: stoi_def read_number_show_int [OF assms(3,4)])

lemma read_bounded_show_int:
  assumes "- (2 ^ (w - 1)) \<le> i" "i < 2 ^ (w - 1)" "list_all is_space sp" "r = [] \<or> \<not> is_digit (hd r)"
  shows "read_bounded w (Some (sp @ show_int i @ r)) old = (i, Some r)"
proof -
  have "dropWhile is_space (sp @ show_int i @ r) \<noteq> []"
    using assms(3) show_int_no_space [of "hd (show_int i)" i]
    by (simp add: dropWhile_append2 list_all_iff dropWhile_no_space)
  then show ?thesis using assms(1,2) by (simp add: read_bounded_def read_number_show_int [OF assms(3,4)])
qed

lemma read_failed [simp]: "read_bounded w None old = (old, None)" "read_char None c = (c, None)"
  by (simp_all add: read_bounded_def read_char_def)

lemma takeWhile_sep:
  assumes "x \<notin> set xs"
  shows "takeWhile (\<lambda>ch. ch \<noteq> x) (xs @ x # ys) = xs" "takeWhile (\<lambda>ch. ch \<noteq> x) xs = xs"
  using assms by (induction xs) auto

lemma dropWhile_sep: "ch \<notin> set xs \<Longrightarrow> dropWhile (\<lambda>c. c \<noteq> ch) (xs @ ch # ys) = ch # ys"
  by (induction xs) auto

lemma str_find_append: "ch \<notin> set xs \<Longrightarrow> str_find ch (xs @ ch # ys) = Some (length xs)"
  by (simp add: str_find_def takeWhile_sep)

lemma str_find_None: "ch \<notin> set xs \<Longrightarrow> str_find ch xs = None"
  by (simp add: str_find_def)

lemma str_rfind_append: "ch \<notin> set ys \<Longrightarrow> str_rfind ch (xs @ ch # ys) = Some (length xs)"
  by (simp add: str_rfind_def takeWhile_sep)

lemma getlines_cons: "d \<notin> set xs \<Longrightarrow> getlines d (xs @ d # ys) = xs # getlines d ys"
  by (subst getlines.simps) (simp add: takeWhile_sep dropWhile_sep)

lemma getlines_Nil [simp]: "getlines d [] = []"
  by (simp add: getlines.simps)

lemma getlines_last: "d \<notin> set xs \<Longrightarrow> xs \<noteq> [] \<Longrightarrow> getlines d xs = [xs]"
proof -
  assume a: "d \<notin> set xs" "xs \<noteq> []"
  have w: "takeWhile (\<lambda>c. c \<noteq> d) xs = xs" "dropWhile (\<lambda>c. c \<noteq> d) xs = []"
    using a(1) by (auto simp: takeWhile_eq_all_conv dropWhile_eq_Nil_conv)
  show ?thesis unfolding getlines.simps [of d xs] w using a(2) by simp
qed

end
