(* ===== verification/Calendar.thy ===== *)
theory Calendar
  imports Main
begin

text \<open>
  What the cron code uses of the C library's calendar: \<open>struct tm\<close>, \<open>localtime_r\<close> and \<open>mktime\<close> in a
  time zone with a constant offset from UTC, over the proleptic Gregorian calendar. The locale
  \<open>calendar\<close> states the laws the cron code relies on; the Gregorian functions are proved to satisfy
  them for every offset. Daylight-saving changes are outside these laws.
\<close>

section \<open>Broken-down time\<close>

text \<open>\<open>tm_year\<close> counts from 1900, \<open>tm_mon\<close> and \<open>tm_wday\<close> from 0, \<open>tm_mday\<close> from 1.\<close>

record tm =
  tm_sec :: int
  tm_min :: int
  tm_hour :: int
  tm_mday :: int
  tm_mon :: int
  tm_year :: int
  tm_wday :: int

text \<open>Second of the day.\<close>

definition sod :: "tm \<Rightarrow> int" where
  "sod b = 3600 * tm_hour b + 60 * tm_min b + tm_sec b"

text \<open>The first midnight of the month after a broken-down time, as a broken-down time.\<close>

definition next_month :: "tm \<Rightarrow> tm" where
  "next_month b =
     (let b1 = b\<lparr>tm_sec := 0, tm_min := 0, tm_hour := 0, tm_mday := 1, tm_mon := tm_mon b + 1\<rparr> in
      if tm_mon b1 \<ge> 12 then b1\<lparr>tm_mon := 0, tm_year := tm_year b1 + 1\<rparr> else b1)"

locale calendar =
  fixes localtime :: "int \<Rightarrow> tm" and mktime :: "tm \<Rightarrow> int" and off :: int
  assumes mktime_localtime: "mktime (localtime t) = t"
    and sod_localtime: "sod (localtime t) = (t + off) mod 86400"
    and time_fields: "tm_sec (localtime t) \<in> {0..<60}" "tm_min (localtime t) \<in> {0..<60}"
      "tm_hour (localtime t) \<in> {0..<24}"
    and date_fields: "tm_mday (localtime t) \<in> {1..31}" "tm_mon (localtime t) \<in> {0..<12}"
      "tm_wday (localtime t) \<in> {0..<7}"
    and mktime_sec: "mktime (b\<lparr>tm_sec := x\<rparr>) = mktime b + (x - tm_sec b)"
    and mktime_min: "mktime (b\<lparr>tm_min := x\<rparr>) = mktime b + 60 * (x - tm_min b)"
    and mktime_hour: "mktime (b\<lparr>tm_hour := x\<rparr>) = mktime b + 3600 * (x - tm_hour b)"
    and mktime_mday: "mktime (b\<lparr>tm_mday := x\<rparr>) = mktime b + 86400 * (x - tm_mday b)"
    and same_date: "(t + off) div 86400 = (u + off) div 86400 \<Longrightarrow>
      tm_mday (localtime u) = tm_mday (localtime t) \<and> tm_mon (localtime u) = tm_mon (localtime t) \<and>
      tm_wday (localtime u) = tm_wday (localtime t)"
    and next_month_later: "t < mktime (next_month (localtime t))"
    and next_month_midnight: "(mktime (next_month (localtime t)) + off) mod 86400 = 0"
    and same_month: "t \<le> u \<Longrightarrow> u < mktime (next_month (localtime t)) \<Longrightarrow>
      tm_mon (localtime u) = tm_mon (localtime t)"
begin

lemmas mktime_fields = mktime_sec mktime_min mktime_hour mktime_mday

lemma time_of_sod:
  "tm_hour (localtime t) = (t + off) mod 86400 div 3600"
  "tm_min (localtime t) = (t + off) mod 3600 div 60"
  "tm_sec (localtime t) = (t + off) mod 60"
proof -
  let ?b = "localtime t" and ?x = "(t + off) mod 86400"
  have x: "3600 * tm_hour ?b + 60 * tm_min ?b + tm_sec ?b = ?x"
    using sod_localtime [of t] by (simp add: sod_def)
  have r: "0 \<le> tm_sec ?b" "tm_sec ?b < 60" "0 \<le> tm_min ?b" "tm_min ?b < 60"
    using time_fields [of t] by auto
  show "tm_hour ?b = ?x div 3600"
    by (rule sym, rule int_div_pos_eq [where r = "60 * tm_min ?b + tm_sec ?b"]) (use x r in auto)
  have "?x mod 3600 = 60 * tm_min ?b + tm_sec ?b"
    by (rule int_mod_pos_eq [where q = "tm_hour ?b"]) (use x r in auto)
  then have h: "(t + off) mod 3600 = 60 * tm_min ?b + tm_sec ?b"
    using mod_mod_cancel [of 3600 86400 "t + off"] by simp
  show "tm_min ?b = (t + off) mod 3600 div 60"
    by (rule sym, rule int_div_pos_eq [where r = "tm_sec ?b"]) (use h r in auto)
  have "(t + off) mod 3600 mod 60 = tm_sec ?b"
    by (rule int_mod_pos_eq [where q = "tm_min ?b"]) (use h r in auto)
  then show "tm_sec ?b = (t + off) mod 60" using mod_mod_cancel [of 60 3600 "t + off"] by simp
qed

end

section \<open>The Gregorian calendar\<close>

text \<open>Days are counted from 0000-01-01; a month index is \<open>12 * year + month\<close> with months from 0.\<close>

definition leap :: "int \<Rightarrow> bool" where
  "leap y \<longleftrightarrow> 4 dvd y \<and> (\<not> 100 dvd y \<or> 400 dvd y)"

definition month_len :: "int \<Rightarrow> int \<Rightarrow> int" where
  "month_len y m =
     (if m = 1 then (if leap y then 29 else 28)
      else if m = 3 \<or> m = 5 \<or> m = 8 \<or> m = 10 then 30 else 31)"

definition year_len :: "int \<Rightarrow> int" where
  "year_len y = (if leap y then 366 else 365)"

text \<open>Days of the year before month \<open>m\<close>.\<close>

definition month_start :: "int \<Rightarrow> int \<Rightarrow> int" where
  "month_start y m = (\<Sum>k \<leftarrow> [0..m - 1]. month_len y k)"

text \<open>Days before year \<open>y\<close>.\<close>

definition year_start :: "int \<Rightarrow> int" where
  "year_start y = 365 * y + (y + 3) div 4 - (y + 99) div 100 + (y + 399) div 400"

function find_year :: "int \<Rightarrow> int \<Rightarrow> int \<times> int" where
  "find_year y r = (if r < year_len y then (y, r) else find_year (y + 1) (r - year_len y))"
  by auto
termination
  by (relation "measure (\<lambda>(y, r). nat (r + 1))") (auto simp: year_len_def split: if_splits)

declare find_year.simps [simp del]

function find_month :: "int \<Rightarrow> int \<Rightarrow> int \<Rightarrow> int \<times> int" where
  "find_month y m r =
     (if r < month_len y m then (m, r) else find_month y (m + 1) (r - month_len y m))"
  by auto
termination
  by (relation "measure (\<lambda>(y, m, r). nat (r + 1))") (auto simp: month_len_def split: if_splits)

declare find_month.simps [simp del]

definition date_of_day :: "int \<Rightarrow> int \<times> int \<times> int" where
  "date_of_day n =
     (let (y, r) = find_year (400 * (n div 146097)) (n mod 146097); (m, d) = find_month y 0 r
      in (y, m, d + 1))"

definition day_of_date :: "int \<Rightarrow> int \<Rightarrow> int \<Rightarrow> int" where
  "day_of_date y m d = year_start y + month_start y m + d - 1"

text \<open>1970-01-01 is day 719528, a Thursday.\<close>

definition localtime :: "int \<Rightarrow> int \<Rightarrow> tm" where
  "localtime off t =
     (let l = t + off; n = l div 86400 + 719528; x = l mod 86400; (y, m, d) = date_of_day n in
      \<lparr>tm_sec = x mod 60, tm_min = x div 60 mod 60, tm_hour = x div 3600,
       tm_mday = d, tm_mon = m, tm_year = y - 1900, tm_wday = (n + 6) mod 7\<rparr>)"

text \<open>\<open>mktime\<close> accepts out-of-range times and days of the month; \<open>tm_mon\<close> is in range in all calls.\<close>

definition mktime :: "int \<Rightarrow> tm \<Rightarrow> int" where
  "mktime off b =
     (day_of_date (tm_year b + 1900) (tm_mon b) (tm_mday b) - 719528) * 86400 + sod b - off"

section \<open>Years and months are where they should be\<close>

lemma div_step:
  fixes y j k :: int
  assumes "0 < k" "j = k - 1"
  shows "(y + 1 + j) div k = (y + j) div k + (if k dvd y then 1 else 0)"
proof -
  have y: "y = k * (y div k) + y mod k" by simp
  have r: "0 \<le> y mod k" "y mod k < k" using assms by simp_all
  have "(y + 1 + (k - 1)) div k = y div k + 1" using assms div_add_self2 [of k y] by simp
  moreover have "(y + (k - 1)) div k = y div k + (if y mod k = 0 then 0 else 1)"
  proof (cases "y mod k = 0")
    case True
    have "(y + (k - 1)) div k = y div k"
      by (rule int_div_pos_eq [where r = "k - 1"]) (use y True assms in \<open>auto simp: algebra_simps\<close>)
    then show ?thesis using True by simp
  next
    case False
    have "(y + (k - 1)) div k = y div k + 1"
    proof (rule int_div_pos_eq [where r = "y mod k - 1"])
      show "y + (k - 1) = k * (y div k + 1) + (y mod k - 1)" using y by (simp add: algebra_simps)
      show "0 \<le> y mod k - 1" "y mod k - 1 < k" using r False by linarith+
    qed
    then show ?thesis using False by simp
  qed
  ultimately show ?thesis using assms(2) by (auto simp: dvd_eq_mod_eq_0)
qed

lemma year_len_sum:
  "year_len y = 365 + (if 4 dvd y then 1 else 0) - (if 100 dvd y then 1 else 0) + (if 400 dvd y then 1 else 0)"
proof -
  have "400 dvd y \<Longrightarrow> 100 dvd y" by (erule dvd_trans [rotated]) simp
  moreover have "100 dvd y \<Longrightarrow> 4 dvd y" by (erule dvd_trans [rotated]) simp
  ultimately show ?thesis
    unfolding year_len_def leap_def by (cases "400 dvd y"; cases "100 dvd y"; cases "4 dvd y"; simp only: simp_thms if_True if_False; simp)
qed

lemma year_start_Suc: "year_start (y + 1) = year_start y + year_len y"
proof -
  have d: "(y + 1 + 3) div 4 = (y + 3) div 4 + (if 4 dvd y then 1 else 0)"
    "(y + 1 + 99) div 100 = (y + 99) div 100 + (if 100 dvd y then 1 else 0)"
    "(y + 1 + 399) div 400 = (y + 399) div 400 + (if 400 dvd y then 1 else 0)"
    by (rule div_step; simp)+
  show ?thesis
    unfolding year_start_def d year_len_sum by (simp only: algebra_simps)
qed

lemma year_len_pos: "0 < year_len y"
  by (simp add: year_len_def)

lemma month_len_range: "month_len y m \<in> {28..31}"
  by (simp add: month_len_def)

lemma month_start_0 [simp]: "month_start y 0 = 0"
  by (simp add: month_start_def)

lemma month_start_Suc:
  assumes "0 \<le> m"
  shows "month_start y (m + 1) = month_start y m + month_len y m"
proof -
  have "[0..m] = [0..m - 1] @ [m]" using assms by (simp add: upto_rec2)
  then show ?thesis by (simp add: month_start_def)
qed

lemma month_start_12: "month_start y 12 = year_len y"
proof -
  have "[0..11] = [0, 1, 2, 3, 4, 5, 6, 7, 8, 9, 10, 11 :: int]" by (simp add: upto.simps)
  then show ?thesis by (simp add: month_start_def month_len_def year_len_def)
qed

lemma find_year:
  assumes "find_year y r = (y', r')" "0 \<le> r"
  shows "year_start y' + r' = year_start y + r \<and> 0 \<le> r' \<and> r' < year_len y'"
  using assms
proof (induction y r rule: find_year.induct)
  case (1 y r)
  show ?case
  proof (cases "r < year_len y")
    case True
    then show ?thesis using "1.prems" by (simp add: find_year.simps [of y])
  next
    case False
    then show ?thesis using "1.prems" "1.IH" by (simp add: find_year.simps [of y] year_start_Suc)
  qed
qed

lemma find_month:
  assumes "find_month y m r = (m', r')" "0 \<le> r" "0 \<le> m" "m < 12" "month_start y m + r < year_len y"
  shows "month_start y m' + r' = month_start y m + r \<and> 0 \<le> r' \<and> r' < month_len y m' \<and> 0 \<le> m' \<and> m' < 12"
  using assms
proof (induction y m r rule: find_month.induct)
  case (1 y m r)
  show ?case
  proof (cases "r < month_len y m")
    case True
    then show ?thesis using "1.prems" by (simp add: find_month.simps [of y])
  next
    case False
    have "m + 1 < 12"
    proof (rule ccontr)
      assume "\<not> m + 1 < 12"
      then have "m + 1 = 12" using "1.prems" by simp
      then show False
        using "1.prems" False month_start_Suc [of m y] month_start_12 [of y] by simp
    qed
    then show ?thesis
      using "1.prems" "1.IH" [OF False] False month_start_Suc [of m y]
      by (simp add: find_month.simps [of y m r])
  qed
qed

text \<open>The date of a day: it denotes that day, and its fields are in range.\<close>

lemma date_of_day:
  assumes "date_of_day n = (y, m, d)"
  shows "day_of_date y m d = n" and "0 \<le> m" "m < 12" "1 \<le> d" "d \<le> month_len y m"
proof -
  obtain r where y: "find_year (400 * (n div 146097)) (n mod 146097) = (y, r)"
    and m: "find_month y 0 r = (m, d - 1)"
    using assms by (auto simp: date_of_day_def Let_def split: prod.splits)
  have 1: "year_start y + r = year_start (400 * (n div 146097)) + n mod 146097" "0 \<le> r" "r < year_len y"
    using find_year [OF y] by simp_all
  note 2 = find_month [OF m]
  have "year_start (400 * q) = 146097 * q" for q
    unfolding year_start_def by simp
  then show "day_of_date y m d = n" using 1 2 by (simp add: day_of_date_def)
  show "0 \<le> m" "m < 12" "1 \<le> d" "d \<le> month_len y m" using 1 2 by simp_all
qed

section \<open>Months in order\<close>

definition month_day :: "int \<Rightarrow> int" where
  "month_day k = day_of_date (k div 12) (k mod 12) 1"

lemma day_of_next_month:
  assumes "0 \<le> m" "m < 12"
  shows "(if m = 11 then day_of_date (y + 1) 0 1 else day_of_date y (m + 1) 1) =
    day_of_date y m 1 + month_len y m"
  using month_start_Suc [OF assms(1), of y] month_start_12 [of y] year_start_Suc [of y]
  by (auto simp: day_of_date_def)

lemma month_index:
  fixes y m :: int
  assumes "0 \<le> m" "m < 12"
  shows "(12 * y + m) div 12 = y" "(12 * y + m) mod 12 = m"
  using assms by simp_all

lemma month_day_index:
  assumes "0 \<le> m" "m < 12"
  shows "month_day (12 * y + m) = day_of_date y m 1"
  unfolding month_day_def month_index [OF assms] ..

lemma month_day_next:
  assumes "0 \<le> m" "m < 12"
  shows "month_day (12 * y + m + 1) = month_day (12 * y + m) + month_len y m"
proof (cases "m = 11")
  case True
  have "12 * y + m + 1 = 12 * (y + 1) + 0" using True by simp
  then show ?thesis
    using month_day_index [of 0 "y + 1"] month_day_index [OF assms, of y] day_of_next_month [OF assms, of y] True
    by (simp add: add.commute)
next
  case False
  then show ?thesis
    using month_day_index [of "m + 1" y] month_day_index [OF assms, of y] day_of_next_month [OF assms, of y] assms
    by (simp add: add.assoc)
qed

lemma month_day_Suc: "month_day k < month_day (k + 1)"
  using month_day_next [of "k mod 12" "k div 12"] month_len_range [of "k div 12" "k mod 12"] by simp

lemma month_day_mono: "j \<le> k \<Longrightarrow> month_day j \<le> month_day k"
proof (induction k rule: int_ge_induct)
  case base
  then show ?case by simp
next
  case (step i)
  then show ?case using month_day_Suc [of i] by simp
qed

text \<open>A day lies in exactly one month.\<close>

lemma month_day_unique:
  assumes "month_day j \<le> n" "n < month_day (j + 1)" "month_day k \<le> n" "n < month_day (k + 1)"
  shows "j = k"
proof (rule ccontr)
  assume "j \<noteq> k"
  then have "j + 1 \<le> k \<or> k + 1 \<le> j" by arith
  then show False using assms month_day_mono [of "j + 1" k] month_day_mono [of "k + 1" j] by auto
qed

lemma date_month:
  assumes "date_of_day n = (y, m, d)"
  shows "month_day (12 * y + m) \<le> n" "n < month_day (12 * y + m + 1)" "month_day (12 * y + m) + d - 1 = n"
proof -
  note d = date_of_day [OF assms]
  have "month_day (12 * y + m) + d - 1 = n"
    using d month_day_index [OF d(2,3), of y] by (simp add: day_of_date_def)
  moreover note month_day_next [OF d(2,3), of y]
  ultimately show "month_day (12 * y + m) \<le> n" "n < month_day (12 * y + m + 1)"
    "month_day (12 * y + m) + d - 1 = n" using d by simp_all
qed

lemma same_month_date:
  assumes "date_of_day n = (y, m, d)" "n \<le> n'" "n' < month_day (12 * y + m + 1)"
    and "date_of_day n' = (y', m', d')"
  shows "m' = m"
proof -
  note d = date_month [OF assms(1)] and d' = date_month [OF assms(4)]
  have "12 * y + m = 12 * y' + m'"
    by (rule month_day_unique [of _ n']) (use d d' assms in auto)
  then show ?thesis
    using month_index(2) [of m y] month_index(2) [of m' y'] date_of_day [OF assms(1)] date_of_day [OF assms(4)]
    by metis
qed


section \<open>The laws for the Gregorian calendar\<close>

lemma date_cases [case_names date]:
  obtains y m d where "date_of_day n = (y, m, d)"
  by (metis prod_cases3)

lemma localtime_eq:
  assumes "date_of_day ((t + off) div 86400 + 719528) = (y, m, d)"
  shows "localtime off t =
    \<lparr>tm_sec = (t + off) mod 86400 mod 60, tm_min = (t + off) mod 86400 div 60 mod 60,
     tm_hour = (t + off) mod 86400 div 3600, tm_mday = d, tm_mon = m, tm_year = y - 1900,
     tm_wday = ((t + off) div 86400 + 719528 + 6) mod 7\<rparr>"
  unfolding localtime_def Let_def assms by simp

lemma hms: "3600 * (x div 3600) + 60 * (x div 60 mod 60) + x mod 60 = (x :: int)"
proof -
  have "x div 3600 = x div 60 div 60" by (simp add: div_mult2_eq [symmetric])
  then have m: "60 * (x div 3600) + x div 60 mod 60 = x div 60" by simp
  have "3600 * (x div 3600) + 60 * (x div 60 mod 60) + x mod 60 =
      60 * (60 * (x div 3600) + x div 60 mod 60) + x mod 60" by simp
  then show ?thesis unfolding m by simp
qed

lemma greg_sod: "sod (localtime off t) = (t + off) mod 86400"
proof (cases rule: date_cases [of "(t + off) div 86400 + 719528"])
  case (date y m d)
  then show ?thesis unfolding localtime_eq [OF date] sod_def using hms by simp
qed

lemma greg_mktime_localtime: "mktime off (localtime off t) = t"
proof (cases rule: date_cases [of "(t + off) div 86400 + 719528"])
  case (date y m d)
  have "mktime off (localtime off t) =
      (day_of_date y m d - 719528) * 86400 + sod (localtime off t) - off"
    unfolding mktime_def by (simp add: localtime_eq [OF date])
  also have "\<dots> = (t + off) div 86400 * 86400 + (t + off) mod 86400 - off"
    unfolding date_of_day(1) [OF date] greg_sod by simp
  finally show ?thesis by simp
qed

lemma greg_time_fields:
  "tm_sec (localtime off t) \<in> {0..<60}" "tm_min (localtime off t) \<in> {0..<60}"
  "tm_hour (localtime off t) \<in> {0..<24}"
proof -
  obtain y m d where date: "date_of_day ((t + off) div 86400 + 719528) = (y, m, d)" by (rule date_cases)
  have "0 \<le> (t + off) mod 86400" "(t + off) mod 86400 < 86400" by simp_all
  then show "tm_sec (localtime off t) \<in> {0..<60}" "tm_min (localtime off t) \<in> {0..<60}"
    "tm_hour (localtime off t) \<in> {0..<24}" unfolding localtime_eq [OF date] by (auto simp: div_less_iff_less_mult)
qed

lemma greg_date_fields:
  "tm_mday (localtime off t) \<in> {1..31}" "tm_mon (localtime off t) \<in> {0..<12}"
  "tm_wday (localtime off t) \<in> {0..<7}"
proof -
  obtain y m d where date: "date_of_day ((t + off) div 86400 + 719528) = (y, m, d)" by (rule date_cases)
  show "tm_mday (localtime off t) \<in> {1..31}" "tm_mon (localtime off t) \<in> {0..<12}"
    "tm_wday (localtime off t) \<in> {0..<7}"
    unfolding localtime_eq [OF date] using date_of_day [OF date] month_len_range [of y m] by auto
qed

text \<open>The next month starts on its first day, later than every time of this month.\<close>

lemma greg_next_month:
  assumes "date_of_day ((t + off) div 86400 + 719528) = (y, m, d)"
  shows "mktime off (next_month (localtime off t)) = (month_day (12 * y + m + 1) - 719528) * 86400 - off"
proof -
  note d = date_of_day [OF assms]
  have "month_day (12 * y + m + 1) = (if m = 11 then day_of_date (y + 1) 0 1 else day_of_date y (m + 1) 1)"
    using month_day_next [OF d(2,3), of y] day_of_next_month [OF d(2,3), of y] month_day_index [OF d(2,3), of y]
    by simp
  then show ?thesis
    unfolding localtime_eq [OF assms] next_month_def mktime_def sod_def using d by (simp add: add.commute)
qed

lemma div_less_mult: "(x :: int) div 86400 < k \<longleftrightarrow> x < k * 86400"
proof -
  have "x = 86400 * (x div 86400) + x mod 86400" "0 \<le> x mod 86400" "x mod 86400 < 86400" by simp_all
  then show ?thesis by linarith
qed

lemma greg_same_month:
  assumes "t \<le> u" "u < mktime off (next_month (localtime off t))"
  shows "tm_mon (localtime off u) = tm_mon (localtime off t)"
proof -
  obtain y m d where date: "date_of_day ((t + off) div 86400 + 719528) = (y, m, d)" by (rule date_cases)
  obtain y' m' d' where date': "date_of_day ((u + off) div 86400 + 719528) = (y', m', d')" by (rule date_cases)
  have "(t + off) div 86400 \<le> (u + off) div 86400" using assms(1) by (intro zdiv_mono1) auto
  moreover have "(u + off) div 86400 < month_day (12 * y + m + 1) - 719528"
    unfolding div_less_mult using assms(2) unfolding greg_next_month [OF date] by simp
  ultimately have "m' = m" using same_month_date [OF date _ _ date'] by simp
  then show ?thesis by (simp add: localtime_eq [OF date] localtime_eq [OF date'])
qed

lemma greg_next_month_later: "t < mktime off (next_month (localtime off t))"
proof -
  obtain y m d where date: "date_of_day ((t + off) div 86400 + 719528) = (y, m, d)" by (rule date_cases)
  have "(t + off) div 86400 < month_day (12 * y + m + 1) - 719528" using date_month(2) [OF date] by simp
  then show ?thesis unfolding greg_next_month [OF date] div_less_mult by simp
qed

lemma greg_next_month_midnight: "(mktime off (next_month (localtime off t)) + off) mod 86400 = 0"
proof -
  obtain y m d where date: "date_of_day ((t + off) div 86400 + 719528) = (y, m, d)" by (rule date_cases)
  show ?thesis unfolding greg_next_month [OF date] by simp
qed

lemma greg_same_date:
  assumes "(t + off) div 86400 = (u + off) div 86400"
  shows "tm_mday (localtime off u) = tm_mday (localtime off t) \<and>
    tm_mon (localtime off u) = tm_mon (localtime off t) \<and> tm_wday (localtime off u) = tm_wday (localtime off t)"
proof -
  obtain y m d where date: "date_of_day ((t + off) div 86400 + 719528) = (y, m, d)" by (rule date_cases)
  show ?thesis unfolding localtime_eq [OF date] localtime_eq [OF date [unfolded assms]] by (simp add: assms)
qed

interpretation greg: calendar "localtime off" "mktime off" off for off
proof unfold_locales
  fix b x
  show "mktime off (b\<lparr>tm_sec := x\<rparr>) = mktime off b + (x - tm_sec b)"
    "mktime off (b\<lparr>tm_min := x\<rparr>) = mktime off b + 60 * (x - tm_min b)"
    "mktime off (b\<lparr>tm_hour := x\<rparr>) = mktime off b + 3600 * (x - tm_hour b)"
    "mktime off (b\<lparr>tm_mday := x\<rparr>) = mktime off b + 86400 * (x - tm_mday b)"
    by (simp_all add: mktime_def sod_def day_of_date_def algebra_simps)
qed (fact greg_mktime_localtime greg_sod greg_time_fields greg_date_fields greg_next_month_later
    greg_next_month_midnight | erule (1) greg_same_month | erule greg_same_date)+

end
