(* ===== verification/Cron_Expression.thy ===== *)
theory Cron_Expression
  imports Cpp_Text Calendar "HOL-Library.Signed_Division"
begin

text \<open>
  \<open>CronExpression\<close> of src/include/pman/cron_scheduler.hpp and src/src/cron_scheduler.cpp: the five bit
  sets, parsing and printing, the builders, and the search for the next execution time. Reading an
  \<open>int\<close> that \<open>std::from_chars\<close> left uninitialised is the outcome \<open>Undefined\<close>.
\<close>

section \<open>Bit sets\<close>

datatype 'a outcome = Undefined | Threw exn | Returned 'a

type_synonym bitset = "bool list"

text \<open>\<open>set(i)\<close> with \<open>i\<close> cast from \<open>int\<close>: a negative value becomes a huge index, which throws.\<close>

definition bs_set :: "int \<Rightarrow> bitset \<Rightarrow> bitset result" where
  "bs_set i b = (if 0 \<le> i \<and> i < int (length b) then Inr (b[nat i := True]) else Inl Out_of_range)"

text \<open>\<open>test(i)\<close>; every index the code tests is in range (lemma \<open>cron_tests_in_range\<close>).\<close>

definition bs_test :: "bitset \<Rightarrow> int \<Rightarrow> bool" where
  "bs_test b i \<longleftrightarrow> 0 \<le> i \<and> i < int (length b) \<and> b ! nat i"

definition bs_reset :: "bitset \<Rightarrow> bitset" where
  "bs_reset b = replicate (length b) False"

record cron =
  minutes :: bitset
  hours :: bitset
  daysOfMonth :: bitset
  months :: bitset
  daysOfWeek :: bitset

text \<open>The sizes are part of the C++ types.\<close>

definition cron_wf :: "cron \<Rightarrow> bool" where
  "cron_wf c \<longleftrightarrow> length (minutes c) = 60 \<and> length (hours c) = 24 \<and> length (daysOfMonth c) = 32 \<and>
     length (months c) = 13 \<and> length (daysOfWeek c) = 7"

definition cron_setAll :: cron where
  "cron_setAll =
     \<lparr>minutes = replicate 60 True, hours = replicate 24 True, daysOfMonth = False # replicate 31 True,
      months = False # replicate 12 True, daysOfWeek = replicate 7 True\<rparr>"

section \<open>Parsing\<close>

text \<open>\<open>std::from_chars\<close> for \<open>int\<close>: \<open>None\<close> when it fails and leaves its result unwritten.\<close>

definition from_chars :: "string \<Rightarrow> int option" where
  "from_chars s =
     (let neg = (s \<noteq> [] \<and> hd s = CHR ''-'');
          ds = takeWhile is_digit (if neg then tl s else s);
          v = (if neg then - digits_value ds else digits_value ds) in
      if ds = [] then None
      else if - 2147483648 \<le> v \<and> v \<le> 2147483647 then Some v else None)"

text \<open>What repeated \<open>iss >> str\<close> reads.\<close>

function tokens :: "string \<Rightarrow> string list" where
  "tokens s =
     (let r = dropWhile is_space s in
      if r = [] then []
      else takeWhile (\<lambda>ch. \<not> is_space ch) r # tokens (dropWhile (\<lambda>ch. \<not> is_space ch) r))"
  by auto
termination
proof (relation "measure length")
  fix s :: string and r
  assume r: "r = dropWhile is_space s" "r \<noteq> []"
  have "\<not> is_space (hd r)" using r hd_dropWhile [of is_space s] by simp
  then have "length (dropWhile (\<lambda>ch. \<not> is_space ch) r) < length r"
    using r(2) by (cases r) (auto simp: le_imp_less_Suc length_dropWhile_le)
  also have "\<dots> \<le> length s" using r(1) by (simp add: length_dropWhile_le)
  finally show "(dropWhile (\<lambda>ch. \<not> is_space ch) r, s) \<in> measure length" by simp
qed simp

declare tokens.simps [simp del]

text \<open>\<open>for (int i = start; i <= finish && size_t(i) <= maxVal; ++i) bitset.set(i)\<close>\<close>

function set_range :: "int \<Rightarrow> int \<Rightarrow> int \<Rightarrow> bitset \<Rightarrow> bitset result" where
  "set_range i finish maxVal b =
     (if i \<le> finish \<and> 0 \<le> i \<and> i \<le> maxVal
      then (case bs_set i b of Inl e \<Rightarrow> Inl e | Inr b' \<Rightarrow> set_range (i + 1) finish maxVal b')
      else Inr b)"
  by auto
termination
  by (relation "measure (\<lambda>(i, finish, maxVal, b). nat (maxVal + 1 - i))") auto

declare set_range.simps [simp del]

definition lift_result :: "'a result \<Rightarrow> 'a outcome" where
  "lift_result r = (case r of Inl e \<Rightarrow> Threw e | Inr x \<Rightarrow> Returned x)"

definition parsePart :: "int \<Rightarrow> string \<Rightarrow> bitset \<Rightarrow> bitset outcome" where
  "parsePart maxVal part b =
     (if CHR ''-'' \<in> set part
      then (case (from_chars (takeWhile (\<lambda>ch. ch \<noteq> CHR ''-'') part),
                  from_chars (tl (dropWhile (\<lambda>ch. ch \<noteq> CHR ''-'') part))) of
              (Some start, Some finish) \<Rightarrow> lift_result (set_range start finish maxVal b)
            | _ \<Rightarrow> Undefined)
      else (case from_chars part of
              None \<Rightarrow> Undefined
            | Some val \<Rightarrow> if 0 \<le> val \<and> val \<le> maxVal then lift_result (bs_set val b) else Returned b))"

function parseParts :: "int \<Rightarrow> string \<Rightarrow> bitset \<Rightarrow> bitset outcome" where
  "parseParts maxVal field b =
     (if field = [] then Returned b
      else (let part = takeWhile (\<lambda>ch. ch \<noteq> CHR '','') field in
        case parsePart maxVal part b of
          Returned b' \<Rightarrow> parseParts maxVal (drop (length part + 1) field) b'
        | Threw e \<Rightarrow> Threw e
        | Undefined \<Rightarrow> Undefined))"
  by auto
termination
  by (relation "measure (\<lambda>(maxVal, field, b). length field)") auto

declare parseParts.simps [simp del]

definition parseField :: "int \<Rightarrow> string \<Rightarrow> bitset \<Rightarrow> bitset outcome" where
  "parseField maxVal field b =
     (if field = ''*'' then lift_result (set_range 0 maxVal maxVal b) else parseParts maxVal field b)"

definition outcome_bind :: "'a outcome \<Rightarrow> ('a \<Rightarrow> 'b outcome) \<Rightarrow> 'b outcome" where
  "outcome_bind m f = (case m of Undefined \<Rightarrow> Undefined | Threw e \<Rightarrow> Threw e | Returned x \<Rightarrow> f x)"

definition cron_parse :: "string \<Rightarrow> cron outcome" where
  "cron_parse expression =
     (case tokens expression of
        minStr # hourStr # domStr # monthStr # dowStr # _ \<Rightarrow>
          outcome_bind (parseField 59 minStr (replicate 60 False)) (\<lambda>mi.
          outcome_bind (parseField 23 hourStr (replicate 24 False)) (\<lambda>ho.
          outcome_bind (parseField 31 domStr (replicate 32 False)) (\<lambda>dm.
          outcome_bind (parseField 12 monthStr (replicate 13 False)) (\<lambda>mo.
          outcome_bind (parseField 6 dowStr (replicate 7 False)) (\<lambda>dw.
            Returned \<lparr>minutes = mi, hours = ho, daysOfMonth = dm, months = mo, daysOfWeek = dw\<rparr>)))))
      | _ \<Rightarrow> Threw Invalid_argument)"

section \<open>Printing\<close>

fun join_values :: "int list \<Rightarrow> string" where
  "join_values [] = []"
| "join_values [v] = show_nat (nat v)"
| "join_values (v # vs) = show_nat (nat v) @ '','' @ join_values vs"

definition fieldToString :: "bitset \<Rightarrow> int \<Rightarrow> string" where
  "fieldToString b maxVal =
     (let values = filter (bs_test b) [0..maxVal] in
      if int (length values) = maxVal + 1 then ''*'' else join_values values)"

definition cron_toString :: "cron \<Rightarrow> string" where
  "cron_toString c =
     fieldToString (minutes c) 59 @ '' '' @ fieldToString (hours c) 23 @ '' '' @
     fieldToString (daysOfMonth c) 31 @ '' '' @ fieldToString (months c) 12 @ '' '' @
     fieldToString (daysOfWeek c) 6"

section \<open>Builders\<close>

definition cron_everyMinute :: cron where
  "cron_everyMinute = cron_setAll"

definition cron_everyHour :: "cron result" where
  "cron_everyHour =
     (case bs_set 0 (bs_reset (minutes cron_setAll)) of
        Inl e \<Rightarrow> Inl e | Inr mi \<Rightarrow> Inr (cron_setAll\<lparr>minutes := mi\<rparr>))"

definition cron_daily :: "int \<Rightarrow> int \<Rightarrow> cron result" where
  "cron_daily hour minute =
     (case bs_set minute (bs_reset (minutes cron_setAll)) of
        Inl e \<Rightarrow> Inl e
      | Inr mi \<Rightarrow> (case bs_set hour (bs_reset (hours cron_setAll)) of
          Inl e \<Rightarrow> Inl e
        | Inr ho \<Rightarrow> Inr (cron_setAll\<lparr>minutes := mi, hours := ho\<rparr>)))"

definition cron_weekly :: "int \<Rightarrow> int \<Rightarrow> int \<Rightarrow> cron result" where
  "cron_weekly dow hour minute =
     (case cron_daily hour minute of
        Inl e \<Rightarrow> Inl e
      | Inr c \<Rightarrow> (case bs_set dow (bs_reset (daysOfWeek c)) of
          Inl e \<Rightarrow> Inl e | Inr dw \<Rightarrow> Inr (c\<lparr>daysOfWeek := dw\<rparr>)))"

definition cron_monthly :: "int \<Rightarrow> int \<Rightarrow> int \<Rightarrow> cron result" where
  "cron_monthly day hour minute =
     (case cron_daily hour minute of
        Inl e \<Rightarrow> Inl e
      | Inr c \<Rightarrow> (case bs_set day (bs_reset (daysOfMonth c)) of
          Inl e \<Rightarrow> Inl e | Inr dm \<Rightarrow> Inr (c\<lparr>daysOfMonth := dm\<rparr>)))"

text \<open>The chained setters ignore a value out of range.\<close>

definition cron_minute :: "int \<Rightarrow> cron \<Rightarrow> cron" where
  "cron_minute v c =
     (if v \<ge> 0 \<and> v < 60 then c\<lparr>minutes := (bs_reset (minutes c))[nat v := True]\<rparr> else c)"

definition cron_hour :: "int \<Rightarrow> cron \<Rightarrow> cron" where
  "cron_hour v c =
     (if v \<ge> 0 \<and> v < 24 then c\<lparr>hours := (bs_reset (hours c))[nat v := True]\<rparr> else c)"

definition cron_dayOfMonth :: "int \<Rightarrow> cron \<Rightarrow> cron" where
  "cron_dayOfMonth v c =
     (if v \<ge> 1 \<and> v \<le> 31 then c\<lparr>daysOfMonth := (bs_reset (daysOfMonth c))[nat v := True]\<rparr> else c)"

definition cron_month :: "int \<Rightarrow> cron \<Rightarrow> cron" where
  "cron_month v c =
     (if v \<ge> 1 \<and> v \<le> 12 then c\<lparr>months := (bs_reset (months c))[nat v := True]\<rparr> else c)"

definition cron_dayOfWeek :: "int \<Rightarrow> cron \<Rightarrow> cron" where
  "cron_dayOfWeek v c =
     (if v \<ge> 0 \<and> v \<le> 6 then c\<lparr>daysOfWeek := (bs_reset (daysOfWeek c))[nat v := True]\<rparr> else c)"

text \<open>
  The loop of \<open>minuteRange\<close> and \<open>hourRange\<close>: \<open>for (int i = start; i <= end && i < bound; ++i) set(i)\<close>;
  with the bits set before a throw.
\<close>

function fill_range :: "int \<Rightarrow> int \<Rightarrow> int \<Rightarrow> bitset \<Rightarrow> unit result \<times> bitset" where
  "fill_range i end bound b =
     (if i \<le> end \<and> i < bound
      then (case bs_set i b of Inl e \<Rightarrow> (Inl e, b) | Inr b' \<Rightarrow> fill_range (i + 1) end bound b')
      else (Inr (), b))"
  by auto
termination
  by (relation "measure (\<lambda>(i, end, bound, b). nat (bound - i))") auto

declare fill_range.simps [simp del]

definition cron_minuteRange :: "int \<Rightarrow> int \<Rightarrow> cron \<Rightarrow> unit result \<times> cron" where
  "cron_minuteRange start end c =
     (case fill_range start end 60 (bs_reset (minutes c)) of (r, b) \<Rightarrow> (r, c\<lparr>minutes := b\<rparr>))"

definition cron_hourRange :: "int \<Rightarrow> int \<Rightarrow> cron \<Rightarrow> unit result \<times> cron" where
  "cron_hourRange start end c =
     (case fill_range start end 24 (bs_reset (hours c)) of (r, b) \<Rightarrow> (r, c\<lparr>hours := b\<rparr>))"

section \<open>The next execution time\<close>

text \<open>Time points are nanoseconds since the epoch; \<open>to_time_t\<close> truncates towards zero.\<close>

definition to_time_t :: "int \<Rightarrow> int" where
  "to_time_t ns = ns sdiv 1000000000"

definition from_time_t :: "int \<Rightarrow> int" where
  "from_time_t t = t * 1000000000"

definition cron_carry :: "tm \<Rightarrow> tm" where
  "cron_carry b =
     (let b1 = (if tm_min b \<ge> 60 then b\<lparr>tm_min := 0, tm_hour := tm_hour b + 1\<rparr> else b) in
      if tm_hour b1 \<ge> 24 then b1\<lparr>tm_hour := 0, tm_mday := tm_mday b1 + 1\<rparr> else b1)"

definition cron_skip_month :: "tm \<Rightarrow> tm" where
  "cron_skip_month b =
     (let b1 = b\<lparr>tm_mday := 1, tm_hour := 0, tm_min := 0, tm_mon := tm_mon b + 1\<rparr> in
      if tm_mon b1 \<ge> 12 then b1\<lparr>tm_mon := 0, tm_year := tm_year b1 + 1\<rparr> else b1)"

text \<open>The body of the loop, with \<open>localtime_r\<close> and \<open>mktime\<close> as \<open>lt\<close> and \<open>mk\<close>: \<open>Inr t\<close> for a return, \<open>Inl\<close> for \<open>continue\<close> with the next candidate.\<close>

definition cron_body :: "(int \<Rightarrow> tm) \<Rightarrow> (tm \<Rightarrow> int) \<Rightarrow> cron \<Rightarrow> tm \<Rightarrow> tm + int" where
  "cron_body lt mk c b =
     (let check = mk (cron_carry b); b2 = lt check in
      if \<not> bs_test (months c) (tm_mon b2 + 1) then Inl (cron_skip_month b2)
      else if \<not> bs_test (daysOfMonth c) (tm_mday b2) \<or> \<not> bs_test (daysOfWeek c) (tm_wday b2)
        then Inl (b2\<lparr>tm_hour := 0, tm_min := 0, tm_mday := tm_mday b2 + 1\<rparr>)
      else if \<not> bs_test (hours c) (tm_hour b2) then Inl (b2\<lparr>tm_min := 0, tm_hour := tm_hour b2 + 1\<rparr>)
      else if \<not> bs_test (minutes c) (tm_min b2) then Inl (b2\<lparr>tm_min := tm_min b2 + 1\<rparr>)
      else Inr (mk b2))"

function cron_search :: "(int \<Rightarrow> tm) \<Rightarrow> (tm \<Rightarrow> int) \<Rightarrow> cron \<Rightarrow> int \<Rightarrow> tm \<Rightarrow> int result" where
  "cron_search lt mk c iterations b =
     (if iterations < 366 * 24 * 60
      then (case cron_body lt mk c b of
              Inr t \<Rightarrow> Inr t
            | Inl b' \<Rightarrow> cron_search lt mk c (iterations + 1) b')
      else Inl Runtime_error)"
  by auto
termination
  by (relation "measure (\<lambda>(lt, mk, c, i, b). nat (366 * 24 * 60 - i))") auto

declare cron_search.simps [simp del]

definition cron_nextAfter :: "(int \<Rightarrow> tm) \<Rightarrow> (tm \<Rightarrow> int) \<Rightarrow> cron \<Rightarrow> int \<Rightarrow> int result" where
  "cron_nextAfter lt mk c after =
     (let b = lt (to_time_t after) in
      case cron_search lt mk c 0 (b\<lparr>tm_sec := 0, tm_min := tm_min b + 1\<rparr>) of
        Inl e \<Rightarrow> Inl e
      | Inr t \<Rightarrow> Inr (from_time_t t))"


text \<open>A minute at which the expression fires.\<close>

definition cron_matches :: "(int \<Rightarrow> tm) \<Rightarrow> cron \<Rightarrow> int \<Rightarrow> bool" where
  "cron_matches lt c t \<longleftrightarrow>
     tm_sec (lt t) = 0 \<and> bs_test (minutes c) (tm_min (lt t)) \<and> bs_test (hours c) (tm_hour (lt t)) \<and>
     bs_test (daysOfMonth c) (tm_mday (lt t)) \<and> bs_test (months c) (tm_mon (lt t) + 1) \<and>
     bs_test (daysOfWeek c) (tm_wday (lt t))"

section \<open>The search finds the earliest match\<close>

lemma same_div:
  fixes a u k :: int
  assumes "0 < k" "a \<le> u" "u < a - a mod k + k"
  shows "u div k = a div k"
proof (rule int_div_pos_eq [where r = "u - k * (a div k)"])
  have "a = k * (a div k) + a mod k" "0 \<le> a mod k" using assms(1) by simp_all
  then show "0 \<le> u - k * (a div k)" "u - k * (a div k) < k" using assms by linarith+
qed simp

lemma aligned_step:
  fixes a b k :: int
  assumes "0 < k" "a mod k = 0" "b mod k = 0" "a < b"
  shows "a + k \<le> b"
proof -
  have "k dvd b - a" using assms by (simp add: dvd_diff dvd_eq_mod_eq_0 [symmetric])
  then show ?thesis using zdvd_imp_le [of k "b - a"] assms by simp
qed

lemma div_mod_div:
  fixes x j k :: int
  assumes "0 < j" "0 < k"
  shows "x mod (k * j) div k = x div k mod j"
  using assms zmod_zmult2_eq [of j x k] by (simp add: mult.commute)

lemma hour_of: "(x :: int) mod 86400 div 3600 = x div 3600 mod 24"
  using div_mod_div [of 24 3600 x] by simp

lemma minute_of: "(x :: int) mod 3600 div 60 = x div 60 mod 60"
  using div_mod_div [of 60 60 x] by simp

lemma mod_dvd_0: "(x :: int) mod m = 0 \<Longrightarrow> k dvd m \<Longrightarrow> x mod k = 0"
  by (metis dvd_eq_mod_eq_0 dvd_trans)

text \<open>The broken-down times the loop works on: at most one carry is pending.\<close>

definition cron_pending :: "tm \<Rightarrow> bool" where
  "cron_pending b \<longleftrightarrow> tm_min b \<le> 60 \<and> tm_hour b \<le> 24 \<and> (tm_min b = 60 \<longrightarrow> tm_hour b \<le> 23)"

context calendar
begin

lemma carry_keeps_time: "cron_pending b \<Longrightarrow> mktime (cron_carry b) = mktime b"
  by (auto simp: cron_carry_def cron_pending_def Let_def mktime_fields)

lemma sec_aligned: "tm_sec (localtime t) = 0 \<longleftrightarrow> (t + off) mod 60 = 0"
  by (simp add: time_of_sod)

lemma skip_month:
  assumes "(t + off) mod 60 = 0"
  shows "cron_skip_month (localtime t) = next_month (localtime t)"
  using assms sec_aligned [of t] by (simp add: cron_skip_month_def next_month_def Let_def)

lemma skip_month_time:
  assumes "(t + off) mod 60 = 0"
  defines "b \<equiv> cron_skip_month (localtime t)"
  shows "cron_pending b" "t < mktime b" "(mktime b + off) mod 60 = 0"
    "t \<le> u \<Longrightarrow> u < mktime b \<Longrightarrow> tm_mon (localtime u) = tm_mon (localtime t)"
proof -
  have b: "b = next_month (localtime t)" unfolding b_def by (rule skip_month [OF assms(1)])
  show "cron_pending b" by (simp add: b cron_pending_def next_month_def Let_def)
  show "t < mktime b" unfolding b by (rule next_month_later)
  show "(mktime b + off) mod 60 = 0"
    unfolding b by (rule mod_dvd_0 [OF next_month_midnight]) simp
  show "t \<le> u \<Longrightarrow> u < mktime b \<Longrightarrow> tm_mon (localtime u) = tm_mon (localtime t)"
    unfolding b by (rule same_month)
qed

lemma skip_day_time:
  assumes "(t + off) mod 60 = 0"
  defines "b \<equiv> (localtime t)\<lparr>tm_hour := 0, tm_min := 0, tm_mday := tm_mday (localtime t) + 1\<rparr>"
  shows "cron_pending b" "t < mktime b" "(mktime b + off) mod 60 = 0"
    "t \<le> u \<Longrightarrow> u < mktime b \<Longrightarrow> tm_mday (localtime u) = tm_mday (localtime t) \<and>
      tm_wday (localtime u) = tm_wday (localtime t)"
proof -
  have b: "mktime b = t - (t + off) mod 86400 + 86400"
    using sod_localtime [of t] sec_aligned [of t] assms(1)
    by (simp add: b_def mktime_fields mktime_localtime sod_def)
  show "cron_pending b" by (simp add: b_def cron_pending_def)
  show "t < mktime b" unfolding b using pos_mod_bound [of 86400 "t + off"] by simp
  have "(mktime b + off) mod 86400 = 0" unfolding b by (simp add: mod_simps algebra_simps)
  then show "(mktime b + off) mod 60 = 0" by (rule mod_dvd_0) simp
  show "tm_mday (localtime u) = tm_mday (localtime t) \<and> tm_wday (localtime u) = tm_wday (localtime t)"
    if "t \<le> u" "u < mktime b"
    using same_date [of t u] same_div [of 86400 "t + off" "u + off"] that unfolding b by simp
qed

lemma skip_hour_time:
  assumes "(t + off) mod 60 = 0"
  defines "b \<equiv> (localtime t)\<lparr>tm_min := 0, tm_hour := tm_hour (localtime t) + 1\<rparr>"
  shows "cron_pending b" "t < mktime b" "(mktime b + off) mod 60 = 0"
    "t \<le> u \<Longrightarrow> u < mktime b \<Longrightarrow> tm_hour (localtime u) = tm_hour (localtime t)"
proof -
  have r: "tm_min (localtime t) < 60" "tm_hour (localtime t) < 24" using time_fields [of t] by auto
  have "(t + off) mod 3600 mod 60 = 0" using mod_mod_cancel [of 60 3600 "t + off"] assms(1) by simp
  then have "(t + off) mod 3600 = 60 * ((t + off) mod 3600 div 60)"
    by (metis add.right_neutral mult_div_mod_eq)
  then have "(t + off) mod 3600 = 60 * tm_min (localtime t)" by (simp only: time_of_sod)
  then have b: "mktime b = t - (t + off) mod 3600 + 3600"
    by (simp add: b_def mktime_fields mktime_localtime)
  show "cron_pending b" using r by (simp add: b_def cron_pending_def)
  show "t < mktime b" unfolding b using pos_mod_bound [of 3600 "t + off"] by simp
  have "(mktime b + off) mod 3600 = 0" unfolding b by (simp add: mod_simps algebra_simps)
  then show "(mktime b + off) mod 60 = 0" by (rule mod_dvd_0) simp
  show "tm_hour (localtime u) = tm_hour (localtime t)" if "t \<le> u" "u < mktime b"
  proof -
    have "(u + off) div 3600 = (t + off) div 3600" by (rule same_div) (use that b in simp_all)
    then show ?thesis using hour_of [of "t + off"] hour_of [of "u + off"] by (simp only: time_of_sod)
  qed
qed

lemma skip_minute_time:
  assumes "(t + off) mod 60 = 0"
  defines "b \<equiv> (localtime t)\<lparr>tm_min := tm_min (localtime t) + 1\<rparr>"
  shows "cron_pending b" "t < mktime b" "(mktime b + off) mod 60 = 0"
    "t \<le> u \<Longrightarrow> u < mktime b \<Longrightarrow> tm_min (localtime u) = tm_min (localtime t)"
proof -
  have r: "tm_min (localtime t) < 60" "tm_hour (localtime t) < 24" using time_fields [of t] by auto
  have b: "mktime b = t + 60" by (simp add: b_def mktime_fields mktime_localtime)
  show "cron_pending b" using r by (simp add: b_def cron_pending_def)
  show "t < mktime b" unfolding b by simp
  show "(mktime b + off) mod 60 = 0" using assms(1) mod_add_self2 [of "t + off" 60] unfolding b by (simp only: add.assoc add.commute [of 60])
  show "tm_min (localtime u) = tm_min (localtime t)" if "t \<le> u" "u < mktime b"
  proof -
    have "(u + off) div 60 = (t + off) div 60" by (rule same_div) (use that b assms(1) in simp_all)
    then show ?thesis using minute_of [of "t + off"] minute_of [of "u + off"] by (simp only: time_of_sod)
  qed
qed

text \<open>One round of the loop: it returns a matching candidate or passes over times that do not match.\<close>

lemma body_returns:
  assumes "cron_pending b" "(mktime b + off) mod 60 = 0" "cron_body localtime mktime c b = Inr r"
  shows "r = mktime b \<and> cron_matches localtime c r"
  using assms sec_aligned [of "mktime b"]
  by (auto simp: cron_body_def Let_def carry_keeps_time mktime_localtime cron_matches_def split: if_splits)

lemma body_continues:
  assumes "cron_pending b" "(mktime b + off) mod 60 = 0" "cron_body localtime mktime c b = Inl b'"
  shows "cron_pending b'" "mktime b < mktime b'" "(mktime b' + off) mod 60 = 0"
    and "\<And>u. mktime b \<le> u \<Longrightarrow> u < mktime b' \<Longrightarrow> \<not> cron_matches localtime c u"
proof -
  let ?b = "localtime (mktime b)"
  consider (month) "b' = cron_skip_month ?b" "\<not> bs_test (months c) (tm_mon ?b + 1)"
    | (day) "b' = ?b\<lparr>tm_hour := 0, tm_min := 0, tm_mday := tm_mday ?b + 1\<rparr>"
      "\<not> bs_test (daysOfMonth c) (tm_mday ?b) \<or> \<not> bs_test (daysOfWeek c) (tm_wday ?b)"
    | (hour) "b' = ?b\<lparr>tm_min := 0, tm_hour := tm_hour ?b + 1\<rparr>" "\<not> bs_test (hours c) (tm_hour ?b)"
    | (minute) "b' = ?b\<lparr>tm_min := tm_min ?b + 1\<rparr>" "\<not> bs_test (minutes c) (tm_min ?b)"
    using assms(3) carry_keeps_time [OF assms(1)] by (auto simp: cron_body_def Let_def split: if_splits)
  then have "(cron_pending b' \<and> mktime b < mktime b' \<and> (mktime b' + off) mod 60 = 0) \<and>
    (\<forall>u. mktime b \<le> u \<longrightarrow> u < mktime b' \<longrightarrow> \<not> cron_matches localtime c u)"
  proof cases
    case month
    note skip = skip_month_time [OF assms(2), folded month(1)]
    show ?thesis using skip(1-3) skip(4) month(2) unfolding cron_matches_def by metis
  next
    case day
    note skip = skip_day_time [OF assms(2), folded day(1)]
    show ?thesis using skip(1-3) skip(4) day(2) unfolding cron_matches_def by metis
  next
    case hour
    note skip = skip_hour_time [OF assms(2), folded hour(1)]
    show ?thesis using skip(1-3) skip(4) hour(2) unfolding cron_matches_def by metis
  next
    case minute
    note skip = skip_minute_time [OF assms(2), folded minute(1)]
    show ?thesis using skip(1-3) skip(4) minute(2) unfolding cron_matches_def by metis
  qed
  then show "cron_pending b'" "mktime b < mktime b'" "(mktime b' + off) mod 60 = 0"
    and "\<And>u. mktime b \<le> u \<Longrightarrow> u < mktime b' \<Longrightarrow> \<not> cron_matches localtime c u"
    by blast+
qed

text \<open>
  The whole search, by induction on the iterations left: what it returns is the earliest match, and
  after the last iteration a minute has been passed over for every iteration.
\<close>

definition search_result :: "cron \<Rightarrow> int \<Rightarrow> int \<Rightarrow> int result \<Rightarrow> bool" where
  "search_result c i t res \<longleftrightarrow> (case res of
     Inr r \<Rightarrow> t \<le> r \<and> cron_matches localtime c r \<and>
       (\<forall>u. t \<le> u \<longrightarrow> u < r \<longrightarrow> \<not> cron_matches localtime c u)
   | Inl e \<Rightarrow> e = Runtime_error \<and>
       (\<forall>u. t \<le> u \<longrightarrow> u < t + 60 * (366 * 24 * 60 - i) \<longrightarrow> \<not> cron_matches localtime c u))"

lemma search_result_step:
  assumes "search_result c (i + 1) t' res" "t + 60 \<le> t'"
    and "\<And>u. t \<le> u \<Longrightarrow> u < t' \<Longrightarrow> \<not> cron_matches localtime c u"
  shows "search_result c i t res"
proof (cases res)
  case (Inl e)
  have "\<not> cron_matches localtime c u" if "t \<le> u" "u < t + 60 * (366 * 24 * 60 - i)" for u
  proof (cases "u < t'")
    case True
    then show ?thesis using assms(3) that by blast
  next
    case False
    have "u < t' + 60 * (366 * 24 * 60 - (i + 1))" using that assms(2) by (simp add: algebra_simps)
    then show ?thesis using assms(1) Inl False by (auto simp: search_result_def)
  qed
  then show ?thesis using assms(1) Inl by (simp add: search_result_def)
next
  case (Inr r)
  then have "t' \<le> r" and r: "cron_matches localtime c r"
    "\<And>u. t' \<le> u \<Longrightarrow> u < r \<Longrightarrow> \<not> cron_matches localtime c u"
    using assms(1) by (auto simp: search_result_def)
  moreover have "\<not> cron_matches localtime c u" if "t \<le> u" "u < r" for u
    using r(2) assms(3) that by (cases "u < t'") auto
  ultimately show ?thesis using Inr assms(2) by (auto simp: search_result_def)
qed

lemma search_correct:
  assumes "cron_pending b" "(mktime b + off) mod 60 = 0" "i \<le> 366 * 24 * 60"
  shows "search_result c i (mktime b) (cron_search localtime mktime c i b)"
  using assms
proof (induction "nat (366 * 24 * 60 - i)" arbitrary: i b)
  case 0
  then have "i = 366 * 24 * 60" by simp
  then show ?case by (simp add: cron_search.simps search_result_def)
next
  case (Suc n)
  then have i: "i < 366 * 24 * 60" by simp
  show ?case
  proof (cases "cron_body localtime mktime c b")
    case (Inr r)
    then have "cron_search localtime mktime c i b = Inr r" using i by (simp add: cron_search.simps)
    then show ?thesis using body_returns [OF Suc.prems(1,2) Inr] by (auto simp: search_result_def)
  next
    case (Inl b')
    note cont = body_continues [OF Suc.prems(1,2) Inl]
    have "search_result c (i + 1) (mktime b') (cron_search localtime mktime c (i + 1) b')"
      by (rule Suc.hyps(1)) (use Suc.hyps(2) i cont in auto)
    moreover have "mktime b + 60 \<le> mktime b'"
      using aligned_step [of 60 "mktime b + off" "mktime b' + off"] Suc.prems(2) cont(2,3) by simp
    ultimately have "search_result c i (mktime b) (cron_search localtime mktime c (i + 1) b')"
      using search_result_step cont(4) by blast
    then show ?thesis using i Inl by (simp add: cron_search.simps [of localtime mktime c i b])
  qed
qed

text \<open>The first candidate is the next full minute.\<close>

lemma first_candidate:
  fixes t :: int
  defines "b \<equiv> (localtime t)\<lparr>tm_sec := 0, tm_min := tm_min (localtime t) + 1\<rparr>"
  shows "cron_pending b" "(mktime b + off) mod 60 = 0" "t < mktime b" "mktime b \<le> t + 60"
    and "\<And>u. t < u \<Longrightarrow> u < mktime b \<Longrightarrow> \<not> cron_matches localtime c u"
proof -
  have r: "tm_min (localtime t) < 60" "tm_hour (localtime t) < 24" using time_fields [of t] by auto
  have b: "mktime b = t - (t + off) mod 60 + 60"
    by (simp add: b_def mktime_fields mktime_localtime time_of_sod)
  show "cron_pending b" using r by (simp add: b_def cron_pending_def)
  show aligned: "(mktime b + off) mod 60 = 0" unfolding b by (simp add: mod_simps algebra_simps)
  show "t < mktime b" "mktime b \<le> t + 60"
    unfolding b using pos_mod_bound [of 60 "t + off"] pos_mod_sign [of 60 "t + off"] by simp_all
  show "\<not> cron_matches localtime c u" if "t < u" "u < mktime b" for u
  proof
    assume "cron_matches localtime c u"
    then have "(u + off) mod 60 = 0" by (simp add: cron_matches_def sec_aligned)
    then have "u + 60 \<le> mktime b" using aligned_step [of 60 "u + off" "mktime b + off"] aligned that by simp
    then show False using that pos_mod_sign [of 60 "t + off"] unfolding b by simp
  qed
qed

lemma next_after:
  "case cron_nextAfter localtime mktime c after of
     Inr r \<Rightarrow> \<exists>t. r = from_time_t t \<and> to_time_t after < t \<and> cron_matches localtime c t \<and>
       (\<forall>u. to_time_t after < u \<longrightarrow> u < t \<longrightarrow> \<not> cron_matches localtime c u)
   | Inl e \<Rightarrow> e = Runtime_error \<and>
       (\<forall>u. to_time_t after < u \<longrightarrow> u \<le> to_time_t after + 366 * 24 * 60 * 60 \<longrightarrow> \<not> cron_matches localtime c u)"
proof -
  let ?t = "to_time_t after"
  let ?b = "(localtime ?t)\<lparr>tm_sec := 0, tm_min := tm_min (localtime ?t) + 1\<rparr>"
  note first = first_candidate [of ?t]
  note res = search_correct [OF first(1,2), of 0 c]
  show ?thesis
  proof (cases "cron_search localtime mktime c 0 ?b")
    case (Inl e)
    have "\<not> cron_matches localtime c u" if "?t < u" "u \<le> ?t + 366 * 24 * 60 * 60" for u
      using res Inl first(3) first(5) [of u] that by (cases "u < mktime ?b") (auto simp: search_result_def)
    then show ?thesis using Inl res by (simp add: cron_nextAfter_def Let_def search_result_def)
  next
    case (Inr t)
    have "\<not> cron_matches localtime c u" if "?t < u" "u < t" for u
      using res Inr first(5) [of u] that by (cases "u < mktime ?b") (auto simp: search_result_def)
    then show ?thesis using Inr res first(3) by (auto simp: cron_nextAfter_def Let_def search_result_def)
  qed
qed

end

section \<open>Numbers and fields survive printing\<close>

lemma from_chars_show_nat: "n \<le> 2147483647 \<Longrightarrow> from_chars (show_nat n) = Some (int n)"
proof -
  assume n: "n \<le> 2147483647"
  have "hd (show_nat n) \<noteq> CHR ''-''"
    using show_nat_digits [of n] show_nat_nonempty [of n] digit_not_sep
    by (cases "show_nat n") auto
  moreover have all: "takeWhile is_digit (show_nat n) = show_nat n"
    using show_nat_digits [of n] by (simp add: takeWhile_eq_all_conv list_all_iff)
  ultimately show ?thesis
    using n show_nat_nonempty [of n] by (simp add: from_chars_def all digits_value_show_nat Let_def)
qed

lemma parsePart_show_nat:
  assumes "0 \<le> v" "v \<le> maxVal" "maxVal \<le> 2147483647" "int (length b) = maxVal + 1"
  shows "parsePart maxVal (show_nat (nat v)) b = Returned (b[nat v := True])"
  using assms from_chars_show_nat [of "nat v"] show_nat_no_sep(1) [of "nat v"]
  by (auto simp: parsePart_def bs_set_def lift_result_def)

definition set_bits :: "int list \<Rightarrow> bitset \<Rightarrow> bitset" where
  "set_bits vs b = fold (\<lambda>v b. b[nat v := True]) vs b"

lemma length_set_bits [simp]: "length (set_bits vs b) = length b"
  unfolding set_bits_def by (induction vs arbitrary: b) auto

lemma set_bits_nth:
  "k < length b \<Longrightarrow> set_bits vs b ! k \<longleftrightarrow> b ! k \<or> k \<in> nat ` set vs"
  unfolding set_bits_def
proof (induction vs arbitrary: b)
  case (Cons a vs)
  then show ?case by (cases "nat a = k") auto
qed simp

lemma parseParts_join:
  assumes "maxVal \<le> 2147483647"
  shows "\<forall>v \<in> set vs. 0 \<le> v \<and> v \<le> maxVal \<Longrightarrow> int (length b) = maxVal + 1 \<Longrightarrow>
    parseParts maxVal (join_values vs) b = Returned (set_bits vs b)"
proof (induction vs arbitrary: b rule: join_values.induct)
  case 1
  then show ?case by (simp add: parseParts.simps set_bits_def)
next
  case (2 v)
  then show ?case
    using assms show_nat_nonempty [of "nat v"]
    by (simp add: parseParts.simps [of maxVal "show_nat (nat v)"] parseParts.simps [of maxVal "[]"]
        takeWhile_sep show_nat_no_sep parsePart_show_nat set_bits_def Let_def)
next
  case (3 v w vs)
  have "parseParts maxVal (show_nat (nat v) @ '','' @ join_values (w # vs)) b =
      parseParts maxVal (join_values (w # vs)) (b[nat v := True])"
    using 3 assms show_nat_nonempty [of "nat v"]
    by (simp add: parseParts.simps [of maxVal "show_nat (nat v) @ _"] takeWhile_sep show_nat_no_sep
        parsePart_show_nat Let_def)
  then show ?case using 3 by (simp add: set_bits_def)
qed

lemma set_range_all:
  assumes "0 \<le> i" "i \<le> maxVal + 1" "int (length b) = maxVal + 1"
  shows "set_range i maxVal maxVal b = Inr (set_bits [i..maxVal] b)"
  using assms
proof (induction "nat (maxVal + 1 - i)" arbitrary: i b)
  case 0
  then show ?case by (simp add: set_range.simps set_bits_def)
next
  case (Suc n)
  have "set_range (i + 1) maxVal maxVal (b[nat i := True]) = Inr (set_bits [i + 1..maxVal] (b[nat i := True]))"
    by (rule Suc.hyps(1)) (use Suc.hyps(2) Suc.prems in auto)
  moreover have "i \<le> maxVal" using Suc.hyps(2) by simp
  ultimately show ?case
    using Suc.prems by (simp add: set_range.simps [of i] bs_set_def upto_rec1 set_bits_def)
qed

lemma set_bits_all:
  assumes "int (length b) = maxVal + 1"
  shows "set_bits (filter (bs_test b) [0..maxVal]) (replicate (length b) False) = b"
proof (rule nth_equalityI)
  fix k
  assume "k < length (set_bits (filter (bs_test b) [0..maxVal]) (replicate (length b) False))"
  then have k: "k < length b" by simp
  have "k \<in> nat ` set (filter (bs_test b) [0..maxVal]) \<longleftrightarrow> b ! k"
  proof
    assume "b ! k"
    then have "int k \<in> set (filter (bs_test b) [0..maxVal])" using k assms by (simp add: bs_test_def)
    then show "k \<in> nat ` set (filter (bs_test b) [0..maxVal])" by (rule image_eqI [rotated]) simp
  qed (auto simp: bs_test_def)
  then show "set_bits (filter (bs_test b) [0..maxVal]) (replicate (length b) False) ! k = b ! k"
    using k by (simp add: set_bits_nth)
qed simp

lemma filter_all_upto:
  "int (length (filter P [0..m])) = m + 1 \<Longrightarrow> 0 \<le> m + 1 \<Longrightarrow> filter P [0..m] = [0..m]"
  using length_filter_less [of _ "[0..m]" P] by (intro filter_True) fastforce

lemma show_nat_hd: "is_digit (hd (show_nat n))"
  using show_nat_digits [of n] show_nat_nonempty [of n] by (cases "show_nat n") simp_all

lemma join_values_hd:
  assumes "vs \<noteq> []"
  shows "join_values vs \<noteq> []" "is_digit (hd (join_values vs))"
  using assms show_nat_nonempty show_nat_hd by (cases vs rule: join_values.cases; simp)+

lemma join_values_not_star: "join_values vs \<noteq> ''*''"
proof
  assume "join_values vs = ''*''"
  then have "is_digit (CHR ''*'')" using join_values_hd(2) [of vs] by (cases "vs = []") simp_all
  then show False using digit_not_sep by blast
qed

lemma parseField_print:
  assumes "int (length b) = maxVal + 1" "maxVal \<le> 2147483647"
  shows "parseField maxVal (fieldToString b maxVal) (replicate (length b) False) = Returned b"
proof (cases "int (length (filter (bs_test b) [0..maxVal])) = maxVal + 1")
  case True
  then have "filter (bs_test b) [0..maxVal] = [0..maxVal]" using assms by (intro filter_all_upto) auto
  then have "set_range 0 maxVal maxVal (replicate (length b) False) = Inr b"
    using set_range_all [of 0 maxVal "replicate (length b) False"] set_bits_all [OF assms(1)] assms(1) by simp
  then show ?thesis using True by (simp add: parseField_def fieldToString_def lift_result_def)
next
  case False
  let ?vs = "filter (bs_test b) [0..maxVal]"
  have "join_values ?vs \<noteq> ''*''" by (rule join_values_not_star)
  then show ?thesis
    using False parseParts_join [OF assms(2), of ?vs "replicate (length b) False"] set_bits_all [OF assms(1)] assms(1)
    by (simp add: parseField_def fieldToString_def)
qed

lemma tokens_word:
  assumes "w \<noteq> []" "\<forall>ch \<in> set w. \<not> is_space ch"
  shows "tokens (w @ '' '' @ r) = w # tokens r" "tokens w = [w]"
proof -
  have hd: "\<not> is_space (hd w)" using assms by (cases w) auto
  have sp: "is_space (CHR '' '')" by (simp add: is_space_def)
  have skip: "tokens ('' '' @ r) = tokens r" for r
    using sp by (simp add: tokens.simps [of "CHR '' '' # r"] tokens.simps [of r])
  have d: "dropWhile is_space (w @ ys) = w @ ys" for ys using hd assms(1) by (cases w) auto
  have t: "takeWhile (\<lambda>ch. \<not> is_space ch) (w @ '' '' @ r) = w"
    "dropWhile (\<lambda>ch. \<not> is_space ch) (w @ '' '' @ r) = '' '' @ r"
    using assms(2) sp by (induction w) auto
  show "tokens (w @ '' '' @ r) = w # tokens r"
    unfolding tokens.simps [of "w @ '' '' @ r"] Let_def d t using assms(1) skip by simp
  have tw: "takeWhile (\<lambda>ch. \<not> is_space ch) w = w" "dropWhile (\<lambda>ch. \<not> is_space ch) w = []"
    using assms(2) by (induction w) auto
  show "tokens w = [w]"
    unfolding tokens.simps [of w] Let_def d [of "[]", simplified] tw using assms(1) by (simp add: tokens.simps)
qed

lemma join_values_no_space: "\<forall>ch \<in> set (join_values vs). \<not> is_space ch"
proof -
  have "\<not> is_space (CHR '','')" by (simp add: is_space_def)
  then show ?thesis using show_nat_no_sep(3) by (induction vs rule: join_values.induct) auto
qed

lemma fieldToString_word:
  assumes "True \<in> set b" "int (length b) = maxVal + 1"
  shows "fieldToString b maxVal \<noteq> []" "\<forall>ch \<in> set (fieldToString b maxVal). \<not> is_space ch"
proof -
  obtain k where "k < length b" "b ! k" using assms(1) by (metis in_set_conv_nth)
  then have "int k \<in> set (filter (bs_test b) [0..maxVal])" using assms(2) by (simp add: bs_test_def)
  then have "filter (bs_test b) [0..maxVal] \<noteq> []" by (metis empty_iff empty_set)
  then show "fieldToString b maxVal \<noteq> []" "\<forall>ch \<in> set (fieldToString b maxVal). \<not> is_space ch"
    using join_values_hd(1) join_values_no_space by (auto simp: fieldToString_def Let_def is_space_def)
qed

lemma tokens_field:
  assumes "True \<in> set b" "int (length b) = maxVal + 1"
  shows "tokens (fieldToString b maxVal @ '' '' @ r) = fieldToString b maxVal # tokens r"
    "tokens (fieldToString b maxVal) = [fieldToString b maxVal]"
  using tokens_word fieldToString_word [OF assms] by blast+

lemma tokens_toString:
  assumes "cron_wf c" and t: "True \<in> set (minutes c)" "True \<in> set (hours c)"
    "True \<in> set (daysOfMonth c)" "True \<in> set (months c)" "True \<in> set (daysOfWeek c)"
  shows "tokens (cron_toString c) =
    [fieldToString (minutes c) 59, fieldToString (hours c) 23, fieldToString (daysOfMonth c) 31,
     fieldToString (months c) 12, fieldToString (daysOfWeek c) 6]"
proof -
  have l: "int (length (minutes c)) = 59 + 1" "int (length (hours c)) = 23 + 1"
    "int (length (daysOfMonth c)) = 31 + 1" "int (length (months c)) = 12 + 1"
    "int (length (daysOfWeek c)) = 6 + 1" using assms(1) by (simp_all add: cron_wf_def)
  show ?thesis
    unfolding cron_toString_def tokens_field(1) [OF t(1) l(1)] tokens_field(1) [OF t(2) l(2)]
      tokens_field(1) [OF t(3) l(3)] tokens_field(1) [OF t(4) l(4)] tokens_field(2) [OF t(5) l(5)] ..
qed

text \<open>Every index the search tests is inside its bit set.\<close>

lemma cron_tests_in_range:
  assumes "cron_wf c"
  shows "tm_min (localtime off t) \<in> {0..<int (length (minutes c))}"
    "tm_hour (localtime off t) \<in> {0..<int (length (hours c))}"
    "tm_mday (localtime off t) \<in> {0..<int (length (daysOfMonth c))}"
    "tm_mon (localtime off t) + 1 \<in> {0..<int (length (months c))}"
    "tm_wday (localtime off t) \<in> {0..<int (length (daysOfWeek c))}"
  using assms greg.time_fields [of off t] greg.date_fields [of off t] by (auto simp: cron_wf_def)

lemma to_time_t_nonneg: "0 \<le> ns \<Longrightarrow> to_time_t ns = ns div 1000000000"
  by (cases "ns = 0") (simp_all add: to_time_t_def signed_divide_int_def sgn_if)

lemma after_time_t: "0 \<le> ns \<Longrightarrow> to_time_t ns < u \<longleftrightarrow> ns < from_time_t u"
proof -
  assume "0 \<le> ns"
  moreover have "ns = 1000000000 * (ns div 1000000000) + ns mod 1000000000" "0 \<le> ns mod 1000000000"
    "ns mod 1000000000 < 1000000000" by simp_all
  ultimately show ?thesis unfolding from_time_t_def using to_time_t_nonneg [of ns] by linarith
qed

lemma cron_nextAfter_later:
  assumes "0 \<le> after" "cron_nextAfter (localtime off) (mktime off) c after = Inr r"
  shows "after < r"
  using greg.next_after [where off = off and c = c and after = after] assms after_time_t [OF assms(1)] by auto

section \<open>Properties\<close>



text \<open>
  Claim C33. Printing and parsing agree: parsing the text that \<open>toString\<close> prints for an expression
  with at least one value in each of its five fields gives the same expression back.
\<close>

theorem cron_parse_print:
  assumes "cron_wf c"
    and "True \<in> set (minutes c)" "True \<in> set (hours c)" "True \<in> set (daysOfMonth c)"
      "True \<in> set (months c)" "True \<in> set (daysOfWeek c)"
  shows "cron_parse (cron_toString c) = Returned c"
proof -
  have l: "length (minutes c) = 60" "length (hours c) = 24" "length (daysOfMonth c) = 32"
    "length (months c) = 13" "length (daysOfWeek c) = 7" using assms(1) by (simp_all add: cron_wf_def)
  have "parseField 59 (fieldToString (minutes c) 59) (replicate 60 False) = Returned (minutes c)"
    "parseField 23 (fieldToString (hours c) 23) (replicate 24 False) = Returned (hours c)"
    "parseField 31 (fieldToString (daysOfMonth c) 31) (replicate 32 False) = Returned (daysOfMonth c)"
    "parseField 12 (fieldToString (months c) 12) (replicate 13 False) = Returned (months c)"
    "parseField 6 (fieldToString (daysOfWeek c) 6) (replicate 7 False) = Returned (daysOfWeek c)"
    using parseField_print [of "minutes c" 59] parseField_print [of "hours c" 23]
      parseField_print [of "daysOfMonth c" 31] parseField_print [of "months c" 12]
      parseField_print [of "daysOfWeek c" 6] l by simp_all
  then show ?thesis
    using assms by (simp add: cron_parse_def tokens_toString outcome_bind_def)
qed

section \<open>What the expression code accepts\<close>

text \<open>What the parsing functions promise: no exception, and the size of the bit set stays.\<close>

definition parses :: "nat \<Rightarrow> bitset outcome \<Rightarrow> bool" where
  "parses n r \<longleftrightarrow> (case r of Returned b \<Rightarrow> length b = n | Threw e \<Rightarrow> False | Undefined \<Rightarrow> True)"

lemma set_range_size:
  "maxVal < int (length b) \<Longrightarrow> \<exists>b'. set_range i finish maxVal b = Inr b' \<and> length b' = length b"
proof (induction i finish maxVal b rule: set_range.induct)
  case (1 i finish maxVal b)
  then show ?case by (auto simp: set_range.simps [of i] bs_set_def)
qed

lemma parsePart_size:
  assumes "maxVal < int (length b)"
  shows "parses (length b) (parsePart maxVal part b)"
proof -
  have "parses (length b) (lift_result (set_range i j maxVal b))" for i j
    using set_range_size [OF assms, of i j] by (auto simp: parses_def lift_result_def)
  then show ?thesis using assms
    by (simp add: parsePart_def bs_set_def split: option.splits) (simp add: parses_def lift_result_def)
qed

lemma parseParts_size: "maxVal < int (length b) \<Longrightarrow> parses (length b) (parseParts maxVal field b)"
proof (induction maxVal field b rule: parseParts.induct)
  case (1 maxVal field b)
  show ?case
  proof (cases "field = []")
    case True
    then show ?thesis by (simp add: parseParts.simps parses_def)
  next
    case False
    define part where "part = takeWhile (\<lambda>ch. ch \<noteq> CHR '','') field"
    have p: "parses (length b) (parsePart maxVal part b)" by (rule parsePart_size [OF 1(2)])
    show ?thesis
    proof (cases "parsePart maxVal part b")
      case (Returned b')
      then have l: "length b' = length b" using p by (simp add: parses_def)
      then have "parses (length b') (parseParts maxVal (drop (length part + 1) field) b')"
        using 1(1) [OF False part_def Returned] 1(2) by simp
      then show ?thesis using False Returned l by (simp add: parseParts.simps [of maxVal field] Let_def flip: part_def)
    qed (use p False in \<open>simp_all add: parses_def parseParts.simps [of maxVal field] Let_def flip: part_def\<close>)
  qed
qed

lemma parseField_size: "maxVal < int n \<Longrightarrow> parses n (parseField maxVal field (replicate n False))"
  using parseParts_size [of maxVal "replicate n False" field] set_range_size [of maxVal "replicate n False" 0 maxVal]
  by (auto simp: parseField_def parses_def lift_result_def)

lemma parses_bind:
  "parses n m \<Longrightarrow> (\<And>b. length b = n \<Longrightarrow> case f b of Returned c \<Rightarrow> P c | Threw e \<Rightarrow> False | Undefined \<Rightarrow> True) \<Longrightarrow>
    case outcome_bind m f of Returned c \<Rightarrow> P c | Threw e \<Rightarrow> False | Undefined \<Rightarrow> True"
  by (cases m) (simp_all add: parses_def outcome_bind_def)

text \<open>
  Claim C34. \<open>CronExpression::parse\<close> throws exactly for fewer than five fields, always \<open>invalid_argument\<close> and
  never \<open>out_of_range\<close> of a bit set; what it returns has bit sets of the right sizes.
\<close>

theorem cron_parse_outcomes:
  "case cron_parse e of
     Returned c \<Rightarrow> length (tokens e) \<ge> 5 \<and> cron_wf c
   | Threw x \<Rightarrow> length (tokens e) < 5 \<and> x = Invalid_argument
   | Undefined \<Rightarrow> length (tokens e) \<ge> 5"
proof (cases "length (tokens e) \<ge> 5")
  case True
  then obtain a b c d f ts where t: "tokens e = a # b # c # d # f # ts"
    by (auto simp: numeral_eq_Suc Suc_le_length_iff)
  have "case cron_parse e of Returned c \<Rightarrow> cron_wf c | Threw e \<Rightarrow> False | Undefined \<Rightarrow> True"
    unfolding cron_parse_def t list.case
    by (intro parses_bind [OF parseField_size]) (simp_all add: cron_wf_def)
  then show ?thesis using True by (simp split: outcome.splits)
next
  case False
  then have "cron_parse e = Threw Invalid_argument" by (auto simp: cron_parse_def split: list.splits)
  then show ?thesis using False by simp
qed

text \<open>A step such as \<open>*/5\<close> is not rejected: the value read is uninitialised.\<close>

lemma cron_parse_step_undefined: "cron_parse ''*/5 * * * *'' = Undefined"
proof -
  have "tokens ''*/5 * * * *'' = [''*/5'', ''*'', ''*'', ''*'', ''*'']" by (simp add: tokens.simps is_space_def)
  moreover have "parseField 59 ''*/5'' b = Undefined" for b
    by (simp add: parseField_def parseParts.simps parsePart_def from_chars_def is_digit_def Let_def)
  ultimately show ?thesis by (simp add: cron_parse_def outcome_bind_def)
qed

lemma bs_test_set: "bs_test b i \<Longrightarrow> True \<in> set b"
  by (auto simp: bs_test_def in_set_conv_nth intro!: exI [of _ "nat i"])

text \<open>An expression without a value in a field never fires.\<close>

lemma cron_empty_field_throws:
  assumes "True \<notin> set (minutes c)"
  shows "cron_nextAfter (localtime off) (mktime off) c after = Inl Runtime_error"
proof -
  have "\<not> bs_test (minutes c) i" for i using assms bs_test_set by blast
  then have no: "\<not> cron_matches (localtime off) c t" for t by (simp add: cron_matches_def)
  note result = greg.next_after [where off = off and c = c and after = after]
  show ?thesis
  proof (cases "cron_nextAfter (localtime off) (mktime off) c after")
    case (Inl e)
    then show ?thesis using result by simp
  next
    case (Inr r)
    then show ?thesis using result no by simp
  qed
qed

text \<open>A minute out of range is ignored by \<open>parse\<close>, which then returns such an expression.\<close>

lemma parseField_star:
  assumes "int n = maxVal + 1"
  shows "parseField maxVal ''*'' (replicate n False) = Returned (set_bits [0..maxVal] (replicate n False))"
  using assms by (simp add: parseField_def set_range_all lift_result_def)

lemma cron_parse_out_of_range:
  "\<exists>c. cron_parse ''60 * * * *'' = Returned c \<and> minutes c = replicate 60 False"
proof -
  have "tokens ''60 * * * *'' = [''60'', ''*'', ''*'', ''*'', ''*'']" by (simp add: tokens.simps is_space_def)
  moreover have "parseField 59 ''60'' b = Returned b" for b
    by (simp add: parseField_def parseParts.simps parsePart_def from_chars_def is_digit_def digits_value_def Let_def)
  ultimately show ?thesis by (simp add: cron_parse_def outcome_bind_def parseField_star)
qed

text \<open>\<open>minuteRange\<close> with a negative start throws after clearing the minutes.\<close>

lemma cron_minuteRange_negative:
  "start < 0 \<Longrightarrow> start \<le> end \<Longrightarrow>
    cron_minuteRange start end c = (Inl Out_of_range, c\<lparr>minutes := bs_reset (minutes c)\<rparr>)"
  by (simp add: cron_minuteRange_def fill_range.simps bs_set_def)

text \<open>The printed form of an expression with an empty field does not parse.\<close>

lemma cron_print_empty_field:
  assumes "cron_wf c" "True \<notin> set (minutes c)"
    and t: "True \<in> set (hours c)" "True \<in> set (daysOfMonth c)" "True \<in> set (months c)" "True \<in> set (daysOfWeek c)"
  shows "cron_parse (cron_toString c) = Threw Invalid_argument"
proof -
  have l: "int (length (hours c)) = 23 + 1" "int (length (daysOfMonth c)) = 31 + 1"
    "int (length (months c)) = 12 + 1" "int (length (daysOfWeek c)) = 6 + 1"
    using assms(1) by (simp_all add: cron_wf_def)
  have "\<not> bs_test (minutes c) i" for i using assms(2) bs_test_set by blast
  then have "filter (bs_test (minutes c)) [0..59] = []" by (simp add: filter_empty_conv)
  then have m: "fieldToString (minutes c) 59 = []" by (simp add: fieldToString_def)
  have sp: "tokens ('' '' @ r) = tokens r" for r
    by (simp add: tokens.simps [of "CHR '' '' # r"] tokens.simps [of r] is_space_def)
  have "tokens (cron_toString c) =
      [fieldToString (hours c) 23, fieldToString (daysOfMonth c) 31, fieldToString (months c) 12,
       fieldToString (daysOfWeek c) 6]"
    unfolding cron_toString_def m append_Nil sp tokens_field(1) [OF t(1) l(1)] tokens_field(1) [OF t(2) l(2)]
      tokens_field(1) [OF t(3) l(3)] tokens_field(2) [OF t(4) l(4)] ..
  then show ?thesis by (simp add: cron_parse_def)
qed

section \<open>Witnesses\<close>

definition cron_two :: cron where
  "cron_two = cron_setAll\<lparr>minutes := (replicate 60 False)[0 := True], hours := (replicate 24 False)[2 := True]\<rparr>"

lemma cron_two_daily: "cron_daily 2 0 = Inr cron_two"
  by (simp add: cron_daily_def bs_set_def bs_reset_def cron_setAll_def cron_two_def)

lemma day_2000: "date_of_day 730485 = (2000, 0, 1)"
  by (simp add: date_of_day_def find_year.simps find_month.simps year_len_def leap_def month_len_def)

lemma local_2000:
  assumes "0 \<le> x" "x < 86400"
  shows "localtime 0 (946684800 + x) =
    \<lparr>tm_sec = x mod 60, tm_min = x div 60 mod 60, tm_hour = x div 3600, tm_mday = 1, tm_mon = 0, tm_year = 100, tm_wday = 6\<rparr>"
proof -
  have "(946684800 + x) div 86400 = 10957"
    by (rule int_div_pos_eq [where r = x]) (use assms in auto)
  moreover have "(946684800 + x) mod 86400 = x"
    by (rule int_mod_pos_eq [where q = 10957]) (use assms in auto)
  ultimately show ?thesis by (simp add: localtime_def day_2000)
qed

lemma mk_2000:
  "mktime 0 \<lparr>tm_sec = s, tm_min = m, tm_hour = h, tm_mday = 1, tm_mon = 0, tm_year = 100, tm_wday = w\<rparr> =
     946684800 + (3600 * h + 60 * m + s)"
  by (simp add: mktime_def day_of_date_def year_start_def sod_def)

lemma cron_two_tests:
  "bs_test (hours cron_two) 0 = False" "bs_test (hours cron_two) 1 = False" "bs_test (hours cron_two) 2"
  "bs_test (minutes cron_two) 0" "bs_test (months cron_two) 1" "bs_test (daysOfMonth cron_two) 1"
  "bs_test (daysOfWeek cron_two) 6"
  by code_simp+

lemma cron_two_times:
  "localtime 0 946684800 = \<lparr>tm_sec = 0, tm_min = 0, tm_hour = 0, tm_mday = 1, tm_mon = 0, tm_year = 100, tm_wday = 6\<rparr>"
  "localtime 0 946684860 = \<lparr>tm_sec = 0, tm_min = 1, tm_hour = 0, tm_mday = 1, tm_mon = 0, tm_year = 100, tm_wday = 6\<rparr>"
  "localtime 0 946688400 = \<lparr>tm_sec = 0, tm_min = 0, tm_hour = 1, tm_mday = 1, tm_mon = 0, tm_year = 100, tm_wday = 6\<rparr>"
  "localtime 0 946692000 = \<lparr>tm_sec = 0, tm_min = 0, tm_hour = 2, tm_mday = 1, tm_mon = 0, tm_year = 100, tm_wday = 6\<rparr>"
  using local_2000 [of 0] local_2000 [of 60] local_2000 [of 3600] local_2000 [of 7200] by simp_all

lemma cron_two_next: "cron_nextAfter (localtime 0) (mktime 0) cron_two 946684800000000000 = Inr 946692000000000000"
proof -
  have t: "to_time_t 946684800000000000 = 946684800" by (simp add: to_time_t_nonneg)
  show ?thesis
    unfolding cron_nextAfter_def t
    by (simp add: cron_two_times cron_search.simps cron_body_def cron_carry_def Let_def mk_2000 cron_two_tests
        from_time_t_def)
qed



theorem cron_parse_print_witness:
  "cron_daily 2 0 = Inr cron_two \<and> cron_parse (cron_toString cron_two) = Returned cron_two"
proof (rule conjI [OF cron_two_daily])
  show "cron_parse (cron_toString cron_two) = Returned cron_two"
    by (rule cron_parse_print) (simp_all add: cron_wf_def cron_two_def cron_setAll_def set_update_memI)
qed

end
