(* ===== verification/Cron_Scheduler.thy ===== *)
theory Cron_Scheduler
  imports Cron_Expression
begin

text \<open>
  \<open>CronScheduler\<close> of src/src/cron_scheduler.cpp. \<open>tasks_\<close> is an association list in the iteration order
  of the hash map; the clock readings of each call are its arguments; the scheduler thread is one
  step per iteration of its loop. Callbacks run without the mutex: \<open>beh cb\<close> is the list of calls a
  callback makes on the scheduler. Local time and \<open>mktime\<close> are the parameters \<open>lt\<close> and \<open>mk\<close> of
  \<open>nextAfter\<close>. Task identifiers are unbounded naturals (the counter has 64 bits).
\<close>

section \<open>State\<close>

record 'cb cron_task =
  ct_id :: nat
  ct_name :: string
  ct_expression :: cron
  ct_task :: 'cb
  ct_nextRun :: int
  ct_executionCount :: nat
  ct_active :: bool

record 'cb cs =
  cs_tasks :: "'cb cron_task list"
  cs_running :: bool
  cs_thread :: bool
  cs_nextTaskId :: nat
  cs_armed :: "(int \<times> int) option"

definition cs_new :: "'cb cs" where
  "cs_new = \<lparr>cs_tasks = [], cs_running = False, cs_thread = False, cs_nextTaskId = 1, cs_armed = None\<rparr>"

section \<open>The wake-up timer\<close>

fun cs_earliest :: "'cb cron_task list \<Rightarrow> int option \<Rightarrow> int option" where
  "cs_earliest [] best = best"
| "cs_earliest (t # ts) best =
     cs_earliest ts
       (if ct_active t
        then (case best of None \<Rightarrow> Some (ct_nextRun t)
              | Some e \<Rightarrow> if ct_nextRun t < e then Some (ct_nextRun t) else Some e)
        else best)"

definition cs_delay :: "int \<Rightarrow> int \<Rightarrow> int" where
  "cs_delay earliest now =
     (let delay = (if earliest > now then earliest - now else 1000000000) in
      if delay > 3600000000000 then 3600000000000 else delay)"

definition cs_itimerspec :: "int \<Rightarrow> int \<times> int" where
  "cs_itimerspec delay =
     (let secs = delay div 1000000000; nsecs = delay - secs * 1000000000 in
      if secs = 0 \<and> nsecs = 0 then (secs, 1) else (secs, nsecs))"

definition cs_scheduleWakeup :: "int \<Rightarrow> 'cb cs \<Rightarrow> 'cb cs" where
  "cs_scheduleWakeup now s =
     (case cs_earliest (cs_tasks s) None of
        None \<Rightarrow> s
      | Some earliest \<Rightarrow> s\<lparr>cs_armed := Some (cs_itimerspec (cs_delay earliest now))\<rparr>)"

section \<open>Operations\<close>

definition cs_schedule ::
    "(int \<Rightarrow> tm) \<Rightarrow> (tm \<Rightarrow> int) \<Rightarrow> string \<Rightarrow> cron \<Rightarrow> 'cb option \<Rightarrow> int \<Rightarrow> int \<Rightarrow> 'cb cs \<Rightarrow> nat result \<times> 'cb cs" where
  "cs_schedule lt mk name expr task now now' s =
     (case task of
        None \<Rightarrow> (Inl Invalid_argument, s)
      | Some cb \<Rightarrow>
          (let taskId = cs_nextTaskId s; s1 = s\<lparr>cs_nextTaskId := taskId + 1\<rparr> in
           case cron_nextAfter lt mk expr now of
             Inl e \<Rightarrow> (Inl e, s1)
           | Inr r \<Rightarrow>
               (let t = \<lparr>ct_id = taskId, ct_name = name, ct_expression = expr, ct_task = cb,
                         ct_nextRun = r, ct_executionCount = 0, ct_active = True\<rparr>;
                    s2 = s1\<lparr>cs_tasks := cs_tasks s1 @ [t]\<rparr> in
                (Inr taskId, if cs_running s2 then cs_scheduleWakeup now' s2 else s2))))"

definition cs_cancel :: "nat \<Rightarrow> 'cb cs \<Rightarrow> bool \<times> 'cb cs" where
  "cs_cancel taskId s =
     (if \<exists>t \<in> set (cs_tasks s). ct_id t = taskId
      then (True, s\<lparr>cs_tasks := map (\<lambda>t. if ct_id t = taskId then t\<lparr>ct_active := False\<rparr> else t) (cs_tasks s)\<rparr>)
      else (False, s))"

definition cs_start :: "int \<Rightarrow> 'cb cs \<Rightarrow> 'cb cs" where
  "cs_start now s =
     (if cs_running s then s
      else (cs_scheduleWakeup now (s\<lparr>cs_running := True\<rparr>))\<lparr>cs_thread := True\<rparr>)"

definition cs_stop :: "'cb cs \<Rightarrow> 'cb cs" where
  "cs_stop s = s\<lparr>cs_running := False, cs_thread := False\<rparr>"

definition cs_nextExecution :: "nat \<Rightarrow> 'cb cs \<Rightarrow> int result" where
  "cs_nextExecution taskId s =
     (case find (\<lambda>t. ct_id t = taskId) (cs_tasks s) of
        None \<Rightarrow> Inl Runtime_error | Some t \<Rightarrow> Inr (ct_nextRun t))"

definition cs_listTasks :: "'cb cs \<Rightarrow> (nat \<times> string \<times> int \<times> nat) list" where
  "cs_listTasks s =
     map (\<lambda>t. (ct_id t, ct_name t, ct_nextRun t, ct_executionCount t)) (filter ct_active (cs_tasks s))"

section \<open>The scheduler thread\<close>

text \<open>
  The locked part of an iteration: the tasks to execute (with their identifiers) and the updated
  task list, or the exception of a \<open>nextAfter\<close> with the list updated up to it.
\<close>

fun cs_collect :: "(int \<Rightarrow> tm) \<Rightarrow> (tm \<Rightarrow> int) \<Rightarrow> int \<Rightarrow> 'cb cron_task list \<Rightarrow>
    (nat \<times> 'cb) list result \<times> 'cb cron_task list" where
  "cs_collect lt mk now [] = (Inr [], [])"
| "cs_collect lt mk now (t # ts) =
     (if \<not> ct_active t then (case cs_collect lt mk now ts of (r, ts') \<Rightarrow> (r, t # ts'))
      else if ct_nextRun t \<le> now
      then (let t1 = t\<lparr>ct_executionCount := ct_executionCount t + 1\<rparr> in
            case cron_nextAfter lt mk (ct_expression t) now of
              Inl e \<Rightarrow> (Inl e, t1 # ts)
            | Inr nx \<Rightarrow>
                (case cs_collect lt mk now ts of
                   (Inl e, ts') \<Rightarrow> (Inl e, t1\<lparr>ct_nextRun := nx\<rparr> # ts')
                 | (Inr ex, ts') \<Rightarrow> (Inr ((ct_id t, ct_task t) # ex), t1\<lparr>ct_nextRun := nx\<rparr> # ts')))
      else (case cs_collect lt mk now ts of (r, ts') \<Rightarrow> (r, t # ts')))"

text \<open>The calls a callback may make; each carries its clock readings.\<close>

datatype 'cb cs_call =
    Call_schedule string cron "'cb option" int int
  | Call_cancel nat

fun cs_do_call :: "(int \<Rightarrow> tm) \<Rightarrow> (tm \<Rightarrow> int) \<Rightarrow> 'cb cs_call \<Rightarrow> 'cb cs \<Rightarrow> 'cb cs" where
  "cs_do_call lt mk (Call_schedule name expr task now now') s = snd (cs_schedule lt mk name expr task now now' s)"
| "cs_do_call lt mk (Call_cancel taskId) s = snd (cs_cancel taskId s)"

text \<open>
  One iteration of \<open>schedulerLoop\<close>: collect, run the callbacks (exceptions are swallowed), arm the
  timer. An exception of \<open>nextAfter\<close> ends the thread; \<open>running_\<close> stays set.
\<close>

definition cs_loop_step :: "(int \<Rightarrow> tm) \<Rightarrow> (tm \<Rightarrow> int) \<Rightarrow> ('cb \<Rightarrow> 'cb cs_call list) \<Rightarrow> int \<Rightarrow> int \<Rightarrow> 'cb cs \<Rightarrow>
    (nat \<times> 'cb) list \<times> 'cb cs" where
  "cs_loop_step lt mk beh now now' s =
     (if cs_running s \<and> cs_thread s then
        (case cs_collect lt mk now (cs_tasks s) of
           (Inl e, ts) \<Rightarrow> ([], s\<lparr>cs_tasks := ts, cs_thread := False\<rparr>)
         | (Inr ex, ts) \<Rightarrow>
             (let s1 = fold (cs_do_call lt mk) (concat (map (beh \<circ> snd) ex)) (s\<lparr>cs_tasks := ts\<rparr>) in
              (ex, if cs_running s1 then cs_scheduleWakeup now' s1 else s1)))
      else ([], s))"

text \<open>All calls on a scheduler, with what they execute.\<close>

datatype 'cb cs_op =
    Op_call "'cb cs_call"
  | Op_start int
  | Op_stop
  | Op_step int int

fun cs_exec :: "(int \<Rightarrow> tm) \<Rightarrow> (tm \<Rightarrow> int) \<Rightarrow> ('cb \<Rightarrow> 'cb cs_call list) \<Rightarrow> 'cb cs_op \<Rightarrow> 'cb cs \<Rightarrow>
    (nat \<times> 'cb) list \<times> 'cb cs" where
  "cs_exec lt mk beh (Op_call c) s = ([], cs_do_call lt mk c s)"
| "cs_exec lt mk beh (Op_start now) s = ([], cs_start now s)"
| "cs_exec lt mk beh Op_stop s = ([], cs_stop s)"
| "cs_exec lt mk beh (Op_step now now') s = cs_loop_step lt mk beh now now' s"

fun cs_run :: "(int \<Rightarrow> tm) \<Rightarrow> (tm \<Rightarrow> int) \<Rightarrow> ('cb \<Rightarrow> 'cb cs_call list) \<Rightarrow> 'cb cs_op list \<Rightarrow> 'cb cs \<Rightarrow>
    (nat \<times> 'cb) list \<times> 'cb cs" where
  "cs_run lt mk beh [] s = ([], s)"
| "cs_run lt mk beh (op # ops) s =
     (let (ex, s1) = cs_exec lt mk beh op s; (ex', s2) = cs_run lt mk beh ops s1 in (ex @ ex', s2))"

section \<open>Collecting the due tasks\<close>

definition ct_due :: "int \<Rightarrow> 'cb cron_task \<Rightarrow> bool" where
  "ct_due now t \<longleftrightarrow> ct_active t \<and> ct_nextRun t \<le> now"

lemma cs_collect_ids:
  "cs_collect lt mk now ts = (r, ts') \<Longrightarrow>
    map (\<lambda>t. (ct_id t, ct_active t)) ts' = map (\<lambda>t. (ct_id t, ct_active t)) ts"
  by (induction ts arbitrary: r ts') (auto simp: Let_def split: if_splits sum.splits prod.splits)

lemma cs_collect_executes:
  "cs_collect lt mk now ts = (Inr ex, ts') \<Longrightarrow>
    ex = map (\<lambda>t. (ct_id t, ct_task t)) (filter (ct_due now) ts)"
  by (induction ts arbitrary: ex ts')
     (auto simp: Let_def ct_due_def split: if_splits sum.splits prod.splits)

lemma cs_collect_counts:
  "cs_collect lt mk now ts = (Inr ex, ts') \<Longrightarrow>
    map ct_executionCount ts' = map (\<lambda>t. ct_executionCount t + (if ct_due now t then 1 else 0)) ts"
  by (induction ts arbitrary: ex ts')
     (auto simp: Let_def ct_due_def split: if_splits sum.splits prod.splits)

lemma cs_collect_rescheduled:
  assumes "\<And>c r. cron_nextAfter lt mk c now = Inr r \<Longrightarrow> now < r"
  shows "cs_collect lt mk now ts = (Inr ex, ts') \<Longrightarrow> \<forall>t \<in> set ts'. ct_active t \<longrightarrow> now < ct_nextRun t"
  by (induction ts arbitrary: ex ts')
     (auto simp: Let_def assms split: if_splits sum.splits prod.splits)

section \<open>Cancelled tasks stay cancelled\<close>

text \<open>Identifiers are never reused, and \<open>taskId\<close>, once inactive, stays so.\<close>

definition cs_ids_ok :: "'cb cs \<Rightarrow> bool" where
  "cs_ids_ok s \<longleftrightarrow> (\<forall>t \<in> set (cs_tasks s). ct_id t < cs_nextTaskId s)"

definition cs_dead :: "nat \<Rightarrow> 'cb cs \<Rightarrow> bool" where
  "cs_dead i s \<longleftrightarrow> i < cs_nextTaskId s \<and> (\<forall>t \<in> set (cs_tasks s). ct_id t = i \<longrightarrow> \<not> ct_active t)"

lemma cs_scheduleWakeup_tasks [simp]:
  "cs_tasks (cs_scheduleWakeup now s) = cs_tasks s"
  "cs_nextTaskId (cs_scheduleWakeup now s) = cs_nextTaskId s"
  "cs_running (cs_scheduleWakeup now s) = cs_running s"
  by (simp_all add: cs_scheduleWakeup_def Let_def split: option.splits)

lemma cs_schedule_cases:
  fixes s :: "'cb cs"
  obtains (same) "cs_tasks (snd (cs_schedule lt mk name expr task now now' s)) = cs_tasks s"
      "cs_nextTaskId s \<le> cs_nextTaskId (snd (cs_schedule lt mk name expr task now now' s))"
  | (new) t where "cs_tasks (snd (cs_schedule lt mk name expr task now now' s)) = cs_tasks s @ [t]"
      "ct_id t = cs_nextTaskId s"
      "cs_nextTaskId (snd (cs_schedule lt mk name expr task now now' s)) = Suc (cs_nextTaskId s)"
proof (cases task)
  case None
  then show ?thesis by (intro same) (simp_all add: cs_schedule_def)
next
  case (Some cb)
  show ?thesis
  proof (cases "cron_nextAfter lt mk expr now")
    case (Inl e)
    then show ?thesis using Some by (intro same) (simp_all add: cs_schedule_def)
  next
    case (Inr r)
    show ?thesis
      by (rule new [of "\<lparr>ct_id = cs_nextTaskId s, ct_name = name, ct_expression = expr, ct_task = cb,
                         ct_nextRun = r, ct_executionCount = 0, ct_active = True\<rparr>"])
         (simp_all add: cs_schedule_def Some Inr Let_def)
  qed
qed

lemma cs_do_call_keeps:
  assumes "cs_ids_ok s"
  shows "cs_ids_ok (cs_do_call lt mk c s) \<and> (cs_dead i s \<longrightarrow> cs_dead i (cs_do_call lt mk c s))"
proof (cases c)
  case (Call_schedule name expr task now now')
  show ?thesis
    unfolding Call_schedule cs_do_call.simps
    by (cases rule: cs_schedule_cases [of lt mk name expr task now now' s])
       (use assms in \<open>auto simp: cs_ids_ok_def cs_dead_def dest: less_le_trans\<close>)
next
  case (Call_cancel taskId)
  then show ?thesis using assms by (auto simp: cs_ids_ok_def cs_dead_def cs_cancel_def)
qed

lemma cs_calls_keep:
  assumes "cs_ids_ok s"
  shows "cs_ids_ok (fold (cs_do_call lt mk) cs s) \<and>
    (cs_dead i s \<longrightarrow> cs_dead i (fold (cs_do_call lt mk) cs s))"
  using assms by (induction cs arbitrary: s) (simp_all add: cs_do_call_keeps)

lemma cs_collect_keeps:
  assumes "cs_collect lt mk now (cs_tasks s) = (r, ts)"
  shows "cs_ids_ok s \<Longrightarrow> cs_ids_ok (s\<lparr>cs_tasks := ts\<rparr>)" "cs_dead i s \<Longrightarrow> cs_dead i (s\<lparr>cs_tasks := ts\<rparr>)"
proof -
  have eq: "(\<lambda>t. (ct_id t, ct_active t)) ` set ts = (\<lambda>t. (ct_id t, ct_active t)) ` set (cs_tasks s)"
    using arg_cong [OF cs_collect_ids [OF assms], of set] by simp
  have old: "\<exists>u \<in> set (cs_tasks s). ct_id u = ct_id t \<and> ct_active u = ct_active t" if "t \<in> set ts" for t
  proof -
    have "(ct_id t, ct_active t) \<in> (\<lambda>t. (ct_id t, ct_active t)) ` set ts" using that by (rule imageI)
    then show ?thesis unfolding eq by auto
  qed
  show "cs_ids_ok (s\<lparr>cs_tasks := ts\<rparr>)" if "cs_ids_ok s"
    unfolding cs_ids_ok_def
  proof
    fix t
    assume "t \<in> set (cs_tasks (s\<lparr>cs_tasks := ts\<rparr>))"
    then show "ct_id t < cs_nextTaskId (s\<lparr>cs_tasks := ts\<rparr>)"
      using old [of t] that by (auto simp: cs_ids_ok_def)
  qed
  show "cs_dead i (s\<lparr>cs_tasks := ts\<rparr>)" if "cs_dead i s"
    using old that unfolding cs_dead_def by simp metis
qed


lemma cs_exec_keeps:
  assumes "cs_ids_ok s" "cs_exec lt mk beh op s = (ex, s')"
  shows "cs_ids_ok s' \<and> (cs_dead i s \<longrightarrow> cs_dead i s' \<and> i \<notin> fst ` set ex)"
proof (cases op)
  case (Op_step now now')
  show ?thesis
  proof (cases "cs_running s \<and> cs_thread s")
    case False
    then have "s' = s" "ex = []" using assms(2) Op_step by (auto simp: cs_loop_step_def)
    then show ?thesis using assms(1) by simp
  next
    case True
    obtain r ts where c: "cs_collect lt mk now (cs_tasks s) = (r, ts)" by fastforce
    note keep = cs_collect_keeps [OF c]
    show ?thesis
    proof (cases r)
      case (Inl e)
      then have "ex = []" "s' = s\<lparr>cs_tasks := ts, cs_thread := False\<rparr>"
        using assms(2) Op_step True c by (auto simp: cs_loop_step_def)
      then show ?thesis using keep assms(1) by (auto simp: cs_ids_ok_def cs_dead_def)
    next
      case (Inr ex')
      let ?s1 = "fold (cs_do_call lt mk) (concat (map (beh \<circ> snd) ex')) (s\<lparr>cs_tasks := ts\<rparr>)"
      have ex: "ex = ex'" and s': "s' = (if cs_running ?s1 then cs_scheduleWakeup now' ?s1 else ?s1)"
        using assms(2) Op_step True c Inr by (auto simp: cs_loop_step_def Let_def)
      have "i \<notin> fst ` set ex'" if "cs_dead i s"
        using cs_collect_executes [OF c [unfolded Inr]] that by (auto simp: cs_dead_def ct_due_def)
      moreover note cs_calls_keep [OF keep(1) [OF assms(1)], of lt mk "concat (map (beh \<circ> snd) ex')" i]
      ultimately show ?thesis using keep(2) ex s' by (auto simp: cs_ids_ok_def cs_dead_def)
    qed
  qed
next
  case (Op_call c)
  then show ?thesis using assms cs_do_call_keeps [OF assms(1), of lt mk c i] by auto
qed (use assms in \<open>auto simp: cs_start_def cs_stop_def cs_ids_ok_def cs_dead_def split: if_splits\<close>)

lemma cs_run_keeps:
  assumes "cs_ids_ok s" "cs_run lt mk beh ops s = (ex, s')"
  shows "cs_ids_ok s' \<and> (cs_dead i s \<longrightarrow> i \<notin> fst ` set ex)"
  using assms
proof (induction ops arbitrary: s ex)
  case (Cons op ops)
  obtain ex1 s1 where 1: "cs_exec lt mk beh op s = (ex1, s1)" by fastforce
  obtain ex2 s2 where 2: "cs_run lt mk beh ops s1 = (ex2, s2)" by fastforce
  have "ex = ex1 @ ex2" "s' = s2" using Cons.prems(2) 1 2 by simp_all
  then show ?case using cs_exec_keeps [OF Cons.prems(1) 1, of i] Cons.IH [of s1 ex2] 2 by auto
qed simp

lemma cs_new_ids_ok: "cs_ids_ok cs_new"
  by (simp add: cs_ids_ok_def cs_new_def)

lemma cs_earliest_min:
  "cs_earliest ts best = r \<Longrightarrow>
    (case r of None \<Rightarrow> best = None \<and> (\<forall>t \<in> set ts. \<not> ct_active t)
     | Some e \<Rightarrow> (\<forall>t \<in> set ts. ct_active t \<longrightarrow> e \<le> ct_nextRun t) \<and> (\<forall>b. best = Some b \<longrightarrow> e \<le> b))"
proof (induction ts arbitrary: best)
  case (Cons t ts)
  show ?case
    using Cons.IH [of "if ct_active t then (case best of None \<Rightarrow> Some (ct_nextRun t)
              | Some e \<Rightarrow> if ct_nextRun t < e then Some (ct_nextRun t) else Some e) else best"] Cons.prems
    by (cases best) (auto split: option.splits if_splits)
qed (auto split: option.splits)

lemma cs_earliest_in:
  "cs_earliest ts best = Some e \<Longrightarrow> best = Some e \<or> (\<exists>u \<in> set ts. ct_active u \<and> ct_nextRun u = e)"
proof (induction ts arbitrary: best)
  case (Cons t ts)
  from Cons.IH [OF Cons.prems [unfolded cs_earliest.simps]] show ?case
    by (cases best) (auto split: if_splits)
qed simp

section \<open>Properties\<close>

text \<open>
  One pass of the scheduler executes exactly the active tasks that are due, each once and in
  table order, counts each execution, and moves each of them strictly into the future: afterwards no
  active task is due at the same time.
\<close>

lemma cron_pass_exact:
  assumes "0 \<le> now" "cs_collect (localtime off) (mktime off) now ts = (Inr ex, ts')"
  shows "ex = map (\<lambda>t. (ct_id t, ct_task t)) (filter (ct_due now) ts) \<and>
    map ct_executionCount ts' = map (\<lambda>t. ct_executionCount t + (if ct_due now t then 1 else 0)) ts \<and>
    filter (ct_due now) ts' = []"
proof -
  have later: "now < r" if "cron_nextAfter (localtime off) (mktime off) c now = Inr r" for c r
    using cron_nextAfter_later [OF assms(1) that] .
  show ?thesis
    using cs_collect_executes [OF assms(2)] cs_collect_counts [OF assms(2)]
      cs_collect_rescheduled [OF later assms(2)]
    by (force simp: filter_empty_conv ct_due_def)
qed

text \<open>
  A cancelled task never runs again: once \<open>cancel\<close> has returned true, no later sequence of
  calls, callbacks and scheduler iterations executes that task, and its identifier is not given to
  another task.
\<close>

lemma cron_cancel_final:
  assumes "cs_run lt mk beh ops0 cs_new = (ex0, s)" "cs_cancel i s = (True, s1)"
    and "cs_run lt mk beh ops s1 = (ex, s')"
  shows "i \<notin> fst ` set ex"
proof -
  have ids: "cs_ids_ok s" using cs_run_keeps [OF cs_new_ids_ok assms(1)] by blast
  then have "cs_ids_ok s1" "cs_dead i s1"
    using assms(2) by (auto simp: cs_cancel_def cs_ids_ok_def cs_dead_def split: if_splits)
  then show ?thesis using cs_run_keeps [OF _ assms(3)] by blast
qed

text \<open>
  The wake-up timer is never disarmed and never late: with an active task, \<open>scheduleWakeup\<close>
  sets a positive time of at most an hour, which does not lie beyond the earliest execution time that
  is still ahead.
\<close>

lemma cron_wakeup_in_time:
  assumes "t \<in> set (cs_tasks s)" "ct_active t"
  shows "\<exists>secs nsecs. cs_armed (cs_scheduleWakeup now s) = Some (secs, nsecs) \<and>
    0 \<le> secs \<and> 0 \<le> nsecs \<and> nsecs < 1000000000 \<and>
    0 < secs * 1000000000 + nsecs \<and> secs * 1000000000 + nsecs \<le> 3600000000000 \<and>
    ((\<forall>t \<in> set (cs_tasks s). ct_active t \<longrightarrow> now < ct_nextRun t) \<longrightarrow>
       now + secs * 1000000000 + nsecs \<le> ct_nextRun t)"
proof -
  obtain e where e: "cs_earliest (cs_tasks s) None = Some e"
    using cs_earliest_min [of "cs_tasks s" None "cs_earliest (cs_tasks s) None"] assms
    by (cases "cs_earliest (cs_tasks s) None") auto
  have min: "e \<le> ct_nextRun t" using cs_earliest_min [OF e] assms by simp
  have in_tasks: "\<exists>u \<in> set (cs_tasks s). ct_active u \<and> ct_nextRun u = e"
    using cs_earliest_in [OF e] by simp
  define d where "d = cs_delay e now"
  have d: "0 < d" "d \<le> 3600000000000" "now < e \<Longrightarrow> now + d \<le> e"
    by (auto simp: d_def cs_delay_def Let_def)
  have dm: "d div 1000000000 * 1000000000 + d mod 1000000000 = d" "0 \<le> d div 1000000000"
    using d(1) by (simp_all add: pos_imp_zdiv_nonneg_iff)
  have armed: "cs_armed (cs_scheduleWakeup now s) = Some (d div 1000000000, d mod 1000000000)"
    using d(1) dm(1)
    by (auto simp: cs_scheduleWakeup_def e d_def [symmetric] cs_itimerspec_def Let_def minus_div_mult_eq_mod)
  have "now + d \<le> ct_nextRun t" if "\<forall>t \<in> set (cs_tasks s). ct_active t \<longrightarrow> now < ct_nextRun t"
    using that in_tasks d(3) min by force
  moreover have "0 \<le> d mod 1000000000" "d mod 1000000000 < 1000000000" by simp_all
  ultimately show ?thesis
    using armed d dm by (intro exI [of _ "d div 1000000000"] exI [of _ "d mod 1000000000"]) (simp add: add.assoc)
qed

section \<open>Witnesses\<close>

definition cron_job :: "string cron_task" where
  "cron_job = \<lparr>ct_id = 1, ct_name = ''job'', ct_expression = cron_two, ct_task = ''cb'',
     ct_nextRun = 946684800000000000, ct_executionCount = 0, ct_active = True\<rparr>"

lemma cron_job_collect:
  "cs_collect (localtime 0) (mktime 0) 946684800000000000 [cron_job] =
     (Inr [(1, ''cb'')], [cron_job\<lparr>ct_executionCount := 1, ct_nextRun := 946692000000000000\<rparr>])"
  by (simp add: cron_job_def cron_two_next Let_def)

definition cs_demo :: "string cs" where
  "cs_demo = \<lparr>cs_tasks = [cron_job\<lparr>ct_nextRun := 946692000000000000\<rparr>], cs_running = False, cs_thread = False,
     cs_nextTaskId = 2, cs_armed = None\<rparr>"

lemma cs_demo_run:
  "cs_run (localtime 0) (mktime 0) (\<lambda>_. []) [Op_call (Call_schedule ''job'' cron_two (Some ''cb'') 946684800000000000 0)]
     cs_new = ([], cs_demo)"
  by (simp add: cs_new_def cs_demo_def cron_job_def cs_schedule_def cron_two_next Let_def)

lemma cs_demo_cancel: "fst (cs_cancel 1 cs_demo)"
  by (simp add: cs_cancel_def cs_demo_def cron_job_def)

end
