(* ===== verification/Process.thy ===== *)
theory Process
  imports Pman_Prelude "HOL-Library.Word"
begin

text \<open>
  \<open>ProcessConfig\<close>, \<open>ProcessHandle\<close> and \<open>launchProcess\<close> of src/include/pman/process.hpp and
  src/src/process.cpp over the part of the
  kernel they use: the children of this process (running, or exited and not yet reaped), the pids of
  unrelated processes, the signals delivered, the descriptors closed and the CPU sets applied. Emitted diagnostic events
  are left out.
\<close>

section \<open>Kernel\<close>

definition ESRCH :: nat where "ESRCH = 3"
definition ECHILD :: nat where "ECHILD = 10"
definition SIGKILL :: int where "SIGKILL = 9"
definition SIGTERM :: int where "SIGTERM = 15"

datatype child = Running | Exited int

record os =
  os_children :: "int \<Rightarrow> child option"
  os_foreign :: "int \<Rightarrow> bool"
  os_signals :: "(int \<times> int) list"
  os_closed :: "int list"
  os_affinity :: "(int \<times> nat list) list"

text \<open>\<open>kill(2)\<close>: succeeds for a child (also an unreaped one) and for any other existing process.\<close>

definition os_kill :: "int \<Rightarrow> int \<Rightarrow> os \<Rightarrow> unit result \<times> os" where
  "os_kill pid sig s =
     (if os_children s pid \<noteq> None \<or> os_foreign s pid
      then (Inr (), s\<lparr>os_signals := os_signals s @ [(pid, sig)]\<rparr>)
      else (Inl (System_error ESRCH), s))"

text \<open>\<open>waitpid(pid, &status, WNOHANG)\<close> for a positive pid: \<open>Inr None\<close> is the answer 0.\<close>

definition os_waitpid :: "int \<Rightarrow> os \<Rightarrow> int option result \<times> os" where
  "os_waitpid pid s =
     (case os_children s pid of
        None \<Rightarrow> (Inl (System_error ECHILD), s)
      | Some Running \<Rightarrow> (Inr None, s)
      | Some (Exited st) \<Rightarrow> (Inr (Some st), s\<lparr>os_children := (os_children s)(pid := None)\<rparr>))"

text \<open>A child exits; nothing happens if it is not running.\<close>

definition os_exit :: "int \<Rightarrow> int \<Rightarrow> os \<Rightarrow> os" where
  "os_exit pid st s =
     (if os_children s pid = Some Running then s\<lparr>os_children := (os_children s)(pid \<mapsto> Exited st)\<rparr> else s)"

definition os_close :: "int \<Rightarrow> os \<Rightarrow> os" where
  "os_close fd s = s\<lparr>os_closed := os_closed s @ [fd]\<rparr>"

text \<open>The macros of \<open>sys/wait.h\<close>.\<close>

definition WIFEXITED :: "int \<Rightarrow> bool" where
  "WIFEXITED status \<longleftrightarrow> status mod 128 = 0"

definition WEXITSTATUS :: "int \<Rightarrow> int" where
  "WEXITSTATUS status = (status div 256) mod 256"

section \<open>Process handles\<close>

record ph =
  ph_pid :: int
  ph_executable :: string
  ph_pidfd :: int

definition ph_valid :: "ph \<Rightarrow> bool" where
  "ph_valid h \<longleftrightarrow> ph_pid h > 0"

definition ph_closePidfd :: "ph \<Rightarrow> os \<Rightarrow> ph \<times> os" where
  "ph_closePidfd h s =
     (if ph_pidfd h \<ge> 0 then (h\<lparr>ph_pidfd := -1\<rparr>, os_close (ph_pidfd h) s) else (h, s))"

definition ph_sendSignal :: "int \<Rightarrow> ph \<Rightarrow> os \<Rightarrow> unit result \<times> os" where
  "ph_sendSignal sig h s = (if \<not> ph_valid h then (Inl Logic_error, s) else os_kill (ph_pid h) sig s)"

definition ph_terminate :: "ph \<Rightarrow> os \<Rightarrow> unit result \<times> os" where
  "ph_terminate h s = ph_sendSignal SIGTERM h s"

definition ph_kill :: "ph \<Rightarrow> os \<Rightarrow> unit result \<times> os" where
  "ph_kill h s = ph_sendSignal SIGKILL h s"

text \<open>
  \<open>wait\<close> blocks until the child has exited; \<open>exit\<close> is the status with which it exits meanwhile, if it
  does. The result is \<open>Inr None\<close> while it still blocks.
\<close>

definition os_env :: "int \<Rightarrow> int option \<Rightarrow> os \<Rightarrow> os" where
  "os_env pid exit s = (case exit of None \<Rightarrow> s | Some st \<Rightarrow> os_exit pid st s)"

definition ph_wait :: "int option \<Rightarrow> ph \<Rightarrow> os \<Rightarrow> int option result \<times> ph \<times> os" where
  "ph_wait exit h s =
     (if \<not> ph_valid h then (Inl Logic_error, h, s)
      else (case os_waitpid (ph_pid h) (os_env (ph_pid h) exit s) of
              (Inl e, s1) \<Rightarrow> (Inl e, h, s1)
            | (Inr None, s1) \<Rightarrow> (Inr None, h, s1)
            | (Inr (Some st), s1) \<Rightarrow>
                (case ph_closePidfd h s1 of (h1, s2) \<Rightarrow> (Inr (Some st), h1\<lparr>ph_pid := -1\<rparr>, s2))))"

definition ph_tryWait :: "ph \<Rightarrow> os \<Rightarrow> int option result \<times> ph \<times> os" where
  "ph_tryWait h s =
     (if \<not> ph_valid h then (Inr None, h, s)
      else (case os_waitpid (ph_pid h) s of
              (Inl e, s1) \<Rightarrow> (Inl e, h, s1)
            | (Inr None, s1) \<Rightarrow> (Inr None, h, s1)
            | (Inr (Some st), s1) \<Rightarrow>
                (case ph_closePidfd h s1 of (h1, s2) \<Rightarrow> (Inr (Some st), h1\<lparr>ph_pid := -1\<rparr>, s2))))"

text \<open>The polling loop of \<open>waitFor\<close> without a pidfd: one entry per iteration until the deadline.\<close>

fun ph_poll :: "int option list \<Rightarrow> ph \<Rightarrow> os \<Rightarrow> bool result \<times> ph \<times> os" where
  "ph_poll [] h s = (Inr False, h, s)"
| "ph_poll (exit # es) h s =
     (case ph_tryWait h (os_env (ph_pid h) exit s) of
        (Inl e, h1, s1) \<Rightarrow> (Inl e, h1, s1)
      | (Inr (Some st), h1, s1) \<Rightarrow> (Inr True, h1, s1)
      | (Inr None, h1, s1) \<Rightarrow> ph_poll es h1 s1)"

text \<open>
  \<open>waitFor\<close>: with a pidfd, \<open>poll\<close> reports within the timeout that the process is no longer running
  (a pidfd is readable from then on), and \<open>wait\<close> reaps it. \<open>exits\<close> are the exits during the timeout,
  \<open>intr\<close> says that \<open>poll\<close> was interrupted.
\<close>

definition ph_waitFor :: "bool \<Rightarrow> int option list \<Rightarrow> ph \<Rightarrow> os \<Rightarrow> bool result \<times> ph \<times> os" where
  "ph_waitFor intr exits h s =
     (if \<not> ph_valid h then (Inr True, h, s)
      else if ph_pidfd h \<ge> 0 then
        (let s1 = fold (os_env (ph_pid h)) exits s in
         if intr \<or> os_children s1 (ph_pid h) = Some Running then (Inr False, h, s1)
         else (case ph_wait None h s1 of
                 (Inl e, h2, s2) \<Rightarrow> (Inl e, h2, s2)
               | (Inr _, h2, s2) \<Rightarrow> (Inr True, h2, s2)))
      else ph_poll exits h s)"

text \<open>\<open>terminate(gracePeriod)\<close>; \<open>final\<close> is the exit after the SIGKILL. \<open>Inr None\<close>: still waiting.\<close>

definition ph_terminate_grace :: "bool \<Rightarrow> int option list \<Rightarrow> int option \<Rightarrow> ph \<Rightarrow> os \<Rightarrow> bool option result \<times> ph \<times> os" where
  "ph_terminate_grace intr exits final h s =
     (if \<not> ph_valid h then (Inr (Some True), h, s)
      else (case ph_sendSignal SIGTERM h s of
        (Inl e, s1) \<Rightarrow> (Inl e, h, s1)
      | (Inr _, s1) \<Rightarrow>
          (case ph_waitFor intr exits h s1 of
             (Inl e, h2, s2) \<Rightarrow> (Inl e, h2, s2)
           | (Inr True, h2, s2) \<Rightarrow> (Inr (Some True), h2, s2)
           | (Inr False, h2, s2) \<Rightarrow>
               (case ph_kill h2 s2 of
                  (Inl e, s3) \<Rightarrow> (Inl e, h2, s3)
                | (Inr _, s3) \<Rightarrow>
                    (case ph_wait final h2 s3 of
                       (Inl e, h4, s4) \<Rightarrow> (Inl e, h4, s4)
                     | (Inr None, h4, s4) \<Rightarrow> (Inr None, h4, s4)
                     | (Inr (Some _), h4, s4) \<Rightarrow> (Inr (Some False), h4, s4))))))"

text \<open>Move assignment from another handle: the new values of both, and the closed descriptor.\<close>

definition ph_move :: "ph \<Rightarrow> ph \<Rightarrow> os \<Rightarrow> ph \<times> ph \<times> os" where
  "ph_move this other s =
     (case ph_closePidfd this s of
        (_, s1) \<Rightarrow> (\<lparr>ph_pid = ph_pid other, ph_executable = ph_executable other, ph_pidfd = ph_pidfd other\<rparr>,
                   \<lparr>ph_pid = -1, ph_executable = [], ph_pidfd = -1\<rparr>, s1))"

text \<open>Calls that pass a value to the kernel: \<open>rc\<close> is the errno of the system call, 0 for success.\<close>

definition ph_syscall :: "nat \<Rightarrow> ph \<Rightarrow> unit result" where
  "ph_syscall rc h =
     (if \<not> ph_valid h then Inl Logic_error else if rc \<noteq> 0 then Inl (System_error rc) else Inr ())"

definition ph_setCpuAffinity :: "nat \<Rightarrow> ph \<Rightarrow> unit result" where
  "ph_setCpuAffinity rc h = ph_syscall rc h"

definition ph_setNiceValue :: "nat \<Rightarrow> ph \<Rightarrow> unit result" where
  "ph_setNiceValue rc h = ph_syscall rc h"

definition ioprio_value :: "32 word \<Rightarrow> 32 word \<Rightarrow> 32 word" where
  "ioprio_value klass priority = or (push_bit 13 klass) (and priority 0xfff)"

definition ph_setIoPriority :: "nat \<Rightarrow> ph \<Rightarrow> unit result" where
  "ph_setIoPriority rc h = ph_syscall rc h"

definition ph_attachToCgroup :: "bool \<Rightarrow> bool \<Rightarrow> ph \<Rightarrow> unit result" where
  "ph_attachToCgroup opened written h =
     (if \<not> ph_valid h then Inl Logic_error
      else if \<not> opened then Inl Runtime_error
      else if \<not> written then Inl Runtime_error else Inr ())"

section \<open>Launching\<close>

record redirect =
  rd_fd :: "int option"
  rd_closeAfterDup :: bool

record pconfig =
  pc_executable :: string
  pc_arguments :: "string list"
  pc_environment :: "string list"
  pc_inheritEnvironment :: bool
  pc_workingDirectory :: "string option"
  pc_cpuAffinity :: "nat list option"
  pc_numaNode :: "int option"
  pc_niceValue :: "int option"
  pc_searchPath :: bool
  pc_stdin :: redirect
  pc_stdout :: redirect
  pc_stderr :: redirect
  pc_newSession :: bool
  pc_parentDeathSignal :: "int option"
  pc_parentCloseFds :: "int list"
  pc_cgroupPath :: "string option"
  pc_ioniceClass :: "int option"
  pc_ionicePriority :: "int option"
  pc_usePosixSpawn :: bool

definition pc_default :: pconfig where
  "pc_default = \<lparr>pc_executable = [], pc_arguments = [], pc_environment = [], pc_inheritEnvironment = True,
     pc_workingDirectory = None, pc_cpuAffinity = None, pc_numaNode = None, pc_niceValue = None,
     pc_searchPath = True, pc_stdin = \<lparr>rd_fd = None, rd_closeAfterDup = False\<rparr>,
     pc_stdout = \<lparr>rd_fd = None, rd_closeAfterDup = False\<rparr>, pc_stderr = \<lparr>rd_fd = None, rd_closeAfterDup = False\<rparr>,
     pc_newSession = False, pc_parentDeathSignal = None, pc_parentCloseFds = [], pc_cgroupPath = None,
     pc_ioniceClass = None, pc_ionicePriority = None, pc_usePosixSpawn = False\<rparr>"

definition buildArgumentVector :: "pconfig \<Rightarrow> string list" where
  "buildArgumentVector cfg = pc_executable cfg # pc_arguments cfg"

definition buildEnvironment :: "string list \<Rightarrow> pconfig \<Rightarrow> string list" where
  "buildEnvironment environ cfg = (if pc_inheritEnvironment cfg then environ else []) @ pc_environment cfg"

definition canUsePosixSpawn :: "pconfig \<Rightarrow> bool" where
  "canUsePosixSpawn cfg \<longleftrightarrow>
     pc_usePosixSpawn cfg \<and>
     \<not> (pc_workingDirectory cfg \<noteq> None \<or> pc_newSession cfg \<or> pc_parentDeathSignal cfg \<noteq> None \<or>
        pc_niceValue cfg \<noteq> None \<or> pc_cgroupPath cfg \<noteq> None \<or> pc_ioniceClass cfg \<noteq> None)"

text \<open>The CPU set to apply: \<open>nodeCpus\<close> is the topology's answer, \<open>None\<close> when it throws.\<close>

definition launchAffinity :: "(int \<Rightarrow> nat list option) \<Rightarrow> pconfig \<Rightarrow> nat list option" where
  "launchAffinity nodeCpus cfg =
     (case pc_cpuAffinity cfg of
        Some a \<Rightarrow> Some a
      | None \<Rightarrow> (case pc_numaNode cfg of None \<Rightarrow> None | Some n \<Rightarrow> nodeCpus n))"

subsection \<open>The child's descriptors\<close>

text \<open>A descriptor table; \<open>None\<close> as a result is the child's \<open>_exit(126)\<close>, or a failing \<open>posix_spawn\<close>.\<close>

type_synonym 'f fds = "int \<Rightarrow> 'f option"

definition fd_dup2 :: "int \<Rightarrow> int \<Rightarrow> 'f fds \<Rightarrow> 'f fds option" where
  "fd_dup2 old new t = (case t old of None \<Rightarrow> None | Some f \<Rightarrow> Some (t(new \<mapsto> f)))"

definition applyRedirect :: "redirect \<Rightarrow> int \<Rightarrow> 'f fds \<Rightarrow> 'f fds option" where
  "applyRedirect r targetFd t =
     (case rd_fd r of
        None \<Rightarrow> Some t
      | Some fd \<Rightarrow>
          (case (if fd \<noteq> targetFd then fd_dup2 fd targetFd t else Some t) of
             None \<Rightarrow> None
           | Some t1 \<Rightarrow> Some (if rd_closeAfterDup r \<and> fd \<noteq> targetFd then t1(fd := None) else t1)))"

definition forkRedirects :: "pconfig \<Rightarrow> 'f fds \<Rightarrow> 'f fds option" where
  "forkRedirects cfg t =
     Option.bind (applyRedirect (pc_stdin cfg) 0 t) (\<lambda>t1.
     Option.bind (applyRedirect (pc_stdout cfg) 1 t1) (\<lambda>t2. applyRedirect (pc_stderr cfg) 2 t2))"

datatype spawn_action = Adddup2 int int | Addclose int

definition addRedirect :: "redirect \<Rightarrow> int \<Rightarrow> spawn_action list" where
  "addRedirect r targetFd =
     (case rd_fd r of
        None \<Rightarrow> []
      | Some fd \<Rightarrow> Adddup2 fd targetFd # (if rd_closeAfterDup r then [Addclose fd] else []))"

definition spawnActions :: "pconfig \<Rightarrow> spawn_action list" where
  "spawnActions cfg = addRedirect (pc_stdin cfg) 0 @ addRedirect (pc_stdout cfg) 1 @ addRedirect (pc_stderr cfg) 2"

text \<open>\<open>posix_spawn\<close> performs the actions in order in the child and fails when one of them fails.\<close>

fun performActions :: "spawn_action list \<Rightarrow> 'f fds \<Rightarrow> 'f fds option" where
  "performActions [] t = Some t"
| "performActions (Adddup2 fd target # as) t = Option.bind (fd_dup2 fd target t) (performActions as)"
| "performActions (Addclose fd # as) t = performActions as (t(fd := None))"

subsection \<open>The child after fork\<close>

datatype child_action =
    Chdir string | Setsid | Pdeathsig int | Setpriority int
  | Redirect redirect int | Exec bool "string list" "string list"

definition forkChild :: "string list \<Rightarrow> pconfig \<Rightarrow> child_action list" where
  "forkChild environ cfg =
     (case pc_workingDirectory cfg of None \<Rightarrow> [] | Some d \<Rightarrow> [Chdir d]) @
     (if pc_newSession cfg then [Setsid] else []) @
     (case pc_parentDeathSignal cfg of None \<Rightarrow> [] | Some sg \<Rightarrow> [Pdeathsig sg]) @
     (case pc_niceValue cfg of None \<Rightarrow> [] | Some v \<Rightarrow> [Setpriority v]) @
     [Redirect (pc_stdin cfg) 0, Redirect (pc_stdout cfg) 1, Redirect (pc_stderr cfg) 2,
      Exec (pc_searchPath cfg) (buildArgumentVector cfg) (buildEnvironment environ cfg)]"

subsection \<open>The parent\<close>

text \<open>The kernel's answers to one launch.\<close>

record answers =
  an_fork :: "int result"
  an_spawn :: "int result"
  an_pidfd :: int
  an_cgroupOpen :: bool
  an_cgroupWrite :: bool
  an_ioprio :: nat

definition applyPostSpawnParentWork :: "pconfig \<Rightarrow> int \<Rightarrow> nat list option \<Rightarrow> os \<Rightarrow> os" where
  "applyPostSpawnParentWork cfg pid affinity s =
     (let s1 = (case affinity of None \<Rightarrow> s | Some cpus \<Rightarrow> s\<lparr>os_affinity := os_affinity s @ [(pid, cpus)]\<rparr>) in
      fold os_close (filter (\<lambda>fd. fd \<ge> 0) (pc_parentCloseFds cfg)) s1)"

text \<open>When a step of \<open>finalizeHandle\<close> throws, the handle's destructor closes the pidfd.\<close>

definition finalizeHandle :: "answers \<Rightarrow> pconfig \<Rightarrow> int \<Rightarrow> os \<Rightarrow> ph result \<times> os" where
  "finalizeHandle an cfg pid s =
     (let h = \<lparr>ph_pid = pid, ph_executable = pc_executable cfg, ph_pidfd = an_pidfd an\<rparr>;
          r1 = (if pc_cgroupPath cfg \<noteq> None then ph_attachToCgroup (an_cgroupOpen an) (an_cgroupWrite an) h
                else Inr ()) in
      case r1 of
        Inl e \<Rightarrow> (Inl e, snd (ph_closePidfd h s))
      | Inr _ \<Rightarrow>
          (case (if pc_ioniceClass cfg \<noteq> None then ph_setIoPriority (an_ioprio an) h else Inr ()) of
             Inl e \<Rightarrow> (Inl e, snd (ph_closePidfd h s))
           | Inr _ \<Rightarrow> (Inr h, s)))"

definition os_child :: "int \<Rightarrow> os \<Rightarrow> os" where
  "os_child pid s = s\<lparr>os_children := (os_children s)(pid \<mapsto> Running)\<rparr>"

definition launchWithPosixSpawn :: "answers \<Rightarrow> pconfig \<Rightarrow> nat list option \<Rightarrow> os \<Rightarrow> ph result \<times> os" where
  "launchWithPosixSpawn an cfg affinity s =
     (case an_spawn an of
        Inl e \<Rightarrow> (Inl e, s)
      | Inr pid \<Rightarrow> finalizeHandle an cfg pid (applyPostSpawnParentWork cfg pid affinity (os_child pid s)))"

definition launchProcess :: "(int \<Rightarrow> nat list option) \<Rightarrow> answers \<Rightarrow> pconfig \<Rightarrow> os \<Rightarrow> ph result \<times> os" where
  "launchProcess nodeCpus an cfg s =
     (if pc_executable cfg = [] then (Inl Invalid_argument, s)
      else (let affinity = launchAffinity nodeCpus cfg in
        if canUsePosixSpawn cfg then launchWithPosixSpawn an cfg affinity s
        else (case an_fork an of
          Inl e \<Rightarrow> (Inl e, s)
        | Inr pid \<Rightarrow> finalizeHandle an cfg pid (applyPostSpawnParentWork cfg pid affinity (os_child pid s)))))"

section \<open>A handle only touches its own child\<close>

text \<open>
  A valid handle stands for a child that has not been reaped. While only the handle reaps its
  child, this is kept, so a signal cannot reach an unrelated process that got the same pid.
\<close>

definition ph_owns :: "ph \<Rightarrow> os \<Rightarrow> bool" where
  "ph_owns h s \<longleftrightarrow> (ph_valid h \<longrightarrow> os_children s (ph_pid h) \<noteq> None)"

text \<open>What a call through a handle may do: signal the handle's child, and reap it when it gives up the pid.\<close>

definition ph_frame :: "ph \<Rightarrow> os \<Rightarrow> ph \<Rightarrow> os \<Rightarrow> bool" where
  "ph_frame h s h' s' \<longleftrightarrow>
     (ph_pid h' = ph_pid h \<or> ph_pid h' = -1) \<and> ph_owns h' s' \<and>
     (\<exists>xs. os_signals s' = os_signals s @ xs \<and> (\<forall>x \<in> set xs. fst x = ph_pid h)) \<and>
     (\<forall>p. p \<noteq> ph_pid h \<longrightarrow> os_children s' p = os_children s p) \<and>
     (ph_valid h \<longrightarrow> (os_children s' (ph_pid h) = None \<longleftrightarrow> \<not> ph_valid h'))"

lemma ph_frame_refl: "ph_owns h s \<Longrightarrow> ph_frame h s h s"
  by (auto simp: ph_frame_def ph_owns_def)

lemma ph_frame_trans:
  assumes "ph_frame h s h1 s1" "ph_frame h1 s1 h2 s2" "ph_valid h1"
  shows "ph_frame h s h2 s2"
proof -
  have p: "ph_pid h1 = ph_pid h" using assms(1,3) by (auto simp: ph_frame_def ph_valid_def)
  obtain xs ys where "os_signals s1 = os_signals s @ xs" "os_signals s2 = os_signals s1 @ ys"
    "\<forall>x \<in> set xs. fst x = ph_pid h" "\<forall>x \<in> set ys. fst x = ph_pid h"
    using assms(1,2) p unfolding ph_frame_def by metis
  then have "\<exists>zs. os_signals s2 = os_signals s @ zs \<and> (\<forall>x \<in> set zs. fst x = ph_pid h)"
    by (intro exI [of _ "xs @ ys"]) auto
  then show ?thesis using assms p by (auto simp: ph_frame_def ph_valid_def)
qed

lemma ph_closePidfd_frame [simp]:
  "ph_pid (fst (ph_closePidfd h s)) = ph_pid h"
  "os_children (snd (ph_closePidfd h s)) = os_children s"
  "os_signals (snd (ph_closePidfd h s)) = os_signals s"
  by (simp_all add: ph_closePidfd_def os_close_def)

lemma os_env_frame [simp]:
  "os_signals (os_env pid e s) = os_signals s"
  "os_children (os_env pid e s) p = None \<longleftrightarrow> os_children s p = None"
  "p \<noteq> pid \<Longrightarrow> os_children (os_env pid e s) p = os_children s p"
  by (auto simp: os_env_def os_exit_def split: option.splits)

lemma os_env_owns: "ph_owns h s \<Longrightarrow> ph_frame h s h (os_env (ph_pid h) e s)"
  by (auto simp: ph_frame_def ph_owns_def)

lemma ph_sendSignal_ok:
  assumes "ph_owns h s" "ph_valid h" "ph_sendSignal sig h s = (r, s')"
  shows "r = Inr () \<and> ph_frame h s h s' \<and> os_children s' = os_children s"
  using assms by (auto simp: ph_sendSignal_def os_kill_def ph_frame_def ph_owns_def)

lemma ph_tryWait_ok:
  assumes "ph_owns h s" "ph_valid h" "ph_tryWait h s = (r, h', s')"
  shows "(\<exists>st. r = Inr (Some st) \<and> \<not> ph_valid h' \<and> os_children s (ph_pid h) = Some (Exited st)) \<or>
      (r = Inr None \<and> h' = h \<and> s' = s \<and> os_children s (ph_pid h) = Some Running)"
    and "ph_frame h s h' s'"
proof -
  obtain c where c: "os_children s (ph_pid h) = Some c" using assms by (auto simp: ph_owns_def)
  show "(\<exists>st. r = Inr (Some st) \<and> \<not> ph_valid h' \<and> os_children s (ph_pid h) = Some (Exited st)) \<or>
      (r = Inr None \<and> h' = h \<and> s' = s \<and> os_children s (ph_pid h) = Some Running)"
    using assms(2,3) c
    by (cases c) (auto simp: ph_tryWait_def os_waitpid_def ph_valid_def split: prod.splits)
  show "ph_frame h s h' s'"
  proof (cases c)
    case Running
    then show ?thesis using assms c by (auto simp: ph_tryWait_def os_waitpid_def ph_frame_refl)
  next
    case (Exited st)
    then show ?thesis
      using assms c by (auto simp: ph_tryWait_def os_waitpid_def ph_closePidfd_def os_close_def ph_frame_def
          ph_owns_def ph_valid_def split: prod.splits if_splits)
  qed
qed

lemma ph_wait_tryWait:
  "ph_valid h \<Longrightarrow> ph_wait e h s = ph_tryWait h (os_env (ph_pid h) e s)"
  by (simp add: ph_wait_def ph_tryWait_def)

lemma ph_wait_ok:
  assumes "ph_owns h s" "ph_valid h" "ph_wait e h s = (r, h', s')"
  shows "(\<exists>st. r = Inr (Some st) \<and> \<not> ph_valid h') \<or> (r = Inr None \<and> h' = h \<and> os_children s' (ph_pid h) = Some Running)"
    and "ph_frame h s h' s'"
proof -
  let ?s = "os_env (ph_pid h) e s"
  have f: "ph_frame h s h ?s" by (rule os_env_owns [OF assms(1)])
  then have o: "ph_owns h ?s" by (simp add: ph_frame_def)
  have w: "ph_tryWait h ?s = (r, h', s')" using assms(2,3) by (simp add: ph_wait_tryWait)
  show "(\<exists>st. r = Inr (Some st) \<and> \<not> ph_valid h') \<or> (r = Inr None \<and> h' = h \<and> os_children s' (ph_pid h) = Some Running)"
    using ph_tryWait_ok(1) [OF o assms(2) w] by auto
  show "ph_frame h s h' s'" by (rule ph_frame_trans [OF f ph_tryWait_ok(2) [OF o assms(2) w] assms(2)])
qed

lemma ph_poll_ok:
  assumes "ph_owns h s" "ph_valid h" "ph_poll es h s = (r, h', s')"
  shows "(r = Inr True \<and> \<not> ph_valid h' \<or> r = Inr False \<and> h' = h) \<and> ph_frame h s h' s'"
  using assms
proof (induction es arbitrary: s)
  case Nil
  then show ?case by (simp add: ph_frame_refl)
next
  case (Cons e es)
  let ?s = "os_env (ph_pid h) e s"
  have f: "ph_frame h s h ?s" by (rule os_env_owns [OF Cons.prems(1)])
  then have o: "ph_owns h ?s" by (simp add: ph_frame_def)
  obtain r1 h1 s1 where w: "ph_tryWait h ?s = (r1, h1, s1)" by (metis prod_cases3)
  note ok = ph_tryWait_ok [OF o Cons.prems(2) w]
  have f1: "ph_frame h s h1 s1" by (rule ph_frame_trans [OF f ok(2) Cons.prems(2)])
  show ?case
  proof (cases "r1 = Inr None")
    case True
    then have "h1 = h" "ph_poll es h s1 = (r, h', s')" using ok(1) Cons.prems(3) w by auto
    moreover have "ph_owns h s1" using f1 \<open>h1 = h\<close> by (simp add: ph_frame_def)
    ultimately show ?thesis
      using Cons.IH [of s1] Cons.prems(2) ph_frame_trans [OF f1, of h' s'] by auto
  next
    case False
    then show ?thesis using ok(1) f1 Cons.prems(3) w by auto
  qed
qed

lemma os_envs_owns: "ph_owns h s \<Longrightarrow> ph_valid h \<Longrightarrow> ph_frame h s h (fold (os_env (ph_pid h)) es s)"
proof (induction es arbitrary: s)
  case (Cons e es)
  have f: "ph_frame h s h (os_env (ph_pid h) e s)" by (rule os_env_owns [OF Cons.prems(1)])
  then have "ph_owns h (os_env (ph_pid h) e s)" by (simp add: ph_frame_def)
  then show ?case using ph_frame_trans [OF f Cons.IH] Cons.prems(2) by simp
qed (simp add: ph_frame_refl)

lemma ph_waitFor_ok:
  assumes "ph_owns h s" "ph_valid h" "ph_waitFor intr es h s = (r, h', s')"
  shows "(r = Inr True \<and> \<not> ph_valid h' \<or> r = Inr False \<and> h' = h) \<and> ph_frame h s h' s'"
proof (cases "ph_pidfd h \<ge> 0")
  case False
  then show ?thesis using assms ph_poll_ok [of h s es r h' s'] by (simp add: ph_waitFor_def)
next
  case True
  let ?s1 = "fold (os_env (ph_pid h)) es s"
  have f: "ph_frame h s h ?s1" by (rule os_envs_owns [OF assms(1,2)])
  then have o: "ph_owns h ?s1" by (simp add: ph_frame_def)
  show ?thesis
  proof (cases "intr \<or> os_children ?s1 (ph_pid h) = Some Running")
    case True
    then show ?thesis using assms(2,3) \<open>ph_pidfd h \<ge> 0\<close> f by (auto simp: ph_waitFor_def Let_def)
  next
    case False
    obtain r2 h2 s2 where w: "ph_wait None h ?s1 = (r2, h2, s2)" by (metis prod_cases3)
    note ok = ph_wait_ok [OF o assms(2) w]
    have "os_children ?s1 (ph_pid h) \<noteq> Some Running" using False by simp
    then have "\<exists>st. r2 = Inr (Some st)"
      using ph_tryWait_ok(1) [OF o assms(2), of r2 h2 s2] w assms(2)
      by (auto simp: ph_wait_tryWait os_env_def)
    then show ?thesis
      using assms(2,3) \<open>ph_pidfd h \<ge> 0\<close> False w ok ph_frame_trans [OF f ok(2) assms(2)]
      by (auto simp: ph_waitFor_def Let_def)
  qed
qed

text \<open>Waiting delivers no signal.\<close>

lemma ph_tryWait_signals: "ph_tryWait h s = (r, h', s') \<Longrightarrow> os_signals s' = os_signals s"
  by (auto simp: ph_tryWait_def os_waitpid_def ph_closePidfd_def os_close_def
      split: if_splits option.splits child.splits prod.splits)

lemma ph_wait_signals: "ph_wait e h s = (r, h', s') \<Longrightarrow> os_signals s' = os_signals s"
proof (cases "ph_valid h")
  case True
  assume "ph_wait e h s = (r, h', s')"
  then show ?thesis using ph_tryWait_signals [of h "os_env (ph_pid h) e s" r h' s'] True by (simp add: ph_wait_tryWait)
qed (simp add: ph_wait_def)

lemma ph_poll_signals: "ph_poll es h s = (r, h', s') \<Longrightarrow> os_signals s' = os_signals s"
proof (induction es arbitrary: h s)
  case (Cons e es)
  obtain r1 h1 s1 where w: "ph_tryWait h (os_env (ph_pid h) e s) = (r1, h1, s1)" by (metis prod_cases3)
  show ?case
    using Cons ph_tryWait_signals [OF w] w by (auto split: sum.splits option.splits)
qed simp

lemma os_envs_signals: "os_signals (fold (os_env p) es s) = os_signals s"
  by (induction es arbitrary: s) simp_all

lemma ph_waitFor_signals: "ph_waitFor intr es h s = (r, h', s') \<Longrightarrow> os_signals s' = os_signals s"
  using os_envs_signals [of "ph_pid h" es s]
  by (auto simp: ph_waitFor_def Let_def dest!: ph_poll_signals ph_wait_signals split: if_splits sum.splits prod.splits)

section \<open>Properties of handles and launching\<close>


lemma addRedirect_same:
  assumes "rd_fd r \<noteq> Some targetFd"
  shows "performActions (addRedirect r targetFd @ as) t = Option.bind (applyRedirect r targetFd t) (performActions as)"
  using assms by (auto simp: addRedirect_def applyRedirect_def fd_dup2_def split: option.splits)


text \<open>With a stream redirected to its own number and closed after the dup, \<open>posix_spawn\<close> closes it.\<close>

lemma process_spawn_closes_own_stream:
  assumes "rd_fd (pc_stdin cfg) = Some 0" "rd_closeAfterDup (pc_stdin cfg)"
    and "rd_fd (pc_stdout cfg) = None" "rd_fd (pc_stderr cfg) = None" "t 0 = Some f"
  shows "\<exists>t'. performActions (spawnActions cfg) t = Some t' \<and> t' 0 = None"
    and "\<exists>t'. forkRedirects cfg t = Some t' \<and> t' 0 = Some f"
  using assms
  by (simp_all add: spawnActions_def forkRedirects_def addRedirect_def applyRedirect_def fd_dup2_def)

text \<open>Redirecting two streams to one descriptor that is closed after the dup makes the child exit.\<close>

lemma process_shared_redirect_fails:
  assumes "rd_fd (pc_stdout cfg) = Some fd" "rd_closeAfterDup (pc_stdout cfg)" "rd_fd (pc_stderr cfg) = Some fd"
    and "fd > 2" "rd_fd (pc_stdin cfg) = None"
  shows "forkRedirects cfg t = None"
  using assms by (auto simp: forkRedirects_def applyRedirect_def fd_dup2_def split: option.splits)

text \<open>
  \<open>getenv\<close> takes the first entry for a name: an inherited variable hides the value given in the
  configuration.
\<close>

definition env_lookup :: "string \<Rightarrow> string list \<Rightarrow> string option" where
  "env_lookup name env =
     map_option (drop (length name + 1)) (find (\<lambda>e. take (length name + 1) e = name @ ''='') env)"

lemma find_append_Some: "find P xs = Some x \<Longrightarrow> find P (xs @ ys) = Some x"
  by (induction xs) (auto split: if_splits)

lemma process_environment_not_overridden:
  assumes "env_lookup name environ = Some v" "pc_inheritEnvironment cfg"
  shows "env_lookup name (buildEnvironment environ cfg) = Some v"
  using assms by (auto simp: env_lookup_def buildEnvironment_def find_append_Some)

text \<open>A failure after the fork leaves a running child that no handle refers to.\<close>

lemma applyPostSpawnParentWork_frame [simp]:
  "os_children (applyPostSpawnParentWork cfg pid aff s) = os_children s"
  "os_signals (applyPostSpawnParentWork cfg pid aff s) = os_signals s"
  "os_closed (applyPostSpawnParentWork cfg pid aff s) =
     os_closed s @ filter (\<lambda>fd. fd \<ge> 0) (pc_parentCloseFds cfg)"
proof -
  have "os_children (fold os_close xs s) = os_children s" "os_signals (fold os_close xs s) = os_signals s"
    "os_closed (fold os_close xs s) = os_closed s @ xs" for xs s
    by (induction xs arbitrary: s) (simp_all add: os_close_def)
  then show "os_children (applyPostSpawnParentWork cfg pid aff s) = os_children s"
    "os_signals (applyPostSpawnParentWork cfg pid aff s) = os_signals s"
    "os_closed (applyPostSpawnParentWork cfg pid aff s) =
       os_closed s @ filter (\<lambda>fd. fd \<ge> 0) (pc_parentCloseFds cfg)"
    by (simp_all add: applyPostSpawnParentWork_def Let_def split: option.splits)
qed

lemma process_launch_leaks_child:
  assumes "pc_executable cfg \<noteq> []" "an_fork an = Inr pid" "pid > 0" "pc_cgroupPath cfg \<noteq> None" "\<not> an_cgroupOpen an"
  shows "\<exists>s'. launchProcess nc an cfg s = (Inl Runtime_error, s') \<and> os_children s' pid = Some Running"
  using assms by (simp add: launchProcess_def Let_def finalizeHandle_def ph_attachToCgroup_def ph_valid_def
      canUsePosixSpawn_def os_child_def)

text \<open>A successful launch gives a handle that owns its child.\<close>

lemma finalizeHandle_Inr:
  assumes "finalizeHandle an cfg pid s = (Inr h, s')"
  shows "s' = s" "ph_pid h = pid" "ph_pidfd h = an_pidfd an"
  using assms by (auto simp: finalizeHandle_def Let_def split: if_splits sum.splits)

lemma launchProcess_owns:
  assumes "launchProcess nc an cfg s = (Inr h, s')"
  shows "ph_owns h s'" "os_children s' = (os_children s)(ph_pid h \<mapsto> Running)" "os_signals s' = os_signals s"
    "os_closed s' = os_closed s @ filter (\<lambda>fd. fd \<ge> 0) (pc_parentCloseFds cfg)"
proof -
  obtain pid aff where
    "finalizeHandle an cfg pid (applyPostSpawnParentWork cfg pid aff (os_child pid s)) = (Inr h, s')"
    using assms by (auto simp: launchProcess_def launchWithPosixSpawn_def Let_def split: if_splits sum.splits)
  note fin = finalizeHandle_Inr [OF this]
  show "os_children s' = (os_children s)(ph_pid h \<mapsto> Running)" "os_signals s' = os_signals s"
    "os_closed s' = os_closed s @ filter (\<lambda>fd. fd \<ge> 0) (pc_parentCloseFds cfg)"
    using fin by (simp_all add: os_child_def)
  then show "ph_owns h s'" by (simp add: ph_owns_def)
qed

section \<open>Witnesses\<close>

definition os_demo :: os where
  "os_demo = \<lparr>os_children = [100 \<mapsto> Running, 101 \<mapsto> Running], os_foreign = (\<lambda>_. False), os_signals = [], os_closed = [], os_affinity = []\<rparr>"

definition ph_demo :: ph where
  "ph_demo = \<lparr>ph_pid = 100, ph_executable = ''sleep'', ph_pidfd = 7\<rparr>"



end
