(* ===== verification/Process_Builder.thy ===== *)
theory Process_Builder
  imports Process
begin

text \<open>
  \<open>Pipe\<close> (src/src/pipe.cpp) and \<open>ProcessBuilder\<close> (src/src/process_builder.cpp) on top of
  \<open>launchProcess\<close>. Every builder operation keeps \<open>pb_wf\<close>: a stream whose descriptor the parent is to
  close after the spawn has a descriptor, and it is on the list of descriptors to close. From this
  invariant follows what \<open>spawn\<close> closes, and how often.
\<close>

section \<open>Pipes\<close>

record pipe =
  pp_readFd :: int
  pp_writeFd :: int

text \<open>\<open>answer\<close> is the result of \<open>pipe2\<close>.\<close>

definition pp_create :: "(int \<times> int) result \<Rightarrow> pipe result" where
  "pp_create answer =
     (case answer of Inl e \<Rightarrow> Inl e | Inr (r, w) \<Rightarrow> Inr \<lparr>pp_readFd = r, pp_writeFd = w\<rparr>)"

definition pp_releaseRead :: "pipe \<Rightarrow> int \<times> pipe" where
  "pp_releaseRead p = (pp_readFd p, p\<lparr>pp_readFd := -1\<rparr>)"

definition pp_releaseWrite :: "pipe \<Rightarrow> int \<times> pipe" where
  "pp_releaseWrite p = (pp_writeFd p, p\<lparr>pp_writeFd := -1\<rparr>)"

definition pp_closeRead :: "pipe \<Rightarrow> os \<Rightarrow> pipe \<times> os" where
  "pp_closeRead p s = (if pp_readFd p \<ge> 0 then (p\<lparr>pp_readFd := -1\<rparr>, os_close (pp_readFd p) s) else (p, s))"

definition pp_closeWrite :: "pipe \<Rightarrow> os \<Rightarrow> pipe \<times> os" where
  "pp_closeWrite p s = (if pp_writeFd p \<ge> 0 then (p\<lparr>pp_writeFd := -1\<rparr>, os_close (pp_writeFd p) s) else (p, s))"

definition pp_close :: "pipe \<Rightarrow> os \<Rightarrow> pipe \<times> os" where
  "pp_close p s = (case pp_closeRead p s of (p1, s1) \<Rightarrow> pp_closeWrite p1 s1)"

text \<open>Move assignment from another pipe: the new values of both.\<close>

definition pp_move :: "pipe \<Rightarrow> pipe \<Rightarrow> os \<Rightarrow> pipe \<times> pipe \<times> os" where
  "pp_move this other s =
     (case pp_close this s of
        (_, s1) \<Rightarrow> (\<lparr>pp_readFd = pp_readFd other, pp_writeFd = pp_writeFd other\<rparr>,
                   \<lparr>pp_readFd = -1, pp_writeFd = -1\<rparr>, s1))"

section \<open>The builder\<close>

record pb =
  pb_config :: pconfig
  pb_stdinCtrl :: bool
  pb_stdoutCtrl :: bool
  pb_stderrCtrl :: bool
  pb_parentCloseFds :: "int list"

definition pb_new :: "string \<Rightarrow> pb" where
  "pb_new executable =
     \<lparr>pb_config = pc_default\<lparr>pc_executable := executable\<rparr>, pb_stdinCtrl = False, pb_stdoutCtrl = False,
      pb_stderrCtrl = False, pb_parentCloseFds = []\<rparr>"

definition pb_arg :: "string \<Rightarrow> pb \<Rightarrow> pb" where
  "pb_arg value b = b\<lparr>pb_config := (pb_config b)\<lparr>pc_arguments := pc_arguments (pb_config b) @ [value]\<rparr>\<rparr>"

fun pb_args :: "string list \<Rightarrow> pb \<Rightarrow> pb" where
  "pb_args [] b = b"
| "pb_args (v # vs) b =
     pb_args vs (b\<lparr>pb_config := (pb_config b)\<lparr>pc_arguments := pc_arguments (pb_config b) @ [v]\<rparr>\<rparr>)"

definition pb_inheritEnvironment :: "bool \<Rightarrow> pb \<Rightarrow> pb" where
  "pb_inheritEnvironment inherit b = b\<lparr>pb_config := (pb_config b)\<lparr>pc_inheritEnvironment := inherit\<rparr>\<rparr>"

definition pb_environment :: "string list \<Rightarrow> pb \<Rightarrow> pb" where
  "pb_environment env b = b\<lparr>pb_config := (pb_config b)\<lparr>pc_environment := env\<rparr>\<rparr>"

definition pb_workingDirectory :: "string \<Rightarrow> pb \<Rightarrow> pb" where
  "pb_workingDirectory path b = b\<lparr>pb_config := (pb_config b)\<lparr>pc_workingDirectory := Some path\<rparr>\<rparr>"

definition pb_cpuAffinity :: "nat list \<Rightarrow> pb \<Rightarrow> pb" where
  "pb_cpuAffinity cpus b = b\<lparr>pb_config := (pb_config b)\<lparr>pc_cpuAffinity := Some cpus\<rparr>\<rparr>"

definition pb_numaNode :: "int \<Rightarrow> pb \<Rightarrow> pb" where
  "pb_numaNode nodeId b = b\<lparr>pb_config := (pb_config b)\<lparr>pc_numaNode := Some nodeId\<rparr>\<rparr>"

definition pb_niceValue :: "int \<Rightarrow> pb \<Rightarrow> pb" where
  "pb_niceValue value b = b\<lparr>pb_config := (pb_config b)\<lparr>pc_niceValue := Some value\<rparr>\<rparr>"

definition pb_searchPath :: "bool \<Rightarrow> pb \<Rightarrow> pb" where
  "pb_searchPath enabled b = b\<lparr>pb_config := (pb_config b)\<lparr>pc_searchPath := enabled\<rparr>\<rparr>"

definition pb_newSession :: "bool \<Rightarrow> pb \<Rightarrow> pb" where
  "pb_newSession enabled b = b\<lparr>pb_config := (pb_config b)\<lparr>pc_newSession := enabled\<rparr>\<rparr>"

definition pb_parentDeathSignal :: "int \<Rightarrow> pb \<Rightarrow> pb" where
  "pb_parentDeathSignal signal b = b\<lparr>pb_config := (pb_config b)\<lparr>pc_parentDeathSignal := Some signal\<rparr>\<rparr>"

definition pb_cgroup :: "string \<Rightarrow> pb \<Rightarrow> pb" where
  "pb_cgroup path b = b\<lparr>pb_config := (pb_config b)\<lparr>pc_cgroupPath := Some path\<rparr>\<rparr>"

definition pb_ionice :: "int \<Rightarrow> int \<Rightarrow> pb \<Rightarrow> pb" where
  "pb_ionice klass priority b =
     b\<lparr>pb_config := (pb_config b)\<lparr>pc_ioniceClass := Some klass, pc_ionicePriority := Some priority\<rparr>\<rparr>"

definition pb_usePosixSpawn :: "bool \<Rightarrow> pb \<Rightarrow> pb" where
  "pb_usePosixSpawn enabled b = b\<lparr>pb_config := (pb_config b)\<lparr>pc_usePosixSpawn := enabled\<rparr>\<rparr>"

definition pb_stdinFd :: "int \<Rightarrow> bool \<Rightarrow> bool \<Rightarrow> pb \<Rightarrow> pb" where
  "pb_stdinFd fd closeParentAfterSpawn closeChildAfterDup b =
     b\<lparr>pb_config := (pb_config b)\<lparr>pc_stdin := \<lparr>rd_fd = Some fd, rd_closeAfterDup = closeChildAfterDup\<rparr>\<rparr>,
       pb_stdinCtrl := closeParentAfterSpawn,
       pb_parentCloseFds := pb_parentCloseFds b @ (if closeParentAfterSpawn then [fd] else [])\<rparr>"

definition pb_stdoutFd :: "int \<Rightarrow> bool \<Rightarrow> bool \<Rightarrow> pb \<Rightarrow> pb" where
  "pb_stdoutFd fd closeParentAfterSpawn closeChildAfterDup b =
     b\<lparr>pb_config := (pb_config b)\<lparr>pc_stdout := \<lparr>rd_fd = Some fd, rd_closeAfterDup = closeChildAfterDup\<rparr>\<rparr>,
       pb_stdoutCtrl := closeParentAfterSpawn,
       pb_parentCloseFds := pb_parentCloseFds b @ (if closeParentAfterSpawn then [fd] else [])\<rparr>"

definition pb_stderrFd :: "int \<Rightarrow> bool \<Rightarrow> bool \<Rightarrow> pb \<Rightarrow> pb" where
  "pb_stderrFd fd closeParentAfterSpawn closeChildAfterDup b =
     b\<lparr>pb_config := (pb_config b)\<lparr>pc_stderr := \<lparr>rd_fd = Some fd, rd_closeAfterDup = closeChildAfterDup\<rparr>\<rparr>,
       pb_stderrCtrl := closeParentAfterSpawn,
       pb_parentCloseFds := pb_parentCloseFds b @ (if closeParentAfterSpawn then [fd] else [])\<rparr>"

definition pb_clearArguments :: "pb \<Rightarrow> pb" where
  "pb_clearArguments b = b\<lparr>pb_config := (pb_config b)\<lparr>pc_arguments := []\<rparr>\<rparr>"

definition pb_clearEnvironment :: "pb \<Rightarrow> pb" where
  "pb_clearEnvironment b = b\<lparr>pb_config := (pb_config b)\<lparr>pc_environment := []\<rparr>\<rparr>"

text \<open>
  \<open>makeCapturedPipe\<close>: the redirection, the control flag and the descriptor to close for one stream.
  A negative child descriptor is an error after \<open>releaseRead\<close>/\<open>releaseWrite\<close>.
\<close>

definition makeCapturedPipe :: "(int \<times> int) result \<Rightarrow> bool \<Rightarrow> int list \<Rightarrow> (redirect \<times> bool \<times> int list \<times> pipe) result" where
  "makeCapturedPipe answer toChildStdin parentCloseFds =
     (case pp_create answer of
        Inl e \<Rightarrow> Inl e
      | Inr p \<Rightarrow>
          (case (if toChildStdin then pp_releaseRead p else pp_releaseWrite p) of
             (childFd, p1) \<Rightarrow>
               if childFd < 0 then Inl Runtime_error
               else Inr (\<lparr>rd_fd = Some childFd, rd_closeAfterDup = True\<rparr>, True, parentCloseFds @ [childFd], p1)))"

definition pb_captureStdout :: "(int \<times> int) result \<Rightarrow> pb \<Rightarrow> pipe result \<times> pb" where
  "pb_captureStdout answer b =
     (case makeCapturedPipe answer False (pb_parentCloseFds b) of
        Inl e \<Rightarrow> (Inl e, b)
      | Inr (r, c, fds, p) \<Rightarrow>
          (Inr p, b\<lparr>pb_config := (pb_config b)\<lparr>pc_stdout := r\<rparr>, pb_stdoutCtrl := c, pb_parentCloseFds := fds\<rparr>))"

definition pb_captureStderr :: "(int \<times> int) result \<Rightarrow> pb \<Rightarrow> pipe result \<times> pb" where
  "pb_captureStderr answer b =
     (case makeCapturedPipe answer False (pb_parentCloseFds b) of
        Inl e \<Rightarrow> (Inl e, b)
      | Inr (r, c, fds, p) \<Rightarrow>
          (Inr p, b\<lparr>pb_config := (pb_config b)\<lparr>pc_stderr := r\<rparr>, pb_stderrCtrl := c, pb_parentCloseFds := fds\<rparr>))"

definition pb_captureStdin :: "(int \<times> int) result \<Rightarrow> pb \<Rightarrow> pipe result \<times> pb" where
  "pb_captureStdin answer b =
     (case makeCapturedPipe answer True (pb_parentCloseFds b) of
        Inl e \<Rightarrow> (Inl e, b)
      | Inr (r, c, fds, p) \<Rightarrow>
          (Inr p, b\<lparr>pb_config := (pb_config b)\<lparr>pc_stdin := r\<rparr>, pb_stdinCtrl := c, pb_parentCloseFds := fds\<rparr>))"

text \<open>The lambda \<open>cleanup\<close> of \<open>spawn\<close>.\<close>

definition pb_cleanup :: "bool \<Rightarrow> redirect \<Rightarrow> os \<Rightarrow> redirect \<times> os" where
  "pb_cleanup ctrl r s =
     (if ctrl then (case rd_fd r of None \<Rightarrow> (r, s) | Some fd \<Rightarrow> (r\<lparr>rd_fd := None\<rparr>, os_close fd s)) else (r, s))"

definition pb_spawn :: "(int \<Rightarrow> nat list option) \<Rightarrow> answers \<Rightarrow> pb \<Rightarrow> os \<Rightarrow> ph result \<times> pb \<times> os" where
  "pb_spawn nodeCpus an b s =
     (case launchProcess nodeCpus an ((pb_config b)\<lparr>pc_parentCloseFds := pb_parentCloseFds b\<rparr>) s of
        (Inl e, s1) \<Rightarrow> (Inl e, b, s1)
      | (Inr h, s1) \<Rightarrow>
          (let (r0, s2) = pb_cleanup (pb_stdinCtrl b) (pc_stdin (pb_config b)) s1;
               (r1, s3) = pb_cleanup (pb_stdoutCtrl b) (pc_stdout (pb_config b)) s2;
               (r2, s4) = pb_cleanup (pb_stderrCtrl b) (pc_stderr (pb_config b)) s3 in
           (Inr h,
            b\<lparr>pb_config := (pb_config b)\<lparr>pc_stdin := r0, pc_stdout := r1, pc_stderr := r2\<rparr>,
              pb_stdinCtrl := False, pb_stdoutCtrl := False, pb_stderrCtrl := False, pb_parentCloseFds := []\<rparr>,
            s4)))"

section \<open>Builders the interface can produce\<close>

inductive pb_built :: "pb \<Rightarrow> bool" where
  built_new: "pb_built (pb_new executable)"
| built_arg: "pb_built b \<Longrightarrow> pb_built (pb_arg v b)"
| built_args: "pb_built b \<Longrightarrow> pb_built (pb_args vs b)"
| built_inherit: "pb_built b \<Longrightarrow> pb_built (pb_inheritEnvironment i b)"
| built_environment: "pb_built b \<Longrightarrow> pb_built (pb_environment env b)"
| built_workingDirectory: "pb_built b \<Longrightarrow> pb_built (pb_workingDirectory path b)"
| built_cpuAffinity: "pb_built b \<Longrightarrow> pb_built (pb_cpuAffinity cpus b)"
| built_numaNode: "pb_built b \<Longrightarrow> pb_built (pb_numaNode n b)"
| built_niceValue: "pb_built b \<Longrightarrow> pb_built (pb_niceValue n b)"
| built_searchPath: "pb_built b \<Longrightarrow> pb_built (pb_searchPath e b)"
| built_newSession: "pb_built b \<Longrightarrow> pb_built (pb_newSession e b)"
| built_parentDeathSignal: "pb_built b \<Longrightarrow> pb_built (pb_parentDeathSignal sg b)"
| built_cgroup: "pb_built b \<Longrightarrow> pb_built (pb_cgroup path b)"
| built_ionice: "pb_built b \<Longrightarrow> pb_built (pb_ionice c p b)"
| built_usePosixSpawn: "pb_built b \<Longrightarrow> pb_built (pb_usePosixSpawn e b)"
| built_stdinFd: "pb_built b \<Longrightarrow> pb_built (pb_stdinFd fd c d b)"
| built_stdoutFd: "pb_built b \<Longrightarrow> pb_built (pb_stdoutFd fd c d b)"
| built_stderrFd: "pb_built b \<Longrightarrow> pb_built (pb_stderrFd fd c d b)"
| built_clearArguments: "pb_built b \<Longrightarrow> pb_built (pb_clearArguments b)"
| built_clearEnvironment: "pb_built b \<Longrightarrow> pb_built (pb_clearEnvironment b)"
| built_captureStdout: "pb_built b \<Longrightarrow> pb_built (snd (pb_captureStdout answer b))"
| built_captureStderr: "pb_built b \<Longrightarrow> pb_built (snd (pb_captureStderr answer b))"
| built_captureStdin: "pb_built b \<Longrightarrow> pb_built (snd (pb_captureStdin answer b))"
| built_spawn: "pb_built b \<Longrightarrow> pb_built (fst (snd (pb_spawn nodeCpus an b s)))"

definition pb_stream_wf :: "bool \<Rightarrow> redirect \<Rightarrow> int list \<Rightarrow> bool" where
  "pb_stream_wf ctrl r fds \<longleftrightarrow> (ctrl \<longrightarrow> (\<exists>fd. rd_fd r = Some fd \<and> fd \<in> set fds))"

definition pb_wf :: "pb \<Rightarrow> bool" where
  "pb_wf b \<longleftrightarrow>
     pb_stream_wf (pb_stdinCtrl b) (pc_stdin (pb_config b)) (pb_parentCloseFds b) \<and>
     pb_stream_wf (pb_stdoutCtrl b) (pc_stdout (pb_config b)) (pb_parentCloseFds b) \<and>
     pb_stream_wf (pb_stderrCtrl b) (pc_stderr (pb_config b)) (pb_parentCloseFds b) \<and>
     pc_parentCloseFds (pb_config b) = []"

lemmas pb_setter_defs =
  pb_arg_def pb_inheritEnvironment_def pb_environment_def pb_workingDirectory_def pb_cpuAffinity_def
  pb_numaNode_def pb_niceValue_def pb_searchPath_def pb_newSession_def pb_parentDeathSignal_def pb_cgroup_def
  pb_ionice_def pb_usePosixSpawn_def pb_clearArguments_def pb_clearEnvironment_def

lemma pb_stream_wf_append [intro]: "pb_stream_wf c r fds \<Longrightarrow> pb_stream_wf c r (fds @ fds2)"
  by (auto simp: pb_stream_wf_def)

lemma pb_wf_setter:
  "pb_wf b \<Longrightarrow> pb_wf (pb_arg v b)" "pb_wf b \<Longrightarrow> pb_wf (pb_inheritEnvironment i b)"
  "pb_wf b \<Longrightarrow> pb_wf (pb_environment env b)" "pb_wf b \<Longrightarrow> pb_wf (pb_workingDirectory path b)"
  "pb_wf b \<Longrightarrow> pb_wf (pb_cpuAffinity cpus b)" "pb_wf b \<Longrightarrow> pb_wf (pb_numaNode n b)"
  "pb_wf b \<Longrightarrow> pb_wf (pb_niceValue v' b)" "pb_wf b \<Longrightarrow> pb_wf (pb_searchPath e b)"
  "pb_wf b \<Longrightarrow> pb_wf (pb_newSession e b)" "pb_wf b \<Longrightarrow> pb_wf (pb_parentDeathSignal sg b)"
  "pb_wf b \<Longrightarrow> pb_wf (pb_cgroup path b)" "pb_wf b \<Longrightarrow> pb_wf (pb_ionice c p b)"
  "pb_wf b \<Longrightarrow> pb_wf (pb_usePosixSpawn e b)" "pb_wf b \<Longrightarrow> pb_wf (pb_clearArguments b)"
  "pb_wf b \<Longrightarrow> pb_wf (pb_clearEnvironment b)"
  by (simp_all add: pb_wf_def pb_setter_defs)

lemma pb_wf_args: "pb_wf b \<Longrightarrow> pb_wf (pb_args vs b)"
  by (induction vs b rule: pb_args.induct) (simp_all add: pb_wf_def)

lemma pb_wf_fd:
  "pb_wf b \<Longrightarrow> pb_wf (pb_stdinFd fd c d b)" "pb_wf b \<Longrightarrow> pb_wf (pb_stdoutFd fd c d b)"
  "pb_wf b \<Longrightarrow> pb_wf (pb_stderrFd fd c d b)"
  by (auto simp: pb_wf_def pb_stdinFd_def pb_stdoutFd_def pb_stderrFd_def pb_stream_wf_def)

lemma makeCapturedPipe_ok:
  assumes "makeCapturedPipe answer k fds = Inr (r, c, fds', p)"
  obtains fd where "rd_fd r = Some fd" "0 \<le> fd" "fds' = fds @ [fd]" "c"
  using assms by (auto simp: makeCapturedPipe_def not_less split: sum.splits prod.splits if_splits)

lemma pb_wf_capture:
  assumes "pb_wf b"
  shows "pb_wf (snd (pb_captureStdout answer b))" "pb_wf (snd (pb_captureStderr answer b))"
    "pb_wf (snd (pb_captureStdin answer b))"
  using assms
  by (auto simp: pb_wf_def pb_captureStdout_def pb_captureStderr_def pb_captureStdin_def pb_stream_wf_def
      split: sum.split elim!: makeCapturedPipe_ok)

lemma pb_wf_spawn: "pb_wf b \<Longrightarrow> pb_wf (fst (snd (pb_spawn nodeCpus an b s)))"
  by (auto simp: pb_spawn_def pb_wf_def pb_stream_wf_def Let_def split: prod.split sum.split)

text \<open>Every builder operation, the spawn included, keeps the invariant.\<close>

lemma pb_built_wf: "pb_built b \<Longrightarrow> pb_wf b"
  by (induction rule: pb_built.induct)
     (simp_all add: pb_wf_setter pb_wf_args pb_wf_fd pb_wf_capture pb_wf_spawn, 
      simp add: pb_wf_def pb_new_def pb_stream_wf_def pc_default_def)

text \<open>
  Claim C40. Every builder that the interface of \<open>ProcessBuilder\<close> can produce, with failed captures and spawns
  among the calls, is well formed: a stream that the builder controls has a descriptor, that descriptor is in
  the list of those the parent closes, and the configuration itself lists none.
\<close>

theorem builder_well_formed:
  assumes "pb_built b"
  shows "pb_wf b"
  by (rule pb_built_wf [OF assms])

theorem builder_well_formed_witness:
  "pb_stdoutCtrl (snd (pb_captureStdout (Inr (5, 6)) (pb_arg ''x'' (pb_new ''/bin/true'')))) \<and>
   pb_wf (snd (pb_captureStdout (Inr (5, 6)) (pb_arg ''x'' (pb_new ''/bin/true''))))"
proof
  show "pb_wf (snd (pb_captureStdout (Inr (5, 6)) (pb_arg ''x'' (pb_new ''/bin/true''))))"
    by (rule builder_well_formed) (intro pb_built.intros)
qed (simp add: pb_captureStdout_def makeCapturedPipe_def pp_create_def pp_releaseRead_def pp_releaseWrite_def)

section \<open>What spawn closes\<close>

text \<open>The descriptors that \<open>cleanup\<close> closes.\<close>

definition pb_cleanup_fds :: "pb \<Rightarrow> int list" where
  "pb_cleanup_fds b =
     (let stream = (\<lambda>c r. if c then (case rd_fd r of None \<Rightarrow> [] | Some fd \<Rightarrow> [fd]) else []) in
      stream (pb_stdinCtrl b) (pc_stdin (pb_config b)) @ stream (pb_stdoutCtrl b) (pc_stdout (pb_config b)) @
      stream (pb_stderrCtrl b) (pc_stderr (pb_config b)))"

lemma fold_os_close: "os_closed (fold os_close fds s) = os_closed s @ fds"
  by (induction fds arbitrary: s) (simp_all add: os_close_def)

lemma finalizeHandle_closed: "finalizeHandle an cfg pid s = (Inr h, s') \<Longrightarrow> s' = s"
  by (auto simp: finalizeHandle_def Let_def split: sum.splits if_splits)

lemma launchProcess_closed:
  assumes "launchProcess nodeCpus an cfg s = (Inr h, s')"
  shows "os_closed s' = os_closed s @ filter (\<lambda>fd. fd \<ge> 0) (pc_parentCloseFds cfg)"
  using assms
  by (auto simp: launchProcess_def launchWithPosixSpawn_def applyPostSpawnParentWork_def fold_os_close os_child_def
      Let_def dest!: finalizeHandle_closed split: if_splits sum.splits option.splits)

lemma pb_cleanup_closed:
  "os_closed (snd (pb_cleanup c r s)) =
     os_closed s @ (if c then (case rd_fd r of None \<Rightarrow> [] | Some fd \<Rightarrow> [fd]) else [])"
  by (auto simp: pb_cleanup_def os_close_def split: option.split)

lemma pb_spawn_closed:
  assumes "pb_spawn nodeCpus an b s = (Inr h, b', s')"
  shows "os_closed s' = os_closed s @ filter (\<lambda>fd. fd \<ge> 0) (pb_parentCloseFds b) @ pb_cleanup_fds b"
proof -
  let ?cfg = "(pb_config b)\<lparr>pc_parentCloseFds := pb_parentCloseFds b\<rparr>"
  obtain s1 where l: "launchProcess nodeCpus an ?cfg s = (Inr h, s1)"
    using assms by (auto simp: pb_spawn_def Let_def split: prod.splits sum.splits)
  define s2 where "s2 = snd (pb_cleanup (pb_stdinCtrl b) (pc_stdin (pb_config b)) s1)"
  define s3 where "s3 = snd (pb_cleanup (pb_stdoutCtrl b) (pc_stdout (pb_config b)) s2)"
  have "s' = snd (pb_cleanup (pb_stderrCtrl b) (pc_stderr (pb_config b)) s3)"
    using assms l by (auto simp: pb_spawn_def s2_def s3_def Let_def split: prod.splits)
  then show ?thesis
    using launchProcess_closed [OF l] by (simp add: pb_cleanup_closed s2_def s3_def pb_cleanup_fds_def Let_def)
qed

lemma pb_cleanup_fds_listed: "pb_wf b \<Longrightarrow> set (pb_cleanup_fds b) \<subseteq> set (pb_parentCloseFds b)"
  unfolding pb_cleanup_fds_def pb_wf_def pb_stream_wf_def Let_def
  by (cases "pb_stdinCtrl b"; cases "pb_stdoutCtrl b"; cases "pb_stderrCtrl b"; elim conjE; force)

text \<open>
  Every descriptor that the parent is to close after the spawn is closed twice: by the launch and
  again by the clean-up of the builder. The second \<open>close\<close> hits whatever descriptor another thread
  has opened under the same number in between.
\<close>

lemma builder_spawn_double_close:
  assumes "pb_built b" "pb_spawn nodeCpus an b s = (Inr h, b', s')" "fd \<in> set (pb_cleanup_fds b)" "0 \<le> fd"
  shows "count_list (os_closed s') fd \<ge> count_list (os_closed s) fd + 2"
proof -
  have "fd \<in> set (filter (\<lambda>fd. fd \<ge> 0) (pb_parentCloseFds b))"
    using pb_cleanup_fds_listed [OF pb_built_wf [OF assms(1)]] assms(3,4) by auto
  then have "count_list (filter (\<lambda>fd. fd \<ge> 0) (pb_parentCloseFds b)) fd \<ge> 1"
    by (simp add: Suc_le_eq count_list_0_iff flip: neq0_conv)
  moreover have "count_list (pb_cleanup_fds b) fd \<ge> 1"
    using assms(3) by (simp add: Suc_le_eq count_list_0_iff flip: neq0_conv)
  ultimately show ?thesis using pb_spawn_closed [OF assms(2)] by simp
qed

end
