(* ===== verification/Process_Group.thy ===== *)
theory Process_Group
  imports Process_Builder "HOL-Library.AList"
begin

text \<open>
  \<open>ProcessGroup\<close> of src/src/process_group.cpp: a vector of process handles with an optional kernel
  process group. The kernel state gains the process groups of the children. Without a kernel group
  signals go to the handles one by one; with one they go through \<open>killpg\<close>. Both ways reach every
  live member when every member has joined, and \<open>waitAll\<close> reaps them all. The operations that break
  these preconditions (\<open>waitAny\<close>, a \<open>setpgid\<close> that fails with EACCES) are covered at the end.
\<close>

section \<open>Kernel process groups\<close>

definition EACCES :: nat where "EACCES = 13"
definition SIGCONT :: int where "SIGCONT = 18"
definition SIGSTOP :: int where "SIGSTOP = 19"

record kernel =
  k_os :: os
  k_pgids :: "(int \<times> int) list"

text \<open>\<open>setpgid(2)\<close>: \<open>rc\<close> is the errno it answers, 0 for success; group 0 is a new group led by \<open>pid\<close>.\<close>

definition os_setpgid :: "nat \<Rightarrow> int \<Rightarrow> int \<Rightarrow> kernel \<Rightarrow> kernel" where
  "os_setpgid rc pid pgid k =
     (if rc = 0 then k\<lparr>k_pgids := AList.update pid (if pgid = 0 then pid else pgid) (k_pgids k)\<rparr> else k)"

text \<open>The existing processes of a group.\<close>

definition k_members :: "int \<Rightarrow> kernel \<Rightarrow> int list" where
  "k_members pgid k =
     map fst (filter (\<lambda>(p, g). g = pgid \<and> (os_children (k_os k) p \<noteq> None \<or> os_foreign (k_os k) p)) (k_pgids k))"

text \<open>\<open>killpg(3)\<close> for a group above 1.\<close>

definition os_killpg :: "int \<Rightarrow> int \<Rightarrow> kernel \<Rightarrow> unit result \<times> kernel" where
  "os_killpg pgid sig k =
     (if k_members pgid k = [] then (Inl (System_error ESRCH), k)
      else (Inr (), k\<lparr>k_os := (k_os k)\<lparr>os_signals := os_signals (k_os k) @ map (\<lambda>p. (p, sig)) (k_members pgid k)\<rparr>\<rparr>))"

text \<open>
  \<open>waitpid(-1, &status, 0)\<close>: the kernel reports an error, goes on waiting (\<open>Inr None\<close>), or picks a
  child that has exited and reaps it.
\<close>

definition os_waitany :: "int option result \<Rightarrow> os \<Rightarrow> (int \<times> int) option result \<times> os" where
  "os_waitany pick s =
     (case pick of
        Inl e \<Rightarrow> (Inl e, s)
      | Inr None \<Rightarrow> (Inr None, s)
      | Inr (Some pid) \<Rightarrow>
          (case os_waitpid pid s of
             (Inr (Some st), s1) \<Rightarrow> (Inr (Some (pid, st)), s1)
           | _ \<Rightarrow> (Inr None, s)))"

section \<open>The group\<close>

record pg =
  pg_processes :: "ph list"
  pg_pgid :: "int option"

definition pg_new :: pg where
  "pg_new = \<lparr>pg_processes = [], pg_pgid = None\<rparr>"

text \<open>\<open>setpgid\<close> with the check the group makes each time: EACCES and ESRCH are ignored.\<close>

definition pg_setpgid :: "nat \<Rightarrow> int \<Rightarrow> int \<Rightarrow> kernel \<Rightarrow> unit result \<times> kernel" where
  "pg_setpgid rc pid pgid k =
     (if rc \<noteq> 0 \<and> rc \<noteq> EACCES \<and> rc \<noteq> ESRCH then (Inl (System_error rc), k)
      else (Inr (), os_setpgid rc pid pgid k))"

text \<open>
  The common part of the two \<open>add\<close>: a new handle joins the group, if there is one, and is appended; the
  result is its index. When \<open>setpgid\<close> throws, the destructor of the local handle closes its pidfd.
\<close>

definition pg_append :: "nat \<Rightarrow> ph \<Rightarrow> pg \<Rightarrow> kernel \<Rightarrow> nat result \<times> pg \<times> kernel" where
  "pg_append rc h g k =
     (case (case pg_pgid g of None \<Rightarrow> (Inr (), k) | Some pgid \<Rightarrow> pg_setpgid rc (ph_pid h) pgid k) of
        (Inl e, k1) \<Rightarrow> (Inl e, g, k1\<lparr>k_os := snd (ph_closePidfd h (k_os k1))\<rparr>)
      | (Inr _, k1) \<Rightarrow> (Inr (length (pg_processes g)), g\<lparr>pg_processes := pg_processes g @ [h]\<rparr>, k1))"

definition pg_add :: "(int \<Rightarrow> nat list option) \<Rightarrow> answers \<Rightarrow> nat \<Rightarrow> pconfig \<Rightarrow> pg \<Rightarrow> kernel \<Rightarrow> nat result \<times> pg \<times> kernel" where
  "pg_add nodeCpus an rc config g k =
     (case launchProcess nodeCpus an config (k_os k) of
        (Inl e, s) \<Rightarrow> (Inl e, g, k\<lparr>k_os := s\<rparr>)
      | (Inr h, s) \<Rightarrow> pg_append rc h g (k\<lparr>k_os := s\<rparr>))"

definition pg_add_builder :: "(int \<Rightarrow> nat list option) \<Rightarrow> answers \<Rightarrow> nat \<Rightarrow> pb \<Rightarrow> pg \<Rightarrow> kernel \<Rightarrow> nat result \<times> pg \<times> kernel" where
  "pg_add_builder nodeCpus an rc builder g k =
     (case pb_spawn nodeCpus an builder (k_os k) of
        (Inl e, _, s) \<Rightarrow> (Inl e, g, k\<lparr>k_os := s\<rparr>)
      | (Inr h, _, s) \<Rightarrow> pg_append rc h g (k\<lparr>k_os := s\<rparr>))"

text \<open>The loop of \<open>sendSignalAll\<close> over the handles.\<close>

fun pg_sendEach :: "int \<Rightarrow> ph list \<Rightarrow> os \<Rightarrow> unit result \<times> os" where
  "pg_sendEach sig [] s = (Inr (), s)"
| "pg_sendEach sig (h # hs) s =
     (if ph_valid h then
        (case ph_sendSignal sig h s of
           (Inl e, s1) \<Rightarrow> if e = System_error ESRCH then pg_sendEach sig hs s1 else (Inl e, s1)
         | (Inr _, s1) \<Rightarrow> pg_sendEach sig hs s1)
      else pg_sendEach sig hs s)"

definition pg_sendSignalAll :: "int \<Rightarrow> pg \<Rightarrow> kernel \<Rightarrow> unit result \<times> kernel" where
  "pg_sendSignalAll sig g k =
     (case pg_pgid g of
        Some pgid \<Rightarrow>
          (case os_killpg pgid sig k of
             (Inl e, k1) \<Rightarrow> (if e = System_error ESRCH then Inr () else Inl e, k1)
           | (Inr _, k1) \<Rightarrow> (Inr (), k1))
      | None \<Rightarrow> (case pg_sendEach sig (pg_processes g) (k_os k) of (r, s1) \<Rightarrow> (r, k\<lparr>k_os := s1\<rparr>)))"

definition pg_terminateAll :: "pg \<Rightarrow> kernel \<Rightarrow> unit result \<times> kernel" where
  "pg_terminateAll = pg_sendSignalAll SIGTERM"

definition pg_killAll :: "pg \<Rightarrow> kernel \<Rightarrow> unit result \<times> kernel" where
  "pg_killAll = pg_sendSignalAll SIGKILL"

definition pg_stopAll :: "pg \<Rightarrow> kernel \<Rightarrow> unit result \<times> kernel" where
  "pg_stopAll = pg_sendSignalAll SIGSTOP"

definition pg_continueAll :: "pg \<Rightarrow> kernel \<Rightarrow> unit result \<times> kernel" where
  "pg_continueAll = pg_sendSignalAll SIGCONT"

text \<open>The index of the first valid handle with the pid, -1 when there is none.\<close>

fun pg_index :: "int \<Rightarrow> ph list \<Rightarrow> int \<Rightarrow> int" where
  "pg_index pid [] i = -1"
| "pg_index pid (h # hs) i = (if ph_valid h \<and> ph_pid h = pid then i else pg_index pid hs (i + 1))"

definition pg_waitAny :: "int option result \<Rightarrow> pg \<Rightarrow> os \<Rightarrow> int option result \<times> os" where
  "pg_waitAny pick g s =
     (if pg_processes g = [] then (Inl Runtime_error, s)
      else (case os_waitany pick s of
              (Inl e, s1) \<Rightarrow> (Inl e, s1)
            | (Inr None, s1) \<Rightarrow> (Inr None, s1)
            | (Inr (Some (pid, st)), s1) \<Rightarrow> (Inr (Some (pg_index pid (pg_processes g) 0)), s1)))"

text \<open>
  \<open>waitAll\<close>; \<open>exits pid\<close> is the status with which the child exits while it is waited for. \<open>Inr None\<close>:
  still waiting.
\<close>

fun pg_waitEach :: "(int \<Rightarrow> int option) \<Rightarrow> ph list \<Rightarrow> os \<Rightarrow> int list option result \<times> ph list \<times> os" where
  "pg_waitEach exits [] s = (Inr (Some []), [], s)"
| "pg_waitEach exits (h # hs) s =
     (if ph_valid h then
        (case ph_wait (exits (ph_pid h)) h s of
           (Inl e, h1, s1) \<Rightarrow> (Inl e, h1 # hs, s1)
         | (Inr None, h1, s1) \<Rightarrow> (Inr None, h1 # hs, s1)
         | (Inr (Some st), h1, s1) \<Rightarrow>
             (case pg_waitEach exits hs s1 of
                (r, hs2, s2) \<Rightarrow> (map_sum id (map_option ((#) st)) r, h1 # hs2, s2)))
      else (case pg_waitEach exits hs s of
              (r, hs2, s2) \<Rightarrow> (map_sum id (map_option ((#) (-1))) r, h # hs2, s2)))"

definition pg_waitAll :: "(int \<Rightarrow> int option) \<Rightarrow> pg \<Rightarrow> os \<Rightarrow> int list option result \<times> pg \<times> os" where
  "pg_waitAll exits g s =
     (case pg_waitEach exits (pg_processes g) s of (r, hs, s1) \<Rightarrow> (r, g\<lparr>pg_processes := hs\<rparr>, s1))"

text \<open>
  \<open>waitAllFor\<close>: the clock is read once for the deadline and once for every valid handle; \<open>env pid\<close>
  says whether the wait for the child is interrupted and what happens to the child meanwhile.
\<close>

fun pg_waitEachFor ::
  "int \<Rightarrow> (nat \<Rightarrow> int) \<Rightarrow> nat \<Rightarrow> (int \<Rightarrow> bool \<times> int option list) \<Rightarrow> ph list \<Rightarrow> os \<Rightarrow> bool result \<times> ph list \<times> os" where
  "pg_waitEachFor deadline clock n env [] s = (Inr True, [], s)"
| "pg_waitEachFor deadline clock n env (h # hs) s =
     (if ph_valid h then
        (if deadline - clock n \<le> 0 then (Inr False, h # hs, s)
         else (case ph_waitFor (fst (env (ph_pid h))) (snd (env (ph_pid h))) h s of
                 (Inl e, h1, s1) \<Rightarrow> (Inl e, h1 # hs, s1)
               | (Inr False, h1, s1) \<Rightarrow> (Inr False, h1 # hs, s1)
               | (Inr True, h1, s1) \<Rightarrow>
                   (case pg_waitEachFor deadline clock (n + 1) env hs s1 of (r, hs2, s2) \<Rightarrow> (r, h1 # hs2, s2))))
      else (case pg_waitEachFor deadline clock n env hs s of (r, hs2, s2) \<Rightarrow> (r, h # hs2, s2)))"

definition pg_waitAllFor :: "(nat \<Rightarrow> int) \<Rightarrow> (int \<Rightarrow> bool \<times> int option list) \<Rightarrow> int \<Rightarrow> pg \<Rightarrow> os \<Rightarrow> bool result \<times> pg \<times> os" where
  "pg_waitAllFor clock env timeout g s =
     (case pg_waitEachFor (clock 0 + timeout) clock 1 env (pg_processes g) s of
        (r, hs, s1) \<Rightarrow> (r, g\<lparr>pg_processes := hs\<rparr>, s1))"

definition pg_size :: "pg \<Rightarrow> nat" where
  "pg_size g = length (pg_processes g)"

definition pg_empty :: "pg \<Rightarrow> bool" where
  "pg_empty g \<longleftrightarrow> pg_processes g = []"

definition pg_at :: "nat \<Rightarrow> pg \<Rightarrow> ph result" where
  "pg_at index g = (if index < length (pg_processes g) then Inr (pg_processes g ! index) else Inl Out_of_range)"

text \<open>Both loops that move members into a kernel group; \<open>rc pid\<close> is the errno of each call.\<close>

fun pg_moveEach :: "(int \<Rightarrow> nat) \<Rightarrow> int \<Rightarrow> ph list \<Rightarrow> kernel \<Rightarrow> unit result \<times> kernel" where
  "pg_moveEach rc pgid [] k = (Inr (), k)"
| "pg_moveEach rc pgid (h # hs) k =
     (if ph_valid h then
        (case pg_setpgid (rc (ph_pid h)) (ph_pid h) pgid k of
           (Inl e, k1) \<Rightarrow> (Inl e, k1)
         | (Inr _, k1) \<Rightarrow> pg_moveEach rc pgid hs k1)
      else pg_moveEach rc pgid hs k)"

definition pg_setProcessGroup :: "(int \<Rightarrow> nat) \<Rightarrow> int \<Rightarrow> pg \<Rightarrow> kernel \<Rightarrow> unit result \<times> pg \<times> kernel" where
  "pg_setProcessGroup rc pgid g k =
     (case pg_moveEach rc pgid (pg_processes g) k of (r, k1) \<Rightarrow> (r, g\<lparr>pg_pgid := Some pgid\<rparr>, k1))"

definition pg_createProcessGroup :: "(int \<Rightarrow> nat) \<Rightarrow> pg \<Rightarrow> kernel \<Rightarrow> unit result \<times> pg \<times> kernel" where
  "pg_createProcessGroup rc g k =
     (case pg_processes g of
        [] \<Rightarrow> (Inl Runtime_error, g, k)
      | leader # rest \<Rightarrow>
          (case pg_setpgid (rc (ph_pid leader)) (ph_pid leader) 0 k of
             (Inl e, k1) \<Rightarrow> (Inl e, g, k1)
           | (Inr _, k1) \<Rightarrow>
               (case pg_moveEach rc (ph_pid leader) rest k1 of
                  (r, k2) \<Rightarrow> (r, g\<lparr>pg_pgid := Some (ph_pid leader)\<rparr>, k2))))"

text \<open>The destructors of the handles of a vector, and move assignment: the new values of both groups.\<close>

definition pg_drop :: "ph list \<Rightarrow> os \<Rightarrow> os" where
  "pg_drop hs s = fold (\<lambda>h s. snd (ph_closePidfd h s)) hs s"

definition pg_move :: "pg \<Rightarrow> pg \<Rightarrow> os \<Rightarrow> pg \<times> pg \<times> os" where
  "pg_move this other s =
     (\<lparr>pg_processes = pg_processes other, pg_pgid = pg_pgid other\<rparr>, \<lparr>pg_processes = [], pg_pgid = None\<rparr>,
      pg_drop (pg_processes this) s)"

section \<open>Signals reach every member\<close>

definition pg_owns :: "ph list \<Rightarrow> os \<Rightarrow> bool" where
  "pg_owns hs s \<longleftrightarrow> (\<forall>h \<in> set hs. ph_owns h s)"

text \<open>Every live member is in the kernel group, if the group has one.\<close>

definition pg_joined :: "pg \<Rightarrow> kernel \<Rightarrow> bool" where
  "pg_joined g k \<longleftrightarrow>
     (case pg_pgid g of
        None \<Rightarrow> True
      | Some pgid \<Rightarrow> \<forall>h \<in> set (pg_processes g). ph_valid h \<longrightarrow> map_of (k_pgids k) (ph_pid h) = Some pgid)"

lemma pg_sendEach_exact:
  assumes "pg_owns hs s"
  shows "pg_sendEach sig hs s =
    (Inr (), s\<lparr>os_signals := os_signals s @ map (\<lambda>h. (ph_pid h, sig)) (filter ph_valid hs)\<rparr>)"
  using assms
proof (induction hs arbitrary: s)
  case (Cons h hs)
  show ?case
  proof (cases "ph_valid h")
    case True
    let ?s1 = "s\<lparr>os_signals := os_signals s @ [(ph_pid h, sig)]\<rparr>"
    have "ph_sendSignal sig h s = (Inr (), ?s1)"
      using True Cons.prems by (simp add: ph_sendSignal_def os_kill_def pg_owns_def ph_owns_def)
    moreover have "pg_owns hs ?s1" using Cons.prems by (simp add: pg_owns_def ph_owns_def)
    ultimately show ?thesis using Cons.IH [of ?s1] True by simp
  next
    case False
    then show ?thesis using Cons by (simp add: pg_owns_def)
  qed
qed simp

lemma k_members_joined:
  assumes "map_of (k_pgids k) p = Some pgid" "os_children (k_os k) p \<noteq> None"
  shows "p \<in> set (k_members pgid k)"
  using map_of_SomeD [OF assms(1)] assms(2) by (force simp: k_members_def)

lemma pg_setpgid_0:
  "pg_setpgid 0 pid pgid k =
     (Inr (), k\<lparr>k_pgids := AList.update pid (if pgid = 0 then pid else pgid) (k_pgids k)\<rparr>)"
  by (simp add: pg_setpgid_def os_setpgid_def)

lemma pg_moveEach_joins:
  assumes "\<forall>h \<in> set hs. ph_valid h \<longrightarrow> rc (ph_pid h) = 0" "pgid \<noteq> 0"
  shows "\<exists>k'. pg_moveEach rc pgid hs k = (Inr (), k') \<and> k_os k' = k_os k \<and>
      (\<forall>p. map_of (k_pgids k') p =
         (if \<exists>h \<in> set hs. ph_valid h \<and> ph_pid h = p then Some pgid else map_of (k_pgids k) p))"
  using assms(1)
proof (induction hs arbitrary: k)
  case (Cons h hs)
  show ?case
  proof (cases "ph_valid h")
    case True
    let ?k1 = "k\<lparr>k_pgids := AList.update (ph_pid h) pgid (k_pgids k)\<rparr>"
    have "pg_moveEach rc pgid (h # hs) k = pg_moveEach rc pgid hs ?k1"
      using True Cons.prems assms(2) by (simp add: pg_setpgid_0)
    then show ?thesis using Cons.IH [of ?k1] Cons.prems True by (auto simp: update_conv)
  next
    case False
    then show ?thesis using Cons.IH [of k] Cons.prems by auto
  qed
qed simp

text \<open>Creating a kernel group whose \<open>setpgid\<close> calls all succeed makes every live member join it.\<close>

lemma pg_createProcessGroup_joined:
  assumes "\<forall>h \<in> set (pg_processes g). ph_valid h \<longrightarrow> rc (ph_pid h) = 0"
    "pg_processes g = leader # rest" "ph_valid leader"
  shows "\<exists>g' k'. pg_createProcessGroup rc g k = (Inr (), g', k') \<and> pg_joined g' k' \<and>
      pg_processes g' = pg_processes g \<and> pg_pgid g' = Some (ph_pid leader) \<and> k_os k' = k_os k"
proof -
  let ?k1 = "k\<lparr>k_pgids := AList.update (ph_pid leader) (ph_pid leader) (k_pgids k)\<rparr>"
  have "ph_pid leader \<noteq> 0" using assms(3) by (simp add: ph_valid_def)
  moreover have "\<forall>h \<in> set rest. ph_valid h \<longrightarrow> rc (ph_pid h) = 0" using assms(1,2) by simp
  ultimately obtain k' where k': "pg_moveEach rc (ph_pid leader) rest ?k1 = (Inr (), k')" "k_os k' = k_os k"
    "\<And>p. map_of (k_pgids k') p =
       (if \<exists>h \<in> set rest. ph_valid h \<and> ph_pid h = p then Some (ph_pid leader) else map_of (k_pgids ?k1) p)"
    using pg_moveEach_joins [of rest rc "ph_pid leader" ?k1] by auto
  moreover have "rc (ph_pid leader) = 0" using assms by simp
  ultimately show ?thesis
    using assms(2) by (auto simp: pg_createProcessGroup_def pg_setpgid_0 pg_joined_def update_conv)
qed

section \<open>Waiting reaps every member\<close>

definition final_status :: "(int \<Rightarrow> int option) \<Rightarrow> os \<Rightarrow> int \<Rightarrow> int" where
  "final_status exits s p = (case os_children s p of Some (Exited st) \<Rightarrow> st | _ \<Rightarrow> the (exits p))"

lemma ph_wait_exact:
  assumes "ph_valid h" "os_children s (ph_pid h) \<noteq> None"
    "os_children s (ph_pid h) = Some Running \<Longrightarrow> exits (ph_pid h) \<noteq> None"
  shows "\<exists>h' s'. ph_wait (exits (ph_pid h)) h s = (Inr (Some (final_status exits s (ph_pid h))), h', s') \<and>
     \<not> ph_valid h' \<and> os_children s' = (os_children s)(ph_pid h := None)"
proof -
  obtain c where c: "os_children s (ph_pid h) = Some c" using assms(2) by auto
  show ?thesis
  proof (cases c)
    case Running
    then obtain st where "exits (ph_pid h) = Some st" using assms(3) c by auto
    then show ?thesis
      using assms(1) c Running
      by (auto simp: ph_wait_def os_env_def os_exit_def os_waitpid_def final_status_def ph_closePidfd_def os_close_def ph_valid_def)
  next
    case (Exited st)
    then show ?thesis
      using assms(1) c
      by (auto simp: ph_wait_def os_env_def os_exit_def os_waitpid_def final_status_def ph_closePidfd_def os_close_def
          ph_valid_def split: option.split)
  qed
qed

definition pg_pids :: "ph list \<Rightarrow> int list" where
  "pg_pids hs = map ph_pid (filter ph_valid hs)"

lemma pg_pids_memI: "h \<in> set hs \<Longrightarrow> ph_valid h \<Longrightarrow> ph_pid h \<in> set (pg_pids hs)"
  by (simp add: pg_pids_def)

lemma pg_waitEach_exact:
  assumes "\<forall>p \<in> set (pg_pids hs). os_children s p \<noteq> None" "distinct (pg_pids hs)"
    "\<forall>p \<in> set (pg_pids hs). os_children s p = Some Running \<longrightarrow> exits p \<noteq> None"
  shows "\<exists>hs' s'. pg_waitEach exits hs s =
       (Inr (Some (map (\<lambda>h. if ph_valid h then final_status exits s (ph_pid h) else -1) hs)), hs', s') \<and>
     (\<forall>h \<in> set hs'. \<not> ph_valid h) \<and> length hs' = length hs \<and>
     os_children s' = (\<lambda>p. if p \<in> set (pg_pids hs) then None else os_children s p)"
  using assms
proof (induction hs arbitrary: s)
  case Nil
  then show ?case by (simp add: pg_pids_def)
next
  case (Cons h hs)
  show ?case
  proof (cases "ph_valid h")
    case False
    then have p: "pg_pids (h # hs) = pg_pids hs" by (simp add: pg_pids_def)
    show ?thesis using Cons.IH [OF Cons.prems [unfolded p]] False p by auto
  next
    case True
    then have p: "pg_pids (h # hs) = ph_pid h # pg_pids hs" by (simp add: pg_pids_def)
    obtain h1 s1 where w: "ph_wait (exits (ph_pid h)) h s = (Inr (Some (final_status exits s (ph_pid h))), h1, s1)"
      "\<not> ph_valid h1" and c: "os_children s1 = (os_children s)(ph_pid h := None)"
      using ph_wait_exact [of h s exits] True Cons.prems(1,3) p by auto
    have n: "ph_pid h \<notin> set (pg_pids hs)" using Cons.prems(2) p by simp
    have pre: "\<forall>p \<in> set (pg_pids hs). os_children s1 p \<noteq> None" "distinct (pg_pids hs)"
      "\<forall>p \<in> set (pg_pids hs). os_children s1 p = Some Running \<longrightarrow> exits p \<noteq> None"
      using Cons.prems p c n by auto
    have f: "\<forall>x \<in> set hs. ph_valid x \<longrightarrow> final_status exits s1 (ph_pid x) = final_status exits s (ph_pid x)"
    proof (intro ballI impI)
      fix x assume "x \<in> set hs" "ph_valid x"
      then have "ph_pid x \<noteq> ph_pid h" using n pg_pids_memI by metis
      then show "final_status exits s1 (ph_pid x) = final_status exits s (ph_pid x)" using c by (simp add: final_status_def)
    qed
    then have m: "map (\<lambda>h. if ph_valid h then final_status exits s1 (ph_pid h) else -1) hs =
        map (\<lambda>h. if ph_valid h then final_status exits s (ph_pid h) else -1) hs" by simp
    show ?thesis using Cons.IH [OF pre] True w c p m by (auto simp: fun_eq_iff)
  qed
qed

text \<open>\<open>waitAllFor\<close> never throws on owned handles with different pids, and true means that all are reaped.\<close>

lemma pg_waitEachFor_ok:
  assumes "\<forall>p \<in> set (pg_pids hs). os_children s p \<noteq> None" "distinct (pg_pids hs)"
    "pg_waitEachFor deadline clock n env hs s = (r, hs', s')"
  shows "(\<exists>b. r = Inr b \<and> (b \<longrightarrow> (\<forall>h \<in> set hs'. \<not> ph_valid h) \<and> (\<forall>p \<in> set (pg_pids hs). os_children s' p = None))) \<and>
     (\<forall>p. p \<notin> set (pg_pids hs) \<longrightarrow> os_children s' p = os_children s p)"
  using assms
proof (induction hs arbitrary: s n r hs' s')
  case Nil
  then show ?case by (auto simp: pg_pids_def)
next
  case (Cons h hs)
  show ?case
  proof (cases "ph_valid h")
    case False
    then have p: "pg_pids (h # hs) = pg_pids hs" by (simp add: pg_pids_def)
    obtain r1 hs1 s1 where e: "pg_waitEachFor deadline clock n env hs s = (r1, hs1, s1)" by (metis prod_cases3)
    then show ?thesis using Cons.IH [OF Cons.prems(1,2) [unfolded p] e] Cons.prems(3) False p by auto
  next
    case True
    then have p: "pg_pids (h # hs) = ph_pid h # pg_pids hs" by (simp add: pg_pids_def)
    have n: "ph_pid h \<notin> set (pg_pids hs)" using Cons.prems(2) p by simp
    have o: "ph_owns h s" using Cons.prems(1) p by (simp add: ph_owns_def)
    obtain r1 h1 s1 where w: "ph_waitFor (fst (env (ph_pid h))) (snd (env (ph_pid h))) h s = (r1, h1, s1)"
      by (metis prod_cases3)
    note ok = ph_waitFor_ok [OF o True w]
    have fr: "\<forall>q. q \<noteq> ph_pid h \<longrightarrow> os_children s1 q = os_children s q" using ok by (simp add: ph_frame_def)
    consider "deadline - clock n \<le> 0" | "deadline - clock n > 0" "r1 = Inr False" "h1 = h"
      | "deadline - clock n > 0" "r1 = Inr True" "\<not> ph_valid h1"
      using ok by fastforce
    then show ?thesis
    proof cases
      case 1
      then show ?thesis using Cons.prems(3) True by auto
    next
      case 2
      then show ?thesis using Cons.prems(3) True w fr p by auto
    next
      case 3
      obtain r2 hs2 s2 where e: "pg_waitEachFor deadline clock (n + 1) env hs s1 = (r2, hs2, s2)" by (metis prod_cases3)
      have pre: "\<forall>p \<in> set (pg_pids hs). os_children s1 p \<noteq> None" "distinct (pg_pids hs)"
        using Cons.prems(1,2) p fr n by (metis list.set_intros(2), simp)
      have z: "os_children s1 (ph_pid h) = None" using ok True 3 by (simp add: ph_frame_def)
      show ?thesis using Cons.IH [OF pre e] Cons.prems(3) True w 3 e z fr n p by auto
    qed
  qed
qed

section \<open>Properties\<close>

text \<open>
  \<open>sendSignalAll\<close> on a group of owned handles whose live members have all joined the kernel
  group (or that has no kernel group) returns normally, delivers the signal to every live member and
  to nobody with another signal number, and changes no child.
\<close>

lemma group_signal_reaches_all:
  assumes "pg_owns (pg_processes g) (k_os k)" "pg_joined g k"
  shows "\<exists>k' xs. pg_sendSignalAll sig g k = (Inr (), k') \<and> os_children (k_os k') = os_children (k_os k) \<and>
    os_signals (k_os k') = os_signals (k_os k) @ map (\<lambda>p. (p, sig)) xs \<and> set (pg_pids (pg_processes g)) \<subseteq> set xs"
proof (cases "pg_pgid g")
  case None
  then show ?thesis
    using pg_sendEach_exact [OF assms(1), of sig]
    by (auto simp: pg_sendSignalAll_def pg_pids_def intro!: exI [of _ "pg_pids (pg_processes g)"])
next
  case (Some pgid)
  have m: "set (pg_pids (pg_processes g)) \<subseteq> set (k_members pgid k)"
    using assms Some k_members_joined by (auto simp: pg_pids_def pg_joined_def pg_owns_def ph_owns_def)
  show ?thesis
  proof (cases "k_members pgid k = []")
    case True
    then show ?thesis using Some m by (auto simp: pg_sendSignalAll_def os_killpg_def intro!: exI [of _ "[]"])
  next
    case False
    then show ?thesis
      using Some m by (auto simp: pg_sendSignalAll_def os_killpg_def intro!: exI [of _ "k_members pgid k"])
  qed
qed

text \<open>
  \<open>waitAll\<close> on handles with different pids, each owning a child that has exited or exits
  eventually, returns one status per handle in order (-1 for an invalid handle), reaps exactly these
  children and leaves every handle invalid.
\<close>

lemma group_wait_all_reaps:
  assumes "\<forall>p \<in> set (pg_pids (pg_processes g)). os_children s p \<noteq> None" "distinct (pg_pids (pg_processes g))"
    "\<forall>p \<in> set (pg_pids (pg_processes g)). os_children s p = Some Running \<longrightarrow> exits p \<noteq> None"
  shows "\<exists>g' s'. pg_waitAll exits g s =
       (Inr (Some (map (\<lambda>h. if ph_valid h then final_status exits s (ph_pid h) else -1) (pg_processes g))), g', s') \<and>
     pg_pids (pg_processes g') = [] \<and> pg_size g' = pg_size g \<and>
     os_children s' = (\<lambda>p. if p \<in> set (pg_pids (pg_processes g)) then None else os_children s p)"
  using pg_waitEach_exact [OF assms] by (auto simp: pg_waitAll_def pg_size_def pg_pids_def filter_empty_conv)

section \<open>Where the group fails\<close>

text \<open>\<open>waitAny\<close> reaps a member without invalidating its handle: \<open>waitAll\<close> then throws ECHILD.\<close>

lemma group_waitAny_then_waitAll_throws:
  assumes "pg_processes g = h # hs" "ph_valid h" "os_children s (ph_pid h) = Some (Exited st)"
  shows "\<exists>s1. pg_waitAny (Inr (Some (ph_pid h))) g s = (Inr (Some 0), s1) \<and>
    fst (pg_waitAll exits g s1) = Inl (System_error ECHILD)"
  using assms
  by (auto simp: pg_waitAny_def os_waitany_def os_waitpid_def pg_waitAll_def ph_wait_def os_env_def os_exit_def
      split: option.split)

text \<open>\<open>waitAny\<close> may reap a child that is no member; it returns -1 and the status is lost to its owner.\<close>

lemma group_waitAny_reaps_foreign:
  assumes "pg_processes g \<noteq> []" "p \<notin> set (pg_pids (pg_processes g))" "os_children s p = Some (Exited st)"
  shows "\<exists>s1. pg_waitAny (Inr (Some p)) g s = (Inr (Some (-1)), s1) \<and> os_children s1 p = None"
proof -
  have "pg_index p hs i = -1" if "p \<notin> set (pg_pids hs)" for hs i
    using that by (induction p hs i rule: pg_index.induct) (auto simp: pg_pids_def split: if_splits)
  then show ?thesis using assms by (auto simp: pg_waitAny_def os_waitany_def os_waitpid_def)
qed

text \<open>
  After \<open>execve\<close> the kernel refuses \<open>setpgid\<close> with EACCES, which the group ignores: it then believes
  in a kernel group that does not exist, and \<open>terminateAll\<close> returns normally without any signal.
\<close>

lemma group_terminate_signals_nobody:
  assumes "pg_processes g = [h]" "ph_valid h" "rc (ph_pid h) = EACCES" "ph_pid h \<notin> snd ` set (k_pgids k)"
  shows "\<exists>g' k'. pg_createProcessGroup rc g k = (Inr (), g', k') \<and> pg_terminateAll g' k' = (Inr (), k')"
proof -
  have "k_members (ph_pid h) k = []" using assms(4) by (force simp: k_members_def filter_empty_conv)
  then show ?thesis
    using assms
    by (simp add: pg_createProcessGroup_def pg_setpgid_def os_setpgid_def EACCES_def pg_terminateAll_def
        pg_sendSignalAll_def os_killpg_def)
qed

text \<open>When \<open>setpgid\<close> throws in \<open>add\<close>, the child runs on and no handle to it is left.\<close>

lemma group_add_leaks_child:
  assumes "launchProcess nodeCpus an config (k_os k) = (Inr h, s)" "pg_pgid g = Some pgid"
    "rc \<notin> {0, EACCES, ESRCH}"
  shows "\<exists>k'. pg_add nodeCpus an rc config g k = (Inl (System_error rc), g, k') \<and> os_children (k_os k') = os_children s"
  using assms by (auto simp: pg_add_def pg_append_def pg_setpgid_def)

section \<open>Witnesses\<close>

definition pg_demo :: pg where
  "pg_demo = \<lparr>pg_processes = [ph_demo, \<lparr>ph_pid = 101, ph_executable = ''cat'', ph_pidfd = -1\<rparr>], pg_pgid = Some 100\<rparr>"

definition k_demo :: kernel where
  "k_demo = \<lparr>k_os = os_demo, k_pgids = [(100, 100), (101, 100)]\<rparr>"

end
