(* ===== verification/Process_Supervisor.thy ===== *)
theory Process_Supervisor
  imports Complex_Main Process_Group
begin

text \<open>
  \<open>ProcessSupervisor\<close> of src/src/process_supervisor.cpp. Every section of code that holds \<open>mutex_\<close> is
  one operation on the supervisor's state; \<open>stop\<close>, \<open>stopGracefully\<close>, \<open>restartProcess\<close> and the loop of the
  supervisor thread are several operations, which other threads may interleave with theirs. Clock
  readings and the kernel's answers to the k-th launch come from an environment. User callbacks are
  recorded in a log; those that run without the mutex (\<open>onExit\<close>, the exit callback) may call the
  supervisor, which is then a later operation of the run. \<open>double\<close> is exact, and \<open>None\<close> stands for
  undefined behaviour where a number does not fit \<open>std::chrono::nanoseconds\<close>.
\<close>

section \<open>Configuration\<close>

datatype restart_policy = Never | Always | OnFailure | OnSuccess

datatype backoff_strategy = Exponential | Linear | Custom

record restart_config =
  rc_policy :: restart_policy
  rc_backoffStrategy :: backoff_strategy
  rc_minRestartDelay :: int
  rc_maxRestartDelay :: int
  rc_backoffMultiplier :: rat
  rc_linearIncrement :: int
  rc_customBackoff :: "(int \<Rightarrow> int) option"
  rc_maxRestarts :: int
  rc_maxRestartWindow :: int
  rc_maxRestartsInWindow :: int

definition rc_default :: restart_config where
  "rc_default = \<lparr>rc_policy = OnFailure, rc_backoffStrategy = Exponential, rc_minRestartDelay = 10 ^ 9,
     rc_maxRestartDelay = 5 * 60 * 10 ^ 9, rc_backoffMultiplier = 2, rc_linearIncrement = 10 ^ 9,
     rc_customBackoff = None, rc_maxRestarts = -1, rc_maxRestartWindow = 60 * 60 * 10 ^ 9,
     rc_maxRestartsInWindow = 10\<rparr>"

text \<open>The two callbacks of a specification are the facts that they are set.\<close>

record supervised =
  sp_name :: string
  sp_config :: pconfig
  sp_restart :: restart_config
  sp_onExit :: bool
  sp_onRestart :: bool

record pstatus =
  pst_name :: string
  pst_pid :: int
  pst_running :: bool
  pst_lastExitStatus :: int
  pst_restartCount :: int
  pst_lastStartTime :: int
  pst_lastExitTime :: int
  pst_nextRestartDelay :: int

definition pst_new :: "string \<Rightarrow> pstatus" where
  "pst_new name = \<lparr>pst_name = name, pst_pid = -1, pst_running = False, pst_lastExitStatus = 0,
     pst_restartCount = 0, pst_lastStartTime = 0, pst_lastExitTime = 0, pst_nextRestartDelay = 0\<rparr>"

text \<open>
  \<open>ps_granted\<close> records the times of all automatic restarts since the last \<open>restartProcess\<close>; the code
  keeps only \<open>restartTimes\<close>.
\<close>

record pstate =
  ps_spec :: supervised
  ps_handle :: "ph option"
  ps_status :: pstatus
  ps_restartTimes :: "int list"
  ps_pendingRestart :: bool
  ps_scheduledRestartTime :: int
  ps_granted :: "int list"

datatype sup_event = Ev_onExit string int | Ev_exit string int | Ev_onRestart string | Ev_start string int

datatype sup_thread = No_thread | Looping | Finished "exn option"

text \<open>\<open>processes_\<close> is an association list in the iteration order of the map.\<close>

record sup =
  sup_processes :: "(string \<times> pstate) list"
  sup_pidToName :: "int \<Rightarrow> string option"
  sup_signalFd :: int
  sup_running :: bool
  sup_thread :: sup_thread
  sup_exitCb :: bool
  sup_startCb :: bool
  sup_os :: os
  sup_reads :: nat
  sup_launches :: nat
  sup_log :: "sup_event list"

record senv =
  se_clock :: "nat \<Rightarrow> int"
  se_nodeCpus :: "int \<Rightarrow> nat list option"
  se_answers :: "nat \<Rightarrow> answers"

definition sup_new :: "os \<Rightarrow> sup" where
  "sup_new os0 = \<lparr>sup_processes = [], sup_pidToName = (\<lambda>_. None), sup_signalFd = -1, sup_running = False,
     sup_thread = No_thread, sup_exitCb = False, sup_startCb = False, sup_os = os0, sup_reads = 0,
     sup_launches = 0, sup_log = []\<rparr>"

definition sup_now :: "senv \<Rightarrow> sup \<Rightarrow> int \<times> sup" where
  "sup_now env s = (se_clock env (sup_reads s), s\<lparr>sup_reads := sup_reads s + 1\<rparr>)"

section \<open>Restart decisions\<close>

definition cleanupRestartHistory :: "int \<Rightarrow> pstate \<Rightarrow> pstate" where
  "cleanupRestartHistory now st =
     st\<lparr>ps_restartTimes :=
          filter (\<lambda>t. \<not> t < now - rc_maxRestartWindow (sp_restart (ps_spec st))) (ps_restartTimes st)\<rparr>"

definition policy_restarts :: "restart_policy \<Rightarrow> int \<Rightarrow> bool" where
  "policy_restarts p status =
     (case p of
        Never \<Rightarrow> False
      | Always \<Rightarrow> True
      | OnFailure \<Rightarrow> \<not> WIFEXITED status \<or> WEXITSTATUS status \<noteq> 0
      | OnSuccess \<Rightarrow> WIFEXITED status \<and> WEXITSTATUS status = 0)"

text \<open>\<open>shouldRestart\<close> for a process that is in the map; \<open>now\<close> is the reading of \<open>cleanupRestartHistory\<close>.\<close>

definition shouldRestart :: "int \<Rightarrow> int \<Rightarrow> pstate \<Rightarrow> bool \<times> pstate" where
  "shouldRestart now status st =
     (let rc = sp_restart (ps_spec st); st1 = cleanupRestartHistory now st in
      if rc_maxRestarts rc \<ge> 0 \<and> pst_restartCount (ps_status st1) \<ge> rc_maxRestarts rc then (False, st1)
      else if int (length (ps_restartTimes st1)) \<ge> rc_maxRestartsInWindow rc then (False, st1)
      else (policy_restarts (rc_policy rc) status, st1))"

definition int64 :: "int \<Rightarrow> int option" where
  "int64 x = (if - (2 ^ 63) \<le> x \<and> x < 2 ^ 63 then Some x else None)"

text \<open>The conversion of a floating-point value to an integer drops the fraction.\<close>

definition truncate :: "rat \<Rightarrow> int" where
  "truncate x = (if x \<ge> 0 then \<lfloor>x\<rfloor> else \<lceil>x\<rceil>)"

text \<open>The loop that multiplies: from \<open>i\<close> while \<open>i < restartCount\<close> and \<open>i < 32\<close>.\<close>

function backoff_loop :: "rat \<Rightarrow> int \<Rightarrow> int \<Rightarrow> rat \<Rightarrow> rat" where
  "backoff_loop m restartCount i acc =
     (if i < restartCount \<and> i < 32 then backoff_loop m restartCount (i + 1) (acc * m) else acc)"
  by auto
termination
  by (relation "measure (\<lambda>(_, _, i, _). nat (32 - i))") auto

definition calculateRestartDelay :: "restart_config \<Rightarrow> int \<Rightarrow> int option" where
  "calculateRestartDelay rc restartCount =
     (case (case rc_backoffStrategy rc of
              Exponential \<Rightarrow>
                int64 (truncate (of_int (rc_minRestartDelay rc) * backoff_loop (rc_backoffMultiplier rc) restartCount 0 1))
            | Linear \<Rightarrow>
                Option.bind (int64 (rc_linearIncrement rc * restartCount)) (\<lambda>d. int64 (rc_minRestartDelay rc + d))
            | Custom \<Rightarrow>
                Some (case rc_customBackoff rc of Some f \<Rightarrow> f restartCount | None \<Rightarrow> rc_minRestartDelay rc)) of
        None \<Rightarrow> None
      | Some delay \<Rightarrow>
          (let d1 = (if delay > rc_maxRestartDelay rc then rc_maxRestartDelay rc else delay) in
           Some (if d1 < rc_minRestartDelay rc then rc_minRestartDelay rc else d1)))"

section \<open>Operations\<close>

definition sup_put :: "string \<Rightarrow> pstate \<Rightarrow> sup \<Rightarrow> sup" where
  "sup_put name st s = s\<lparr>sup_processes := AList.update name st (sup_processes s)\<rparr>"

definition sup_add :: "supervised \<Rightarrow> sup \<Rightarrow> unit result \<times> sup" where
  "sup_add spec s =
     (if map_of (sup_processes s) (sp_name spec) \<noteq> None then (Inl Runtime_error, s)
      else (Inr (), sup_put (sp_name spec)
              \<lparr>ps_spec = spec, ps_handle = None, ps_status = pst_new (sp_name spec), ps_restartTimes = [],
               ps_pendingRestart = False, ps_scheduledRestartTime = 0, ps_granted = []\<rparr> s))"

text \<open>\<open>doStartProcess\<close>: the new state of the process and of everything else.\<close>

definition doStartProcess :: "senv \<Rightarrow> pstate \<Rightarrow> sup \<Rightarrow> unit result \<times> pstate \<times> sup" where
  "doStartProcess env st s =
     (case launchProcess (se_nodeCpus env) (se_answers env (sup_launches s)) (sp_config (ps_spec st)) (sup_os s) of
        (Inl e, os1) \<Rightarrow>
          (Inl e, st\<lparr>ps_status := (ps_status st)\<lparr>pst_running := False, pst_pid := -1\<rparr>\<rparr>,
           s\<lparr>sup_os := os1, sup_launches := sup_launches s + 1\<rparr>)
      | (Inr h, os1) \<Rightarrow>
          (let os2 = (case ps_handle st of None \<Rightarrow> os1 | Some old \<Rightarrow> snd (ph_closePidfd old os1));
               (t, s1) = sup_now env (s\<lparr>sup_os := os2, sup_launches := sup_launches s + 1\<rparr>);
               name = sp_name (ps_spec st) in
           (Inr (),
            st\<lparr>ps_handle := Some h,
               ps_status := (ps_status st)\<lparr>pst_pid := ph_pid h, pst_running := True, pst_lastStartTime := t\<rparr>\<rparr>,
            s1\<lparr>sup_pidToName := (sup_pidToName s1)(ph_pid h \<mapsto> name),
               sup_log := sup_log s1 @
                 (if sp_onRestart (ps_spec st) \<and> pst_restartCount (ps_status st) > 0 then [Ev_onRestart name] else []) @
                 (if sup_startCb s1 then [Ev_start name (ph_pid h)] else [])\<rparr>)))"

text \<open>The start loop over the processes; an exception leaves it.\<close>

fun sup_startEach :: "senv \<Rightarrow> (string \<times> pstate) list \<Rightarrow> sup \<Rightarrow> unit result \<times> (string \<times> pstate) list \<times> sup" where
  "sup_startEach env [] s = (Inr (), [], s)"
| "sup_startEach env ((n, st) # ps) s =
     (case doStartProcess env st s of
        (Inl e, st1, s1) \<Rightarrow> (Inl e, (n, st1) # ps, s1)
      | (Inr _, st1, s1) \<Rightarrow> (case sup_startEach env ps s1 of (r, ps2, s2) \<Rightarrow> (r, (n, st1) # ps2, s2)))"

text \<open>\<open>start\<close>; \<open>maskErr\<close> is the error of \<open>pthread_sigmask\<close> and \<open>sfd\<close> the answer of \<open>signalfd\<close>.\<close>

definition sup_start :: "senv \<Rightarrow> nat option \<Rightarrow> int result \<Rightarrow> sup \<Rightarrow> unit result \<times> sup" where
  "sup_start env maskErr sfd s =
     (if sup_running s then (Inr (), s)
      else (case maskErr of
        Some e \<Rightarrow> (Inl (System_error e), s)
      | None \<Rightarrow>
          (case sfd of
             Inl e \<Rightarrow> (Inl e, s\<lparr>sup_signalFd := -1\<rparr>)
           | Inr fd \<Rightarrow>
               (case sup_startEach env (sup_processes s) (s\<lparr>sup_signalFd := fd\<rparr>) of
                  (Inl e, ps, s1) \<Rightarrow> (Inl e, s1\<lparr>sup_processes := ps\<rparr>)
                | (Inr _, ps, s1) \<Rightarrow> (Inr (), s1\<lparr>sup_processes := ps, sup_running := True, sup_thread := Looping\<rparr>)))))"

text \<open>The loops of \<open>stop\<close> and \<open>stopGracefully\<close> that signal every valid handle; ESRCH is ignored.\<close>

fun sup_signalEach :: "int \<Rightarrow> (string \<times> pstate) list \<Rightarrow> os \<Rightarrow> unit result \<times> os" where
  "sup_signalEach sig [] s = (Inr (), s)"
| "sup_signalEach sig ((n, st) # ps) s =
     (case ps_handle st of
        None \<Rightarrow> sup_signalEach sig ps s
      | Some h \<Rightarrow>
          (if ph_valid h then
             (case ph_sendSignal sig h s of
                (Inl e, s1) \<Rightarrow> if e = System_error ESRCH then sup_signalEach sig ps s1 else (Inl e, s1)
              | (Inr _, s1) \<Rightarrow> sup_signalEach sig ps s1)
           else sup_signalEach sig ps s))"

definition sup_signalAll :: "int \<Rightarrow> sup \<Rightarrow> unit result \<times> sup" where
  "sup_signalAll sig s =
     (case sup_signalEach sig (sup_processes s) (sup_os s) of (r, os1) \<Rightarrow> (r, s\<lparr>sup_os := os1\<rparr>))"

text \<open>\<open>stop\<close> up to the join, and the join with what follows; a thread that failed makes the join throw.\<close>

definition sup_stop_kill :: "sup \<Rightarrow> unit result \<times> sup" where
  "sup_stop_kill s = sup_signalAll SIGKILL (s\<lparr>sup_running := False\<rparr>)"

definition sup_stop_join :: "sup \<Rightarrow> (unit result \<times> sup) option" where
  "sup_stop_join s =
     (case sup_thread s of
        Looping \<Rightarrow> None
      | Finished (Some e) \<Rightarrow> Some (Inl e, s\<lparr>sup_thread := No_thread\<rparr>)
      | _ \<Rightarrow> Some (Inr (),
          (if sup_signalFd s \<ge> 0 then s\<lparr>sup_os := os_close (sup_signalFd s) (sup_os s), sup_signalFd := -1\<rparr> else s)
            \<lparr>sup_thread := No_thread\<rparr>))"

text \<open>\<open>stopGracefully\<close>: the signals, one round of its polling loop (true: all stopped), the final kill.\<close>

definition sup_graceful_terminate :: "sup \<Rightarrow> unit result \<times> sup" where
  "sup_graceful_terminate s = sup_signalAll SIGTERM (s\<lparr>sup_running := False\<rparr>)"

fun sup_pollEach :: "(string \<times> pstate) list \<Rightarrow> os \<Rightarrow> bool result \<times> (string \<times> pstate) list \<times> os" where
  "sup_pollEach [] s = (Inr True, [], s)"
| "sup_pollEach ((n, st) # ps) s =
     (case ps_handle st of
        None \<Rightarrow> (case sup_pollEach ps s of (r, ps2, s2) \<Rightarrow> (r, (n, st) # ps2, s2))
      | Some h \<Rightarrow>
          (if \<not> ph_valid h then (case sup_pollEach ps s of (r, ps2, s2) \<Rightarrow> (r, (n, st) # ps2, s2))
           else (case ph_tryWait h s of
             (Inl e, h1, s1) \<Rightarrow> (Inl e, (n, st) # ps, s1)
           | (Inr (Some status), h1, s1) \<Rightarrow>
               (case sup_pollEach ps s1 of
                  (r, ps2, s2) \<Rightarrow>
                    (r, (n, st\<lparr>ps_handle := Some h1,
                           ps_status := (ps_status st)\<lparr>pst_running := False, pst_lastExitStatus := status\<rparr>\<rparr>) # ps2, s2))
           | (Inr None, h1, s1) \<Rightarrow>
               (case sup_pollEach ps s1 of (r, ps2, s2) \<Rightarrow> (map_sum id (\<lambda>_. False) r, (n, st) # ps2, s2)))))"

definition sup_graceful_poll :: "sup \<Rightarrow> bool result \<times> sup" where
  "sup_graceful_poll s =
     (case sup_pollEach (sup_processes s) (sup_os s) of
        (r, ps, os1) \<Rightarrow> (r, s\<lparr>sup_processes := ps, sup_os := os1\<rparr>))"

definition sup_graceful_kill :: "sup \<Rightarrow> unit result \<times> sup" where
  "sup_graceful_kill s = sup_signalAll SIGKILL s"

definition sup_startProcess :: "senv \<Rightarrow> string \<Rightarrow> sup \<Rightarrow> unit result \<times> sup" where
  "sup_startProcess env name s =
     (case map_of (sup_processes s) name of
        None \<Rightarrow> (Inl Runtime_error, s)
      | Some st \<Rightarrow>
          (if (case ps_handle st of None \<Rightarrow> False | Some h \<Rightarrow> ph_valid h) then (Inr (), s)
           else (case doStartProcess env st s of (r, st1, s1) \<Rightarrow> (r, sup_put name st1 s1))))"

definition sup_stopProcess :: "string \<Rightarrow> sup \<Rightarrow> unit result \<times> sup" where
  "sup_stopProcess name s =
     (case map_of (sup_processes s) name of
        None \<Rightarrow> (Inl Runtime_error, s)
      | Some st \<Rightarrow>
          (let s1 = sup_put name (st\<lparr>ps_pendingRestart := False\<rparr>) s in
           case ps_handle st of
             None \<Rightarrow> (Inr (), s1)
           | Some h \<Rightarrow>
               (if \<not> ph_valid h then (Inr (), s1)
                else (case ph_terminate h (sup_os s1) of
                        (r, os1) \<Rightarrow>
                          (case r of Inl e \<Rightarrow> if e = System_error ESRCH then Inr () else Inl e | Inr _ \<Rightarrow> Inr (),
                           s1\<lparr>sup_pidToName := (sup_pidToName s1)(ph_pid h := None), sup_os := os1\<rparr>)))))"

text \<open>The second half of \<open>restartProcess\<close>, after its \<open>stopProcess\<close>.\<close>

definition sup_restart_start :: "senv \<Rightarrow> string \<Rightarrow> sup \<Rightarrow> unit result \<times> sup" where
  "sup_restart_start env name s =
     (case map_of (sup_processes s) name of
        None \<Rightarrow> (Inr (), s)
      | Some st \<Rightarrow>
          (case doStartProcess env
                  (st\<lparr>ps_status := (ps_status st)\<lparr>pst_restartCount := 0\<rparr>, ps_restartTimes := [], ps_granted := []\<rparr>) s of
             (r, st1, s1) \<Rightarrow> (r, sup_put name st1 s1)))"

definition sup_restartProcess :: "senv \<Rightarrow> string \<Rightarrow> sup \<Rightarrow> unit result \<times> sup" where
  "sup_restartProcess env name s =
     (case sup_stopProcess name s of
        (Inl e, s1) \<Rightarrow> (Inl e, s1)
      | (Inr _, s1) \<Rightarrow> sup_restart_start env name s1)"

text \<open>
  \<open>remove\<close>: \<open>intr\<close> and \<open>exits\<close> describe the five-second wait, \<open>final\<close> the exit after SIGKILL. The map entry
  is only erased when nothing throws. \<open>Inr None\<close>: still waiting.
\<close>

definition sup_reap :: "bool \<Rightarrow> int option list \<Rightarrow> int option \<Rightarrow> ph \<Rightarrow> os \<Rightarrow> unit option result \<times> ph \<times> os" where
  "sup_reap intr exits final h s =
     (case ph_terminate h s of (r1, s1) \<Rightarrow>
        if (case r1 of Inl e \<Rightarrow> e \<noteq> System_error ESRCH | Inr _ \<Rightarrow> False) then (map_sum id (\<lambda>_. None) r1, h, s1)
        else (case ph_waitFor intr exits h s1 of
          (Inl e, h2, s2) \<Rightarrow> (Inl e, h2, s2)
        | (Inr _, h2, s2) \<Rightarrow>
            (if \<not> ph_valid h2 then (Inr (Some ()), h2, s2)
             else (case ph_kill h2 s2 of
               (Inl e, s3) \<Rightarrow> (if e = System_error ESRCH then Inr (Some ()) else Inl e, h2, s3)
             | (Inr _, s3) \<Rightarrow>
                 (case ph_wait final h2 s3 of
                    (Inl e, h4, s4) \<Rightarrow> (if e = System_error ESRCH then Inr (Some ()) else Inl e, h4, s4)
                  | (Inr None, h4, s4) \<Rightarrow> (Inr None, h4, s4)
                  | (Inr (Some _), h4, s4) \<Rightarrow> (Inr (Some ()), h4, s4))))))"

definition sup_remove :: "bool \<Rightarrow> int option list \<Rightarrow> int option \<Rightarrow> string \<Rightarrow> sup \<Rightarrow> unit option result \<times> sup" where
  "sup_remove intr exits final name s =
     (case map_of (sup_processes s) name of
        None \<Rightarrow> (Inr (Some ()), s)
      | Some st \<Rightarrow>
          (case ps_handle st of
             Some h \<Rightarrow>
               if ph_valid h then
                 (case sup_reap intr exits final h (sup_os s) of
                    (Inr (Some _), h1, os1) \<Rightarrow>
                      (Inr (Some ()),
                       s\<lparr>sup_os := snd (ph_closePidfd h1 os1), sup_pidToName := (sup_pidToName s)(ph_pid h1 := None),
                         sup_processes := AList.delete name (sup_processes s)\<rparr>)
                  | (r, h1, os1) \<Rightarrow> (r, sup_put name (st\<lparr>ps_handle := Some h1\<rparr>) (s\<lparr>sup_os := os1\<rparr>)))
               else (Inr (Some ()), s\<lparr>sup_os := snd (ph_closePidfd h (sup_os s)), sup_processes := AList.delete name (sup_processes s)\<rparr>)
           | None \<Rightarrow> (Inr (Some ()), s\<lparr>sup_processes := AList.delete name (sup_processes s)\<rparr>)))"

definition sup_status :: "sup \<Rightarrow> pstatus list" where
  "sup_status s = map (\<lambda>(n, st). ps_status st) (sup_processes s)"

definition sup_status_of :: "string \<Rightarrow> sup \<Rightarrow> pstatus result" where
  "sup_status_of name s =
     (case map_of (sup_processes s) name of None \<Rightarrow> Inl Runtime_error | Some st \<Rightarrow> Inr (ps_status st))"

definition sup_onProcessExit :: "bool \<Rightarrow> sup \<Rightarrow> sup" where
  "sup_onProcessExit cb s = s\<lparr>sup_exitCb := cb\<rparr>"

definition sup_onProcessStart :: "bool \<Rightarrow> sup \<Rightarrow> sup" where
  "sup_onProcessStart cb s = s\<lparr>sup_startCb := cb\<rparr>"

section \<open>The supervisor thread\<close>

text \<open>The part of \<open>handleChildExit\<close> that schedules a restart; \<open>None\<close> when the delay is undefined.\<close>

definition sup_schedule :: "senv \<Rightarrow> int \<Rightarrow> pstate \<Rightarrow> sup \<Rightarrow> (pstate \<times> sup) option" where
  "sup_schedule env status st s =
     (let (now, s1) = sup_now env s; (again, st1) = shouldRestart now status st in
      if again then
        (case calculateRestartDelay (sp_restart (ps_spec st1)) (pst_restartCount (ps_status st1)) of
           None \<Rightarrow> None
         | Some delay \<Rightarrow>
             (let (t2, s2) = sup_now env s1; (t3, s3) = sup_now env s2 in
              Some (st1\<lparr>ps_status := (ps_status st1)\<lparr>pst_nextRestartDelay := delay,
                                                   pst_restartCount := pst_restartCount (ps_status st1) + 1\<rparr>,
                        ps_pendingRestart := True, ps_scheduledRestartTime := t2 + delay,
                        ps_restartTimes := ps_restartTimes st1 @ [t3], ps_granted := ps_granted st1 @ [t3]\<rparr>, s3)))
      else Some (st1, s1))"

definition handleChildExit :: "senv \<Rightarrow> int \<Rightarrow> int \<Rightarrow> sup \<Rightarrow> sup option" where
  "handleChildExit env pid status s =
     (case sup_pidToName s pid of
        None \<Rightarrow> Some s
      | Some name \<Rightarrow>
          (let s1 = s\<lparr>sup_pidToName := (sup_pidToName s)(pid := None)\<rparr> in
           case map_of (sup_processes s1) name of
             None \<Rightarrow> Some s1
           | Some st \<Rightarrow>
               (let (t1, s2) = sup_now env s1;
                    st1 = st\<lparr>ps_status := (ps_status st)\<lparr>pst_running := False, pst_lastExitStatus := status,
                                                        pst_lastExitTime := t1, pst_pid := -1\<rparr>\<rparr> in
                case (if sup_running s2 then sup_schedule env status st1 s2 else Some (st1, s2)) of
                  None \<Rightarrow> None
                | Some (st2, s3) \<Rightarrow>
                    (let s4 = sup_put name st2 s3 in
                     Some (s4\<lparr>sup_log := sup_log s4 @ (if sp_onExit (ps_spec st2) then [Ev_onExit name status] else []) @
                                 (if sup_exitCb s4 then [Ev_exit name status] else [])\<rparr>)))))"

text \<open>\<open>waitpid(-1, &status, WNOHANG)\<close> until no child has exited: \<open>picks\<close> in the order the kernel reports them.\<close>

fun sup_reapAll :: "senv \<Rightarrow> int list \<Rightarrow> sup \<Rightarrow> sup option" where
  "sup_reapAll env [] s = Some s"
| "sup_reapAll env (pid # picks) s =
     (case os_waitpid pid (sup_os s) of
        (Inr (Some status), os1) \<Rightarrow>
          Option.bind (handleChildExit env pid status (s\<lparr>sup_os := os1\<rparr>)) (sup_reapAll env picks)
      | _ \<Rightarrow> Some s)"

text \<open>The restarts that are due at \<open>now\<close>.\<close>

fun sup_restartDue :: "senv \<Rightarrow> int \<Rightarrow> (string \<times> pstate) list \<Rightarrow> sup \<Rightarrow> unit result \<times> (string \<times> pstate) list \<times> sup" where
  "sup_restartDue env now [] s = (Inr (), [], s)"
| "sup_restartDue env now ((n, st) # ps) s =
     (if ps_pendingRestart st \<and> now \<ge> ps_scheduledRestartTime st then
        (case doStartProcess env (st\<lparr>ps_pendingRestart := False\<rparr>) s of
           (Inl e, st1, s1) \<Rightarrow> (Inl e, (n, st1) # ps, s1)
         | (Inr _, st1, s1) \<Rightarrow> (case sup_restartDue env now ps s1 of (r, ps2, s2) \<Rightarrow> (r, (n, st1) # ps2, s2)))
      else (case sup_restartDue env now ps s of (r, ps2, s2) \<Rightarrow> (r, (n, st) # ps2, s2)))"

definition sup_restarts :: "senv \<Rightarrow> sup \<Rightarrow> sup" where
  "sup_restarts env s =
     (let (now, s1) = sup_now env s in
      case sup_restartDue env now (sup_processes s1) s1 of
        (r, ps, s2) \<Rightarrow>
          s2\<lparr>sup_processes := ps,
             sup_thread := (case r of Inl e \<Rightarrow> Finished (Some e) | Inr _ \<Rightarrow> sup_thread s2)\<rparr>)"

text \<open>The loop that empties the kernel's list of exited children when the thread ends.\<close>

fun sup_drain :: "int list \<Rightarrow> os \<Rightarrow> os" where
  "sup_drain [] s = s"
| "sup_drain (pid # picks) s = (case os_waitpid pid s of (Inr (Some _), s1) \<Rightarrow> sup_drain picks s1 | _ \<Rightarrow> s)"

text \<open>The answers of \<open>poll\<close> and of the \<open>read\<close> that follows it.\<close>

datatype poll_answer = Poll_error bool | Poll_timeout | Poll_short | Poll_info "int list"

text \<open>
  One round of \<open>supervisorLoop\<close> from the test of \<open>running_\<close>: \<open>Poll_error True\<close> is EINTR, \<open>drain\<close> are the
  children the last loop reaps when the thread leaves.
\<close>

definition supervisorLoop :: "senv \<Rightarrow> poll_answer \<Rightarrow> int list \<Rightarrow> sup \<Rightarrow> sup option" where
  "supervisorLoop env answer drain s =
     (let leave = s\<lparr>sup_os := sup_drain drain (sup_os s), sup_thread := Finished None\<rparr> in
      if \<not> sup_running s then Some leave
      else (case answer of
              Poll_error True \<Rightarrow> Some s
            | Poll_error False \<Rightarrow> Some leave
            | Poll_timeout \<Rightarrow> Some (sup_restarts env s)
            | Poll_short \<Rightarrow> Some (sup_restarts env s)
            | Poll_info picks \<Rightarrow> map_option (sup_restarts env) (sup_reapAll env picks s)))"

section \<open>Stopping\<close>

text \<open>\<open>stop\<close> when no other operation comes between its sections; the thread leaves at
  its next test of \<open>running_\<close>, so that the last case of \<open>sup_join\<close> does not arise.\<close>

definition sup_join :: "senv \<Rightarrow> int list \<Rightarrow> sup \<Rightarrow> unit result \<times> sup" where
  "sup_join env drain s =
     (case sup_stop_join s of
        Some r \<Rightarrow> r
      | None \<Rightarrow>
          (case Option.bind (supervisorLoop env Poll_timeout drain s) sup_stop_join of
             Some r \<Rightarrow> r
           | None \<Rightarrow> (Inl Logic_error, s)))"

definition sup_stop :: "senv \<Rightarrow> int list \<Rightarrow> sup \<Rightarrow> unit result \<times> sup" where
  "sup_stop env drain s =
     (case sup_stop_kill s of
        (Inl e, s1) \<Rightarrow> (Inl e, s1)
      | (Inr _, s1) \<Rightarrow> sup_join env drain s1)"

text \<open>
  The polling loop of \<open>stopGracefully\<close>: one element of \<open>between\<close> per round is what other threads and the
  kernel do before it.
\<close>

fun sup_gracefulLoop :: "senv \<Rightarrow> int \<Rightarrow> (sup \<Rightarrow> sup) list \<Rightarrow> sup \<Rightarrow> unit result \<times> sup" where
  "sup_gracefulLoop env deadline [] s = (Inr (), s)"
| "sup_gracefulLoop env deadline (other # between) s =
     (let (now, s1) = sup_now env (other s) in
      if now < deadline then
        (case sup_graceful_poll s1 of
           (Inl e, s2) \<Rightarrow> (Inl e, s2)
         | (Inr allStopped, s2) \<Rightarrow> if allStopped then (Inr (), s2) else sup_gracefulLoop env deadline between s2)
      else (Inr (), s1))"

definition sup_stopGracefully :: "senv \<Rightarrow> (sup \<Rightarrow> sup) list \<Rightarrow> int list \<Rightarrow> int \<Rightarrow> sup \<Rightarrow> unit result \<times> sup" where
  "sup_stopGracefully env between drain timeout s =
     (let (now, s1) = sup_now env (s\<lparr>sup_running := False\<rparr>) in
      case sup_graceful_terminate s1 of
        (Inl e, s2) \<Rightarrow> (Inl e, s2)
      | (Inr _, s2) \<Rightarrow>
          (case sup_gracefulLoop env (now + timeout) between s2 of
             (Inl e, s3) \<Rightarrow> (Inl e, s3)
           | (Inr _, s3) \<Rightarrow>
               (case sup_graceful_kill s3 of
                  (Inl e, s4) \<Rightarrow> (Inl e, s4)
                | (Inr _, s4) \<Rightarrow> sup_join env drain s4)))"

section \<open>Runs\<close>

text \<open>One operation of any thread, or a change of the kernel's state by somebody else.\<close>

inductive sup_step :: "senv \<Rightarrow> sup \<Rightarrow> sup \<Rightarrow> bool" for env where
  step_add: "sup_step env s (snd (sup_add spec s))"
| step_remove: "sup_step env s (snd (sup_remove intr exits final name s))"
| step_start: "sup_step env s (snd (sup_start env maskErr sfd s))"
| step_stop_kill: "sup_step env s (snd (sup_stop_kill s))"
| step_stop_join: "sup_stop_join s = Some (r, s') \<Longrightarrow> sup_step env s s'"
| step_terminate: "sup_step env s (snd (sup_graceful_terminate s))"
| step_now: "sup_step env s (snd (sup_now env s))"
| step_poll: "sup_step env s (snd (sup_graceful_poll s))"
| step_kill: "sup_step env s (snd (sup_graceful_kill s))"
| step_startProcess: "sup_step env s (snd (sup_startProcess env name s))"
| step_stopProcess: "sup_step env s (snd (sup_stopProcess name s))"
| step_restart: "sup_step env s (snd (sup_restart_start env name s))"
| step_onExit: "sup_step env s (sup_onProcessExit cb s)"
| step_onStart: "sup_step env s (sup_onProcessStart cb s)"
| step_loop: "sup_thread s = Looping \<Longrightarrow> supervisorLoop env answer drain s = Some s' \<Longrightarrow> sup_step env s s'"
| step_kernel: "sup_step env s (s\<lparr>sup_os := os'\<rparr>)"

section \<open>Restart limits\<close>

definition in_window :: "int \<Rightarrow> int \<Rightarrow> int list \<Rightarrow> nat" where
  "in_window a w ts = length (filter (\<lambda>t. a \<le> t \<and> t \<le> a + w) ts)"

definition ps_ok :: "senv \<Rightarrow> nat \<Rightarrow> pstate \<Rightarrow> bool" where
  "ps_ok env n st \<longleftrightarrow>
     (let rc = sp_restart (ps_spec st) in
      (rc_maxRestartWindow rc \<ge> 0 \<longrightarrow>
         (\<exists>c. (\<forall>m \<ge> n. c \<le> se_clock env m - rc_maxRestartWindow rc) \<and> ps_restartTimes st = filter (\<lambda>t. c \<le> t) (ps_granted st))) \<and>
      (\<forall>g \<in> set (ps_granted st). \<forall>m \<ge> n. g \<le> se_clock env m) \<and>
      (\<forall>a. in_window a (rc_maxRestartWindow rc) (ps_granted st) \<le> nat (rc_maxRestartsInWindow rc)) \<and>
      pst_restartCount (ps_status st) = int (length (ps_granted st)) \<and>
      (rc_maxRestarts rc \<ge> 0 \<longrightarrow> int (length (ps_granted st)) \<le> rc_maxRestarts rc))"

text \<open>What \<open>ps_ok\<close> depends on.\<close>

definition ps_same :: "pstate \<Rightarrow> pstate \<Rightarrow> bool" where
  "ps_same st st' \<longleftrightarrow>
     ps_spec st' = ps_spec st \<and> ps_granted st' = ps_granted st \<and> ps_restartTimes st' = ps_restartTimes st \<and>
     pst_restartCount (ps_status st') = pst_restartCount (ps_status st)"

lemma ps_same_refl [simp]: "ps_same st st"
  by (simp add: ps_same_def)

lemma ps_ok_same: "ps_ok env n st \<Longrightarrow> ps_same st st' \<Longrightarrow> ps_ok env n st'"
  by (simp add: ps_ok_def ps_same_def Let_def)

lemma ps_ok_mono: "ps_ok env n st \<Longrightarrow> n \<le> n' \<Longrightarrow> ps_ok env n' st"
  unfolding ps_ok_def Let_def by (meson order_trans)

lemma ps_ok_fresh:
  assumes "mono (se_clock env)" "pst_restartCount (ps_status st) = 0" "ps_restartTimes st = []" "ps_granted st = []"
  shows "ps_ok env n st"
proof -
  have "\<exists>c. \<forall>m \<ge> n. c \<le> se_clock env m - rc_maxRestartWindow (sp_restart (ps_spec st))"
    using assms(1) by (intro exI [of _ "se_clock env n - rc_maxRestartWindow (sp_restart (ps_spec st))"]) (simp add: monoD)
  then show ?thesis using assms(2-4) by (simp add: ps_ok_def in_window_def)
qed

text \<open>A granted restart keeps the limits: whatever lies in a window that ends later is still in the history.\<close>

lemma in_window_grant:
  assumes "in_window a w ts \<le> k" "c \<le> g" "length (filter (\<lambda>t. \<not> t < c - w) ts) < k"
  shows "in_window a w (ts @ [g]) \<le> k"
proof (cases "a \<le> g \<and> g \<le> a + w")
  case False
  then show ?thesis using assms(1) by (auto simp: in_window_def)
next
  case True
  have "length (filter (\<lambda>t. a \<le> t \<and> t \<le> a + w) ts) \<le> length (filter (\<lambda>t. \<not> t < c - w) ts)"
  proof -
    have "filter (\<lambda>t. a \<le> t \<and> t \<le> a + w) (filter (\<lambda>t. \<not> t < c - w) ts) = filter (\<lambda>t. a \<le> t \<and> t \<le> a + w) ts"
      unfolding filter_filter using True assms(2) by (intro filter_cong) auto
    then show ?thesis by (metis length_filter_le)
  qed
  then show ?thesis using True assms(3) by (simp add: in_window_def)
qed

lemma in_window_neg: "w < 0 \<Longrightarrow> in_window a w ts = 0"
  by (auto simp: in_window_def filter_empty_conv)

lemma cleanup_restartTimes:
  assumes "ps_ok env n st" "n \<le> k" "rc_maxRestartWindow (sp_restart (ps_spec st)) \<ge> 0"
  shows "ps_restartTimes (cleanupRestartHistory (se_clock env k) st) =
      filter (\<lambda>t. \<not> t < se_clock env k - rc_maxRestartWindow (sp_restart (ps_spec st))) (ps_granted st)"
proof -
  let ?W = "rc_maxRestartWindow (sp_restart (ps_spec st))" and ?t = "se_clock env k"
  obtain c where c: "\<forall>m \<ge> n. c \<le> se_clock env m - ?W" "ps_restartTimes st = filter (\<lambda>t. c \<le> t) (ps_granted st)"
    using assms(1,3) by (auto simp: ps_ok_def Let_def)
  have "c \<le> ?t - ?W" using c(1) assms(2) by blast
  then have "filter (\<lambda>t. \<not> t < ?t - ?W) (ps_restartTimes st) = filter (\<lambda>t. \<not> t < ?t - ?W) (ps_granted st)"
    unfolding c(2) filter_filter by (intro filter_cong) auto
  then show ?thesis by (simp add: cleanupRestartHistory_def)
qed

lemma ps_ok_cleanup:
  assumes "ps_ok env n st" "mono (se_clock env)" "n \<le> k"
  shows "ps_ok env k (cleanupRestartHistory (se_clock env k) st)"
proof -
  let ?W = "rc_maxRestartWindow (sp_restart (ps_spec st))" and ?t = "se_clock env k"
  have "\<forall>m \<ge> k. ?t - ?W \<le> se_clock env m - ?W" using assms(2) by (simp add: monoD)
  then have "?W \<ge> 0 \<longrightarrow> (\<exists>c. (\<forall>m \<ge> k. c \<le> se_clock env m - ?W) \<and>
      ps_restartTimes (cleanupRestartHistory ?t st) = filter (\<lambda>t. c \<le> t) (ps_granted st))"
    using cleanup_restartTimes [OF assms(1,3)]
    by (intro impI exI [of _ "?t - ?W"]) (auto simp: not_less)
  then show ?thesis
    using ps_ok_mono [OF assms(1,3)] by (simp add: ps_ok_def Let_def cleanupRestartHistory_def)
qed

lemma ps_ok_grant:
  assumes "ps_ok env n st" "mono (se_clock env)" "n \<le> k" "k \<le> m"
    "shouldRestart (se_clock env k) status st = (True, st1)"
    "ps_granted st2 = ps_granted st1 @ [se_clock env m]" "ps_restartTimes st2 = ps_restartTimes st1 @ [se_clock env m]"
    "ps_spec st2 = ps_spec st1" "pst_restartCount (ps_status st2) = pst_restartCount (ps_status st1) + 1"
  shows "ps_ok env (Suc m) st2"
proof -
  let ?rc = "sp_restart (ps_spec st)" and ?t = "se_clock env k" and ?g = "se_clock env m"
  let ?W = "rc_maxRestartWindow ?rc"
  have st1: "st1 = cleanupRestartHistory ?t st"
    and lim: "rc_maxRestarts ?rc \<ge> 0 \<longrightarrow> pst_restartCount (ps_status st1) < rc_maxRestarts ?rc"
    and win: "int (length (ps_restartTimes st1)) < rc_maxRestartsInWindow ?rc"
    using assms(5) by (auto simp: shouldRestart_def Let_def split: if_splits)
  note ok = ps_ok_cleanup [OF assms(1-3), folded st1]
  note rt = cleanup_restartTimes [OF assms(1,3), folded st1]
  have g: "ps_granted st1 = ps_granted st" "ps_spec st1 = ps_spec st" by (simp_all add: st1 cleanupRestartHistory_def)
  have tg: "?t \<le> ?g" "\<forall>j \<ge> Suc m. ?g \<le> se_clock env j" using assms(2,4) by (simp_all add: monoD)
  have hist: "?W \<ge> 0 \<longrightarrow> (\<exists>c. (\<forall>j \<ge> Suc m. c \<le> se_clock env j - ?W) \<and> ps_restartTimes st2 = filter (\<lambda>t. c \<le> t) (ps_granted st2))"
    using rt tg by (intro impI exI [of _ "?t - ?W"]) (force simp: assms(6,7) g not_less)
  have bound: "in_window a ?W (ps_granted st2) \<le> nat (rc_maxRestartsInWindow ?rc)" for a
  proof (cases "?W \<ge> 0")
    case True
    have "in_window a ?W (ps_granted st) \<le> nat (rc_maxRestartsInWindow ?rc)" using assms(1) by (simp add: ps_ok_def Let_def)
    then show ?thesis using in_window_grant [OF _ tg(1)] rt [OF True] win by (simp add: assms(6) g)
  qed (simp add: in_window_neg)
  have past: "\<forall>x \<in> set (ps_granted st2). \<forall>j \<ge> Suc m. x \<le> se_clock env j"
    using ps_ok_mono [OF ok, of "Suc m"] assms(4) tg(2) by (simp add: ps_ok_def Let_def assms(6))
  have "pst_restartCount (ps_status st1) = int (length (ps_granted st1))" using ok by (simp add: ps_ok_def Let_def)
  then show ?thesis using hist bound past lim by (simp add: ps_ok_def Let_def assms(6,8,9) g) linarith
qed

section \<open>Every operation keeps the limits\<close>

definition procs_ok :: "senv \<Rightarrow> nat \<Rightarrow> (string \<times> pstate) list \<Rightarrow> bool" where
  "procs_ok env n ps \<longleftrightarrow> (\<forall>(name, st) \<in> set ps. ps_ok env n st)"

definition sup_ok :: "senv \<Rightarrow> sup \<Rightarrow> bool" where
  "sup_ok env s \<longleftrightarrow> procs_ok env (sup_reads s) (sup_processes s)"

lemma procs_ok_Cons [simp]: "procs_ok env n ((name, st) # ps) \<longleftrightarrow> ps_ok env n st \<and> procs_ok env n ps"
  by (simp add: procs_ok_def)

lemma procs_ok_Nil [simp]: "procs_ok env n []"
  by (simp add: procs_ok_def)

lemma procs_ok_mono: "procs_ok env n ps \<Longrightarrow> n \<le> n' \<Longrightarrow> procs_ok env n' ps"
  unfolding procs_ok_def using ps_ok_mono by blast

lemma procs_ok_map_of: "procs_ok env n ps \<Longrightarrow> map_of ps name = Some st \<Longrightarrow> ps_ok env n st"
  using map_of_SomeD unfolding procs_ok_def by fast

lemma procs_ok_update: "procs_ok env n ps \<Longrightarrow> ps_ok env n st \<Longrightarrow> procs_ok env n (AList.update name st ps)"
  by (induction ps) auto

lemma procs_ok_delete: "procs_ok env n ps \<Longrightarrow> procs_ok env n (AList.delete name ps)"
  unfolding procs_ok_def AList.delete_eq by auto

lemma doStartProcess_same:
  assumes "doStartProcess env st s = (r, st', s')"
  shows "ps_same st st'" "sup_reads s \<le> sup_reads s'" "sup_processes s' = sup_processes s"
  using assms
  by (auto simp: doStartProcess_def sup_now_def ps_same_def Let_def split: prod.splits sum.splits option.splits)

lemma sup_startEach_ok:
  assumes "procs_ok env (sup_reads s) ps" "sup_startEach env ps s = (r, ps', s')"
  shows "procs_ok env (sup_reads s') ps' \<and> sup_reads s \<le> sup_reads s' \<and> sup_processes s' = sup_processes s"
  using assms
proof (induction env ps s arbitrary: r ps' s' rule: sup_startEach.induct)
  case (2 env n st ps s)
  obtain r1 st1 s1 where d: "doStartProcess env st s = (r1, st1, s1)" by (metis prod_cases3)
  note k = doStartProcess_same [OF d]
  have ok: "ps_ok env (sup_reads s1) st1" "procs_ok env (sup_reads s1) ps"
    using "2.prems"(1) k ps_ok_same ps_ok_mono procs_ok_mono by (metis procs_ok_Cons)+
  show ?case
  proof (cases r1)
    case (Inl e)
    then show ?thesis using "2.prems"(2) d ok k by auto
  next
    case (Inr u)
    obtain r2 ps2 s2 where e: "sup_startEach env ps s1 = (r2, ps2, s2)" by (metis prod_cases3)
    have "procs_ok env (sup_reads s2) ps2 \<and> sup_reads s1 \<le> sup_reads s2 \<and> sup_processes s2 = sup_processes s1"
      using "2.IH" d Inr ok(2) e by metis
    then show ?thesis using "2.prems"(2) d Inr e k ps_ok_mono [OF ok(1)] by auto
  qed
qed auto

lemma sup_restartDue_ok:
  assumes "procs_ok env (sup_reads s) ps" "sup_restartDue env now ps s = (r, ps', s')"
  shows "procs_ok env (sup_reads s') ps' \<and> sup_reads s \<le> sup_reads s'"
  using assms
proof (induction env now ps s arbitrary: r ps' s' rule: sup_restartDue.induct)
  case (2 env now n st ps s)
  show ?case
  proof (cases "ps_pendingRestart st \<and> ps_scheduledRestartTime st \<le> now")
    case True
    let ?st = "st\<lparr>ps_pendingRestart := False\<rparr>"
    obtain r1 st1 s1 where d: "doStartProcess env ?st s = (r1, st1, s1)" by (metis prod_cases3)
    note k = doStartProcess_same [OF d]
    have "ps_same st st1" using k(1) by (simp add: ps_same_def)
    then have ok: "ps_ok env (sup_reads s1) st1" "procs_ok env (sup_reads s1) ps"
      using "2.prems"(1) k ps_ok_same ps_ok_mono procs_ok_mono by (metis procs_ok_Cons)+
    show ?thesis
    proof (cases r1)
      case (Inl e)
      then show ?thesis using "2.prems"(2) d ok k True by auto
    next
      case (Inr u)
      obtain r2 ps2 s2 where e: "sup_restartDue env now ps s1 = (r2, ps2, s2)" by (metis prod_cases3)
      have "procs_ok env (sup_reads s2) ps2 \<and> sup_reads s1 \<le> sup_reads s2"
        using "2.IH"(1) d Inr ok(2) e True by metis
      then show ?thesis using "2.prems"(2) d Inr e k True ps_ok_mono [OF ok(1)] by auto
    qed
  next
    case False
    obtain r2 ps2 s2 where e: "sup_restartDue env now ps s = (r2, ps2, s2)" by (metis prod_cases3)
    have "procs_ok env (sup_reads s2) ps2 \<and> sup_reads s \<le> sup_reads s2"
      using "2.IH"(2) False "2.prems"(1) e by (metis procs_ok_Cons)
    then show ?thesis using "2.prems" e False ps_ok_mono by auto
  qed
qed auto

lemma sup_schedule_ok:
  assumes "ps_ok env (sup_reads s) st" "mono (se_clock env)" "sup_schedule env status st s = Some (st', s')"
  shows "ps_ok env (sup_reads s') st' \<and> sup_reads s \<le> sup_reads s' \<and> sup_processes s' = sup_processes s"
proof -
  let ?k = "sup_reads s"
  obtain again st1 where sr: "shouldRestart (se_clock env ?k) status st = (again, st1)" by fastforce
  have st1: "st1 = cleanupRestartHistory (se_clock env ?k) st" using sr by (auto simp: shouldRestart_def Let_def split: if_splits)
  show ?thesis
  proof (cases again)
    case False
    then have "st' = st1" "sup_reads s' = Suc ?k" "sup_processes s' = sup_processes s"
      using assms(3) sr by (auto simp: sup_schedule_def sup_now_def Let_def)
    then show ?thesis using ps_ok_mono [OF ps_ok_cleanup [OF assms(1,2) order_refl], of "Suc ?k"] st1 by simp
  next
    case True
    obtain delay where d: "calculateRestartDelay (sp_restart (ps_spec st1)) (pst_restartCount (ps_status st1)) = Some delay"
      using assms(3) sr True by (auto simp: sup_schedule_def sup_now_def Let_def split: option.splits)
    have "sup_reads s' = Suc (?k + 2)" "sup_processes s' = sup_processes s"
      "ps_granted st' = ps_granted st1 @ [se_clock env (?k + 2)]" "ps_restartTimes st' = ps_restartTimes st1 @ [se_clock env (?k + 2)]"
      "ps_spec st' = ps_spec st1" "pst_restartCount (ps_status st') = pst_restartCount (ps_status st1) + 1"
      using assms(3) sr True d by (auto simp: sup_schedule_def sup_now_def Let_def)
    moreover have "shouldRestart (se_clock env ?k) status st = (True, st1)" using sr True by simp
    ultimately show ?thesis using ps_ok_grant [OF assms(1,2) order_refl, of "?k + 2" status st1 st'] by simp
  qed
qed

lemma sup_put_ok: "sup_ok env s \<Longrightarrow> ps_ok env (sup_reads s) st \<Longrightarrow> sup_ok env (sup_put name st s)"
  by (simp add: sup_ok_def sup_put_def procs_ok_update)

lemma sup_ok_reads: "procs_ok env n (sup_processes s) \<Longrightarrow> n \<le> sup_reads s \<Longrightarrow> sup_ok env s"
  by (simp add: sup_ok_def procs_ok_mono)

lemma handleChildExit_ok:
  assumes "sup_ok env s" "mono (se_clock env)" "handleChildExit env pid status s = Some s'"
  shows "sup_ok env s'"
proof (cases "sup_pidToName s pid")
  case None
  then show ?thesis using assms by (simp add: handleChildExit_def)
next
  case (Some name)
  define s2 where "s2 = s\<lparr>sup_pidToName := (sup_pidToName s)(pid := None), sup_reads := sup_reads s + 1\<rparr>"
  show ?thesis
  proof (cases "map_of (sup_processes s) name")
    case None
    then show ?thesis using assms Some by (auto simp: handleChildExit_def Let_def sup_ok_def)
  next
    case (Some st)
    define st1 where "st1 = st\<lparr>ps_status := (ps_status st)\<lparr>pst_running := False, pst_lastExitStatus := status,
        pst_lastExitTime := se_clock env (sup_reads s), pst_pid := -1\<rparr>\<rparr>"
    have same: "ps_same st st1" by (simp add: ps_same_def st1_def)
    have ok1: "ps_ok env (sup_reads s2) st1"
      by (rule ps_ok_same [OF ps_ok_mono [OF procs_ok_map_of [OF assms(1) [unfolded sup_ok_def] Some]] same]) (simp add: s2_def)
    let ?q = "if sup_running s then sup_schedule env status st1 s2 else Some (st1, s2)"
    have h: "handleChildExit env pid status s =
        (case ?q of None \<Rightarrow> None | Some (st2, s3) \<Rightarrow>
           (let s4 = sup_put name st2 s3 in
            Some (s4\<lparr>sup_log := sup_log s4 @ (if sp_onExit (ps_spec st2) then [Ev_onExit name status] else []) @
                        (if sup_exitCb s4 then [Ev_exit name status] else [])\<rparr>)))"
      using Some \<open>sup_pidToName s pid = _\<close> by (simp add: handleChildExit_def Let_def sup_now_def st1_def s2_def)
    obtain st2 s3 where e: "?q = Some (st2, s3)" using assms(3) h by (cases ?q) (simp, metis surj_pair)
    have s': "\<exists>l. s' = (sup_put name st2 s3)\<lparr>sup_log := l\<rparr>"
      using assms(3) unfolding h e by (auto simp: Let_def)
    have "ps_ok env (sup_reads s3) st2 \<and> sup_reads s2 \<le> sup_reads s3 \<and> sup_processes s3 = sup_processes s2"
      using e sup_schedule_ok [OF ok1 assms(2), of status st2 s3] ok1 by (auto split: if_splits)
    moreover have "sup_processes s2 = sup_processes s" "sup_reads s \<le> sup_reads s2" by (simp_all add: s2_def)
    ultimately have "sup_ok env (sup_put name st2 s3)"
      using assms(1) procs_ok_mono by (intro sup_put_ok) (auto simp: sup_ok_def)
    then show ?thesis using s' by (auto simp: sup_ok_def)
  qed
qed

lemma sup_reapAll_ok:
  "sup_ok env s \<Longrightarrow> mono (se_clock env) \<Longrightarrow> sup_reapAll env picks s = Some s' \<Longrightarrow> sup_ok env s'"
proof (induction env picks s arbitrary: s' rule: sup_reapAll.induct)
  case (2 env pid picks s)
  obtain r os1 where w: "os_waitpid pid (sup_os s) = (r, os1)" by fastforce
  show ?case
  proof (cases "\<exists>status. r = Inr (Some status)")
    case True
    then obtain status s1 where h: "r = Inr (Some status)" "handleChildExit env pid status (s\<lparr>sup_os := os1\<rparr>) = Some s1"
      "sup_reapAll env picks s1 = Some s'"
      using "2.prems"(3) w by (auto simp: Option.bind_eq_Some_conv)
    have "sup_ok env (s\<lparr>sup_os := os1\<rparr>)" using "2.prems"(1) by (simp add: sup_ok_def)
    then have "sup_ok env s1" using handleChildExit_ok "2.prems"(2) h(2) by blast
    then show ?thesis using "2.IH" w h "2.prems"(2) by metis
  next
    case False
    then show ?thesis using "2.prems" w by (auto split: sum.splits option.splits)
  qed
qed simp

lemma sup_restarts_ok: "sup_ok env s \<Longrightarrow> sup_ok env (sup_restarts env s)"
proof -
  assume ok: "sup_ok env s"
  obtain r ps s2 where e: "sup_restartDue env (se_clock env (sup_reads s)) (sup_processes s) (s\<lparr>sup_reads := sup_reads s + 1\<rparr>) = (r, ps, s2)"
    by (metis prod_cases3)
  have "procs_ok env (sup_reads (s\<lparr>sup_reads := sup_reads s + 1\<rparr>)) (sup_processes s)"
    using ok procs_ok_mono by (simp add: sup_ok_def)
  from sup_restartDue_ok [OF this e] show ?thesis
    using e by (auto simp: sup_restarts_def sup_now_def Let_def sup_ok_def)
qed

lemma sup_ok_leave: "sup_ok env (s\<lparr>sup_os := x, sup_thread := t\<rparr>) = sup_ok env s"
  by (simp add: sup_ok_def)

lemma supervisorLoop_ok:
  assumes "sup_ok env s" "mono (se_clock env)" "supervisorLoop env answer drain s = Some s'"
  shows "sup_ok env s'"
proof (cases answer)
  case (Poll_error b)
  then show ?thesis
    using assms(1,3) by (cases b) (auto simp: supervisorLoop_def Let_def sup_ok_leave split: if_splits)
next
  case Poll_timeout
  then show ?thesis
    using assms(1,3) sup_restarts_ok by (auto simp: supervisorLoop_def Let_def sup_ok_leave split: if_splits)
next
  case Poll_short
  then show ?thesis
    using assms(1,3) sup_restarts_ok by (auto simp: supervisorLoop_def Let_def sup_ok_leave split: if_splits)
next
  case (Poll_info picks)
  show ?thesis
  proof (cases "sup_running s")
    case True
    then obtain s1 where "sup_reapAll env picks s = Some s1" "s' = sup_restarts env s1"
      using assms(3) Poll_info by (auto simp: supervisorLoop_def Let_def)
    then show ?thesis using sup_reapAll_ok [OF assms(1,2)] sup_restarts_ok by blast
  next
    case False
    then show ?thesis using assms(1,3) by (auto simp: supervisorLoop_def Let_def sup_ok_leave)
  qed
qed

lemma sup_pollEach_ok:
  "procs_ok env n ps \<Longrightarrow> procs_ok env n (fst (snd (sup_pollEach ps s)))"
proof (induction ps arbitrary: s)
  case (Cons x ps)
  obtain name st where x: "x = (name, st)" by fastforce
  have ok: "ps_ok env n st" "\<And>s. procs_ok env n (fst (snd (sup_pollEach ps s)))" using Cons x by auto
  have same: "ps_ok env n (st\<lparr>ps_handle := h, ps_status := (ps_status st)\<lparr>pst_running := b, pst_lastExitStatus := x\<rparr>\<rparr>)" for h b x
    by (rule ps_ok_same [OF ok(1)]) (simp add: ps_same_def)
  show ?case
  proof (cases "ps_handle st")
    case None
    then show ?thesis using ok(1) ok(2) [of s] by (cases "sup_pollEach ps s") (simp add: x)
  next
    case (Some h)
    obtain r h1 s1 where w: "ph_tryWait h s = (r, h1, s1)" by (metis prod_cases3)
    have "procs_ok env n ps" using Cons.prems x by simp
    then show ?thesis
      using ok(1) ok(2) [of s] ok(2) [of s1] same Some w
      by (cases "ph_valid h"; cases r; cases "sup_pollEach ps s"; cases "sup_pollEach ps s1")
         (auto simp: x split: option.split)
  qed
qed simp

lemma sup_put_same:
  assumes "sup_ok env s" "map_of (sup_processes s) name = Some st" "ps_same st st'"
  shows "sup_ok env (sup_put name st' s)"
  using assms ps_ok_same [OF procs_ok_map_of] by (intro sup_put_ok) (auto simp: sup_ok_def)

lemma sup_start_put_ok:
  assumes "sup_ok env s" "ps_ok env (sup_reads s) st" "doStartProcess env st s = (r, st', s')"
  shows "sup_ok env (sup_put name st' s')"
proof (rule sup_put_ok)
  note k = doStartProcess_same [OF assms(3)]
  show "sup_ok env s'" using assms(1) k(2,3) procs_ok_mono by (simp add: sup_ok_def)
  show "ps_ok env (sup_reads s') st'" by (rule ps_ok_same [OF ps_ok_mono [OF assms(2) k(2)] k(1)])
qed

lemma sup_ok_frame:
  "sup_processes s' = sup_processes s \<Longrightarrow> sup_reads s' = sup_reads s \<Longrightarrow> sup_ok env s' = sup_ok env s"
  by (simp add: sup_ok_def)

lemma sup_signalAll_ok: "sup_ok env (snd (sup_signalAll sig s)) = sup_ok env s"
  by (rule sup_ok_frame) (simp_all add: sup_signalAll_def split: prod.split)

lemma sup_add_ok: "sup_ok env s \<Longrightarrow> mono (se_clock env) \<Longrightarrow> sup_ok env (snd (sup_add spec s))"
  by (auto simp: sup_add_def pst_new_def intro!: sup_put_ok ps_ok_fresh)

lemma sup_remove_ok:
  assumes "sup_ok env s"
  shows "sup_ok env (snd (sup_remove intr exits final name s))"
proof (cases "map_of (sup_processes s) name")
  case None
  then show ?thesis using assms by (simp add: sup_remove_def)
next
  case (Some st)
  have del: "procs_ok env (sup_reads s) (AList.delete name (sup_processes s))"
    using assms by (simp add: sup_ok_def procs_ok_delete)
  have put: "sup_ok env (sup_put name (st\<lparr>ps_handle := h\<rparr>) (s\<lparr>sup_os := x\<rparr>))" for h x
    using assms Some by (intro sup_put_same [of env _ name st]) (simp_all add: sup_ok_def ps_same_def)
  show ?thesis
    using Some del put
    by (auto simp: sup_remove_def sup_ok_def split: option.splits prod.splits sum.splits)
qed

lemma sup_start_ok:
  assumes "sup_ok env s"
  shows "sup_ok env (snd (sup_start env maskErr sfd s))"
proof -
  have ok: "procs_ok env (sup_reads (s\<lparr>sup_signalFd := fd\<rparr>)) (sup_processes s)" for fd
    using assms by (simp add: sup_ok_def)
  show ?thesis
  proof (cases "sup_running s \<or> maskErr \<noteq> None \<or> (\<exists>e. sfd = Inl e)")
    case True
    then show ?thesis using assms by (auto simp: sup_start_def sup_ok_def split: option.splits sum.splits)
  next
    case False
    then obtain fd where fd: "sfd = Inr fd" by (cases sfd) auto
    obtain r ps s1 where e: "sup_startEach env (sup_processes s) (s\<lparr>sup_signalFd := fd\<rparr>) = (r, ps, s1)"
      by (metis prod_cases3)
    show ?thesis
      using sup_startEach_ok [OF ok e] False fd e by (cases r) (auto simp: sup_start_def sup_ok_def)
  qed
qed

lemma sup_startProcess_ok:
  assumes "sup_ok env s"
  shows "sup_ok env (snd (sup_startProcess env name s))"
proof (cases "map_of (sup_processes s) name")
  case (Some st)
  obtain r st1 s1 where d: "doStartProcess env st s = (r, st1, s1)" by (metis prod_cases3)
  from sup_start_put_ok [OF assms procs_ok_map_of [OF assms [unfolded sup_ok_def] Some] d] show ?thesis
    using Some d assms by (simp add: sup_startProcess_def)
qed (simp add: sup_startProcess_def assms)

lemma sup_stopProcess_ok:
  assumes "sup_ok env s"
  shows "sup_ok env (snd (sup_stopProcess name s))"
proof (cases "map_of (sup_processes s) name")
  case (Some st)
  have "sup_ok env (sup_put name (st\<lparr>ps_pendingRestart := False\<rparr>) s)"
    by (rule sup_put_same [OF assms Some]) (simp add: ps_same_def)
  then show ?thesis
    using Some by (auto simp: sup_stopProcess_def Let_def sup_ok_def split: option.split prod.split)
qed (simp add: sup_stopProcess_def assms)

lemma sup_restart_start_ok:
  assumes "sup_ok env s" "mono (se_clock env)"
  shows "sup_ok env (snd (sup_restart_start env name s))"
proof (cases "map_of (sup_processes s) name")
  case (Some st)
  let ?st = "st\<lparr>ps_status := (ps_status st)\<lparr>pst_restartCount := 0\<rparr>, ps_restartTimes := [], ps_granted := []\<rparr>"
  obtain r st1 s1 where d: "doStartProcess env ?st s = (r, st1, s1)" by (metis prod_cases3)
  have "ps_ok env (sup_reads s) ?st" by (rule ps_ok_fresh [OF assms(2)]) simp_all
  from sup_start_put_ok [OF assms(1) this d] show ?thesis using Some d by (simp add: sup_restart_start_def)
qed (simp add: sup_restart_start_def assms)

lemma sup_graceful_poll_ok: "sup_ok env s \<Longrightarrow> sup_ok env (snd (sup_graceful_poll s))"
  using sup_pollEach_ok [of env "sup_reads s" "sup_processes s" "sup_os s"]
  by (auto simp: sup_graceful_poll_def sup_ok_def split: prod.split)

lemma sup_stop_join_ok: "sup_stop_join s = Some (r, s') \<Longrightarrow> sup_ok env s \<Longrightarrow> sup_ok env s'"
  by (auto simp: sup_stop_join_def sup_ok_def split: sup_thread.splits option.splits if_splits)

lemma sup_step_ok:
  assumes "sup_step env s s'" "mono (se_clock env)" "sup_ok env s"
  shows "sup_ok env s'"
  using assms
proof (induction rule: sup_step.induct)
  case (step_now s)
  then show ?case using procs_ok_mono [of env "sup_reads s"] by (simp add: sup_now_def sup_ok_def)
next
  case (step_stop_kill s)
  then show ?case by (simp add: sup_stop_kill_def sup_signalAll_ok) (simp add: sup_ok_def)
next
  case (step_terminate s)
  then show ?case by (simp add: sup_graceful_terminate_def sup_signalAll_ok) (simp add: sup_ok_def)
next
  case (step_loop s answer drain s')
  then show ?case using supervisorLoop_ok by blast
qed (simp_all add: sup_add_ok sup_remove_ok sup_start_ok sup_stop_join_ok sup_graceful_poll_ok sup_graceful_kill_def
    sup_signalAll_ok sup_startProcess_ok sup_stopProcess_ok sup_restart_start_ok sup_onProcessExit_def
    sup_onProcessStart_def, simp_all add: sup_ok_def)

lemma sup_run_ok: "(sup_step env)\<^sup>*\<^sup>* s s' \<Longrightarrow> mono (se_clock env) \<Longrightarrow> sup_ok env s \<Longrightarrow> sup_ok env s'"
  by (induction rule: rtranclp_induct) (auto intro: sup_step_ok)

section \<open>Back-off\<close>

declare backoff_loop.simps [simp del]

lemma backoff_loop_power:
  "0 \<le> i \<Longrightarrow> backoff_loop m n i acc = acc * m ^ (nat (min n 32) - nat i)"
proof (induction m n i acc rule: backoff_loop.induct)
  case (1 m n i acc)
  show ?case
  proof (cases "i < n \<and> i < 32")
    case True
    then have "nat (min n 32) - nat i = Suc (nat (min n 32) - nat (i + 1))" using 1(2) by linarith
    then show ?thesis using 1 True by (subst backoff_loop.simps) (simp add: mult.assoc)
  next
    case False
    then have "nat (min n 32) - nat i = 0" by linarith
    then show ?thesis using False by (subst backoff_loop.simps) auto
  qed
qed

lemma calculateRestartDelay_clamped:
  assumes "calculateRestartDelay rc n = Some d"
  shows "rc_minRestartDelay rc \<le> d \<and> d \<le> max (rc_minRestartDelay rc) (rc_maxRestartDelay rc)"
  using assms by (auto simp: calculateRestartDelay_def Let_def split: option.splits if_splits)

section \<open>Properties\<close>


text \<open>
  With exponential back-off, a multiplier of at least one and a minimum that stays below
  \<open>2 ^ 63\<close> nanoseconds after 32 multiplications, the delay is defined for every restart count: the
  minimum times the power of the multiplier, rounded down and limited by the maximum; it lies between
  the minimum and the maximum and never shrinks as the count grows.
\<close>

lemma supervisor_backoff:
  assumes "rc_backoffStrategy rc = Exponential" "1 \<le> rc_backoffMultiplier rc" "0 \<le> rc_minRestartDelay rc"
    "rc_minRestartDelay rc \<le> rc_maxRestartDelay rc"
    "of_int (rc_minRestartDelay rc) * rc_backoffMultiplier rc ^ 32 < 2 ^ 63" "n \<le> n'"
  shows "\<exists>d d'. calculateRestartDelay rc n = Some d \<and> calculateRestartDelay rc n' = Some d' \<and>
     d = min (rc_maxRestartDelay rc) \<lfloor>of_int (rc_minRestartDelay rc) * rc_backoffMultiplier rc ^ nat (min n 32)\<rfloor> \<and>
     rc_minRestartDelay rc \<le> d \<and> d \<le> d' \<and> d' \<le> rc_maxRestartDelay rc"
proof -
  let ?lo = "rc_minRestartDelay rc" and ?m = "rc_backoffMultiplier rc"
  define f where "f k = \<lfloor>of_int ?lo * ?m ^ nat (min k 32)\<rfloor>" for k :: int
  have mono: "f j \<le> f k" if "j \<le> k" for j k
    unfolding f_def using that assms(2,3) by (intro floor_mono mult_left_mono power_increasing) auto
  have lo: "?lo \<le> f k" for k
  proof -
    have "of_int ?lo * 1 \<le> of_int ?lo * ?m ^ nat (min k 32)"
      using assms(2,3) by (intro mult_left_mono one_le_power) auto
    then show ?thesis unfolding f_def by (simp add: le_floor_iff)
  qed
  have hi: "f k < 2 ^ 63" for k
  proof -
    have "of_int ?lo * ?m ^ nat (min k 32) \<le> of_int ?lo * ?m ^ 32"
      using assms(2,3) by (intro mult_left_mono power_increasing) auto
    then show ?thesis using assms(5) unfolding f_def by (simp add: floor_less_iff)
  qed
  have t: "truncate (of_int ?lo * backoff_loop ?m k 0 1) = f k" for k
    using assms(2,3) by (simp add: backoff_loop_power truncate_def f_def not_le mult_less_0_iff)
  have "calculateRestartDelay rc k = Some (min (rc_maxRestartDelay rc) (f k))" for k
    using assms(1,3,4) lo [of k] hi [of k] by (auto simp: calculateRestartDelay_def t int64_def Let_def)
  then show ?thesis using lo [of n] mono [OF assms(6)] assms(4) unfolding f_def [symmetric] by simp
qed

section \<open>Where the supervisor fails\<close>

text \<open>
  With a minimum delay of three seconds and the default multiplier the 32nd restart multiplies past
  \<open>2 ^ 63\<close> nanoseconds: the conversion from \<open>double\<close> is undefined.
\<close>

lemma supervisor_backoff_overflows:
  "calculateRestartDelay (rc_default\<lparr>rc_minRestartDelay := 3 * 10 ^ 9\<rparr>) 32 = None"
  by (simp add: calculateRestartDelay_def rc_default_def backoff_loop_power truncate_def int64_def)

text \<open>
  \<open>handleChildExit\<close> leaves the handle of the reaped child in place, still valid: \<open>startProcess\<close> then
  does nothing, and signals go to whoever has the pid now.
\<close>

lemma handleChildExit_handle:
  assumes "sup_pidToName s pid = Some name" "map_of (sup_processes s) name = Some st"
    "handleChildExit env pid status s = Some s'"
  shows "\<exists>st'. map_of (sup_processes s') name = Some st' \<and> ps_handle st' = ps_handle st \<and> sup_os s' = sup_os s"
proof -
  have sch: "\<And>x y x' y'. sup_schedule env status x y = Some (x', y') \<Longrightarrow>
      ps_handle x' = ps_handle x \<and> sup_processes y' = sup_processes y \<and> sup_os y' = sup_os y"
    by (auto simp: sup_schedule_def shouldRestart_def cleanupRestartHistory_def sup_now_def Let_def
        split: option.splits if_splits prod.splits)
  show ?thesis
    using assms
    by (auto simp: handleChildExit_def Let_def sup_now_def sup_put_def update_conv dest!: sch
        split: option.splits if_splits prod.splits)
qed

lemma supervisor_startProcess_stuck:
  assumes "sup_pidToName s pid = Some name" "map_of (sup_processes s) name = Some st" "ps_handle st = Some h"
    "ph_valid h" "handleChildExit env pid status s = Some s'"
  shows "sup_startProcess env name s' = (Inr (), s')"
  using handleChildExit_handle [OF assms(1,2,5)] assms(3,4) by (auto simp: sup_startProcess_def)

lemma supervisor_stop_signals_stranger:
  assumes "sup_pidToName s pid = Some name" "map_of (sup_processes s) name = Some st" "ps_handle st = Some h"
    "ph_valid h" "handleChildExit env pid status s = Some s'" "os_foreign (sup_os s') (ph_pid h)"
  shows "(ph_pid h, SIGTERM) \<in> set (os_signals (sup_os (snd (sup_stopProcess name s'))))"
  using handleChildExit_handle [OF assms(1,2,5)] assms(3,4,6)
  by (auto simp: sup_stopProcess_def sup_put_def ph_terminate_def ph_sendSignal_def os_kill_def Let_def)

text \<open>
  \<open>stopProcess\<close> forgets the pid before the child has exited: the exit is ignored, and the status says
  running for ever.
\<close>

lemma supervisor_stopped_process_runs:
  assumes "map_of (sup_processes s) name = Some st" "ps_handle st = Some h" "ph_valid h"
    "sup_stopProcess name s = (r, s')"
  shows "handleChildExit env (ph_pid h) status s' = Some s' \<and>
    (\<exists>x. sup_status_of name s' = Inr x \<and> pst_running x = pst_running (ps_status st))"
  using assms
  by (auto simp: sup_stopProcess_def sup_put_def handleChildExit_def sup_status_of_def update_conv Let_def
      split: prod.splits)

text \<open>
  Once the supervisor thread has reaped the child of a process, the next round of \<open>stopGracefully\<close>
  throws ECHILD.
\<close>

lemma supervisor_graceful_throws:
  assumes "sup_processes s = (n, st) # ps" "ps_handle st = Some h" "ph_valid h" "os_children (sup_os s) (ph_pid h) = None"
  shows "fst (sup_graceful_poll s) = Inl (System_error ECHILD)"
  using assms by (simp add: sup_graceful_poll_def ph_tryWait_def os_waitpid_def)

text \<open>A restart that cannot be launched ends the supervisor thread, while \<open>running_\<close> stays true.\<close>

lemma supervisor_thread_dies:
  assumes "sup_running s" "sup_processes s = [(n, st)]" "ps_pendingRestart st"
    "ps_scheduledRestartTime st \<le> se_clock env (sup_reads s)" "pc_executable (sp_config (ps_spec st)) = []"
  shows "\<exists>s'. supervisorLoop env Poll_timeout drain s = Some s' \<and> sup_running s' \<and> sup_thread s' = Finished (Some Invalid_argument)"
  using assms
  by (simp add: supervisorLoop_def sup_restarts_def sup_now_def doStartProcess_def launchProcess_def Let_def)

text \<open>\<open>stop\<close> keeps a pending restart: after the next \<open>start\<close> the process is launched twice.\<close>

lemma doStartProcess_launches:
  "doStartProcess env st s = (r, st', s') \<Longrightarrow> sup_launches s' = sup_launches s + 1 \<and>
     ps_pendingRestart st' = ps_pendingRestart st \<and> ps_scheduledRestartTime st' = ps_scheduledRestartTime st"
  by (auto simp: doStartProcess_def sup_now_def Let_def split: prod.splits sum.splits option.splits)

lemma supervisor_start_doubles:
  assumes "\<not> sup_running s" "sup_processes s = [(n, st)]" "ps_pendingRestart st"
    "sup_start env None (Inr fd) s = (Inr (), s1)" "ps_scheduledRestartTime st \<le> se_clock env (sup_reads s1)"
    "supervisorLoop env Poll_timeout drain s1 = Some s2"
  shows "sup_launches s2 = sup_launches s + 2"
proof -
  obtain r st1 s0 where d: "doStartProcess env st (s\<lparr>sup_signalFd := fd\<rparr>) = (r, st1, s0)" by (metis prod_cases3)
  note l = doStartProcess_launches [OF d]
  have s1: "s1 = s0\<lparr>sup_processes := [(n, st1)], sup_running := True, sup_thread := Looping\<rparr>"
    using assms(1,2,4) d by (cases r) (auto simp: sup_start_def)
  let ?s1 = "s1\<lparr>sup_reads := Suc (sup_reads s1)\<rparr>"
  obtain r2 st2 s3 where e: "doStartProcess env (st1\<lparr>ps_pendingRestart := False\<rparr>) ?s1 = (r2, st2, s3)" by (metis prod_cases3)
  have "sup_launches s2 = sup_launches s3"
    using assms(3,5,6) l e by (cases r2) (auto simp: s1 supervisorLoop_def sup_restarts_def sup_now_def Let_def)
  then show ?thesis using doStartProcess_launches [OF e] l by (simp add: s1)
qed

section \<open>Witnesses\<close>

definition env_demo :: senv where
  "env_demo = \<lparr>se_clock = int, se_nodeCpus = (\<lambda>_. None),
     se_answers = (\<lambda>k. \<lparr>an_fork = Inr (int k + 200), an_spawn = Inr 0, an_pidfd = -1, an_cgroupOpen = True,
        an_cgroupWrite = True, an_ioprio = 0\<rparr>)\<rparr>"

definition spec_demo :: supervised where
  "spec_demo = \<lparr>sp_name = ''web'', sp_config = pc_default\<lparr>pc_executable := ''httpd''\<rparr>,
     sp_restart = rc_default\<lparr>rc_policy := Always, rc_maxRestarts := 1\<rparr>, sp_onExit = False, sp_onRestart = True\<rparr>"

definition sup_demo :: sup where
  "sup_demo = snd (sup_start env_demo None (Inr 5) (snd (sup_add spec_demo (sup_new os_demo))))"

definition sup_demo2 :: sup where
  "sup_demo2 = the (supervisorLoop env_demo (Poll_info [200]) []
     (sup_demo\<lparr>sup_os := os_exit 200 256 (sup_os sup_demo)\<rparr>))"

lemma sup_demo_eval:
  "sup_demo = \<lparr>sup_processes = [(''web'', \<lparr>ps_spec = spec_demo,
       ps_handle = Some \<lparr>ph_pid = 200, ph_executable = ''httpd'', ph_pidfd = -1\<rparr>,
       ps_status = (pst_new ''web'')\<lparr>pst_pid := 200, pst_running := True, pst_lastStartTime := 0\<rparr>,
       ps_restartTimes = [], ps_pendingRestart = False, ps_scheduledRestartTime = 0, ps_granted = []\<rparr>)],
     sup_pidToName = [200 \<mapsto> ''web''], sup_signalFd = 5, sup_running = True, sup_thread = Looping,
     sup_exitCb = False, sup_startCb = False, sup_os = os_child 200 os_demo, sup_reads = 1, sup_launches = 1, sup_log = []\<rparr>"
  by (simp add: sup_demo_def sup_start_def sup_add_def sup_put_def sup_new_def doStartProcess_def launchProcess_def
      env_demo_def spec_demo_def pc_default_def canUsePosixSpawn_def launchAffinity_def finalizeHandle_def
      applyPostSpawnParentWork_def sup_now_def pst_new_def Let_def)

lemma sup_demo2_ok:
  "\<exists>st. supervisorLoop env_demo (Poll_info [200]) [] (sup_demo\<lparr>sup_os := os_exit 200 256 (sup_os sup_demo)\<rparr>) = Some sup_demo2 \<and>
     sup_processes sup_demo2 = [(''web'', st)] \<and> ps_spec st = spec_demo \<and> ps_granted st = [4] \<and>
     pst_restartCount (ps_status st) = 1"
  by (simp add: sup_demo2_def sup_demo_eval supervisorLoop_def os_exit_def os_child_def os_waitpid_def
      handleChildExit_def sup_now_def env_demo_def sup_schedule_def shouldRestart_def cleanupRestartHistory_def
      spec_demo_def rc_default_def policy_restarts_def calculateRestartDelay_def backoff_loop_power truncate_def
      int64_def sup_put_def sup_restarts_def pst_new_def Let_def)


end
