(* ===== verification/Periodic_Scheduler.thy ===== *)
theory Periodic_Scheduler
  imports Timer_Wheel "HOL-Library.AList"
begin

text \<open>
  \<open>PeriodicScheduler\<close> of src/src/periodic_scheduler.cpp on the timer wheel of \<open>Timer_Wheel\<close>. As there, a mutex is a flag of the state, so that
  locking it again on the same thread is the outcome \<open>Deadlock\<close>, and \<open>clock k\<close> is the k-th reading of the clock. Jobs given to the worker pool are
  the list \<open>pd_jobs\<close> until they have run. User tasks do not call the scheduler here; their exceptions are dropped by the code.
\<close>

section \<open>State\<close>

record pd_config =
  pdc_name :: string
  pdc_period :: int
  pdc_initialDelay :: int
  pdc_fixedRate :: bool
  pdc_catchUp :: bool
  pdc_maxConcurrent :: int

record pd_task =
  pt_config :: pd_config
  pt_stopRequested :: bool
  pt_timerId :: nat
  pt_active :: bool
  pt_paused :: bool
  pt_runningCount :: int
  pt_executionCount :: int
  pt_lastExecution :: int
  pt_nextScheduled :: int
  pt_totalExecutionTime :: int

record pd =
  pd_wheel :: tw
  pd_tasks :: "(nat \<times> pd_task) list"
  pd_nextTaskId :: nat
  pd_locked :: bool
  pd_running :: bool
  pd_jobs :: "nat list"

text \<open>The wheel of the constructor: ticks of 1 ms, four wheels of 256 slots.\<close>

definition pd_new :: "int \<Rightarrow> pd result" where
  "pd_new now =
     (case tw_new \<lparr>tc_tickDuration = 1000000, tc_wheelSize = 256, tc_numWheels = 4\<rparr> now of
        Inl e \<Rightarrow> Inl e
      | Inr w \<Rightarrow> Inr \<lparr>pd_wheel = w, pd_tasks = [], pd_nextTaskId = 1, pd_locked = False, pd_running = False, pd_jobs = []\<rparr>)"

definition pd_now :: "(nat \<Rightarrow> int) \<Rightarrow> pd \<Rightarrow> int \<times> pd" where
  "pd_now clock s = (case tw_now clock (pd_wheel s) of (now, w) \<Rightarrow> (now, s\<lparr>pd_wheel := w\<rparr>))"

definition pd_put :: "nat \<Rightarrow> pd_task \<Rightarrow> pd \<Rightarrow> pd" where
  "pd_put i t s = s\<lparr>pd_tasks := AList.update i t (pd_tasks s)\<rparr>"

section \<open>Operations\<close>

text \<open>The delay of \<open>scheduleNext\<close>.\<close>

definition pd_delay :: "(nat \<Rightarrow> int) \<Rightarrow> bool \<Rightarrow> pd_task \<Rightarrow> pd \<Rightarrow> int \<times> pd" where
  "pd_delay clock isFirst t s =
     (if isFirst then (pdc_initialDelay (pt_config t), s)
      else if pdc_fixedRate (pt_config t)
      then (let (now, s1) = pd_now clock s; nextTarget = pt_nextScheduled t + pdc_period (pt_config t) in
            (if nextTarget > now then nextTarget - now else 0, s1))
      else (pdc_period (pt_config t), s))"

definition pd_scheduleNext :: "(nat \<Rightarrow> int) \<Rightarrow> nat \<Rightarrow> bool \<Rightarrow> pd \<Rightarrow> pd tw_out" where
  "pd_scheduleNext clock i isFirst s =
     (if pd_locked s then Deadlock
      else (case map_of (pd_tasks s) i of
        None \<Rightarrow> Done s
      | Some t \<Rightarrow>
          if \<not> pt_active t \<or> pt_paused t then Done s
          else (let (delay, s1) = pd_delay clock isFirst t s;
                    (now, s2) = pd_now clock s1;
                    t1 = t\<lparr>pt_nextScheduled := now + delay\<rparr> in
                case tw_schedule clock delay (Some i) (pd_wheel s2) of
                  Done (timer, w) \<Rightarrow> Done (pd_put i (t1\<lparr>pt_timerId := timer\<rparr>) (s2\<lparr>pd_wheel := w\<rparr>))
                | Thrown e \<Rightarrow> Thrown e
                | Deadlock \<Rightarrow> Deadlock)))"

text \<open>
  The two overloads of \<open>schedule\<close>; \<open>null\<close> says that the task is empty. The common tail creates the task, stores it under the lock and
  schedules it when the scheduler runs.
\<close>

definition pd_enter :: "(nat \<Rightarrow> int) \<Rightarrow> pd_config \<Rightarrow> pd \<Rightarrow> (nat \<times> pd) tw_out" where
  "pd_enter clock config s =
     (let i = pd_nextTaskId s;
          t = \<lparr>pt_config = config, pt_stopRequested = False, pt_timerId = 0, pt_active = True, pt_paused = False, pt_runningCount = 0,
               pt_executionCount = 0, pt_lastExecution = 0, pt_nextScheduled = 0, pt_totalExecutionTime = 0\<rparr> in
      if pd_locked s then Deadlock
      else (let s1 = pd_put i t (s\<lparr>pd_nextTaskId := i + 1\<rparr>) in
            if pd_running s1
            then (case pd_scheduleNext clock i True s1 of Done s2 \<Rightarrow> Done (i, s2) | Thrown e \<Rightarrow> Thrown e | Deadlock \<Rightarrow> Deadlock)
            else Done (i, s1)))"

definition pd_schedule :: "(nat \<Rightarrow> int) \<Rightarrow> pd_config \<Rightarrow> bool \<Rightarrow> pd \<Rightarrow> (nat \<times> pd) tw_out" where
  "pd_schedule clock config null s =
     (if null then Thrown Invalid_argument
      else if pdc_period config \<le> 0 then Thrown Invalid_argument
      else pd_enter clock config s)"

definition pd_scheduleToken :: "(nat \<Rightarrow> int) \<Rightarrow> pd_config \<Rightarrow> bool \<Rightarrow> pd \<Rightarrow> (nat \<times> pd) tw_out" where
  "pd_scheduleToken clock config null s =
     (if null then Thrown Invalid_argument else pd_enter clock config s)"

definition pd_cancel :: "nat \<Rightarrow> pd \<Rightarrow> (bool \<times> pd) tw_out" where
  "pd_cancel i s =
     (if pd_locked s then Deadlock
      else (case map_of (pd_tasks s) i of
        None \<Rightarrow> Done (False, s)
      | Some t \<Rightarrow>
          (let s1 = pd_put i (t\<lparr>pt_active := False, pt_stopRequested := True\<rparr>) s in
           if pt_timerId t \<noteq> 0
           then (case tw_cancel (pt_timerId t) (pd_wheel s1) of
                   Done (_, w) \<Rightarrow> Done (True, s1\<lparr>pd_wheel := w\<rparr>)
                 | Thrown e \<Rightarrow> Thrown e
                 | Deadlock \<Rightarrow> Deadlock)
           else Done (True, s1))))"

definition pd_pause :: "nat \<Rightarrow> pd \<Rightarrow> pd tw_out" where
  "pd_pause i s =
     (if pd_locked s then Deadlock
      else (case map_of (pd_tasks s) i of
              None \<Rightarrow> Done s
            | Some t \<Rightarrow> Done (pd_put i (t\<lparr>pt_paused := True\<rparr>) s)))"

definition pd_resume :: "(nat \<Rightarrow> int) \<Rightarrow> nat \<Rightarrow> pd \<Rightarrow> pd tw_out" where
  "pd_resume clock i s =
     (if pd_locked s then Deadlock
      else (let s0 = s\<lparr>pd_locked := True\<rparr> in
        case map_of (pd_tasks s0) i of
          None \<Rightarrow> Done s
        | Some t \<Rightarrow>
            if pt_paused t
            then (let s1 = pd_put i (t\<lparr>pt_paused := False\<rparr>) s0 in
                  if pd_running s1
                  then (case pd_scheduleNext clock i False s1 of
                          Done s2 \<Rightarrow> Done (s2\<lparr>pd_locked := False\<rparr>) | Thrown e \<Rightarrow> Thrown e | Deadlock \<Rightarrow> Deadlock)
                  else Done (s1\<lparr>pd_locked := False\<rparr>))
            else Done s))"

text \<open>\<open>start\<close>: its loop over the tasks runs with the mutex held.\<close>

fun pd_startEach :: "(nat \<Rightarrow> int) \<Rightarrow> nat list \<Rightarrow> pd \<Rightarrow> pd tw_out" where
  "pd_startEach clock [] s = Done s"
| "pd_startEach clock (i # is) s =
     (case map_of (pd_tasks s) i of
        None \<Rightarrow> pd_startEach clock is s
      | Some t \<Rightarrow>
          if pt_active t \<and> \<not> pt_paused t
          then (case pd_scheduleNext clock i True s of Done s1 \<Rightarrow> pd_startEach clock is s1 | Thrown e \<Rightarrow> Thrown e | Deadlock \<Rightarrow> Deadlock)
          else pd_startEach clock is s)"

definition pd_start :: "(nat \<Rightarrow> int) \<Rightarrow> pd \<Rightarrow> pd tw_out" where
  "pd_start clock s =
     (if pd_running s then Done s
      else (case tw_start clock (pd_wheel s) of
        Done w \<Rightarrow>
          if pd_locked s then Deadlock
          else (case pd_startEach clock (map fst (pd_tasks s)) (s\<lparr>pd_running := True, pd_wheel := w, pd_locked := True\<rparr>) of
                  Done s1 \<Rightarrow> Done (s1\<lparr>pd_locked := False\<rparr>) | Thrown e \<Rightarrow> Thrown e | Deadlock \<Rightarrow> Deadlock)
      | Thrown e \<Rightarrow> Thrown e
      | Deadlock \<Rightarrow> Deadlock))"

text \<open>The section that \<open>stop\<close> and \<open>stopGracefully\<close> share.\<close>

fun pd_stopEach :: "nat list \<Rightarrow> pd \<Rightarrow> pd tw_out" where
  "pd_stopEach [] s = Done s"
| "pd_stopEach (i # is) s =
     (case map_of (pd_tasks s) i of
        None \<Rightarrow> pd_stopEach is s
      | Some t \<Rightarrow>
          (let s1 = pd_put i (t\<lparr>pt_stopRequested := True\<rparr>) s in
           if pt_timerId t \<noteq> 0
           then (case tw_cancel (pt_timerId t) (pd_wheel s1) of
                   Done (_, w) \<Rightarrow> pd_stopEach is (s1\<lparr>pd_wheel := w\<rparr>) | Thrown e \<Rightarrow> Thrown e | Deadlock \<Rightarrow> Deadlock)
           else pd_stopEach is s1))"

definition pd_stop :: "pd \<Rightarrow> pd tw_out" where
  "pd_stop s =
     (if pd_locked s then Deadlock
      else (case pd_stopEach (map fst (pd_tasks s)) (s\<lparr>pd_running := False\<rparr>) of
              Done s1 \<Rightarrow> Done (s1\<lparr>pd_wheel := tw_stop (pd_wheel s1)\<rparr>)
            | Thrown e \<Rightarrow> Thrown e
            | Deadlock \<Rightarrow> Deadlock))"

record pd_task_status =
  pds_id :: nat
  pds_name :: string
  pds_active :: bool
  pds_paused :: bool
  pds_executionCount :: int
  pds_lastExecution :: int
  pds_nextScheduled :: int
  pds_averageExecutionTime :: int

definition pd_statusOf :: "nat \<Rightarrow> pd_task \<Rightarrow> pd_task_status" where
  "pd_statusOf i t =
     \<lparr>pds_id = i, pds_name = pdc_name (pt_config t), pds_active = pt_active t, pds_paused = pt_paused t,
      pds_executionCount = pt_executionCount t, pds_lastExecution = pt_lastExecution t, pds_nextScheduled = pt_nextScheduled t,
      pds_averageExecutionTime = (if pt_executionCount t > 0 then pt_totalExecutionTime t div pt_executionCount t else 0)\<rparr>"

definition pd_statusAll :: "pd \<Rightarrow> pd_task_status list" where
  "pd_statusAll s = map (\<lambda>(i, t). pd_statusOf i t) (pd_tasks s)"

definition pd_status :: "nat \<Rightarrow> pd \<Rightarrow> pd_task_status result" where
  "pd_status i s = (case map_of (pd_tasks s) i of None \<Rightarrow> Inl Runtime_error | Some t \<Rightarrow> Inr (pd_statusOf i t))"

text \<open>The timer callback, and the job it gives to the pool.\<close>

definition pd_executeTask :: "(nat \<Rightarrow> int) \<Rightarrow> nat \<Rightarrow> pd \<Rightarrow> pd tw_out" where
  "pd_executeTask clock i s =
     (if pd_locked s then Deadlock
      else (case map_of (pd_tasks s) i of
        None \<Rightarrow> Done s
      | Some t \<Rightarrow>
          if \<not> pt_active t \<or> pt_paused t then Done s
          else if pt_runningCount t \<ge> pdc_maxConcurrent (pt_config t) \<and> \<not> pdc_catchUp (pt_config t)
          then pd_scheduleNext clock i False s
          else Done (pd_put i (t\<lparr>pt_runningCount := pt_runningCount t + 1\<rparr>) (s\<lparr>pd_jobs := pd_jobs s @ [i]\<rparr>))))"

definition pd_runJob :: "(nat \<Rightarrow> int) \<Rightarrow> nat \<Rightarrow> pd \<Rightarrow> pd tw_out" where
  "pd_runJob clock i s =
     (let (startTime, s1) = pd_now clock s; (endTime, s2) = pd_now clock s1 in
      if pd_locked s then Deadlock
      else (case map_of (pd_tasks s2) i of
        None \<Rightarrow> Done s2
      | Some t \<Rightarrow>
          (let t1 = t\<lparr>pt_runningCount := pt_runningCount t - 1, pt_executionCount := pt_executionCount t + 1,
                      pt_lastExecution := startTime, pt_totalExecutionTime := pt_totalExecutionTime t + (endTime - startTime)\<rparr>;
               s3 = pd_put i t1 (s2\<lparr>pd_jobs := remove1 i (pd_jobs s2)\<rparr>) in
           if pd_running s3 \<and> pt_active t1 \<and> \<not> pt_paused t1 then pd_scheduleNext clock i False s3 else Done s3)))"

text \<open>
  \<open>stopGracefully\<close> waits for the pool between the section and the stop of the wheel; \<open>finished\<close> are the jobs that finish meanwhile.
\<close>

fun pd_waitIdle :: "(nat \<Rightarrow> int) \<Rightarrow> nat list \<Rightarrow> pd \<Rightarrow> pd tw_out" where
  "pd_waitIdle clock [] s = Done s"
| "pd_waitIdle clock (i # is) s =
     (if i \<notin> set (pd_jobs s) then pd_waitIdle clock is s
      else case pd_runJob clock i s of Done s1 \<Rightarrow> pd_waitIdle clock is s1 | Thrown e \<Rightarrow> Thrown e | Deadlock \<Rightarrow> Deadlock)"

definition pd_stopGracefully :: "(nat \<Rightarrow> int) \<Rightarrow> nat list \<Rightarrow> pd \<Rightarrow> pd tw_out" where
  "pd_stopGracefully clock finished s =
     (if pd_locked s then Deadlock
      else (case pd_stopEach (map fst (pd_tasks s)) (s\<lparr>pd_running := False\<rparr>) of
              Done s1 \<Rightarrow>
                (case pd_waitIdle clock finished s1 of
                   Done s2 \<Rightarrow> Done (s2\<lparr>pd_wheel := tw_stop (pd_wheel s2)\<rparr>)
                 | Thrown e \<Rightarrow> Thrown e
                 | Deadlock \<Rightarrow> Deadlock)
            | Thrown e \<Rightarrow> Thrown e
            | Deadlock \<Rightarrow> Deadlock))"

section \<open>Starting and scheduling deadlock\<close>

text \<open>
  \<open>start\<close> and \<open>resume\<close> call \<open>scheduleNext\<close> with \<open>mutex_\<close> held, which locks it again: with an active task in the scheduler \<open>start\<close> never returns, nor does
  \<open>resume\<close> of a paused task while the scheduler runs.
\<close>

lemma tw_start_not_thrown: "tw_start clock w \<noteq> Thrown e"
  by (simp add: tw_start_def tw_armTimerFd_def tw_timeUntilNextExpiry_def Let_def split: prod.splits)

lemma pd_start_deadlocks:
  assumes "\<not> pd_running s" "map_of (pd_tasks s) i = Some t" "pt_active t" "\<not> pt_paused t" "\<not> tw_locked (pd_wheel s)"
  shows "pd_start clock s = Deadlock"
proof -
  have d: "pd_startEach clock is u = Deadlock"
    if "pd_locked u" "i \<in> set is" "map_of (pd_tasks u) i = Some t" for "is" u
    using that assms(3,4)
    by (induction "is") (auto simp: pd_scheduleNext_def split: option.splits)
  have "i \<in> set (map fst (pd_tasks s))" using assms(2) by (auto dest: map_of_SomeD intro: image_eqI [of _ fst "(i, t)"])
  then show ?thesis using assms d tw_start_not_thrown by (auto simp: pd_start_def split: tw_out.splits)
qed

lemma pd_resume_deadlocks:
  assumes "pd_running s" "map_of (pd_tasks s) i = Some t" "pt_paused t"
  shows "pd_resume clock i s = Deadlock"
  using assms by (simp add: pd_resume_def pd_scheduleNext_def pd_put_def Let_def)

text \<open>On a running scheduler the wheel runs too, and scheduling on a running wheel deadlocks (\<open>Timer_Wheel\<close>): so does \<open>schedule\<close>.\<close>

lemma tw_schedule_running: "tw_running w \<Longrightarrow> tw_schedule clock d (Some c) w = Deadlock"
  by (simp add: tw_schedule_def tw_enter_def tw_now_def Let_def tw_armTimerFd_def tw_timeUntilNextExpiry_def)

lemma pd_schedule_deadlocks:
  assumes "pd_running s" "tw_running (pd_wheel s)" "pdc_period config > 0"
  shows "pd_schedule clock config False s = Deadlock"
proof -
  have "pd_scheduleNext clock i True u = Deadlock"
    if "map_of (pd_tasks u) i = Some t" "pt_active t" "\<not> pt_paused t" "tw_running (pd_wheel u)" for i t u
    using that tw_schedule_running
    by (simp add: pd_scheduleNext_def pd_delay_def pd_now_def tw_now_def Let_def)
  then show ?thesis using assms by (simp add: pd_schedule_def pd_enter_def pd_put_def Let_def update_conv')
qed

section \<open>Limits\<close>

datatype pd_label =
    Pd_schedule pd_config bool
  | Pd_scheduleToken pd_config bool
  | Pd_cancel nat
  | Pd_pause nat
  | Pd_resume nat
  | Pd_start
  | Pd_stop
  | Pd_stopGracefully "nat list"
  | Pd_execute nat
  | Pd_run nat

definition pd_done :: "pd tw_out \<Rightarrow> pd option" where
  "pd_done r = (case r of Done s \<Rightarrow> Some s | _ \<Rightarrow> None)"

definition pd_done_snd :: "('a \<times> pd) tw_out \<Rightarrow> pd option" where
  "pd_done_snd r = (case r of Done (_, s) \<Rightarrow> Some s | _ \<Rightarrow> None)"

text \<open>The calls that return. A job runs only when it has been submitted.\<close>

definition pd_next :: "(nat \<Rightarrow> int) \<Rightarrow> pd_label \<Rightarrow> pd \<Rightarrow> pd option" where
  "pd_next clock l s =
     (case l of
        Pd_schedule config null \<Rightarrow> pd_done_snd (pd_schedule clock config null s)
      | Pd_scheduleToken config null \<Rightarrow> pd_done_snd (pd_scheduleToken clock config null s)
      | Pd_cancel i \<Rightarrow> pd_done_snd (pd_cancel i s)
      | Pd_pause i \<Rightarrow> pd_done (pd_pause i s)
      | Pd_resume i \<Rightarrow> pd_done (pd_resume clock i s)
      | Pd_start \<Rightarrow> pd_done (pd_start clock s)
      | Pd_stop \<Rightarrow> pd_done (pd_stop s)
      | Pd_stopGracefully finished \<Rightarrow> pd_done (pd_stopGracefully clock finished s)
      | Pd_execute i \<Rightarrow> pd_done (pd_executeTask clock i s)
      | Pd_run i \<Rightarrow> if i \<in> set (pd_jobs s) then pd_done (pd_runJob clock i s) else None)"

definition pt_ok :: "nat \<Rightarrow> pd_task \<Rightarrow> bool" where
  "pt_ok n t \<longleftrightarrow> pt_runningCount t = int n \<and>
     (\<not> pdc_catchUp (pt_config t) \<longrightarrow> pt_runningCount t \<le> max 0 (pdc_maxConcurrent (pt_config t)))"

definition pd_good :: "(nat \<times> pd_task) list \<Rightarrow> nat list \<Rightarrow> nat \<Rightarrow> bool" where
  "pd_good ts js n \<longleftrightarrow> (\<forall>i \<in> set js. map_of ts i \<noteq> None) \<and> (\<forall>i t. map_of ts i = Some t \<longrightarrow> i < n \<and> pt_ok (count_list js i) t)"

definition pd_inv :: "pd \<Rightarrow> bool" where
  "pd_inv s \<longleftrightarrow> pd_good (pd_tasks s) (pd_jobs s) (pd_nextTaskId s)"

lemma pd_inv_get: "pd_inv s \<Longrightarrow> map_of (pd_tasks s) i = Some t \<Longrightarrow> pt_ok (count_list (pd_jobs s) i) t \<and> i < pd_nextTaskId s"
  by (simp add: pd_inv_def pd_good_def)

lemma pd_good_update:
  assumes "pd_good ts js n" "i < n'" "n \<le> n'" "pt_ok (count_list js' i) t" "\<And>j. j \<noteq> i \<Longrightarrow> count_list js' j = count_list js j"
  shows "pd_good (AList.update i t ts) js' n'"
proof -
  have "map_of ts j \<noteq> None" if "j \<in> set js'" "j \<noteq> i" for j
  proof -
    have "count_list js j \<noteq> 0" using that assms(5) [of j] by (metis count_list_0_iff)
    then have "j \<in> set js" by (metis count_list_0_iff)
    then show ?thesis using assms(1) by (simp add: pd_good_def)
  qed
  then show ?thesis
    using assms(1-4) assms(5) unfolding pd_good_def update_conv' by (auto, fastforce)
qed

text \<open>Replacing a task by one with the same configuration and count.\<close>

lemma pd_inv_put:
  assumes "pd_inv s" "map_of (pd_tasks s) i = Some t" "pt_runningCount t' = pt_runningCount t" "pt_config t' = pt_config t"
    and "pd_tasks s' = AList.update i t' (pd_tasks s)" "pd_jobs s' = pd_jobs s" "pd_nextTaskId s' = pd_nextTaskId s"
  shows "pd_inv s'"
  unfolding pd_inv_def assms(5-7)
  by (rule pd_good_update [of _ "pd_jobs s" "pd_nextTaskId s"])
    (use assms(1,3,4) pd_inv_get [OF assms(1,2)] in \<open>auto simp: pd_inv_def pt_ok_def\<close>)

lemma pd_delay_frame:
  "pd_tasks (snd (pd_delay clock f t s)) = pd_tasks s" "pd_jobs (snd (pd_delay clock f t s)) = pd_jobs s"
  "pd_nextTaskId (snd (pd_delay clock f t s)) = pd_nextTaskId s"
  by (simp_all add: pd_delay_def pd_now_def Let_def split: prod.splits)

lemma pd_now_frame [simp]:
  "pd_tasks (snd (pd_now clock s)) = pd_tasks s" "pd_jobs (snd (pd_now clock s)) = pd_jobs s"
  "pd_nextTaskId (snd (pd_now clock s)) = pd_nextTaskId s" "pd_running (snd (pd_now clock s)) = pd_running s" "pd_locked (snd (pd_now clock s)) = pd_locked s"
  by (simp_all add: pd_now_def split: prod.splits)

lemma pd_inv_scheduleNext:
  assumes "pd_scheduleNext clock i f s = Done s'" "pd_inv s"
  shows "pd_inv s'"
proof (cases "s' = s")
  case False
  then obtain t where t: "map_of (pd_tasks s) i = Some t" "pt_active t" "\<not> pt_paused t"
    using assms(1) by (auto simp: pd_scheduleNext_def split: if_splits option.splits)
  obtain d s1 where d: "pd_delay clock f t s = (d, s1)" by fastforce
  obtain now s2 where n: "pd_now clock s1 = (now, s2)" by fastforce
  have fr: "pd_tasks s2 = pd_tasks s" "pd_jobs s2 = pd_jobs s" "pd_nextTaskId s2 = pd_nextTaskId s"
    using pd_delay_frame [of clock f t s] pd_now_frame [of clock s1] d n by simp_all
  obtain timer w where "s' = pd_put i (t\<lparr>pt_nextScheduled := now + d, pt_timerId := timer\<rparr>) (s2\<lparr>pd_wheel := w\<rparr>)"
    using assms(1) t d n by (auto simp: pd_scheduleNext_def Let_def split: if_splits tw_out.splits)
  then show ?thesis by (intro pd_inv_put [OF assms(2) t(1)]) (simp_all add: pd_put_def fr)
qed (use assms(2) in simp)

lemma pd_inv_startEach: "pd_startEach clock is s = Done s' \<Longrightarrow> pd_inv s \<Longrightarrow> pd_inv s'"
  by (induction "is" arbitrary: s) (auto split: option.splits if_splits tw_out.splits dest: pd_inv_scheduleNext)

lemma pd_inv_stopEach:
  "pd_stopEach is s = Done s' \<Longrightarrow> pd_inv s \<Longrightarrow> pd_inv s'"
proof (induction "is" arbitrary: s)
  case (Cons i "is")
  show ?case
  proof (cases "map_of (pd_tasks s) i")
    case (Some t)
    have "pd_inv ((pd_put i (t\<lparr>pt_stopRequested := True\<rparr>) s)\<lparr>pd_wheel := w\<rparr>)" for w
      by (rule pd_inv_put [OF Cons.prems(2) Some]) (simp_all add: pd_put_def)
    moreover have "pd_inv (pd_put i (t\<lparr>pt_stopRequested := True\<rparr>) s)"
      by (rule pd_inv_put [OF Cons.prems(2) Some]) (simp_all add: pd_put_def)
    ultimately show ?thesis
      using Cons.IH Cons.prems(1) Some by (auto simp: Let_def split: if_splits tw_out.splits)
  qed (use Cons in simp)
qed simp

lemma pd_inv_enter:
  assumes "pd_enter clock config s = Done (i, s')" "pd_inv s"
  shows "pd_inv s'"
proof -
  have "map_of (pd_tasks s) (pd_nextTaskId s) = None"
    using pd_inv_get [OF assms(2)] by (cases "map_of (pd_tasks s) (pd_nextTaskId s)") auto
  then have new: "pd_nextTaskId s \<notin> set (pd_jobs s)" using assms(2) by (auto simp: pd_inv_def pd_good_def)
  have "pd_inv (pd_put (pd_nextTaskId s) t (s\<lparr>pd_nextTaskId := pd_nextTaskId s + 1\<rparr>))" if "pt_runningCount t = 0" for t
    unfolding pd_inv_def pd_put_def
    by (simp, rule pd_good_update [of _ "pd_jobs s" "pd_nextTaskId s"])
      (use assms(2) new that in \<open>simp_all add: pd_inv_def pt_ok_def\<close>)
  then show ?thesis
    using assms(1) by (auto simp: pd_enter_def Let_def split: if_splits tw_out.splits dest: pd_inv_scheduleNext)
qed

lemma pd_inv_executeTask:
  assumes "pd_executeTask clock i s = Done s'" "pd_inv s"
  shows "pd_inv s'"
proof (cases "map_of (pd_tasks s) i")
  case (Some t)
  have "pd_inv (pd_put i (t\<lparr>pt_runningCount := pt_runningCount t + 1\<rparr>) (s\<lparr>pd_jobs := pd_jobs s @ [i]\<rparr>))"
    if "pt_runningCount t < pdc_maxConcurrent (pt_config t) \<or> pdc_catchUp (pt_config t)"
    unfolding pd_inv_def pd_put_def
    by (simp, rule pd_good_update [of _ "pd_jobs s" "pd_nextTaskId s"])
      (use assms(2) that pd_inv_get [OF assms(2) Some] in \<open>auto simp: pd_inv_def pt_ok_def\<close>)
  then show ?thesis
    using assms Some by (auto simp: pd_executeTask_def not_le split: if_splits dest: pd_inv_scheduleNext)
qed (use assms in \<open>simp add: pd_executeTask_def split: if_splits\<close>)

lemma count_list_remove1: "count_list (remove1 i xs) j = (if i = j then count_list xs j - 1 else count_list xs j)"
  by (induction xs) auto

lemma pd_inv_runJob:
  assumes "pd_runJob clock i s = Done s'" "pd_inv s" "i \<in> set (pd_jobs s)"
  shows "pd_inv s'"
proof -
  obtain t where t: "map_of (pd_tasks s) i = Some t" using assms(2,3) by (auto simp: pd_inv_def pd_good_def)
  obtain a s1 where a: "pd_now clock s = (a, s1)" by fastforce
  obtain b s2 where b: "pd_now clock s1 = (b, s2)" by fastforce
  have fr: "pd_tasks s2 = pd_tasks s" "pd_jobs s2 = pd_jobs s" "pd_nextTaskId s2 = pd_nextTaskId s"
    using pd_now_frame [of clock s] pd_now_frame [of clock s1] a b by simp_all
  let ?t = "t\<lparr>pt_runningCount := pt_runningCount t - 1, pt_executionCount := pt_executionCount t + 1,
              pt_lastExecution := a, pt_totalExecutionTime := pt_totalExecutionTime t + (b - a)\<rparr>"
  let ?s = "pd_put i ?t (s2\<lparr>pd_jobs := remove1 i (pd_jobs s2)\<rparr>)"
  have "count_list (pd_jobs s) i > 0" using assms(3) by (metis count_list_0_iff gr0I)
  then have "pd_inv ?s"
    unfolding pd_inv_def pd_put_def
    by (simp add: fr, intro pd_good_update [of _ "pd_jobs s" "pd_nextTaskId s"])
      (use assms(2) pd_inv_get [OF assms(2) t] in \<open>auto simp: pd_inv_def pt_ok_def count_list_remove1\<close>)
  then show ?thesis
    using assms(1) a b t by (auto simp: pd_runJob_def Let_def fr split: if_splits dest: pd_inv_scheduleNext)
qed

lemma pd_inv_waitIdle: "pd_waitIdle clock is s = Done s' \<Longrightarrow> pd_inv s \<Longrightarrow> pd_inv s'"
  by (induction "is" arbitrary: s) (auto split: if_splits tw_out.splits dest: pd_inv_runJob)

lemma pd_done_Some: "pd_done r = Some s \<longleftrightarrow> r = Done s" "pd_done_snd q = Some s \<longleftrightarrow> (\<exists>x. q = Done (x, s))"
  by (auto simp: pd_done_def pd_done_snd_def split: tw_out.splits)

lemma pd_inv_frame: "pd_inv (s\<lparr>pd_wheel := w\<rparr>) = pd_inv s" "pd_inv (s\<lparr>pd_locked := b\<rparr>) = pd_inv s" "pd_inv (s\<lparr>pd_running := b\<rparr>) = pd_inv s"
  by (simp_all add: pd_inv_def)

lemma pd_inv_next:
  assumes "pd_next clock l s = Some s'" "pd_inv s"
  shows "pd_inv s'"
proof -
  have put: "pd_inv (pd_put i t' u)" if "map_of (pd_tasks s) i = Some t" "pt_runningCount t' = pt_runningCount t" "pt_config t' = pt_config t"
      "pd_tasks u = pd_tasks s" "pd_jobs u = pd_jobs s" "pd_nextTaskId u = pd_nextTaskId s" for i t t' u
    by (rule pd_inv_put [OF assms(2) that(1-3)]) (simp_all add: pd_put_def that)
  show ?thesis
  proof (cases l)
    case (Pd_cancel i)
    then show ?thesis using assms put
      by (auto simp: pd_next_def pd_done_Some pd_cancel_def Let_def pd_inv_frame split: if_splits option.splits tw_out.splits)
  next
    case (Pd_pause i)
    then show ?thesis using assms put by (auto simp: pd_next_def pd_done_Some pd_pause_def split: if_splits option.splits)
  next
    case (Pd_resume i)
    then show ?thesis using assms put
      by (auto simp: pd_next_def pd_done_Some pd_resume_def Let_def pd_inv_frame split: if_splits option.splits tw_out.splits dest!: pd_inv_scheduleNext)
  next
    case Pd_start
    then show ?thesis using assms
      by (auto simp: pd_next_def pd_done_Some pd_start_def pd_inv_frame split: if_splits tw_out.splits dest!: pd_inv_startEach)
  next
    case Pd_stop
    then show ?thesis using assms
      by (auto simp: pd_next_def pd_done_Some pd_stop_def pd_inv_frame split: if_splits tw_out.splits dest!: pd_inv_stopEach)
  next
    case (Pd_stopGracefully finished)
    then show ?thesis using assms
      by (auto simp: pd_next_def pd_done_Some pd_stopGracefully_def pd_inv_frame split: if_splits tw_out.splits
          dest!: pd_inv_stopEach pd_inv_waitIdle)
  qed (use assms in \<open>auto simp: pd_next_def pd_done_Some pd_schedule_def pd_scheduleToken_def split: if_splits
        intro: pd_inv_enter pd_inv_executeTask pd_inv_runJob\<close>)
qed

definition pd_init :: pd where
  "pd_init = (case pd_new 0 of Inr s \<Rightarrow> s)"

interpretation pdx: step_system "pd_next clock" pd_init pd_inv for clock
proof unfold_locales
  show "pd_inv pd_init" by (simp add: pd_inv_def pd_init_def pd_new_def tw_new_def pd_good_def)
qed (rule pd_inv_next)

text \<open>
  However the calls interleave: the running count of a task is the number of its jobs in the pool, and a task without \<open>catchUp\<close> never has more
  than \<open>maxConcurrent\<close> of them.
\<close>

lemma periodic_limit:
  assumes "reachable (pd_next clock) pd_init s" "map_of (pd_tasks s) i = Some t"
  shows "pt_runningCount t = int (count_list (pd_jobs s) i)"
    "\<not> pdc_catchUp (pt_config t) \<Longrightarrow> int (count_list (pd_jobs s) i) \<le> max 0 (pdc_maxConcurrent (pt_config t))"
  using pd_inv_get [OF pdx.inv_reachable [OF assms(1)] assms(2)] by (auto simp: pt_ok_def)

text \<open>With \<open>catchUp\<close> the limit is not looked at: every timer adds a job.\<close>

lemma catchUp_ignores_limit:
  assumes "map_of (pd_tasks s) i = Some t" "pt_active t" "\<not> pt_paused t" "pdc_catchUp (pt_config t)" "\<not> pd_locked s"
  shows "\<exists>s'. pd_executeTask clock i s = Done s' \<and> pd_jobs s' = pd_jobs s @ [i]"
  using assms by (simp add: pd_executeTask_def pd_put_def)

text \<open>A cancelled task gets no further job, and neither does a paused one.\<close>

lemma cancelled_task_rests:
  assumes "map_of (pd_tasks s) i = Some t" "\<not> pt_active t \<or> pt_paused t" "\<not> pd_locked s"
  shows "pd_executeTask clock i s = Done s" "pd_scheduleNext clock i f s = Done s"
  using assms by (simp_all add: pd_executeTask_def pd_scheduleNext_def)

lemma cancel_deactivates:
  assumes "pd_cancel i s = Done (True, s')"
  shows "\<exists>t. map_of (pd_tasks s') i = Some t \<and> \<not> pt_active t \<and> pt_stopRequested t"
  using assms by (auto simp: pd_cancel_def Let_def pd_put_def update_conv' split: if_splits option.splits tw_out.splits)

text \<open>
  A fixed rate drifts: the next target is computed from one reading of the clock and stored relative to a second one, so that every execution adds
  the time between the two.
\<close>

lemma fixed_rate_drifts:
  assumes "map_of (pd_tasks s) i = Some t" "pt_active t" "\<not> pt_paused t" "pdc_fixedRate (pt_config t)"
    and "pd_scheduleNext clock i False s = Done s'" "clock (tw_reads (pd_wheel s)) < pt_nextScheduled t + pdc_period (pt_config t)"
  shows "\<exists>t'. map_of (pd_tasks s') i = Some t' \<and> pt_nextScheduled t' =
    pt_nextScheduled t + pdc_period (pt_config t) + (clock (tw_reads (pd_wheel s) + 1) - clock (tw_reads (pd_wheel s)))"
  using assms
  by (auto simp: pd_scheduleNext_def pd_delay_def pd_now_def tw_now_def pd_put_def update_conv' Let_def split: if_splits tw_out.splits)

text \<open>The overload with a stop token accepts a period that is not positive.\<close>

lemma token_period_unchecked:
  "\<not> pd_locked s \<Longrightarrow> \<not> pd_running s \<Longrightarrow> \<exists>s'. pd_scheduleToken clock config False s = Done (pd_nextTaskId s, s')"
  by (simp add: pd_scheduleToken_def pd_enter_def pd_put_def Let_def)

end
