(* ===== verification/Process_Health.thy ===== *)
theory Process_Health
  imports Process "HOL-Library.AList"
begin

text \<open>
  Health checks and \<open>HealthMonitor\<close> of src/src/process_health.cpp. The answers of the system calls and the clock are inputs. The monitor is
  an interleaving of its thread, one step per section under \<open>mutex_\<close>, with the callers of its operations. Calls of the health-change callback are
  recorded in a log.
\<close>

section \<open>Checks\<close>

definition EPERM :: nat where "EPERM = 1"
definition EINPROGRESS :: nat where "EINPROGRESS = 115"

text \<open>\<open>kill\<close> is the answer of \<open>kill(pid, 0)\<close>: an errno or success.\<close>

definition exists_check :: "(int \<Rightarrow> nat option) \<Rightarrow> int \<Rightarrow> bool" where
  "exists_check kill pid =
     (if pid \<le> 0 then False else (case kill pid of None \<Rightarrow> True | Some errno \<Rightarrow> errno = EPERM))"

text \<open>
  The calls of a TCP check: the socket, whether \<open>inet_pton\<close> and \<open>gethostbyname\<close> know the host, the errno of \<open>connect\<close>, the result of \<open>poll\<close>, and
  whether \<open>getsockopt\<close> succeeded with which pending error. The network answers for a 16-bit port. The second result lists the descriptors closed.
\<close>

record tcp_answers =
  ta_socket :: int
  ta_pton :: bool
  ta_hostbyname :: bool
  ta_connect :: "nat option"
  ta_poll :: int
  ta_getsockopt :: bool
  ta_error :: int

definition tcp_check :: "(string \<Rightarrow> int \<Rightarrow> tcp_answers) \<Rightarrow> string \<Rightarrow> int \<Rightarrow> bool \<times> int list" where
  "tcp_check net host port =
     (let a = net host (port mod 65536); sock = ta_socket a in
      if sock < 0 then (False, [])
      else if \<not> ta_pton a \<and> \<not> ta_hostbyname a then (False, [sock])
      else (case ta_connect a of
              None \<Rightarrow> (True, [sock])
            | Some errno \<Rightarrow>
                if errno \<noteq> EINPROGRESS then (False, [sock])
                else if ta_poll a \<le> 0 then (False, [sock])
                else if \<not> ta_getsockopt a \<or> ta_error a \<noteq> 0 then (False, [sock])
                else (True, [sock])))"

text \<open>
  The polling loop of a command check: one pair per iteration, the clock and what \<open>waitpid\<close> answers then. \<open>Inl killed\<close> is the result when the
  deadline has passed; \<open>None\<close> when the readings end while the loop still runs.
\<close>

fun command_poll :: "int \<Rightarrow> (int \<times> int \<times> int) list \<Rightarrow> (unit + bool) option" where
  "command_poll deadline [] = None"
| "command_poll deadline ((now, result, status) # rs) =
     (if now < deadline
      then if result > 0 then Some (Inr (WIFEXITED status \<and> WEXITSTATUS status = 0)) else command_poll deadline rs
      else Some (Inl ()))"

text \<open>The second result are the signals sent; the timeout is 10 s.\<close>

definition command_check :: "int \<Rightarrow> int \<Rightarrow> (int \<times> int \<times> int) list \<Rightarrow> (bool \<times> (int \<times> int) list) option" where
  "command_check child start readings =
     (if child < 0 then Some (False, [])
      else (case command_poll (start + 10 * 10 ^ 9) readings of
              None \<Rightarrow> None
            | Some (Inr b) \<Rightarrow> Some (b, [])
            | Some (Inl _) \<Rightarrow> Some (False, [(child, SIGKILL)])))"

definition file_check :: "int option \<Rightarrow> int \<Rightarrow> int \<Rightarrow> bool" where
  "file_check mtime now maxAge = (case mtime of None \<Rightarrow> False | Some t \<Rightarrow> now - t * 10 ^ 9 \<le> maxAge)"

section \<open>HealthMonitor\<close>

datatype health_status = Unknown | Healthy | Unhealthy | Degraded

record health_config =
  hc_interval :: int
  hc_timeout :: int
  hc_unhealthyThreshold :: int
  hc_healthyThreshold :: int

definition hc_default :: health_config where
  "hc_default = \<lparr>hc_interval = 30 * 10 ^ 9, hc_timeout = 5 * 10 ^ 9, hc_unhealthyThreshold = 3, hc_healthyThreshold = 2\<rparr>"

record 'c mproc =
  mp_pid :: int
  mp_checks :: "'c list"
  mp_config :: health_config
  mp_status :: health_status
  mp_failures :: int
  mp_successes :: int
  mp_lastCheck :: int

text \<open>\<open>hm_thread\<close> is where the monitor thread is: none, at the head of its loop, at the processes still to be checked, or at its sleep.\<close>

datatype hm_thread = Hm_none | Hm_top | Hm_checking "string list" | Hm_sleeping

record 'c hm =
  hm_processes :: "(string \<times> 'c mproc) list"
  hm_running :: bool
  hm_thread :: hm_thread
  hm_callback :: bool
  hm_log :: "(string \<times> health_status \<times> health_status) list"

definition hm_new :: "'c hm" where
  "hm_new = \<lparr>hm_processes = [], hm_running = False, hm_thread = Hm_none, hm_callback = False, hm_log = []\<rparr>"

definition hm_addProcess :: "string \<Rightarrow> int \<Rightarrow> 'c list \<Rightarrow> health_config \<Rightarrow> int \<Rightarrow> 'c hm \<Rightarrow> 'c hm" where
  "hm_addProcess name pid checks config now s =
     s\<lparr>hm_processes := AList.update name
         \<lparr>mp_pid = pid, mp_checks = checks, mp_config = config, mp_status = Unknown, mp_failures = 0, mp_successes = 0,
          mp_lastCheck = now - hc_interval config\<rparr> (hm_processes s)\<rparr>"

definition hm_removeProcess :: "string \<Rightarrow> 'c hm \<Rightarrow> 'c hm" where
  "hm_removeProcess name s = s\<lparr>hm_processes := AList.delete name (hm_processes s)\<rparr>"

definition hm_updatePid :: "string \<Rightarrow> int \<Rightarrow> 'c hm \<Rightarrow> 'c hm" where
  "hm_updatePid name pid s =
     (case map_of (hm_processes s) name of
        None \<Rightarrow> s
      | Some p \<Rightarrow> s\<lparr>hm_processes := AList.update name
                      (p\<lparr>mp_pid := pid, mp_status := Unknown, mp_failures := 0, mp_successes := 0\<rparr>) (hm_processes s)\<rparr>)"

definition hm_start :: "'c hm \<Rightarrow> 'c hm" where
  "hm_start s = (if hm_running s then s else s\<lparr>hm_running := True, hm_thread := Hm_top\<rparr>)"

text \<open>\<open>stop\<close> clears the flag and then joins the thread, which is possible once that has ended.\<close>

definition hm_stop :: "'c hm \<Rightarrow> 'c hm" where
  "hm_stop s = s\<lparr>hm_running := False\<rparr>"

definition hm_stop_join :: "'c hm \<Rightarrow> 'c hm option" where
  "hm_stop_join s = (if hm_thread s = Hm_none then Some s else None)"

definition hm_status :: "string \<Rightarrow> 'c hm \<Rightarrow> health_status" where
  "hm_status name s = (case map_of (hm_processes s) name of None \<Rightarrow> Unknown | Some p \<Rightarrow> mp_status p)"

definition hm_allStatuses :: "'c hm \<Rightarrow> (string \<times> health_status) list" where
  "hm_allStatuses s = map (\<lambda>(name, p). (name, mp_status p)) (hm_processes s)"

definition hm_onHealthChange :: "'c hm \<Rightarrow> 'c hm" where
  "hm_onHealthChange s = s\<lparr>hm_callback := True\<rparr>"

text \<open>\<open>checkProcess\<close>: \<open>answer c pid\<close> is what a check says now.\<close>

definition checkProcess :: "('c \<Rightarrow> int \<Rightarrow> bool) \<Rightarrow> int \<Rightarrow> 'c mproc \<Rightarrow> 'c mproc" where
  "checkProcess answer now p =
     (let allPassed = list_all (\<lambda>c. answer c (mp_pid p)) (mp_checks p);
          passedCount = length (filter (\<lambda>c. answer c (mp_pid p)) (mp_checks p));
          p = p\<lparr>mp_lastCheck := now\<rparr> in
      if allPassed then
        (let p = p\<lparr>mp_successes := mp_successes p + 1, mp_failures := 0\<rparr> in
         if mp_successes p \<ge> hc_healthyThreshold (mp_config p) then p\<lparr>mp_status := Healthy\<rparr> else p)
      else if passedCount = 0 then
        (let p = p\<lparr>mp_failures := mp_failures p + 1, mp_successes := 0\<rparr> in
         if mp_failures p \<ge> hc_unhealthyThreshold (mp_config p) then p\<lparr>mp_status := Unhealthy\<rparr> else p)
      else
        p\<lparr>mp_successes := 0, mp_failures := (if mp_failures p > 0 then mp_failures p + 1 else mp_failures p), mp_status := Degraded\<rparr>)"

text \<open>The two parts of \<open>monitorLoop\<close>: collecting what is due, and checking one of the collected names.\<close>

definition hm_collect :: "int \<Rightarrow> 'c hm \<Rightarrow> 'c hm option" where
  "hm_collect now s =
     (if hm_thread s \<noteq> Hm_top then None
      else if \<not> hm_running s then Some (s\<lparr>hm_thread := Hm_none\<rparr>)
      else Some (s\<lparr>hm_thread := Hm_checking (map fst
             (filter (\<lambda>(name, p). now - mp_lastCheck p \<ge> hc_interval (mp_config p)) (hm_processes s)))\<rparr>))"

definition hm_check :: "('c \<Rightarrow> int \<Rightarrow> bool) \<Rightarrow> int \<Rightarrow> 'c hm \<Rightarrow> 'c hm option" where
  "hm_check answer now s =
     (case hm_thread s of
        Hm_checking [] \<Rightarrow> Some (s\<lparr>hm_thread := Hm_sleeping\<rparr>)
      | Hm_checking (name # names) \<Rightarrow>
          if \<not> hm_running s then Some (s\<lparr>hm_thread := Hm_sleeping\<rparr>)
          else (case map_of (hm_processes s) name of
                  None \<Rightarrow> Some (s\<lparr>hm_thread := Hm_checking names\<rparr>)
                | Some p \<Rightarrow>
                    (let p' = checkProcess answer now p in
                     Some (s\<lparr>hm_thread := Hm_checking names, hm_processes := AList.update name p' (hm_processes s),
                             hm_log := hm_log s @ (if mp_status p \<noteq> mp_status p' \<and> hm_callback s then [(name, mp_status p, mp_status p')] else [])\<rparr>)))
      | Hm_sleeping \<Rightarrow> Some (s\<lparr>hm_thread := Hm_top\<rparr>)
      | _ \<Rightarrow> None)"

subsection \<open>Checks\<close>

text \<open>A TCP check closes its socket on every path, exactly once.\<close>

lemma tcp_check_closes: "snd (tcp_check net host port) = (if ta_socket (net host (port mod 65536)) < 0 then [] else [ta_socket (net host (port mod 65536))])"
  by (simp add: tcp_check_def Let_def split: option.splits)

text \<open>Only the low 16 bits of the port are used: port 65616 checks port 80.\<close>

lemma tcp_check_port: "tcp_check net host (port + 65536) = tcp_check net host port"
  by (simp add: tcp_check_def)

text \<open>
  A command whose exit somebody else has reaped (a supervisor waiting for any child, say) is polled until the timeout, reported as failed
  whatever its status was, and its number gets a SIGKILL although it is no longer a child.
\<close>

lemma command_check_stolen:
  assumes "0 \<le> child" "list_all (\<lambda>(now, result, status). now < start + 10 * 10 ^ 9 \<and> result \<le> 0) rs" "start + 10 * 10 ^ 9 \<le> t"
  shows "command_check child start (rs @ [(t, r, st)]) = Some (False, [(child, SIGKILL)])"
proof -
  have "command_poll d (rs @ [(t, r, st)]) = Some (Inl ())"
    if "list_all (\<lambda>(now, result, status). now < d \<and> result \<le> 0) rs" "d \<le> t" for d
    using that by (induction rs) (auto split: prod.splits)
  from this [OF assms(2,3)] show ?thesis using assms(1) by (simp add: command_check_def)
qed

subsection \<open>The status of a process\<close>

text \<open>What a round of checks says, and the rounds in a history: how many of the last ones passed in a row; and how many there are since the first
  total failure after the last pass.\<close>

datatype health_verdict = Passed | Failed | Mixed

definition verdict :: "('c \<Rightarrow> int \<Rightarrow> bool) \<Rightarrow> 'c mproc \<Rightarrow> health_verdict" where
  "verdict answer p =
     (if \<forall>c \<in> set (mp_checks p). answer c (mp_pid p) then Passed
      else if \<forall>c \<in> set (mp_checks p). \<not> answer c (mp_pid p) then Failed else Mixed)"

definition pass_streak :: "health_verdict list \<Rightarrow> nat" where
  "pass_streak vs = length (takeWhile (\<lambda>v. v = Passed) (rev vs))"

definition fail_streak :: "health_verdict list \<Rightarrow> nat" where
  "fail_streak vs = length (dropWhile (\<lambda>v. v = Mixed) (rev (takeWhile (\<lambda>v. v \<noteq> Passed) (rev vs))))"

definition health_run :: "'c mproc \<Rightarrow> (('c \<Rightarrow> int \<Rightarrow> bool) \<times> int) list \<Rightarrow> 'c mproc" where
  "health_run p rounds = foldl (\<lambda>p (answer, now). checkProcess answer now p) p rounds"

definition fresh :: "'c mproc \<Rightarrow> bool" where
  "fresh p \<longleftrightarrow> mp_failures p = 0 \<and> mp_successes p = 0 \<and> mp_status p = Unknown"

lemma check_verdict:
  "checkProcess answer now p =
     (case verdict answer p of
        Passed \<Rightarrow> p\<lparr>mp_lastCheck := now, mp_successes := mp_successes p + 1, mp_failures := 0,
                    mp_status := (if mp_successes p + 1 \<ge> hc_healthyThreshold (mp_config p) then Healthy else mp_status p)\<rparr>
      | Failed \<Rightarrow> p\<lparr>mp_lastCheck := now, mp_failures := mp_failures p + 1, mp_successes := 0,
                    mp_status := (if mp_failures p + 1 \<ge> hc_unhealthyThreshold (mp_config p) then Unhealthy else mp_status p)\<rparr>
      | Mixed \<Rightarrow> p\<lparr>mp_lastCheck := now, mp_successes := 0,
                    mp_failures := (if mp_failures p > 0 then mp_failures p + 1 else mp_failures p), mp_status := Degraded\<rparr>)"
  by (auto simp: checkProcess_def verdict_def Let_def list_all_iff filter_empty_conv)

lemma check_keeps [simp]:
  "mp_checks (checkProcess answer now p) = mp_checks p" "mp_pid (checkProcess answer now p) = mp_pid p"
  "mp_config (checkProcess answer now p) = mp_config p"
  by (simp_all add: check_verdict split: health_verdict.splits)

lemma run_snoc: "health_run p (rs @ [(answer, now)]) = checkProcess answer now (health_run p rs)"
  by (simp add: health_run_def)

lemma run_keeps [simp]:
  "mp_checks (health_run p rs) = mp_checks p" "mp_pid (health_run p rs) = mp_pid p" "mp_config (health_run p rs) = mp_config p"
  by (induction rs rule: rev_induct) (auto simp: health_run_def split: prod.splits)

definition verdicts :: "'c mproc \<Rightarrow> (('c \<Rightarrow> int \<Rightarrow> bool) \<times> int) list \<Rightarrow> health_verdict list" where
  "verdicts p rs = map (\<lambda>r. verdict (fst r) p) rs"

lemma verdict_run: "verdict answer (health_run p rs) = verdict answer p"
  by (simp add: verdict_def)

lemma pass_streak_snoc: "pass_streak (vs @ [v]) = (if v = Passed then Suc (pass_streak vs) else 0)"
  by (simp add: pass_streak_def)

lemma fail_streak_snoc:
  "fail_streak (vs @ [v]) = (if v = Passed then 0 else if v = Failed then Suc (fail_streak vs)
     else if fail_streak vs = 0 then 0 else Suc (fail_streak vs))"
  by (cases v) (auto simp: fail_streak_def dropWhile_append)

lemma streaks:
  assumes "fresh p"
  shows "mp_successes (health_run p rs) = int (pass_streak (verdicts p rs)) \<and> mp_failures (health_run p rs) = int (fail_streak (verdicts p rs))"
proof (induction rs rule: rev_induct)
  case Nil
  then show ?case using assms by (simp add: health_run_def verdicts_def pass_streak_def fail_streak_def fresh_def)
next
  case (snoc r rs)
  obtain answer now where r: "r = (answer, now)" by (cases r)
  have v: "verdicts p (rs @ [(answer, now)]) = verdicts p rs @ [verdict answer p]" by (simp add: verdicts_def)
  show ?case
    unfolding r v run_snoc check_verdict verdict_run pass_streak_snoc fail_streak_snoc
    using snoc.IH by (cases "verdict answer p") auto
qed

text \<open>
  Claim C38. The status of a monitored process is determined by the history of its checks. It becomes healthy at a round in which every check passed that is
  at least the \<open>healthyThreshold\<close>-th such round in a row; unhealthy at a round in which none passed, when at least \<open>unhealthyThreshold\<close> rounds have
  been counted since the first total failure after the last pass; degraded at once when some checks pass and some fail; otherwise it stays.
\<close>

theorem health_status_from_history:
  assumes "fresh p"
  shows "mp_status (health_run p (rs @ [(answer, now)])) =
    (case verdict answer p of
       Passed \<Rightarrow> if hc_healthyThreshold (mp_config p) \<le> int (pass_streak (verdicts p rs @ [Passed])) then Healthy else mp_status (health_run p rs)
     | Failed \<Rightarrow> if hc_unhealthyThreshold (mp_config p) \<le> int (fail_streak (verdicts p rs @ [Failed])) then Unhealthy else mp_status (health_run p rs)
     | Mixed \<Rightarrow> Degraded)"
  using streaks [OF assms, of rs]
  by (cases "verdict answer p") (auto simp: run_snoc check_verdict verdict_run pass_streak_snoc fail_streak_snoc)

definition demo_proc :: "nat mproc" where
  "demo_proc = \<lparr>mp_pid = 5, mp_checks = [0, 1], mp_config = hc_default, mp_status = Unknown, mp_failures = 0, mp_successes = 0, mp_lastCheck = 0\<rparr>"

theorem health_status_from_history_witness:
  "mp_status (health_run demo_proc ([(\<lambda>_ _. False, 1), (\<lambda>c _. c = 0, 2)] @ [(\<lambda>_ _. False, 3)])) = Unhealthy"
proof -
  have "verdict (\<lambda>_ _. False) demo_proc = Failed" "verdicts demo_proc [(\<lambda>_ _. False, 1), (\<lambda>c _. c = 0, 2)] = [Failed, Mixed]"
    by (auto simp: verdict_def verdicts_def demo_proc_def)
  moreover have "fail_streak ([Failed, Mixed] @ [Failed]) = 3" by (simp add: fail_streak_def)
  moreover have "fresh demo_proc" "hc_unhealthyThreshold (mp_config demo_proc) = 3" by (simp_all add: fresh_def demo_proc_def hc_default_def)
  ultimately show ?thesis
    using health_status_from_history [of demo_proc "[(\<lambda>_ _. False, 1), (\<lambda>c _. c = 0, 2)]" "\<lambda>_ _. False" 3] by simp
qed

text \<open>A process without checks is healthy after \<open>healthyThreshold\<close> rounds, running or not.\<close>

lemma no_checks_healthy: "mp_checks p = [] \<Longrightarrow> verdict answer p = Passed"
  by (simp add: verdict_def)

subsection \<open>The monitor thread\<close>

datatype 'c hm_label =
    Hm_add string int "'c list" health_config int
  | Hm_remove string
  | Hm_update string int
  | Hm_start
  | Hm_stop
  | Hm_callback
  | Hm_collect int
  | Hm_check "'c \<Rightarrow> int \<Rightarrow> bool" int

text \<open>\<open>start\<close> is called when the thread of an earlier \<open>start\<close> has been joined.\<close>

definition hm_next :: "'c hm_label \<Rightarrow> 'c hm \<Rightarrow> 'c hm option" where
  "hm_next l s =
     (case l of
        Hm_add name pid checks config now \<Rightarrow> Some (hm_addProcess name pid checks config now s)
      | Hm_remove name \<Rightarrow> Some (hm_removeProcess name s)
      | Hm_update name pid \<Rightarrow> Some (hm_updatePid name pid s)
      | Hm_start \<Rightarrow> if hm_running s \<or> hm_thread s = Hm_none then Some (hm_start s) else None
      | Hm_stop \<Rightarrow> Some (hm_stop s)
      | Hm_callback \<Rightarrow> Some (hm_onHealthChange s)
      | Hm_collect now \<Rightarrow> hm_collect now s
      | Hm_check answer now \<Rightarrow> hm_check answer now s)"

text \<open>
  In every interleaving names are unique, the counters of a process are not negative and not both positive, and a status other than unknown
  comes from a check.
\<close>

definition mp_ok :: "'c mproc \<Rightarrow> bool" where
  "mp_ok p \<longleftrightarrow> 0 \<le> mp_failures p \<and> 0 \<le> mp_successes p \<and> (mp_failures p = 0 \<or> mp_successes p = 0)"

definition mprocs_ok :: "(string \<times> 'c mproc) list \<Rightarrow> bool" where
  "mprocs_ok ps \<longleftrightarrow> distinct (map fst ps) \<and> list_all (\<lambda>np. mp_ok (snd np)) ps"

definition hm_inv :: "'c hm \<Rightarrow> bool" where
  "hm_inv s \<longleftrightarrow> mprocs_ok (hm_processes s) \<and> (hm_running s \<longrightarrow> hm_thread s \<noteq> Hm_none)"

lemma mp_ok_check: "mp_ok p \<Longrightarrow> mp_ok (checkProcess answer now p)"
  by (auto simp: mp_ok_def check_verdict split: health_verdict.splits)

lemma mprocs_ok_update: "mprocs_ok ps \<Longrightarrow> mp_ok p \<Longrightarrow> mprocs_ok (AList.update name p ps)"
  unfolding mprocs_ok_def by (intro conjI distinct_update) (simp, induction ps, auto)

lemma mprocs_ok_delete:
  assumes "mprocs_ok ps"
  shows "mprocs_ok (AList.delete name ps)"
proof -
  have "list_all (\<lambda>np. mp_ok (snd np)) (AList.delete name ps)"
    using assms by (simp add: AList.delete_eq mprocs_ok_def list_all_iff)
  then show ?thesis using assms by (simp add: mprocs_ok_def AList.distinct_delete)
qed

lemma mprocs_ok_get:
  assumes "mprocs_ok ps" "map_of ps name = Some p"
  shows "mp_ok p"
proof -
  have "(name, p) \<in> set ps" by (rule map_of_SomeD [OF assms(2)])
  then show ?thesis using assms(1) by (auto simp: mprocs_ok_def list_all_iff)
qed

lemma hm_inv_next:
  assumes "hm_next l s = Some s'" "hm_inv s"
  shows "hm_inv s'"
proof -
  have ok: "mprocs_ok (hm_processes s)" "hm_running s \<longrightarrow> hm_thread s \<noteq> Hm_none" using assms(2) by (simp_all add: hm_inv_def)
  show ?thesis
  proof (cases l)
    case (Hm_add name pid checks config now)
    then show ?thesis using assms(1) ok
      by (auto simp: hm_next_def hm_addProcess_def hm_inv_def mp_ok_def intro!: mprocs_ok_update)
  next
    case (Hm_remove name)
    then show ?thesis using assms(1) ok by (auto simp: hm_next_def hm_removeProcess_def hm_inv_def mprocs_ok_delete)
  next
    case (Hm_update name pid)
    then show ?thesis using assms(1) ok
      by (auto simp: hm_next_def hm_updatePid_def hm_inv_def mp_ok_def split: option.splits intro!: mprocs_ok_update)
  next
    case (Hm_check answer now)
    have "mprocs_ok (AList.update name (checkProcess answer now p) (hm_processes s))" if "map_of (hm_processes s) name = Some p" for name p
      by (intro mprocs_ok_update mp_ok_check mprocs_ok_get [OF _ that] ok(1))
    then show ?thesis using assms(1) ok Hm_check
      by (simp add: hm_next_def hm_check_def hm_inv_def Let_def split: hm_thread.splits list.splits if_splits option.splits) auto
  qed (use assms(1) ok in \<open>auto simp: hm_next_def hm_start_def hm_stop_def hm_onHealthChange_def hm_collect_def hm_inv_def split: if_splits\<close>)
qed

interpretation hmx: step_system hm_next hm_new hm_inv
proof unfold_locales
  show "hm_inv hm_new" by (simp add: hm_inv_def hm_new_def mprocs_ok_def)
qed (rule hm_inv_next)

text \<open>
  Once \<open>stop\<close> has cleared the flag the thread ends within three steps of its own, so that the join in \<open>stop\<close> returns; no check is made
  on the way.
\<close>

lemma monitor_ends:
  assumes "\<not> hm_running s" "hm_thread s \<noteq> Hm_none"
  shows "\<exists>ls s'. length ls \<le> 3 \<and> run hm_next ls s = Some s' \<and> hm_stop_join s' = Some s' \<and>
    hm_processes s' = hm_processes s \<and> hm_log s' = hm_log s"
proof (cases "hm_thread s")
  case Hm_top
  then show ?thesis using assms
    by (intro exI [of _ "[Hm_collect 0]"]) (simp add: hm_next_def hm_collect_def hm_stop_join_def)
next
  case (Hm_checking names)
  then show ?thesis using assms
    by (intro exI [of _ "[Hm_check (\<lambda>_ _. False) 0, Hm_check (\<lambda>_ _. False) 0, Hm_collect 0]"], cases names)
      (simp_all add: hm_next_def hm_collect_def hm_check_def hm_stop_join_def)
next
  case Hm_sleeping
  then show ?thesis using assms
    by (intro exI [of _ "[Hm_check (\<lambda>_ _. False) 0, Hm_collect 0]"]) (simp add: hm_next_def hm_collect_def hm_check_def hm_stop_join_def)
qed (use assms in simp)

text \<open>A new number starts over from unknown.\<close>

lemma update_pid_fresh:
  "map_of (hm_processes s) name = Some p \<Longrightarrow>
    \<exists>p'. map_of (hm_processes (hm_updatePid name pid s)) name = Some p' \<and> fresh p' \<and> mp_pid p' = pid \<and> mp_checks p' = mp_checks p"
  by (simp add: hm_updatePid_def fresh_def update_conv')

end
