(* ===== verification/Signals.thy ===== *)
theory Signals
  imports Process
begin

text \<open>
  Signal utilities of src/src/signal.cpp: escalation sequences, and \<open>SignalDispatcher\<close>, whose thread reads a signalfd.
  The kernel is a parameter of the sequences: \<open>kill\<close> answers with an errno or success, \<open>sleep\<close> is what happens
  meanwhile. The dispatcher is an interleaving of its thread with callers of its operations, one step per
  section under its mutex or per system call.
\<close>

section \<open>Escalation sequences\<close>

definition SIGINT :: int where "SIGINT = 2"
definition SIGHUP :: int where "SIGHUP = 1"

fun sendSignalSequence ::
  "(int \<Rightarrow> int \<Rightarrow> 'k \<Rightarrow> nat option \<times> 'k) \<Rightarrow> (int \<Rightarrow> 'k \<Rightarrow> 'k) \<Rightarrow> int \<Rightarrow> (int \<times> int) list \<Rightarrow> bool \<Rightarrow> 'k \<Rightarrow> bool \<times> 'k" where
  "sendSignalSequence kill sleep target [] processGroup k = (True, k)"
| "sendSignalSequence kill sleep target ((sig, delay) # entries) processGroup k =
     (case kill (if processGroup then - target else target) sig k of
        (Some errno, k1) \<Rightarrow> (errno = ESRCH, k1)
      | (None, k1) \<Rightarrow>
          sendSignalSequence kill sleep target entries processGroup (if delay > 0 then sleep delay k1 else k1))"

record shutdown_options =
  so_termTimeout :: int
  so_intTimeout :: int
  so_hupTimeout :: int
  so_sendInt :: bool
  so_sendHup :: bool
  so_processGroup :: bool

definition so_default :: shutdown_options where
  "so_default = \<lparr>so_termTimeout = 250000000, so_intTimeout = 250000000, so_hupTimeout = 250000000,
     so_sendInt = True, so_sendHup = True, so_processGroup = False\<rparr>"

definition shutdown_sequence :: "shutdown_options \<Rightarrow> (int \<times> int) list" where
  "shutdown_sequence opts =
     [(SIGTERM, so_termTimeout opts)] @ (if so_sendInt opts then [(SIGINT, so_intTimeout opts)] else []) @
     (if so_sendHup opts then [(SIGHUP, so_hupTimeout opts)] else []) @ [(SIGKILL, 0)]"

definition gracefulShutdown ::
  "(int \<Rightarrow> int \<Rightarrow> 'k \<Rightarrow> nat option \<times> 'k) \<Rightarrow> (int \<Rightarrow> 'k \<Rightarrow> 'k) \<Rightarrow> int \<Rightarrow> shutdown_options \<Rightarrow> 'k \<Rightarrow> bool \<times> 'k" where
  "gracefulShutdown kill sleep pid opts k =
     sendSignalSequence kill sleep pid (shutdown_sequence opts) (so_processGroup opts) k"

subsection \<open>Behaviour\<close>

text \<open>
  A kernel that answers the i-th call with \<open>ans ! i\<close> and records the calls and the sleeps: the calls are those of
  the sequence up to the first that fails, and the answer is false exactly when that failure is not ESRCH.
\<close>

definition log_kill :: "int \<Rightarrow> int \<Rightarrow> (int \<times> int) list \<times> nat option list \<Rightarrow> nat option \<times> (int \<times> int) list \<times> nat option list" where
  "log_kill pid sig k = (case snd k of [] \<Rightarrow> (None, fst k @ [(pid, sig)], []) | a # as \<Rightarrow> (a, fst k @ [(pid, sig)], as))"

fun until_failure :: "'a list \<Rightarrow> nat option list \<Rightarrow> 'a list \<times> nat option" where
  "until_failure [] as = ([], None)"
| "until_failure (x # xs) [] = (let (ys, a) = until_failure xs [] in (x # ys, a))"
| "until_failure (x # xs) (None # as) = (let (ys, a) = until_failure xs as in (x # ys, a))"
| "until_failure (x # xs) (Some e # as) = ([x], Some e)"

lemma send_sequence_log:
  "\<exists>as'. sendSignalSequence log_kill (\<lambda>_ k. k) target entries grp (l, as) =
     (case until_failure entries as of
        (sent, failed) \<Rightarrow> (failed = None \<or> failed = Some ESRCH,
           l @ map (\<lambda>e. (if grp then - target else target, fst e)) sent, as'))"
proof (induction entries as arbitrary: l rule: until_failure.induct)
  case (2 x xs)
  show ?case using 2 [of "l @ [(if grp then - target else target, fst x)]"]
    by (cases x) (auto simp: log_kill_def Let_def split: prod.splits)
next
  case (3 x xs as)
  show ?case using 3 [of "l @ [(if grp then - target else target, fst x)]"]
    by (cases x) (auto simp: log_kill_def Let_def split: prod.splits)
next
  case (4 x xs e as)
  show ?case by (cases x) (auto simp: log_kill_def)
qed auto

text \<open>The kernel of \<open>Process\<close>; \<open>env\<close> is what the processes do during a sleep.\<close>

definition child_kill :: "int \<Rightarrow> int \<Rightarrow> os \<Rightarrow> nat option \<times> os" where
  "child_kill pid sig s = (case os_kill pid sig s of (Inr _, s1) \<Rightarrow> (None, s1) | (Inl _, s1) \<Rightarrow> (Some ESRCH, s1))"

lemma child_kill_child: "os_children s pid \<noteq> None \<Longrightarrow> child_kill pid sig s = (None, s\<lparr>os_signals := os_signals s @ [(pid, sig)]\<rparr>)"
  by (simp add: child_kill_def os_kill_def)

text \<open>
  A child stays until it is reaped, exited or not. Unless somebody else reaps it, \<open>gracefulShutdown\<close> of a
  child therefore never stops early: it sends every signal of the sequence, up to SIGKILL, and answers
  true, also when the child exited at the SIGTERM. This holds for whatever the child does in the meantime.
\<close>

lemma send_sequence_child:
  assumes "\<And>d s. os_children s pid \<noteq> None \<Longrightarrow> os_children (env d s) pid \<noteq> None \<and> os_signals (env d s) = os_signals s"
  shows "os_children s pid \<noteq> None \<Longrightarrow>
    \<exists>s'. sendSignalSequence child_kill env pid entries False s = (True, s') \<and>
      os_children s' pid \<noteq> None \<and> os_signals s' = os_signals s @ map (\<lambda>e. (pid, fst e)) entries"
proof (induction entries arbitrary: s)
  case (Cons e entries)
  obtain sig delay where e: "e = (sig, delay)" by (cases e)
  let ?s = "s\<lparr>os_signals := os_signals s @ [(pid, sig)]\<rparr>"
  let ?t = "if delay > 0 then env delay ?s else ?s"
  have t: "os_children ?t pid \<noteq> None" "os_signals ?t = os_signals s @ [(pid, sig)]"
    using assms [of ?s delay] Cons.prems by auto
  show ?case using Cons.IH [OF t(1)] t(2) Cons.prems by (auto simp: e child_kill_child)
qed simp

lemma graceful_shutdown_child:
  assumes "\<And>d s. os_children s pid \<noteq> None \<Longrightarrow> os_children (env d s) pid \<noteq> None \<and> os_signals (env d s) = os_signals s"
    and "os_children s pid \<noteq> None" "\<not> so_processGroup opts"
  shows "\<exists>s'. gracefulShutdown child_kill env pid opts s = (True, s') \<and>
    os_signals s' = os_signals s @ map (\<lambda>e. (pid, fst e)) (shutdown_sequence opts) \<and> last (os_signals s') = (pid, SIGKILL)"
proof -
  obtain s' where "gracefulShutdown child_kill env pid opts s = (True, s')"
      "os_signals s' = os_signals s @ map (\<lambda>e. (pid, fst e)) (shutdown_sequence opts)"
    using send_sequence_child [of pid env s "shutdown_sequence opts"] assms by (auto simp: gracefulShutdown_def)
  then show ?thesis by (auto simp: shutdown_sequence_def)
qed

section \<open>SignalDispatcher\<close>

text \<open>
  \<open>sd_thread\<close> is the thread object: none, running at one of its three points (before \<open>read\<close>, before its section under the mutex
  with the signal read, in a handler), or ended and not joined. \<open>sd_stopper\<close> is where the active call of \<open>stop\<close>
  is; at most one is under way that found the dispatcher running. \<open>sd_terminated\<close>: \<open>std::terminate\<close> was called. \<open>sd_log\<close>: the handlers called.
\<close>

datatype sd_pc = Sd_read | Sd_lookup int | Sd_calling int nat

datatype sd_thr = Sd_none | Sd_at sd_pc | Sd_ended

datatype sd_stop = Stop_idle | Stop_close | Stop_join | Stop_clear

record sd =
  sd_fd :: int
  sd_running :: bool
  sd_mask :: "int list"
  sd_thread :: sd_thr
  sd_handlers :: "int \<Rightarrow> nat option"
  sd_stopper :: sd_stop
  sd_terminated :: bool
  sd_log :: "(int \<times> nat) list"

definition sd_new :: sd where
  "sd_new = \<lparr>sd_fd = -1, sd_running = False, sd_mask = [], sd_thread = Sd_none, sd_handlers = (\<lambda>_. None),
     sd_stopper = Stop_idle, sd_terminated = False, sd_log = []\<rparr>"

text \<open>
  \<open>start\<close>: \<open>maskErr\<close> is the answer of \<open>pthread_sigmask\<close>, \<open>fd\<close> that of \<open>signalfd\<close> (an errno or a descriptor). Assigning to
  a \<open>std::thread\<close> that has not been joined terminates the program.
\<close>

definition sd_start :: "int list \<Rightarrow> nat option \<Rightarrow> nat + nat \<Rightarrow> sd \<Rightarrow> unit result \<times> sd" where
  "sd_start signals maskErr fd s =
     (if sd_running s then (Inr (), s)
      else if signals = [] then (Inl Invalid_argument, s)
      else (case maskErr of
              Some e \<Rightarrow> (Inl (System_error e), s\<lparr>sd_mask := signals\<rparr>)
            | None \<Rightarrow>
                (case fd of
                   Inl e \<Rightarrow> (Inl (System_error e), s\<lparr>sd_mask := signals, sd_fd := -1\<rparr>)
                 | Inr n \<Rightarrow>
                     (Inr (), s\<lparr>sd_mask := signals, sd_fd := int n, sd_running := True, sd_thread := Sd_at Sd_read,
                               sd_terminated := sd_terminated s \<or> sd_thread s \<noteq> Sd_none\<rparr>))))"

text \<open>The sections of \<open>stop\<close>. Joining from a handler, on the dispatcher's own thread, throws through the thread function.\<close>

definition sd_stop_mark :: "sd \<Rightarrow> sd option" where
  "sd_stop_mark s =
     (if \<not> sd_running s then Some s
      else if sd_stopper s = Stop_idle then Some (s\<lparr>sd_running := False, sd_stopper := Stop_close\<rparr>)
      else None)"

definition sd_stop_close :: "sd \<Rightarrow> sd option" where
  "sd_stop_close s =
     (if sd_stopper s = Stop_close then Some (s\<lparr>sd_fd := -1, sd_stopper := Stop_join\<rparr>) else None)"

definition sd_stop_join :: "bool \<Rightarrow> sd \<Rightarrow> sd option" where
  "sd_stop_join self s =
     (if sd_stopper s \<noteq> Stop_join then None
      else if self then (case sd_thread s of Sd_at (Sd_calling _ _) \<Rightarrow> Some (s\<lparr>sd_terminated := True\<rparr>) | _ \<Rightarrow> None)
      else (case sd_thread s of
              Sd_none \<Rightarrow> Some (s\<lparr>sd_stopper := Stop_clear\<rparr>)
            | Sd_ended \<Rightarrow> Some (s\<lparr>sd_thread := Sd_none, sd_stopper := Stop_clear\<rparr>)
            | Sd_at _ \<Rightarrow> None))"

definition sd_stop_clear :: "sd \<Rightarrow> sd option" where
  "sd_stop_clear s =
     (if sd_stopper s = Stop_clear then Some (s\<lparr>sd_handlers := (\<lambda>_. None), sd_stopper := Stop_idle\<rparr>) else None)"

definition sd_registerHandler :: "int \<Rightarrow> nat \<Rightarrow> sd \<Rightarrow> sd" where
  "sd_registerHandler sig h s = s\<lparr>sd_handlers := (sd_handlers s)(sig \<mapsto> h)\<rparr>"

definition sd_unregisterHandler :: "int \<Rightarrow> sd \<Rightarrow> sd" where
  "sd_unregisterHandler sig s = s\<lparr>sd_handlers := (sd_handlers s)(sig := None)\<rparr>"

text \<open>
  The loop of the thread. A read of an open descriptor gives a signal, end of file or an errno (EAGAIN when none is
  pending: the descriptor does not block); of descriptor -1 it fails with EBADF.
\<close>

datatype sd_answer = Got int | End_of_file | Failed nat

definition sd_run_read :: "sd_answer \<Rightarrow> sd \<Rightarrow> sd option" where
  "sd_run_read a s =
     (if sd_thread s \<noteq> Sd_at Sd_read then None
      else (case (if sd_fd s < 0 then Failed 9 else a) of
              Got sig \<Rightarrow> Some (s\<lparr>sd_thread := Sd_at (Sd_lookup sig)\<rparr>)
            | End_of_file \<Rightarrow> Some (s\<lparr>sd_thread := Sd_ended\<rparr>)
            | Failed e \<Rightarrow> if e = EINTR \<or> e = EAGAIN then Some s else Some (s\<lparr>sd_thread := Sd_ended\<rparr>)))"

definition sd_run_lookup :: "sd \<Rightarrow> sd option" where
  "sd_run_lookup s =
     (case sd_thread s of
        Sd_at (Sd_lookup sig) \<Rightarrow>
          if \<not> sd_running s then Some (s\<lparr>sd_thread := Sd_ended\<rparr>)
          else (case sd_handlers s sig of
                  None \<Rightarrow> Some (s\<lparr>sd_thread := Sd_at Sd_read\<rparr>)
                | Some h \<Rightarrow> Some (s\<lparr>sd_thread := Sd_at (Sd_calling sig h), sd_log := sd_log s @ [(sig, h)]\<rparr>))
      | _ \<Rightarrow> None)"

definition sd_run_return :: "sd \<Rightarrow> sd option" where
  "sd_run_return s =
     (case sd_thread s of Sd_at (Sd_calling _ _) \<Rightarrow> Some (s\<lparr>sd_thread := Sd_at Sd_read\<rparr>) | _ \<Rightarrow> None)"

datatype sd_label =
    Sd_start "int list" "nat option" "nat + nat"
  | Sd_mark
  | Sd_close
  | Sd_join bool
  | Sd_clear
  | Sd_register int nat
  | Sd_unregister int
  | Sd_answer sd_answer
  | Sd_look
  | Sd_return

definition sd_next :: "sd_label \<Rightarrow> sd \<Rightarrow> sd option" where
  "sd_next l s =
     (if sd_terminated s then None
      else case l of
        Sd_start signals m fd \<Rightarrow> Some (snd (sd_start signals m fd s))
      | Sd_mark \<Rightarrow> sd_stop_mark s
      | Sd_close \<Rightarrow> sd_stop_close s
      | Sd_join self \<Rightarrow> sd_stop_join self s
      | Sd_clear \<Rightarrow> sd_stop_clear s
      | Sd_register sig h \<Rightarrow> Some (sd_registerHandler sig h s)
      | Sd_unregister sig \<Rightarrow> Some (sd_unregisterHandler sig s)
      | Sd_answer a \<Rightarrow> sd_run_read a s
      | Sd_look \<Rightarrow> sd_run_lookup s
      | Sd_return \<Rightarrow> sd_run_return s)"

subsection \<open>Stopping\<close>

text \<open>
  While no call of \<open>stop\<close> is under way, the dispatcher is either running, with its thread and an open descriptor, or
  stopped, without a thread and without a descriptor.
\<close>

definition sd_inv :: "sd \<Rightarrow> bool" where
  "sd_inv s \<longleftrightarrow> sd_terminated s \<or>
     (if sd_running s then (sd_stopper s = Stop_idle \<or> sd_stopper s = Stop_clear) \<and> sd_fd s \<ge> 0 \<and> sd_thread s \<noteq> Sd_none
      else (case sd_stopper s of
              Stop_idle \<Rightarrow> sd_fd s = -1 \<and> sd_thread s = Sd_none
            | Stop_close \<Rightarrow> sd_thread s \<noteq> Sd_none
            | Stop_join \<Rightarrow> sd_fd s = -1 \<and> sd_thread s \<noteq> Sd_none
            | Stop_clear \<Rightarrow> sd_fd s = -1 \<and> sd_thread s = Sd_none))"

lemmas sd_ops = sd_start_def sd_stop_mark_def sd_stop_close_def sd_stop_join_def sd_stop_clear_def
  sd_registerHandler_def sd_unregisterHandler_def sd_run_read_def sd_run_lookup_def sd_run_return_def

lemma sd_inv_next: "sd_next l s = Some s' \<Longrightarrow> sd_inv s \<Longrightarrow> sd_inv s'"
  by (cases l; cases "sd_stopper s")
    (auto simp: sd_next_def sd_ops sd_inv_def split: if_splits option.splits sum.splits sd_thr.splits sd_pc.splits sd_answer.splits)

interpretation sdx: step_system sd_next sd_new sd_inv
proof unfold_locales
  show "sd_inv sd_new" by (simp add: sd_inv_def sd_new_def)
qed (rule sd_inv_next)

text \<open>After \<open>stop\<close> no thread is left that could call a handler, and the descriptor is closed, until the next \<open>start\<close>.\<close>

lemma sd_stopped:
  assumes "reachable sd_next sd_new s" "\<not> sd_terminated s" "\<not> sd_running s" "sd_stopper s = Stop_idle"
  shows "sd_thread s = Sd_none \<and> sd_fd s = -1 \<and> sd_run_read a s = None \<and> sd_run_lookup s = None"
  using sdx.inv_reachable [OF assms(1)] assms(2-4) by (simp add: sd_inv_def sd_run_read_def sd_run_lookup_def)

text \<open>
  Once the descriptor is closed, the thread ends: three steps of its own suffice from any point, whatever is pending.
\<close>

lemma sd_thread_ends:
  assumes "\<not> sd_terminated s" "sd_thread s = Sd_at pc" "sd_fd s < 0" "\<not> sd_running s"
  shows "\<exists>ls s'. length ls \<le> 2 \<and> set ls \<subseteq> {Sd_answer End_of_file, Sd_look, Sd_return} \<and>
    run sd_next ls s = Some s' \<and> sd_thread s' = Sd_ended"
proof (cases pc)
  case Sd_read
  then show ?thesis using assms
    by (intro exI [of _ "[Sd_answer End_of_file]"]) (simp add: sd_next_def sd_run_read_def EINTR_def EAGAIN_def)
next
  case (Sd_lookup sig)
  then show ?thesis using assms by (intro exI [of _ "[Sd_look]"]) (simp add: sd_next_def sd_run_lookup_def)
next
  case (Sd_calling sig h)
  then show ?thesis using assms
    by (intro exI [of _ "[Sd_return, Sd_answer End_of_file]"])
      (simp add: sd_next_def sd_run_return_def sd_run_read_def EINTR_def EAGAIN_def)
qed

text \<open>
  With no signal pending the thread does not block: every read fails with EAGAIN and leads to the next read, so
  the thread uses a processor for as long as the dispatcher is idle.
\<close>

lemma sd_spins: "\<not> sd_terminated s \<Longrightarrow> sd_thread s = Sd_at Sd_read \<Longrightarrow> sd_fd s \<ge> 0 \<Longrightarrow>
    run sd_next (replicate n (Sd_answer (Failed EAGAIN))) s = Some s"
  by (induction n) (simp_all add: sd_next_def sd_run_read_def)

text \<open>
  Three races: a \<open>start\<close> before \<open>stop\<close> has joined the thread terminates the program; a handler registered after a
  \<open>start\<close> that overtakes the end of \<open>stop\<close> is erased; and \<open>stop\<close> called from a handler terminates the program.
\<close>

lemma sd_restart_terminates:
  "\<exists>s. run sd_next [Sd_start [10] None (Inr 5), Sd_mark, Sd_start [10] None (Inr 6)] sd_new = Some s \<and> sd_terminated s"
  by (simp add: sd_next_def sd_ops sd_new_def)

lemma sd_restart_loses_handler:
  "\<exists>s. run sd_next [Sd_start [10] None (Inr 5), Sd_mark, Sd_close, Sd_answer End_of_file, Sd_join False,
       Sd_start [10] None (Inr 6), Sd_register 10 1, Sd_clear] sd_new = Some s \<and>
     sd_running s \<and> sd_handlers s 10 = None"
  by (simp add: sd_next_def sd_ops sd_new_def EINTR_def EAGAIN_def)

lemma sd_stop_in_handler:
  "\<exists>s. run sd_next [Sd_register 10 1, Sd_start [10] None (Inr 5), Sd_answer (Got 10), Sd_look, Sd_mark, Sd_close, Sd_join True] sd_new = Some s \<and>
     sd_terminated s"
  by (simp add: sd_next_def sd_ops sd_new_def)

end
