(* ===== verification/Thread_Control.thy ===== *)
theory Thread_Control
  imports Pman_Prelude
begin

text \<open>
  Cooperative control of threads: \<open>PausableThread\<close> with its \<open>PauseToken\<close> (src/src/pausable_thread.cpp, \<open>pa_\<close>) and \<open>CancellableThread\<close> with
  cleanup handlers (src/src/cancellable_thread.cpp, src/include/pman/cancellable_thread.hpp, \<open>cn_\<close>). A step is a section under the
  object's mutex or an atomic access outside one.
\<close>

section \<open>PausableThread\<close>

text \<open>
  The worker is in its task, between the two loads of \<open>checkPause\<close>, about to lock after it saw a pause request, asleep
  on \<open>resumeCv\<close>, woken but without the mutex, or finished (its task returned or \<open>StopRequestedException\<close> ended it). The
  stores of \<open>requestStop\<close> are one step: a load of the worker between them is one before them.
\<close>

datatype pa_worker = Wk_task | Wk_loaded | Wk_seen | Wk_sleep | Wk_awake | Wk_done

record pa =
  pa_pauseRequested :: bool
  pa_stopRequested :: bool
  pa_paused :: bool
  pa_joinable :: bool
  pa_worker :: pa_worker
  pa_pausing :: "nat \<Rightarrow> bool"

definition pa_new :: pa where
  "pa_new = \<lparr>pa_pauseRequested = False, pa_stopRequested = False, pa_paused = False, pa_joinable = True,
     pa_worker = Wk_task, pa_pausing = (\<lambda>_. False)\<rparr>"

text \<open>The loop of \<open>checkPause\<close> and what follows it, with the mutex held.\<close>

definition pa_loop :: "pa \<Rightarrow> pa" where
  "pa_loop s =
     (if pa_pauseRequested s \<and> \<not> pa_stopRequested s then s\<lparr>pa_worker := Wk_sleep\<rparr>
      else s\<lparr>pa_paused := False, pa_worker := (if pa_stopRequested s then Wk_done else Wk_task)\<rparr>)"

definition pa_checkPause :: "pa \<Rightarrow> pa option" where
  "pa_checkPause s =
     (case pa_worker s of
        Wk_task \<Rightarrow> Some (s\<lparr>pa_worker := (if pa_stopRequested s then Wk_done else Wk_loaded)\<rparr>)
      | Wk_loaded \<Rightarrow> Some (s\<lparr>pa_worker := (if pa_pauseRequested s then Wk_seen else Wk_task)\<rparr>)
      | Wk_seen \<Rightarrow> Some (pa_loop (s\<lparr>pa_paused := True\<rparr>))
      | Wk_sleep \<Rightarrow> Some (s\<lparr>pa_worker := Wk_awake\<rparr>)
      | Wk_awake \<Rightarrow> Some (pa_loop s)
      | Wk_done \<Rightarrow> None)"

text \<open>\<open>notify_all\<close> on \<open>resumeCv\<close>; a worker also wakes without it (the step of \<open>Wk_sleep\<close> above).\<close>

definition pa_notify :: "pa \<Rightarrow> pa" where
  "pa_notify s = (if pa_worker s = Wk_sleep then s\<lparr>pa_worker := Wk_awake\<rparr> else s)"

text \<open>
  \<open>pause\<close> of a controlling thread: the request, then a loop that waits 100 ms at a time. The thread is in
  \<open>pa_pausing\<close> while it waits.
\<close>

definition pa_pause_test :: "nat \<Rightarrow> pa \<Rightarrow> pa" where
  "pa_pause_test c s =
     s\<lparr>pa_pausing := (pa_pausing s)(c := \<not> pa_paused s \<and> \<not> pa_stopRequested s \<and> pa_joinable s)\<rparr>"

definition pa_pause :: "nat \<Rightarrow> pa \<Rightarrow> pa" where
  "pa_pause c s =
     (if pa_pausing s c then pa_pause_test c s else pa_pause_test c (s\<lparr>pa_pauseRequested := True\<rparr>))"

definition pa_resume :: "pa \<Rightarrow> pa" where
  "pa_resume s = pa_notify (s\<lparr>pa_pauseRequested := False\<rparr>)"

definition pa_requestStop :: "pa \<Rightarrow> pa" where
  "pa_requestStop s = pa_notify (s\<lparr>pa_stopRequested := True, pa_pauseRequested := False\<rparr>)"

datatype pa_label = Pa_check | Pa_finish | Pa_pause nat | Pa_resume | Pa_stop | Pa_join

definition pa_next :: "pa_label \<Rightarrow> pa \<Rightarrow> pa option" where
  "pa_next l s =
     (case l of
        Pa_check \<Rightarrow> pa_checkPause s
      | Pa_finish \<Rightarrow> if pa_worker s = Wk_task then Some (s\<lparr>pa_worker := Wk_done\<rparr>) else None
      | Pa_pause c \<Rightarrow> Some (pa_pause c s)
      | Pa_resume \<Rightarrow> Some (pa_resume s)
      | Pa_stop \<Rightarrow> Some (pa_requestStop s)
      | Pa_join \<Rightarrow> if pa_worker s = Wk_done then Some (s\<lparr>pa_joinable := False\<rparr>) else None)"

lemmas pa_ops = pa_loop_def pa_checkPause_def pa_notify_def pa_pause_test_def pa_pause_def pa_resume_def pa_requestStop_def

text \<open>
  \<open>paused\<close> is set exactly while the worker is parked in \<open>checkPause\<close>, and the worker sleeps only while there is a
  pause request and no stop request: no wake-up is lost.
\<close>

definition pa_inv :: "pa \<Rightarrow> bool" where
  "pa_inv s \<longleftrightarrow> (pa_paused s \<longleftrightarrow> pa_worker s = Wk_sleep \<or> pa_worker s = Wk_awake) \<and>
     (pa_worker s = Wk_sleep \<longrightarrow> pa_pauseRequested s \<and> \<not> pa_stopRequested s)"

lemma pa_inv_next: "pa_next l s = Some s' \<Longrightarrow> pa_inv s \<Longrightarrow> pa_inv s'"
  by (cases l) (auto simp: pa_next_def pa_ops pa_inv_def split: if_splits pa_worker.splits)

interpretation pax: step_system pa_next pa_new pa_inv
proof unfold_locales
  show "pa_inv pa_new" by (simp add: pa_inv_def pa_new_def)
qed (rule pa_inv_next)

lemma pa_parked_step:
  assumes "pa_next l s = Some s'" "l \<noteq> Pa_resume" "l \<noteq> Pa_stop"
    and "pa_inv s \<and> pa_paused s \<and> pa_pauseRequested s \<and> \<not> pa_stopRequested s"
  shows "pa_inv s' \<and> pa_paused s' \<and> pa_pauseRequested s' \<and> \<not> pa_stopRequested s'"
  using assms(2-4) pa_inv_next [OF assms(1)] assms(1)
  by (cases l) (auto simp: pa_next_def pa_ops pa_inv_def split: if_splits pa_worker.splits)

text \<open>
  When \<open>pause\<close> has found the worker paused, the task does not run on: until somebody calls \<open>resume\<close> or \<open>requestStop\<close> the
  worker stays parked inside \<open>checkPause\<close>, whatever else happens, further calls of \<open>pause\<close> and spurious wake-ups included. And
  after \<open>resume\<close> or \<open>requestStop\<close> it is not asleep: one more step of its own takes it back to the task or ends it.
\<close>

lemma pause_parks_worker:
  assumes "reachable pa_next pa_new s" "pa_paused s" "pa_pauseRequested s" "\<not> pa_stopRequested s"
  shows "(run pa_next ls s = Some s' \<and> Pa_resume \<notin> set ls \<and> Pa_stop \<notin> set ls \<longrightarrow> pa_worker s' = Wk_sleep \<or> pa_worker s' = Wk_awake) \<and>
    map_option pa_worker (pa_next Pa_check (pa_resume s)) = Some Wk_task \<and>
    map_option pa_worker (pa_next Pa_check (pa_requestStop s)) = Some Wk_done"
proof -
  have i: "pa_inv s" by (rule pax.inv_reachable [OF assms(1)])
  let ?I = "\<lambda>s. pa_inv s \<and> pa_paused s \<and> pa_pauseRequested s \<and> \<not> pa_stopRequested s"
  have "?I s'" if "run pa_next ls s = Some s'" "Pa_resume \<notin> set ls" "Pa_stop \<notin> set ls"
  proof (rule run_invariant_on [OF that(1), where P = "\<lambda>l. l \<noteq> Pa_resume \<and> l \<noteq> Pa_stop"])
    show "list_all (\<lambda>l. l \<noteq> Pa_resume \<and> l \<noteq> Pa_stop) ls" using that(2,3) by (auto simp: list_all_iff)
    show "?I s" using i assms(2-4) by simp
    show "?I s2" if "l \<noteq> Pa_resume \<and> l \<noteq> Pa_stop" "pa_next l s1 = Some s2" "?I s1" for l s1 s2
      by (rule pa_parked_step [OF that(2) _ _ that(3)]) (use that(1) in simp_all)
  qed
  moreover have "pa_worker s = Wk_sleep \<or> pa_worker s = Wk_awake" using i assms(2) by (simp add: pa_inv_def)
  ultimately show ?thesis using assms(4) by (auto simp: pa_inv_def pa_next_def pa_ops)
qed

text \<open>
  \<open>pause\<close> on a thread whose task has already returned does not: \<open>joinable\<close> stays true until somebody joins, so the
  loop keeps waiting.
\<close>

lemma pause_finished_hangs:
  assumes "pa_worker s = Wk_done" "\<not> pa_paused s" "\<not> pa_stopRequested s" "pa_joinable s" "\<not> pa_pausing s c"
  shows "\<exists>s'. run pa_next (replicate (Suc n) (Pa_pause c)) s = Some s' \<and> pa_pausing s' c"
proof -
  let ?t = "s\<lparr>pa_pauseRequested := True, pa_pausing := (pa_pausing s)(c := True)\<rparr>"
  have "run pa_next (replicate n (Pa_pause c)) ?t = Some ?t"
    using assms by (induction n) (simp_all add: pa_next_def pa_ops)
  moreover have "pa_next (Pa_pause c) s = Some ?t" using assms by (simp add: pa_next_def pa_ops)
  ultimately show ?thesis by simp
qed

section \<open>CancellableThread\<close>

text \<open>
  Handlers are numbers; \<open>None\<close> in the list is a handler that was dismissed. Each thread that calls \<open>cancel\<close> is idle, has set the
  flag, or runs the handlers it took, last first. \<open>cn_ran\<close> are the handlers run, \<open>cn_dismissed\<close> those dismissed in time,
  \<open>cn_added\<close> those passed to \<open>onCancel\<close>; the last three only serve the statements.
\<close>

datatype cn_pc = Cn_idle | Cn_flagged | Cn_running "nat option list"

record cn =
  cn_cancelled :: bool
  cn_handlers :: "nat option list"
  cn_pc :: "nat \<Rightarrow> cn_pc"
  cn_ran :: "nat list"
  cn_dismissed :: "nat list"
  cn_added :: "nat list"

definition cn_new :: cn where
  "cn_new = \<lparr>cn_cancelled = False, cn_handlers = [], cn_pc = (\<lambda>_. Cn_idle), cn_ran = [], cn_dismissed = [], cn_added = []\<rparr>"

text \<open>A guard is its index, \<open>None\<close> when inactive.\<close>

definition cn_onCancel :: "nat \<Rightarrow> cn \<Rightarrow> nat option \<times> cn" where
  "cn_onCancel h s =
     (let s = s\<lparr>cn_added := cn_added s @ [h]\<rparr> in
      if cn_cancelled s then (None, s\<lparr>cn_ran := cn_ran s @ [h]\<rparr>)
      else (Some (length (cn_handlers s)), s\<lparr>cn_handlers := cn_handlers s @ [Some h]\<rparr>))"

definition cn_dismiss :: "nat option \<Rightarrow> cn \<Rightarrow> cn" where
  "cn_dismiss guard s =
     (case guard of
        None \<Rightarrow> s
      | Some index \<Rightarrow>
          if index < length (cn_handlers s)
          then s\<lparr>cn_handlers := (cn_handlers s)[index := None],
                 cn_dismissed := cn_dismissed s @ (case cn_handlers s ! index of None \<Rightarrow> [] | Some h \<Rightarrow> [h])\<rparr>
          else s)"

definition cn_cancel :: "nat \<Rightarrow> cn \<Rightarrow> cn option" where
  "cn_cancel t s =
     (if cn_pc s t = Cn_idle then Some (s\<lparr>cn_cancelled := True, cn_pc := (cn_pc s)(t := Cn_flagged)\<rparr>) else None)"

text \<open>\<open>runCleanupHandlers\<close>: taking the list under the mutex, then one handler at a time.\<close>

definition cn_take :: "nat \<Rightarrow> cn \<Rightarrow> cn option" where
  "cn_take t s =
     (if cn_pc s t = Cn_flagged
      then Some (s\<lparr>cn_handlers := [], cn_pc := (cn_pc s)(t := Cn_running (rev (cn_handlers s)))\<rparr>) else None)"

definition cn_runHandler :: "nat \<Rightarrow> cn \<Rightarrow> cn option" where
  "cn_runHandler t s =
     (case cn_pc s t of
        Cn_running [] \<Rightarrow> Some (s\<lparr>cn_pc := (cn_pc s)(t := Cn_idle)\<rparr>)
      | Cn_running (None # hs) \<Rightarrow> Some (s\<lparr>cn_pc := (cn_pc s)(t := Cn_running hs)\<rparr>)
      | Cn_running (Some h # hs) \<Rightarrow> Some (s\<lparr>cn_pc := (cn_pc s)(t := Cn_running hs), cn_ran := cn_ran s @ [h]\<rparr>)
      | _ \<Rightarrow> None)"

definition cn_isCancelled :: "cn \<Rightarrow> bool" where
  "cn_isCancelled s = cn_cancelled s"

definition cn_throwIfCancelled :: "cn \<Rightarrow> unit option" where
  "cn_throwIfCancelled s = (if cn_isCancelled s then None else Some ())"

datatype cn_label = Cn_on nat | Cn_dismiss "nat option" | Cn_cancel nat | Cn_take nat | Cn_run nat

definition cn_next :: "cn_label \<Rightarrow> cn \<Rightarrow> cn option" where
  "cn_next l s =
     (case l of
        Cn_on h \<Rightarrow> Some (snd (cn_onCancel h s))
      | Cn_dismiss g \<Rightarrow> Some (cn_dismiss g s)
      | Cn_cancel t \<Rightarrow> cn_cancel t s
      | Cn_take t \<Rightarrow> cn_take t s
      | Cn_run t \<Rightarrow> cn_runHandler t s)"

lemmas cn_ops = cn_onCancel_def cn_dismiss_def cn_cancel_def cn_take_def cn_runHandler_def

text \<open>How often a handler is still to be run by a thread.\<close>

definition cn_owes :: "nat \<Rightarrow> cn_pc \<Rightarrow> int" where
  "cn_owes h p = (case p of Cn_running hs \<Rightarrow> int (count_list hs (Some h)) | _ \<Rightarrow> 0)"

definition cn_flag :: "cn_pc \<Rightarrow> int" where
  "cn_flag p = (if p = Cn_flagged then 1 else 0)"

definition cn_finite :: "(nat \<Rightarrow> cn_pc) \<Rightarrow> bool" where
  "cn_finite g \<longleftrightarrow> finite {t. g t \<noteq> Cn_idle}"

definition cn_inv :: "cn \<Rightarrow> bool" where
  "cn_inv s \<longleftrightarrow> cn_finite (cn_pc s) \<and>
     (\<forall>h. int (count_list (cn_added s) h) =
        int (count_list (cn_handlers s) (Some h)) + weigh (cn_owes h) (cn_pc s) + int (count_list (cn_ran s) h) + int (count_list (cn_dismissed s) h)) \<and>
     ((\<exists>t. cn_pc s t \<noteq> Cn_idle) \<longrightarrow> cn_cancelled s) \<and>
     (cn_cancelled s \<and> (\<forall>t. cn_pc s t \<noteq> Cn_flagged) \<longrightarrow> cn_handlers s = [])"

lemma count_list_update:
  "i < length xs \<Longrightarrow> count_list (xs[i := y]) x + (if xs ! i = x then 1 else 0) = count_list xs x + (if y = x then 1 else 0)"
proof (induction xs arbitrary: i)
  case (Cons a xs)
  show ?case
  proof (cases i)
    case (Suc k)
    then show ?thesis using Cons.IH [of k] Cons.prems by (simp split: if_splits)
  qed simp
qed simp

lemma cn_finite_upd [simp]: "cn_finite g \<Longrightarrow> cn_finite (g(t := p))"
  unfolding cn_finite_def by (rule finite_subset [of _ "insert t {t. g t \<noteq> Cn_idle}"]) auto

lemma cn_owes_upd:
  assumes "cn_finite g"
  shows "weigh (cn_owes h) (g(t := p)) = weigh (cn_owes h) g - cn_owes h (g t) + cn_owes h p"
proof (rule weigh_upd)
  show "finite {t. cn_owes h (g t) \<noteq> 0}"
    by (rule finite_weights [of g Cn_idle]) (use assms in \<open>simp_all add: cn_finite_def cn_owes_def\<close>)
qed

lemma cn_owes_simps [simp]:
  "cn_owes h Cn_idle = 0" "cn_owes h Cn_flagged = 0" "cn_owes h (Cn_running hs) = int (count_list hs (Some h))"
  by (simp_all add: cn_owes_def)

lemma cn_inv_next: "cn_next l s = Some s' \<Longrightarrow> cn_inv s \<Longrightarrow> cn_inv s'"
proof (cases l)
  case (Cn_on h)
  assume "cn_next l s = Some s'" "cn_inv s"
  then show ?thesis using Cn_on by (cases "cn_cancelled s") (auto simp: cn_next_def cn_onCancel_def cn_inv_def Let_def)
next
  case (Cn_dismiss g)
  assume a: "cn_next l s = Some s'" "cn_inv s"
  show ?thesis
  proof (cases "\<exists>i. g = Some i \<and> i < length (cn_handlers s)")
    case True
    then obtain i where i: "g = Some i" "i < length (cn_handlers s)" by blast
    let ?d = "case cn_handlers s ! i of None \<Rightarrow> [] | Some h \<Rightarrow> [h]"
    have c: "int (count_list (cn_handlers s) (Some h)) = int (count_list ((cn_handlers s)[i := None]) (Some h)) + int (count_list ?d h)" for h
      using count_list_update [OF i(2), of None "Some h"] by (auto split: option.splits)
    have "s' = s\<lparr>cn_handlers := (cn_handlers s)[i := None], cn_dismissed := cn_dismissed s @ ?d\<rparr>"
      using a(1) Cn_dismiss i by (simp add: cn_next_def cn_dismiss_def)
    then show ?thesis using a(2) by (simp add: cn_inv_def c)
  next
    case False
    then have "s' = s" using a(1) Cn_dismiss by (auto simp: cn_next_def cn_dismiss_def split: option.splits)
    then show ?thesis using a(2) by simp
  qed
next
  case (Cn_cancel t)
  assume a: "cn_next l s = Some s'" "cn_inv s"
  then have "cn_finite (cn_pc s)" by (simp add: cn_inv_def)
  then show ?thesis
    using a Cn_cancel by (auto simp: cn_next_def cn_cancel_def cn_inv_def cn_owes_upd split: if_splits)
next
  case (Cn_take t)
  assume a: "cn_next l s = Some s'" "cn_inv s"
  then have "cn_finite (cn_pc s)" by (simp add: cn_inv_def)
  then show ?thesis
    using a Cn_take by (auto simp: cn_next_def cn_take_def cn_inv_def cn_owes_upd split: if_splits)
next
  case (Cn_run t)
  assume a: "cn_next l s = Some s'" "cn_inv s"
  then have "cn_finite (cn_pc s)" by (simp add: cn_inv_def)
  then show ?thesis
    using a Cn_run
    by (auto simp: cn_next_def cn_runHandler_def cn_inv_def cn_owes_upd split: cn_pc.splits list.splits option.splits if_splits)
      (metis cn_pc.distinct(5))+
qed

interpretation cnx: step_system cn_next cn_new cn_inv
proof unfold_locales
  show "cn_inv cn_new" by (simp add: cn_inv_def cn_new_def cn_finite_def weigh_zero)
qed (rule cn_inv_next)

text \<open>
  Claim C22. Cleanup handlers run exactly once. Whatever threads register and dismiss handlers and however many call \<open>cancel\<close> at the same
  time: once the flag is set and the calls of \<open>cancel\<close> have returned, every handler passed to \<open>onCancel\<close> has been run or
  dismissed, exactly as often as it was passed, and none is left behind.
\<close>

theorem cancel_runs_handlers_once:
  assumes "reachable cn_next cn_new s" "cn_isCancelled s" "\<And>t. cn_pc s t = Cn_idle"
  shows "count_list (cn_ran s) h + count_list (cn_dismissed s) h = count_list (cn_added s) h"
proof -
  have i: "cn_inv s" by (rule cnx.inv_reachable [OF assms(1)])
  have p: "cn_pc s = (\<lambda>_. Cn_idle)" using assms(3) by auto
  have "cn_handlers s = []" using i assms(2,3) by (simp add: cn_inv_def cn_isCancelled_def)
  moreover have "weigh (cn_owes h) (cn_pc s) = 0" unfolding p by (rule weigh_zero) simp
  moreover have "int (count_list (cn_added s) h) = int (count_list (cn_handlers s) (Some h)) + weigh (cn_owes h) (cn_pc s) +
      int (count_list (cn_ran s) h) + int (count_list (cn_dismissed s) h)"
    using i unfolding cn_inv_def by blast
  ultimately show ?thesis by simp
qed

theorem cancel_runs_handlers_once_witness:
  "\<exists>s. run cn_next [Cn_on 7, Cn_on 8, Cn_dismiss (Some 0), Cn_cancel 1, Cn_cancel 2, Cn_take 2, Cn_run 2, Cn_take 1, Cn_run 1, Cn_run 2, Cn_run 2] cn_new = Some s \<and>
     count_list (cn_ran s) 8 + count_list (cn_dismissed s) 8 = 1"
proof -
  let ?s = "\<lparr>cn_cancelled = True, cn_handlers = [], cn_pc = (\<lambda>_. Cn_idle), cn_ran = [8], cn_dismissed = [7], cn_added = [7, 8]\<rparr>"
  have r: "run cn_next [Cn_on 7, Cn_on 8, Cn_dismiss (Some 0), Cn_cancel 1, Cn_cancel 2, Cn_take 2, Cn_run 2, Cn_take 1, Cn_run 1, Cn_run 2, Cn_run 2] cn_new = Some ?s"
    by (auto simp: cn_next_def cn_ops cn_new_def Let_def)
  then show ?thesis
    using cancel_runs_handlers_once [OF reachableI [OF r], of 8] by (simp add: cn_isCancelled_def)
qed

text \<open>The thread that takes the handlers runs the last one registered first and skips those dismissed.\<close>

lemma cn_run_order:
  "cn_pc s t = Cn_running hs \<Longrightarrow>
    \<exists>s'. run cn_next (replicate (length hs) (Cn_run t)) s = Some s' \<and> cn_pc s' t = Cn_running [] \<and>
      cn_ran s' = cn_ran s @ List.map_filter id hs"
proof (induction hs arbitrary: s)
  case (Cons h hs)
  let ?s = "s\<lparr>cn_pc := (cn_pc s)(t := Cn_running hs), cn_ran := cn_ran s @ (case h of None \<Rightarrow> [] | Some k \<Rightarrow> [k])\<rparr>"
  have "cn_next (Cn_run t) s = Some ?s" using Cons.prems by (cases h) (simp_all add: cn_next_def cn_runHandler_def)
  moreover have "cn_pc ?s t = Cn_running hs" by simp
  ultimately show ?case using Cons.IH [of ?s] by (cases h) (auto simp: map_filter_simps)
qed (simp add: map_filter_simps)

lemma cn_take_order: "cn_take t s = Some s' \<Longrightarrow> cn_pc s' t = Cn_running (rev (cn_handlers s))"
  by (auto simp: cn_take_def split: if_splits)

end
