(* ===== verification/Task_Scope.thy ===== *)
theory Task_Scope
  imports Pman_Prelude
begin

text \<open>
  \<open>TaskScope\<close>, \<open>DeadlineCancel\<close> and \<open>with_deadline\<close> of src/include/pman/structured.hpp. The scope is an interleaving of its tasks, of threads that
  spawn and cancel (the tasks themselves among them), and of one thread that joins and destroys it. A step is a section under the scope's mutex,
  the stop request, or the join of one thread.
\<close>

section \<open>TaskScope\<close>

text \<open>
  Tasks are numbered in the order of \<open>spawn\<close>. A task that failed has stored its exception and not yet requested the stop.
  \<open>sc_failures\<close> are the exceptions of all tasks in order, \<open>sc_thrown\<close> those that \<open>join\<close> rethrew.
\<close>

datatype sc_task = Tk_none | Tk_running | Tk_failed | Tk_ended

datatype sc_join = Jn_idle | Jn_threads "nat list"

record sc =
  sc_threads :: "nat list"
  sc_stop :: bool
  sc_exception :: "nat option"
  sc_joined :: bool
  sc_exceptionPropagated :: bool
  sc_task :: "nat \<Rightarrow> sc_task"
  sc_count :: nat
  sc_join :: sc_join
  sc_destroying :: bool
  sc_destroyed :: bool
  sc_terminated :: bool
  sc_failures :: "nat list"
  sc_thrown :: "nat list"

definition sc_new :: sc where
  "sc_new = \<lparr>sc_threads = [], sc_stop = False, sc_exception = None, sc_joined = False, sc_exceptionPropagated = False,
     sc_task = (\<lambda>_. Tk_none), sc_count = 0, sc_join = Jn_idle, sc_destroying = False, sc_destroyed = False,
     sc_terminated = False, sc_failures = [], sc_thrown = []\<rparr>"

definition sc_spawn :: "sc \<Rightarrow> unit result \<times> sc" where
  "sc_spawn s =
     (if sc_joined s then (Inl Logic_error, s)
      else (Inr (), s\<lparr>sc_threads := sc_threads s @ [sc_count s], sc_task := (sc_task s)(sc_count s := Tk_running),
                     sc_count := sc_count s + 1\<rparr>))"

text \<open>The end of a task: normally, or with an exception, which it stores if it is the first and which then stops the others.\<close>

definition sc_return :: "nat \<Rightarrow> sc \<Rightarrow> sc option" where
  "sc_return i s = (if sc_task s i = Tk_running then Some (s\<lparr>sc_task := (sc_task s)(i := Tk_ended)\<rparr>) else None)"

definition sc_fail :: "nat \<Rightarrow> nat \<Rightarrow> sc \<Rightarrow> sc option" where
  "sc_fail i e s =
     (if sc_task s i = Tk_running
      then Some (s\<lparr>sc_exception := (if sc_exception s = None then Some e else sc_exception s),
                   sc_task := (sc_task s)(i := Tk_failed), sc_failures := sc_failures s @ [e]\<rparr>)
      else None)"

definition sc_fail_stop :: "nat \<Rightarrow> sc \<Rightarrow> sc option" where
  "sc_fail_stop i s =
     (if sc_task s i = Tk_failed then Some (s\<lparr>sc_stop := True, sc_task := (sc_task s)(i := Tk_ended)\<rparr>) else None)"

definition sc_cancel :: "sc \<Rightarrow> sc" where
  "sc_cancel s = s\<lparr>sc_stop := True\<rparr>"

text \<open>\<open>join\<close>: taking the threads, joining them one by one, and the final section.\<close>

definition sc_join_swap :: "sc \<Rightarrow> sc" where
  "sc_join_swap s = s\<lparr>sc_threads := [], sc_join := Jn_threads (sc_threads s)\<rparr>"

definition sc_join_one :: "sc \<Rightarrow> sc option" where
  "sc_join_one s =
     (case sc_join s of
        Jn_threads (i # is) \<Rightarrow> if sc_task s i = Tk_ended then Some (s\<lparr>sc_join := Jn_threads is\<rparr>) else None
      | _ \<Rightarrow> None)"

text \<open>The end of the destructor: a thread object that was not joined terminates the program.\<close>

definition sc_members :: "sc \<Rightarrow> sc" where
  "sc_members s = s\<lparr>sc_destroyed := True, sc_terminated := sc_terminated s \<or> sc_threads s \<noteq> []\<rparr>"

definition sc_join_finish :: "sc \<Rightarrow> sc option" where
  "sc_join_finish s =
     (if sc_join s \<noteq> Jn_threads [] then None
      else
        (let throws = (sc_exception s \<noteq> None \<and> \<not> sc_exceptionPropagated s);
             s1 = s\<lparr>sc_exceptionPropagated := sc_exceptionPropagated s \<or> throws, sc_exception := None, sc_joined := True,
                    sc_join := Jn_idle, sc_thrown := sc_thrown s @ (if throws then [the (sc_exception s)] else [])\<rparr> in
         if \<not> sc_destroying s then Some s1
         else if throws then Some (s1\<lparr>sc_terminated := True\<rparr>)
         else Some (sc_members s1)))"

definition sc_destroy :: "sc \<Rightarrow> sc" where
  "sc_destroy s =
     (let s1 = (sc_cancel s)\<lparr>sc_destroying := True\<rparr> in
      if \<not> sc_joined s then sc_join_swap s1 else sc_members s1)"

datatype sc_label = Sc_spawn | Sc_return nat | Sc_fail nat nat | Sc_stop nat | Sc_cancel | Sc_swap | Sc_one | Sc_finish | Sc_destroy

definition sc_next :: "sc_label \<Rightarrow> sc \<Rightarrow> sc option" where
  "sc_next l s =
     (if sc_destroyed s \<or> sc_terminated s then None
      else case l of
        Sc_spawn \<Rightarrow> Some (snd (sc_spawn s))
      | Sc_return i \<Rightarrow> sc_return i s
      | Sc_fail i e \<Rightarrow> sc_fail i e s
      | Sc_stop i \<Rightarrow> sc_fail_stop i s
      | Sc_cancel \<Rightarrow> Some (sc_cancel s)
      | Sc_swap \<Rightarrow> if sc_join s = Jn_idle \<and> \<not> sc_destroying s then Some (sc_join_swap s) else None
      | Sc_one \<Rightarrow> sc_join_one s
      | Sc_finish \<Rightarrow> sc_join_finish s
      | Sc_destroy \<Rightarrow> if sc_join s = Jn_idle \<and> \<not> sc_destroying s then Some (sc_destroy s) else None)"

subsection \<open>Structure\<close>

lemmas sc_ops = sc_spawn_def sc_return_def sc_fail_def sc_fail_stop_def sc_cancel_def sc_join_swap_def sc_join_one_def
  sc_join_finish_def sc_members_def sc_destroy_def Let_def

definition sc_joining :: "sc \<Rightarrow> nat list" where
  "sc_joining s = (case sc_join s of Jn_idle \<Rightarrow> [] | Jn_threads is \<Rightarrow> is)"

text \<open>A task that has not ended is one that is still to be joined.\<close>

definition owns :: "nat set \<Rightarrow> (nat \<Rightarrow> sc_task) \<Rightarrow> nat \<Rightarrow> bool" where
  "owns T f n \<longleftrightarrow> (\<forall>i < n. f i \<noteq> Tk_none \<and> (f i \<noteq> Tk_ended \<longrightarrow> i \<in> T)) \<and> (\<forall>i \<ge> n. f i = Tk_none)"

lemma owns_spawn: "owns T f n \<Longrightarrow> owns (insert n T) (f(n := Tk_running)) (Suc n)"
  by (auto simp: owns_def less_Suc_eq)

lemma owns_change: "owns T f n \<Longrightarrow> f i \<noteq> Tk_none \<Longrightarrow> f i \<noteq> Tk_ended \<Longrightarrow> p \<noteq> Tk_none \<Longrightarrow> owns T (f(i := p)) n"
  by (auto simp: owns_def)

lemma owns_join: "owns (insert i T) f n \<Longrightarrow> f i = Tk_ended \<Longrightarrow> owns T f n"
  by (auto simp: owns_def)

definition sc_owned :: "sc \<Rightarrow> bool" where
  "sc_owned s \<longleftrightarrow> owns (set (sc_threads s) \<union> set (sc_joining s)) (sc_task s) (sc_count s) \<and>
     (sc_destroyed s \<and> \<not> sc_terminated s \<longrightarrow> sc_threads s = [] \<and> sc_join s = Jn_idle)"

lemma sc_owned_next:
  assumes "sc_next l s = Some s'" "sc_owned s"
  shows "sc_owned s'"
proof -
  have live: "\<not> sc_destroyed s" "\<not> sc_terminated s" using assms(1) by (auto simp: sc_next_def split: if_splits)
  have o: "owns (set (sc_threads s) \<union> set (sc_joining s)) (sc_task s) (sc_count s)" using assms(2) by (simp add: sc_owned_def)
  show ?thesis
  proof (cases l)
    case Sc_spawn
    then show ?thesis using assms(1) o live owns_spawn [OF o]
      by (auto simp: sc_next_def sc_spawn_def sc_owned_def sc_joining_def split: if_splits)
  next
    case (Sc_return i)
    then show ?thesis using assms(1) live owns_change [OF o, of i Tk_ended]
      by (auto simp: sc_next_def sc_return_def sc_owned_def sc_joining_def split: if_splits)
  next
    case (Sc_fail i e)
    then show ?thesis using assms(1) live owns_change [OF o, of i Tk_failed]
      by (auto simp: sc_next_def sc_fail_def sc_owned_def sc_joining_def split: if_splits)
  next
    case (Sc_stop i)
    then show ?thesis using assms(1) live owns_change [OF o, of i Tk_ended]
      by (auto simp: sc_next_def sc_fail_stop_def sc_owned_def sc_joining_def split: if_splits)
  next
    case Sc_one
    then show ?thesis using assms(1) live o
      by (auto simp: sc_next_def sc_join_one_def sc_owned_def sc_joining_def intro: owns_join split: if_splits sc_join.splits list.splits)
  next
    case Sc_finish
    then show ?thesis using assms(1) live o
      by (auto simp: sc_next_def sc_join_finish_def sc_members_def sc_owned_def sc_joining_def Let_def split: if_splits)
  qed (use assms(1) live o in \<open>auto simp: sc_next_def sc_ops sc_owned_def sc_joining_def split: if_splits\<close>)
qed

text \<open>The exceptions: the first failure is the one that is rethrown, once.\<close>

definition sc_errors :: "sc \<Rightarrow> bool" where
  "sc_errors s \<longleftrightarrow>
     (if sc_exceptionPropagated s then sc_failures s \<noteq> [] \<and> sc_thrown s = [hd (sc_failures s)]
      else sc_thrown s = [] \<and> sc_exception s = (case sc_failures s of [] \<Rightarrow> None | e # es \<Rightarrow> Some e)) \<and>
     (sc_failures s \<noteq> [] \<longrightarrow> sc_stop s \<or> (\<exists>i. sc_task s i = Tk_failed))"

lemma sc_errors_next:
  assumes "sc_next l s = Some s'" "sc_errors s" "sc_owned s"
  shows "sc_errors s'"
proof (cases l)
  case (Sc_fail i e)
  then show ?thesis using assms
    by (cases "sc_failures s") (auto simp: sc_next_def sc_fail_def sc_errors_def split: if_splits)
next
  case Sc_finish
  then show ?thesis using assms
    by (cases "sc_failures s")
      (auto simp: sc_next_def sc_join_finish_def sc_members_def sc_errors_def Let_def split: if_splits)
next
  case (Sc_return i)
  then show ?thesis using assms by (auto simp: sc_next_def sc_return_def sc_errors_def split: if_splits) (metis sc_task.distinct(7))+
next
  case Sc_spawn
  have "sc_task s (sc_count s) = Tk_none" using assms(3) by (simp add: sc_owned_def owns_def)
  then show ?thesis
    using Sc_spawn assms(1,2) by (auto simp: sc_next_def sc_spawn_def sc_errors_def split: if_splits) (metis sc_task.distinct(3))+
qed (use assms in \<open>auto simp: sc_next_def sc_ops sc_errors_def split: if_splits sc_join.splits list.splits\<close>)

interpretation scx: step_system sc_next sc_new "\<lambda>s. sc_owned s \<and> sc_errors s"
proof unfold_locales
  show "sc_owned sc_new \<and> sc_errors sc_new" by (simp add: sc_owned_def sc_errors_def sc_new_def owns_def sc_joining_def)
  show "sc_owned s' \<and> sc_errors s'" if "sc_next l s = Some s'" "sc_owned s \<and> sc_errors s" for l s s'
    using that sc_owned_next [OF that(1)] sc_errors_next [OF that(1)] by simp
qed



text \<open>
  A task that spawns another one while \<open>join\<close> is under way adds it to \<open>threads_\<close> after \<open>join\<close> has taken the list. \<open>join\<close> returns without it,
  \<open>joined_\<close> keeps the destructor from joining, and the destruction of the thread object terminates the program.
\<close>

lemma spawn_during_join_terminates:
  "\<exists>s. run sc_next [Sc_spawn, Sc_swap, Sc_spawn, Sc_return 0, Sc_return 1, Sc_one, Sc_finish, Sc_destroy] sc_new = Some s \<and> sc_terminated s"
  by (simp add: sc_next_def sc_ops sc_new_def)

text \<open>A scope that is destroyed without a \<open>join\<close> terminates the program when a task failed.\<close>

lemma failed_scope_terminates:
  "\<exists>s. run sc_next [Sc_spawn, Sc_fail 0 9, Sc_stop 0, Sc_destroy, Sc_one, Sc_finish] sc_new = Some s \<and> sc_terminated s"
  by (simp add: sc_next_def sc_ops sc_new_def)

text \<open>After \<open>join\<close> nothing can be spawned.\<close>

lemma spawn_after_join: "sc_joined s \<Longrightarrow> sc_spawn s = (Inl Logic_error, s)"
  by (simp add: sc_spawn_def)

section \<open>DeadlineCancel\<close>

text \<open>
  The timer thread of a \<open>DeadlineCancel\<close> constructed at \<open>start\<close>: when it requests the stop, if there is one. The destructor joins it.
\<close>

definition dc_timer :: "int \<Rightarrow> int \<Rightarrow> int option" where
  "dc_timer timeout start = (if timeout < 0 then None else Some (start + timeout))"

definition dc_stopRequested :: "int option \<Rightarrow> int \<Rightarrow> bool" where
  "dc_stopRequested timer now = (case timer of None \<Rightarrow> False | Some t \<Rightarrow> t \<le> now)"

definition dc_destroy :: "int option \<Rightarrow> int \<Rightarrow> int" where
  "dc_destroy timer now = (case timer of None \<Rightarrow> now | Some t \<Rightarrow> max now t)"

text \<open>\<open>with_deadline\<close> returns when the destructor does; the callable starts at \<open>start\<close> and ends at \<open>fin\<close> of the timer it is given.\<close>

definition with_deadline :: "int \<Rightarrow> (int option \<Rightarrow> int) \<Rightarrow> int \<Rightarrow> int" where
  "with_deadline timeout fin start = (let timer = dc_timer timeout start in dc_destroy timer (fin timer))"

text \<open>The stop is requested at the deadline and not before; but the call never returns before the deadline, however early the callable ends.\<close>

lemma deadline_requests: "0 \<le> timeout \<Longrightarrow> dc_stopRequested (dc_timer timeout start) now \<longleftrightarrow> start + timeout \<le> now"
  by (simp add: dc_timer_def dc_stopRequested_def)

lemma with_deadline_waits: "0 \<le> timeout \<Longrightarrow> start + timeout \<le> with_deadline timeout fin start"
  by (simp add: with_deadline_def dc_timer_def dc_destroy_def)

end
