(* ===== verification/Cpu_Topology.thy ===== *)
theory Cpu_Topology
  imports Cpp_Text
begin

text \<open>
  \<open>CpuSet\<close> (src/include/pman/cpu_set.hpp) and \<open>SystemTopology\<close> (src/src/topology.cpp). The mask \<open>cpu_set_t\<close> is a list of
  \<open>CPU_SETSIZE\<close> bits. The topology is loaded from sysfs, which is a parameter: \<open>files\<close> gives the contents of a
  file that can be opened, \<open>dirs\<close> the entries of a directory that exists and whether each is a directory
  itself. A range in a CPU list ends below \<open>INT_MAX\<close>, where the counting loop of the parser would overflow.
\<close>

section \<open>CpuSet\<close>

definition CPU_SETSIZE :: nat where
  "CPU_SETSIZE = 1024"

definition cpu_clear :: "bool list" where
  "cpu_clear = replicate CPU_SETSIZE False"

definition cpu_add :: "int \<Rightarrow> bool list \<Rightarrow> bool list result" where
  "cpu_add cpu bits = (if cpu < 0 \<or> cpu \<ge> int CPU_SETSIZE then Inl Out_of_range else Inr (bits[nat cpu := True]))"

definition cpu_remove :: "int \<Rightarrow> bool list \<Rightarrow> bool list result" where
  "cpu_remove cpu bits = (if cpu < 0 \<or> cpu \<ge> int CPU_SETSIZE then Inl Out_of_range else Inr (bits[nat cpu := False]))"

text \<open>The constructor from a list of processors.\<close>

fun cpu_add_all :: "int list \<Rightarrow> bool list \<Rightarrow> bool list result" where
  "cpu_add_all [] bits = Inr bits"
| "cpu_add_all (cpu # cpus) bits = (case cpu_add cpu bits of Inl e \<Rightarrow> Inl e | Inr bits' \<Rightarrow> cpu_add_all cpus bits')"

definition cpu_range :: "int \<Rightarrow> int \<Rightarrow> bool list result" where
  "cpu_range firstCpuInclusive lastCpuExclusive =
     (if lastCpuExclusive < firstCpuInclusive then Inl Invalid_argument
      else cpu_add_all [firstCpuInclusive..lastCpuExclusive - 1] cpu_clear)"

definition cpu_contains :: "int \<Rightarrow> bool list \<Rightarrow> bool" where
  "cpu_contains cpu bits = (if cpu < 0 \<or> cpu \<ge> int CPU_SETSIZE then False else bits ! nat cpu)"

definition cpu_toVector :: "bool list \<Rightarrow> int list" where
  "cpu_toVector bits = filter (\<lambda>cpu. bits ! nat cpu) [0..int CPU_SETSIZE - 1]"

definition cpu_empty :: "bool list \<Rightarrow> bool" where
  "cpu_empty bits \<longleftrightarrow> list_all (\<lambda>cpu. \<not> bits ! nat cpu) [0..int CPU_SETSIZE - 1]"

subsection \<open>Members\<close>

lemma cpu_clear_contains [simp]: "\<not> cpu_contains cpu cpu_clear"
  by (auto simp: cpu_contains_def cpu_clear_def nat_less_iff)

lemma cpu_clear_length [simp]: "length cpu_clear = CPU_SETSIZE"
  by (simp add: cpu_clear_def)

lemma cpu_add_contains:
  assumes "length bits = CPU_SETSIZE" "cpu_add cpu bits = Inr bits'"
  shows "length bits' = CPU_SETSIZE" "cpu_contains c bits' \<longleftrightarrow> c = cpu \<or> cpu_contains c bits"
  using assms by (auto simp: cpu_add_def cpu_contains_def nth_list_update nat_eq_iff split: if_splits)

lemma cpu_remove_contains:
  assumes "length bits = CPU_SETSIZE" "cpu_remove cpu bits = Inr bits'"
  shows "length bits' = CPU_SETSIZE" "cpu_contains c bits' \<longleftrightarrow> c \<noteq> cpu \<and> cpu_contains c bits"
  using assms by (auto simp: cpu_remove_def cpu_contains_def nth_list_update nat_eq_iff split: if_splits)

text \<open>A list of processors is taken exactly when all of them are in range.\<close>

lemma cpu_add_all_outcome:
  assumes "length bits = CPU_SETSIZE"
  shows "if \<forall>c \<in> set cpus. 0 \<le> c \<and> c < int CPU_SETSIZE
         then \<exists>bits'. cpu_add_all cpus bits = Inr bits' \<and> length bits' = CPU_SETSIZE \<and>
                (\<forall>c. cpu_contains c bits' \<longleftrightarrow> c \<in> set cpus \<or> cpu_contains c bits)
         else cpu_add_all cpus bits = Inl Out_of_range"
  using assms
proof (induction cpus arbitrary: bits)
  case (Cons cpu cpus)
  show ?case
  proof (cases "0 \<le> cpu \<and> cpu < int CPU_SETSIZE")
    case True
    then obtain m where m: "cpu_add cpu bits = Inr m" by (auto simp: cpu_add_def)
    note A = cpu_add_contains [OF Cons.prems m]
    show ?thesis using Cons.IH [OF A(1)] True m A(2) by auto
  next
    case False
    then have "cpu_add cpu bits = Inl Out_of_range" by (auto simp: cpu_add_def)
    then show ?thesis using False by auto
  qed
qed simp

text \<open>The vector of a set lists its members in order, without repetition; the set is empty when it is.\<close>

lemma cpu_toVector_set: "set (cpu_toVector bits) = {c. cpu_contains c bits}"
  by (auto simp: cpu_toVector_def cpu_contains_def)

lemma cpu_toVector_sorted: "sorted (cpu_toVector bits) \<and> distinct (cpu_toVector bits)"
  by (simp add: cpu_toVector_def sorted_wrt_filter)

lemma cpu_empty_iff: "cpu_empty bits \<longleftrightarrow> cpu_toVector bits = []"
  by (simp add: cpu_empty_def cpu_toVector_def list_all_iff filter_empty_conv)

text \<open>\<open>range\<close> and \<open>toVector\<close> are inverse to each other; \<open>range\<close> throws for a reversed range and one that is too long.\<close>

lemma cpu_range_toVector:
  assumes "0 \<le> a" "a \<le> b" "b \<le> int CPU_SETSIZE"
  shows "\<exists>bits. cpu_range a b = Inr bits \<and> cpu_toVector bits = [a..b - 1]"
proof -
  have "\<forall>c \<in> set [a..b - 1]. 0 \<le> c \<and> c < int CPU_SETSIZE" using assms by auto
  then obtain m where m: "cpu_add_all [a..b - 1] cpu_clear = Inr m" "\<And>c. cpu_contains c m \<longleftrightarrow> c \<in> set [a..b - 1]"
    using cpu_add_all_outcome [OF cpu_clear_length, of "[a..b - 1]"] by (metis cpu_clear_contains)
  have "set (cpu_toVector m) = set [a..b - 1]" unfolding cpu_toVector_set m(2) by auto
  then have "cpu_toVector m = [a..b - 1]"
    using cpu_toVector_sorted [of m] by (intro sorted_distinct_set_unique) simp_all
  then show ?thesis using assms(2) m(1) by (simp add: cpu_range_def)
qed

lemma cpu_range_throws:
  "b < a \<Longrightarrow> cpu_range a b = Inl Invalid_argument"
  "a < b \<Longrightarrow> a < 0 \<or> int CPU_SETSIZE < b \<Longrightarrow> cpu_range a b = Inl Out_of_range"
proof -
  show "b < a \<Longrightarrow> cpu_range a b = Inl Invalid_argument" by (simp add: cpu_range_def)
  assume "a < b" "a < 0 \<or> int CPU_SETSIZE < b"
  moreover from this have "a \<in> set [a..b - 1]" "b - 1 \<in> set [a..b - 1]" "\<not> 0 \<le> a \<or> \<not> b - 1 < int CPU_SETSIZE" by auto
  then have "\<not> (\<forall>c \<in> set [a..b - 1]. 0 \<le> c \<and> c < int CPU_SETSIZE)" by blast
  ultimately show "cpu_range a b = Inl Out_of_range"
    using cpu_add_all_outcome [of cpu_clear "[a..b - 1]"] by (simp add: cpu_range_def)
qed

section \<open>SystemTopology\<close>

record numa_node =
  nn_id :: int
  nn_cpus :: "int list"

record cpu_info =
  ci_cpuId :: int
  ci_nodeId :: int
  ci_coreId :: int
  ci_packageId :: int
  ci_threadSiblings :: "int list"

record topo =
  to_nodes :: "numa_node list"
  to_cpuInfos :: "cpu_info list"
  to_coreToCpu :: "int \<rightharpoonup> int list"
  to_cpuToNode :: "int \<rightharpoonup> int"

fun parseCpuTokens :: "string list \<Rightarrow> int list \<Rightarrow> int list result" where
  "parseCpuTokens [] cpus = Inr cpus"
| "parseCpuTokens (token # ts) cpus =
     (if token = [] then parseCpuTokens ts cpus
      else case str_find (CHR ''-'') token of
        None \<Rightarrow> (case stoi token of Inl e \<Rightarrow> Inl e | Inr cpu \<Rightarrow> parseCpuTokens ts (cpus @ [cpu]))
      | Some dash \<Rightarrow>
          (case stoi (take dash token) of
             Inl e \<Rightarrow> Inl e
           | Inr start \<Rightarrow>
               (case stoi (drop (dash + 1) token) of
                  Inl e \<Rightarrow> Inl e
                | Inr finish \<Rightarrow> parseCpuTokens ts (cpus @ [min start finish..max start finish]))))"

definition parseCpuList :: "string \<Rightarrow> int list result" where
  "parseCpuList text = parseCpuTokens (getlines (CHR '','') text) []"

definition readIntFile :: "(string \<Rightarrow> string option) \<Rightarrow> string \<Rightarrow> int \<Rightarrow> int" where
  "readIntFile files path fallback =
     (case files path of None \<Rightarrow> fallback | Some text \<Rightarrow> fst (read_bounded 32 (Some text) fallback))"

text \<open>\<open>std::sort\<close>, \<open>std::unique\<close> and \<open>erase\<close>.\<close>

definition sort_unique :: "int list \<Rightarrow> int list" where
  "sort_unique cpus = remdups_adj (sort cpus)"

definition first_line :: "string \<Rightarrow> string" where
  "first_line text = takeWhile (\<lambda>c. c \<noteq> CHR ''\<newline>'') text"

text \<open>One entry of /sys/devices/system/node.\<close>

definition topo_nodeEntry :: "(string \<Rightarrow> string option) \<Rightarrow> string \<times> bool \<Rightarrow> topo \<Rightarrow> topo result" where
  "topo_nodeEntry files entry t =
     (let (name, isDirectory) = entry in
      if \<not> isDirectory \<or> \<not> starts_with ''node'' name then Inr t
      else case stoi (drop 4 name) of
        Inl e \<Rightarrow> Inl e
      | Inr nodeId \<Rightarrow>
          (case files (''/sys/devices/system/node/'' @ name @ ''/cpulist'') of
             None \<Rightarrow> Inr t
           | Some text \<Rightarrow>
               (case parseCpuList (first_line text) of
                  Inl e \<Rightarrow> Inl e
                | Inr [] \<Rightarrow> Inr t
                | Inr cpus \<Rightarrow>
                    Inr (t\<lparr>to_nodes := to_nodes t @ [\<lparr>nn_id = nodeId, nn_cpus = sort_unique cpus\<rparr>],
                           to_cpuToNode := foldl (\<lambda>f c. f(c \<mapsto> nodeId)) (to_cpuToNode t) (sort_unique cpus)\<rparr>))))"

text \<open>A loop over the entries of a directory; an exception ends it.\<close>

fun for_entries :: "('e \<Rightarrow> 's \<Rightarrow> 's result) \<Rightarrow> 'e list \<Rightarrow> 's \<Rightarrow> 's result" where
  "for_entries f [] t = Inr t"
| "for_entries f (e # es) t = (case f e t of Inl x \<Rightarrow> Inl x | Inr t' \<Rightarrow> for_entries f es t')"

text \<open>When no node was found, one node holds all processors; otherwise the nodes are sorted.\<close>

definition topo_fallback :: "nat \<Rightarrow> topo \<Rightarrow> topo" where
  "topo_fallback hardwareConcurrency t =
     (if to_nodes t = []
      then let cpus = [0..int (if hardwareConcurrency = 0 then 1 else hardwareConcurrency) - 1] in
        t\<lparr>to_nodes := [\<lparr>nn_id = 0, nn_cpus = cpus\<rparr>], to_cpuToNode := foldl (\<lambda>f c. f(c \<mapsto> 0)) (to_cpuToNode t) cpus\<rparr>
      else t\<lparr>to_nodes := sort_key nn_id (to_nodes t)\<rparr>)"

text \<open>One entry of /sys/devices/system/cpu.\<close>

definition topo_siblings :: "(string \<Rightarrow> string option) \<Rightarrow> string \<Rightarrow> int \<Rightarrow> int list result" where
  "topo_siblings files topoPath cpuId =
     (case (case files (topoPath @ ''/thread_siblings_list'') of
              None \<Rightarrow> Inr []
            | Some text \<Rightarrow> if text = [] then Inr [] else parseCpuList (first_line text)) of
        Inl e \<Rightarrow> Inl e
      | Inr siblings \<Rightarrow> Inr (if siblings = [] then [cpuId] else siblings))"

definition core_append :: "int \<Rightarrow> int list \<Rightarrow> (int \<rightharpoonup> int list) \<Rightarrow> (int \<rightharpoonup> int list)" where
  "core_append core l f = f(core \<mapsto> (case f core of None \<Rightarrow> [] | Some l' \<Rightarrow> l') @ l)"

definition topo_addCpu :: "cpu_info \<Rightarrow> topo \<Rightarrow> topo" where
  "topo_addCpu info t =
     t\<lparr>to_cpuInfos := to_cpuInfos t @ [info],
       to_coreToCpu := (if ci_coreId info \<ge> 0 then core_append (ci_coreId info) (ci_threadSiblings info) (to_coreToCpu t)
         else to_coreToCpu t)\<rparr>"

definition topo_cpuEntry :: "(string \<Rightarrow> string option) \<Rightarrow> string \<times> bool \<Rightarrow> topo \<Rightarrow> topo result" where
  "topo_cpuEntry files entry t =
     (let (name, isDirectory) = entry; topoPath = ''/sys/devices/system/cpu/'' @ name @ ''/topology'' in
      if \<not> isDirectory \<or> \<not> starts_with ''cpu'' name \<or> length name \<le> 3 then Inr t
      else case stoi (drop 3 name) of
        Inl _ \<Rightarrow> Inr t
      | Inr cpuId \<Rightarrow>
          (case topo_siblings files topoPath cpuId of
             Inl e \<Rightarrow> Inl e
           | Inr siblings \<Rightarrow>
               Inr (topo_addCpu
                 \<lparr>ci_cpuId = cpuId, ci_nodeId = (case to_cpuToNode t cpuId of None \<Rightarrow> -1 | Some n \<Rightarrow> n),
                  ci_coreId = readIntFile files (topoPath @ ''/core_id'') (-1),
                  ci_packageId = readIntFile files (topoPath @ ''/physical_package_id'') (-1),
                  ci_threadSiblings = siblings\<rparr> t)))"

text \<open>Without information on processors every processor of a node is a core of its own.\<close>

definition topo_addPlain :: "int \<Rightarrow> topo \<Rightarrow> int \<Rightarrow> topo" where
  "topo_addPlain nodeId t cpu =
     t\<lparr>to_cpuInfos := to_cpuInfos t @
         [\<lparr>ci_cpuId = cpu, ci_nodeId = nodeId, ci_coreId = cpu, ci_packageId = 0, ci_threadSiblings = [cpu]\<rparr>],
       to_coreToCpu := core_append cpu [cpu] (to_coreToCpu t)\<rparr>"

definition topo_cpuFallback :: "topo \<Rightarrow> topo" where
  "topo_cpuFallback t =
     (if to_cpuInfos t = []
      then foldl (\<lambda>t node. foldl (topo_addPlain (nn_id node)) t (nn_cpus node)) t (to_nodes t)
      else t)"

definition topo_load ::
  "(string \<Rightarrow> string option) \<Rightarrow> (string \<Rightarrow> (string \<times> bool) list option) \<Rightarrow> nat \<Rightarrow> topo result" where
  "topo_load files dirs hardwareConcurrency =
     (case (case dirs ''/sys/devices/system/node'' of
              None \<Rightarrow> Inr \<lparr>to_nodes = [], to_cpuInfos = [], to_coreToCpu = Map.empty, to_cpuToNode = Map.empty\<rparr>
            | Some entries \<Rightarrow> for_entries (topo_nodeEntry files) entries
                \<lparr>to_nodes = [], to_cpuInfos = [], to_coreToCpu = Map.empty, to_cpuToNode = Map.empty\<rparr>) of
        Inl e \<Rightarrow> Inl e
      | Inr t1 \<Rightarrow>
          (case (case dirs ''/sys/devices/system/cpu'' of
                   None \<Rightarrow> Inr (topo_fallback hardwareConcurrency t1)
                 | Some entries \<Rightarrow> for_entries (topo_cpuEntry files) entries (topo_fallback hardwareConcurrency t1)) of
             Inl e \<Rightarrow> Inl e
           | Inr t2 \<Rightarrow>
               (let t3 = topo_cpuFallback t2 in
                Inr (t3\<lparr>to_coreToCpu := (\<lambda>core. map_option sort_unique (to_coreToCpu t3 core))\<rparr>))))"

definition topo_node :: "int \<Rightarrow> topo \<Rightarrow> numa_node option" where
  "topo_node nodeId t = find (\<lambda>info. nn_id info = nodeId) (to_nodes t)"

definition cpuSetForNode :: "int \<Rightarrow> topo \<Rightarrow> bool list result" where
  "cpuSetForNode nodeId t =
     (case topo_node nodeId t of None \<Rightarrow> Inl Out_of_range | Some info \<Rightarrow> cpu_add_all (nn_cpus info) cpu_clear)"

definition cpuIds :: "topo \<Rightarrow> int list" where
  "cpuIds t = sort_unique (concat (map nn_cpus (to_nodes t)))"

definition siblingsForCore :: "int \<Rightarrow> topo \<Rightarrow> int list result" where
  "siblingsForCore coreId t = (case to_coreToCpu t coreId of None \<Rightarrow> Inl Out_of_range | Some l \<Rightarrow> Inr l)"

definition topo_cpuInfo :: "int \<Rightarrow> topo \<Rightarrow> cpu_info option" where
  "topo_cpuInfo cpuId t = find (\<lambda>info. ci_cpuId info = cpuId) (to_cpuInfos t)"

subsection \<open>CPU lists\<close>

text \<open>The kernel's format: single processors and ranges, separated by commas.\<close>

definition show_range :: "int \<times> int \<Rightarrow> string" where
  "show_range r = (if fst r = snd r then show_int (fst r) else show_int (fst r) @ CHR ''-'' # show_int (snd r))"

fun show_ranges :: "(int \<times> int) list \<Rightarrow> string" where
  "show_ranges [] = []"
| "show_ranges [r] = show_range r"
| "show_ranges (r # rs) = show_range r @ CHR '','' # show_ranges rs"

definition range_ok :: "int \<times> int \<Rightarrow> bool" where
  "range_ok r \<longleftrightarrow> 0 \<le> fst r \<and> fst r \<le> snd r \<and> snd r < 2 ^ 31 - 1"

lemma show_nonneg_chars: "0 \<le> i \<Longrightarrow> ch \<in> set (show_int i) \<Longrightarrow> is_digit ch"
  using show_nat_digits [of "nat i"] by (auto simp: show_int_def list_all_iff)

lemma no_dash: "0 \<le> i \<Longrightarrow> CHR ''-'' \<notin> set (show_int i)"
  using show_nonneg_chars [of i "CHR ''-''"] by (auto simp: is_digit_def)

lemma no_comma: "CHR '','' \<notin> set (show_int i)"
  using show_int_chars [of "CHR '',''" i] by (auto simp: is_digit_def)

lemma show_range_plain: "CHR '','' \<notin> set (show_range r)" "show_range r \<noteq> []"
  using no_comma by (auto simp: show_range_def)

lemma parse_range:
  assumes "range_ok r"
  shows "parseCpuTokens (show_range r # ts) cpus = parseCpuTokens ts (cpus @ [fst r..snd r])"
proof -
  have s: "stoi (show_int (fst r)) = Inr (fst r)" "stoi (show_int (snd r)) = Inr (snd r)"
    using stoi_show_int [of "fst r" "[]" "[]"] stoi_show_int [of "snd r" "[]" "[]"] assms by (simp_all add: range_ok_def)
  show ?thesis
  proof (cases "fst r = snd r")
    case True
    then show ?thesis
      using s(1) no_dash [of "fst r"] assms by (simp add: show_range_def str_find_None range_ok_def)
  next
    case False
    have "str_find (CHR ''-'') (show_range r) = Some (length (show_int (fst r)))"
      using False assms no_dash [of "fst r"] by (simp add: show_range_def str_find_append range_ok_def)
    then show ?thesis using False s assms by (simp add: show_range_def range_ok_def)
  qed
qed

lemma getlines_show_ranges: "getlines (CHR '','') (show_ranges rs) = map show_range rs"
proof (induction rs rule: show_ranges.induct)
  case (2 r)
  show ?case using show_range_plain by (simp add: getlines_last)
next
  case (3 r r' rs)
  then show ?case using show_range_plain(1) by (simp add: getlines_cons)
qed simp

text \<open>Parsing reads the kernel's lists back.\<close>

lemma parse_show_ranges:
  "list_all range_ok rs \<Longrightarrow> parseCpuList (show_ranges rs) = Inr (concat (map (\<lambda>r. [fst r..snd r]) rs))"
proof -
  assume "list_all range_ok rs"
  then have "parseCpuTokens (map show_range rs) cpus = Inr (cpus @ concat (map (\<lambda>r. [fst r..snd r]) rs))" for cpus
    by (induction rs arbitrary: cpus) (simp_all add: parse_range del: parseCpuTokens.simps(2))
  then show ?thesis by (simp add: parseCpuList_def getlines_show_ranges)
qed

subsection \<open>The loaded topology\<close>

lemma remdups_adj_sorted_distinct: "sorted xs \<Longrightarrow> distinct (remdups_adj xs)"
proof (induction xs rule: remdups_adj.induct)
  case (3 x y xs)
  then show ?case by (auto simp: order.antisym)
qed simp_all

lemma sort_key_Nil [simp]: "sort_key f xs = [] \<longleftrightarrow> xs = []"
  by (metis length_0_conv length_sort)

lemma sort_unique_facts [simp]:
  "set (sort_unique xs) = set xs" "sorted (sort_unique xs)" "distinct (sort_unique xs)" "sort_unique xs = [] \<longleftrightarrow> xs = []"
  by (simp_all add: sort_unique_def remdups_adj_sorted_distinct sorted_remdups_adj)

lemma foldl_map_upd: "foldl (\<lambda>f c. f(c \<mapsto> n)) m cs c = (if c \<in> set cs then Some n else m c)"
  by (induction cs arbitrary: m) auto

lemma for_entries_keeps:
  assumes "\<And>e t t'. f e t = Inr t' \<Longrightarrow> I t \<Longrightarrow> I t'"
  shows "for_entries f es t = Inr t' \<Longrightarrow> I t \<Longrightarrow> I t'"
  by (induction es arbitrary: t) (auto split: sum.splits intro: assms)

definition node_ok :: "numa_node \<Rightarrow> bool" where
  "node_ok n \<longleftrightarrow> nn_cpus n \<noteq> [] \<and> sorted (nn_cpus n) \<and> distinct (nn_cpus n)"

definition nodes_ok :: "topo \<Rightarrow> bool" where
  "nodes_ok t \<longleftrightarrow> list_all node_ok (to_nodes t) \<and>
     (\<forall>c n. to_cpuToNode t c = Some n \<longrightarrow> (\<exists>node \<in> set (to_nodes t). nn_id node = n \<and> c \<in> set (nn_cpus node)))"

definition info_ok :: "topo \<Rightarrow> cpu_info \<Rightarrow> bool" where
  "info_ok t i \<longleftrightarrow> ci_threadSiblings i \<noteq> [] \<and>
     (ci_nodeId i = -1 \<or> (\<exists>node \<in> set (to_nodes t). nn_id node = ci_nodeId i \<and> ci_cpuId i \<in> set (nn_cpus node))) \<and>
     (0 \<le> ci_coreId i \<longrightarrow> (\<exists>l. to_coreToCpu t (ci_coreId i) = Some l \<and> set (ci_threadSiblings i) \<subseteq> set l))"

definition cores_ok :: "topo \<Rightarrow> bool" where
  "cores_ok t \<longleftrightarrow> (\<forall>core l. to_coreToCpu t core = Some l \<longrightarrow> l \<noteq> [] \<and>
     set l = (\<Union>i \<in> {i \<in> set (to_cpuInfos t). ci_coreId i = core}. set (ci_threadSiblings i)))"

lemma nodeEntry_ok:
  assumes "topo_nodeEntry files e t = Inr t'" "nodes_ok t \<and> to_cpuInfos t = [] \<and> to_coreToCpu t = Map.empty"
  shows "nodes_ok t' \<and> to_cpuInfos t' = [] \<and> to_coreToCpu t' = Map.empty"
proof -
  consider "t' = t" | n cpus where "cpus \<noteq> []"
    "t' = t\<lparr>to_nodes := to_nodes t @ [\<lparr>nn_id = n, nn_cpus = sort_unique cpus\<rparr>],
            to_cpuToNode := foldl (\<lambda>f c. f(c \<mapsto> n)) (to_cpuToNode t) (sort_unique cpus)\<rparr>"
    using assms(1) by (auto simp: topo_nodeEntry_def split: prod.splits if_splits sum.splits option.splits list.splits)
  then show ?thesis
  proof cases
    case 2
    then show ?thesis using assms(2) by (fastforce simp: nodes_ok_def node_ok_def foldl_map_upd split: if_splits)
  qed (use assms(2) in simp)
qed

lemma fallback_ok:
  assumes "nodes_ok t \<and> to_cpuInfos t = [] \<and> to_coreToCpu t = Map.empty"
  shows "let t' = topo_fallback k t in nodes_ok t' \<and> to_nodes t' \<noteq> [] \<and> sorted (map nn_id (to_nodes t')) \<and>
    to_cpuInfos t' = [] \<and> to_coreToCpu t' = Map.empty"
proof (cases "to_nodes t = []")
  case True
  have "to_cpuToNode t c = None" for c
    using True assms by (cases "to_cpuToNode t c") (auto simp: nodes_ok_def)
  then show ?thesis using True assms
    by (auto simp: topo_fallback_def nodes_ok_def node_ok_def foldl_map_upd Let_def split: if_splits)
next
  case False
  then show ?thesis using assms by (auto simp: topo_fallback_def nodes_ok_def list_all_iff Let_def)
qed

definition topo_ok :: "topo \<Rightarrow> bool" where
  "topo_ok t \<longleftrightarrow> nodes_ok t \<and> to_nodes t \<noteq> [] \<and> sorted (map nn_id (to_nodes t)) \<and> list_all (info_ok t) (to_cpuInfos t) \<and> cores_ok t"

lemma core_append_same: "core_append core l f core = Some ((case f core of None \<Rightarrow> [] | Some l' \<Rightarrow> l') @ l)"
  by (simp add: core_append_def)

lemma core_append_other: "c \<noteq> core \<Longrightarrow> core_append core l f c = f c"
  by (simp add: core_append_def)

lemma core_append_grows: "f c = Some l \<Longrightarrow> \<exists>l'. core_append core k f c = Some l' \<and> set l \<subseteq> set l'"
  by (cases "c = core") (auto simp: core_append_def)

text \<open>Recording one processor keeps the invariant, with or without an entry for its core.\<close>

lemma add_info_ok:
  assumes t: "topo_ok t" and i: "ci_threadSiblings i \<noteq> []"
    "ci_nodeId i = -1 \<or> (\<exists>node \<in> set (to_nodes t). nn_id node = ci_nodeId i \<and> ci_cpuId i \<in> set (nn_cpus node))"
    and new: "to_coreToCpu t (ci_coreId i) = None \<Longrightarrow> ci_coreId i \<notin> ci_coreId ` set (to_cpuInfos t)"
  shows "topo_ok (t\<lparr>to_cpuInfos := to_cpuInfos t @ [i], to_coreToCpu := core_append (ci_coreId i) (ci_threadSiblings i) (to_coreToCpu t)\<rparr>)"
    (is "topo_ok ?t")
proof -
  have "info_ok ?t j" if "j \<in> set (to_cpuInfos t)" for j
  proof -
    have j: "info_ok t j" using t that by (simp add: topo_ok_def list_all_iff)
    show ?thesis
      using j core_append_grows [of "to_coreToCpu t" "ci_coreId j" _ "ci_coreId i" "ci_threadSiblings i"]
      by (fastforce simp: info_ok_def)
  qed
  moreover have "info_ok ?t i" using i by (auto simp: info_ok_def core_append_same)
  moreover have "cores_ok ?t"
  proof -
    have "l \<noteq> [] \<and> set l = (\<Union>j \<in> {j \<in> set (to_cpuInfos ?t). ci_coreId j = core}. set (ci_threadSiblings j))"
      if l: "to_coreToCpu ?t core = Some l" for core l
    proof (cases "core = ci_coreId i")
      case False
      then have "{j \<in> set (to_cpuInfos ?t). ci_coreId j = core} = {j \<in> set (to_cpuInfos t). ci_coreId j = core}" by auto
      then show ?thesis using l False t by (simp add: core_append_other topo_ok_def cores_ok_def)
    next
      case True
      have e: "{j \<in> set (to_cpuInfos ?t). ci_coreId j = core} = insert i {j \<in> set (to_cpuInfos t). ci_coreId j = core}"
        using True by auto
      have "set (case to_coreToCpu t core of None \<Rightarrow> [] | Some l' \<Rightarrow> l') =
        (\<Union>j \<in> {j \<in> set (to_cpuInfos t). ci_coreId j = core}. set (ci_threadSiblings j))"
        using t new True by (cases "to_coreToCpu t core") (auto simp: topo_ok_def cores_ok_def image_iff)
      then show ?thesis unfolding e using l True i(1) by (auto simp: core_append_same)
    qed
    then show ?thesis by (simp add: cores_ok_def)
  qed
  ultimately show ?thesis using t by (simp add: topo_ok_def nodes_ok_def list_all_iff)
qed

definition cores_nonneg :: "topo \<Rightarrow> bool" where
  "cores_nonneg t \<longleftrightarrow> (\<forall>core < 0. to_coreToCpu t core = None)"

lemma cpuEntry_ok:
  assumes "topo_cpuEntry files e t = Inr t'" "topo_ok t \<and> cores_nonneg t"
  shows "topo_ok t' \<and> cores_nonneg t'"
proof -
  consider "t' = t" | i where "t' = topo_addCpu i t" "ci_threadSiblings i \<noteq> []"
      "ci_nodeId i = (case to_cpuToNode t (ci_cpuId i) of None \<Rightarrow> -1 | Some n \<Rightarrow> n)"
    using assms(1)
    by (auto simp: topo_cpuEntry_def topo_siblings_def Let_def split: prod.splits if_splits sum.splits option.splits)
  then show ?thesis
  proof cases
    case 2
    have n: "ci_nodeId i = -1 \<or> (\<exists>node \<in> set (to_nodes t). nn_id node = ci_nodeId i \<and> ci_cpuId i \<in> set (nn_cpus node))"
      using 2(3) assms(2) by (auto simp: topo_ok_def nodes_ok_def split: option.splits)
    show ?thesis
    proof (cases "0 \<le> ci_coreId i")
      case True
      have "ci_coreId i \<notin> ci_coreId ` set (to_cpuInfos t)" if "to_coreToCpu t (ci_coreId i) = None"
        using that True assms(2) by (auto simp: topo_ok_def list_all_iff info_ok_def)
      then have "topo_ok (topo_addCpu i t)" using add_info_ok [OF _ 2(2) n] assms(2) True by (simp add: topo_addCpu_def)
      then show ?thesis using 2(1) assms(2) True by (simp add: cores_nonneg_def topo_addCpu_def core_append_other)
    next
      case False
      then have c: "cores_ok (topo_addCpu i t)"
        using assms(2) by (auto simp: topo_ok_def cores_ok_def cores_nonneg_def topo_addCpu_def)
      then show ?thesis
        using 2 assms(2) False n by (auto simp: topo_ok_def nodes_ok_def cores_nonneg_def topo_addCpu_def info_ok_def list_all_iff)
    qed
  qed (use assms(2) in simp)
qed

definition cores_all :: "topo \<Rightarrow> bool" where
  "cores_all t \<longleftrightarrow> (\<forall>i \<in> set (to_cpuInfos t). to_coreToCpu t (ci_coreId i) \<noteq> None)"

lemma addPlain_ok:
  assumes "topo_ok t \<and> cores_all t" "\<exists>node \<in> set (to_nodes t). nn_id node = n \<and> cpu \<in> set (nn_cpus node)"
  shows "topo_ok (topo_addPlain n t cpu) \<and> cores_all (topo_addPlain n t cpu)"
    "to_nodes (topo_addPlain n t cpu) = to_nodes t" "to_cpuInfos (topo_addPlain n t cpu) \<noteq> []"
proof -
  let ?i = "\<lparr>ci_cpuId = cpu, ci_nodeId = n, ci_coreId = cpu, ci_packageId = 0, ci_threadSiblings = [cpu]\<rparr>"
  have "topo_ok (t\<lparr>to_cpuInfos := to_cpuInfos t @ [?i], to_coreToCpu := core_append (ci_coreId ?i) (ci_threadSiblings ?i) (to_coreToCpu t)\<rparr>)"
    by (rule add_info_ok) (use assms in \<open>auto simp: cores_all_def\<close>)
  then show "topo_ok (topo_addPlain n t cpu) \<and> cores_all (topo_addPlain n t cpu)"
    using assms(1) by (auto simp: topo_addPlain_def cores_all_def core_append_def)
qed (simp_all add: topo_addPlain_def)

lemma fold_plain_ok:
  assumes "topo_ok t \<and> cores_all t" "node \<in> set (to_nodes t)" "set cpus \<subseteq> set (nn_cpus node)"
  shows "let t' = foldl (topo_addPlain (nn_id node)) t cpus in
    (topo_ok t' \<and> cores_all t') \<and> to_nodes t' = to_nodes t \<and> (cpus \<noteq> [] \<or> to_cpuInfos t \<noteq> [] \<longrightarrow> to_cpuInfos t' \<noteq> [])"
  using assms
proof (induction cpus arbitrary: t)
  case (Cons c cpus)
  have "\<exists>n \<in> set (to_nodes t). nn_id n = nn_id node \<and> c \<in> set (nn_cpus n)" using Cons.prems by auto
  note A = addPlain_ok [OF Cons.prems(1) this]
  then show ?case using Cons.IH [OF A(1)] Cons.prems(2,3) by (auto simp: Let_def)
qed (simp add: Let_def)

lemma fold_nodes_ok:
  assumes "topo_ok t \<and> cores_all t" "set nodes \<subseteq> set (to_nodes t)"
  shows "let t' = foldl (\<lambda>t node. foldl (topo_addPlain (nn_id node)) t (nn_cpus node)) t nodes in
    topo_ok t' \<and> (nodes \<noteq> [] \<or> to_cpuInfos t \<noteq> [] \<longrightarrow> to_cpuInfos t' \<noteq> [])"
  using assms
proof (induction nodes arbitrary: t)
  case (Cons node nodes)
  let ?t = "foldl (topo_addPlain (nn_id node)) t (nn_cpus node)"
  have f: "(topo_ok ?t \<and> cores_all ?t) \<and> to_nodes ?t = to_nodes t \<and> (nn_cpus node \<noteq> [] \<or> to_cpuInfos t \<noteq> [] \<longrightarrow> to_cpuInfos ?t \<noteq> [])"
    using fold_plain_ok [OF Cons.prems(1), of node "nn_cpus node"] Cons.prems(2) by (simp add: Let_def)
  moreover have "nn_cpus node \<noteq> []"
    using Cons.prems by (auto simp: topo_ok_def nodes_ok_def node_ok_def list_all_iff)
  ultimately show ?case using Cons.IH [of ?t] Cons.prems(2) by (auto simp: Let_def)
qed (simp add: Let_def)

lemma cpuFallback_ok:
  assumes "topo_ok t"
  shows "topo_ok (topo_cpuFallback t) \<and> to_cpuInfos (topo_cpuFallback t) \<noteq> []"
proof (cases "to_cpuInfos t = []")
  case True
  then have "cores_all t" by (simp add: cores_all_def)
  then show ?thesis
    using fold_nodes_ok [of t "to_nodes t"] True assms by (simp add: topo_cpuFallback_def Let_def topo_ok_def)
qed (use assms in \<open>simp add: topo_cpuFallback_def\<close>)

text \<open>
  Core numbers are unique in a package only. On a machine with two packages the cores of both that share a
  number are merged: the siblings of core 0 are the processors of two different cores.
\<close>

definition two_packages :: "string \<Rightarrow> string option" where
  "two_packages = map_of [(''/sys/devices/system/cpu/cpu0/topology/core_id'', ''0''), (''/sys/devices/system/cpu/cpu1/topology/core_id'', ''0''),
     (''/sys/devices/system/cpu/cpu0/topology/physical_package_id'', ''0''), (''/sys/devices/system/cpu/cpu1/topology/physical_package_id'', ''1''),
     (''/sys/devices/system/cpu/cpu0/topology/thread_siblings_list'', ''0''), (''/sys/devices/system/cpu/cpu1/topology/thread_siblings_list'', ''1'')]"

definition two_cpus :: "string \<Rightarrow> (string \<times> bool) list option" where
  "two_cpus d = (if d = ''/sys/devices/system/cpu'' then Some [(''cpu0'', True), (''cpu1'', True)] else None)"

lemma siblings_merge_packages:
  "case topo_load two_packages two_cpus 2 of
     Inl _ \<Rightarrow> False
   | Inr t \<Rightarrow> siblingsForCore 0 t = Inr [0, 1] \<and> map ci_packageId (to_cpuInfos t) = [0, 1]"
  by code_simp

definition topo_wf :: "topo \<Rightarrow> bool" where
  "topo_wf t \<longleftrightarrow> topo_ok t \<and> to_cpuInfos t \<noteq> [] \<and> (\<forall>core l. to_coreToCpu t core = Some l \<longrightarrow> sorted l \<and> distinct l)"

text \<open>
  A topology that loads is well formed, whatever sysfs says: there is a node, the nodes are sorted by number, the
  processors of each node are sorted, distinct and not empty; there is information on some processor, which names
  a node that contains the processor or none; the list of a core is sorted, distinct, and is the union of the sibling
  lists of the processors with that core number.
\<close>

lemma topology_well_formed:
  assumes "topo_load files dirs k = Inr t"
  shows "topo_wf t"
proof -
  let ?t0 = "\<lparr>to_nodes = [], to_cpuInfos = [], to_coreToCpu = Map.empty, to_cpuToNode = Map.empty\<rparr>"
  let ?start = "\<lambda>t. nodes_ok t \<and> to_cpuInfos t = [] \<and> to_coreToCpu t = Map.empty"
  obtain t1 t2 where t1: "(case dirs ''/sys/devices/system/node'' of None \<Rightarrow> Inr ?t0
      | Some entries \<Rightarrow> for_entries (topo_nodeEntry files) entries ?t0) = Inr t1"
    and t2: "(case dirs ''/sys/devices/system/cpu'' of None \<Rightarrow> Inr (topo_fallback k t1)
      | Some entries \<Rightarrow> for_entries (topo_cpuEntry files) entries (topo_fallback k t1)) = Inr t2"
    and t: "t = (topo_cpuFallback t2)\<lparr>to_coreToCpu := (\<lambda>core. map_option sort_unique (to_coreToCpu (topo_cpuFallback t2) core))\<rparr>"
    using assms unfolding topo_load_def by (auto simp: Let_def split: sum.splits)
  have "?start ?t0" by (simp add: nodes_ok_def)
  then have "?start t1"
    using t1 for_entries_keeps [of "topo_nodeEntry files" ?start, OF nodeEntry_ok] by (auto split: option.splits)
  then have "topo_ok (topo_fallback k t1) \<and> cores_nonneg (topo_fallback k t1)"
    using fallback_ok [of t1 k] by (simp add: Let_def topo_ok_def cores_ok_def cores_nonneg_def)
  then have "topo_ok t2"
    using t2 for_entries_keeps [of "topo_cpuEntry files" "\<lambda>t. topo_ok t \<and> cores_nonneg t", OF cpuEntry_ok] by (auto split: option.splits)
  then have "topo_ok (topo_cpuFallback t2) \<and> to_cpuInfos (topo_cpuFallback t2) \<noteq> []" by (rule cpuFallback_ok)
  then show ?thesis
    unfolding t topo_wf_def by (auto simp: topo_ok_def nodes_ok_def cores_ok_def list_all_iff info_ok_def)
qed

text \<open>The CPU set of a node has exactly its processors; unknown nodes and processors beyond the mask throw.\<close>

lemma cpu_set_for_node:
  assumes "topo_node n t = Some node"
  shows "if \<forall>c \<in> set (nn_cpus node). 0 \<le> c \<and> c < int CPU_SETSIZE
    then \<exists>bits. cpuSetForNode n t = Inr bits \<and> (\<forall>c. cpu_contains c bits \<longleftrightarrow> c \<in> set (nn_cpus node))
    else cpuSetForNode n t = Inl Out_of_range"
  using cpu_add_all_outcome [OF cpu_clear_length, of "nn_cpus node"] assms by (auto simp: cpuSetForNode_def split: if_splits)

lemma cpu_ids: "sorted (cpuIds t) \<and> distinct (cpuIds t) \<and> set (cpuIds t) = (\<Union>node \<in> set (to_nodes t). set (nn_cpus node))"
  by (simp add: cpuIds_def)

end
