(* ===== verification/Observability.thy ===== *)
theory Observability
  imports Cpp_Text
begin

text \<open>
  Snapshots of processes and threads from /proc (src/src/observability.cpp). The file system is a parameter:
  \<open>files\<close> gives the contents of a file that can be opened, \<open>dirs\<close> the entries of a directory that exists and
  whether each is a directory itself.
\<close>

section \<open>Definitions\<close>

record thread_stats =
  ts_tid :: int
  ts_name :: string
  ts_state :: char
  ts_userTimeTicks :: int
  ts_systemTimeTicks :: int
  ts_voluntary :: int
  ts_involuntary :: int

definition thread_stats_new :: thread_stats where
  "thread_stats_new = \<lparr>ts_tid = -1, ts_name = [], ts_state = CHR ''?'', ts_userTimeTicks = 0, ts_systemTimeTicks = 0,
     ts_voluntary = 0, ts_involuntary = 0\<rparr>"

record process_snapshot =
  sn_pid :: int
  sn_name :: string
  sn_startTimeTicks :: int
  sn_userTimeTicks :: int
  sn_systemTimeTicks :: int
  sn_threads :: "thread_stats list"

text \<open>\<open>for (int i = 0; i < n; ++i) iss >> dummy;\<close>\<close>

fun skip_fields :: "nat \<Rightarrow> istream \<Rightarrow> istream" where
  "skip_fields 0 is = is"
| "skip_fields (Suc n) is = skip_fields n (snd (read_bounded 64 is 0))"

text \<open>The split of a stat line that both parsers make: the number, the name, and the text after the name.\<close>

definition split_stat :: "string \<Rightarrow> (int \<times> string \<times> string) result" where
  "split_stat line =
     (case (str_find (CHR ''('') line, str_rfind (CHR '')'') line) of
        (Some lparen, Some rparen) \<Rightarrow>
          if rparen \<le> lparen then Inl Runtime_error
          else (case stoi (take lparen line) of
                  Inl e \<Rightarrow> Inl e
                | Inr i \<Rightarrow>
                    if length line < rparen + 2 then Inl Out_of_range
                    else Inr (i, take (rparen - lparen - 1) (drop (lparen + 1) line), drop (rparen + 2) line))
      | _ \<Rightarrow> Inl Runtime_error)"

definition parseThreadStatLine :: "string \<Rightarrow> thread_stats result" where
  "parseThreadStatLine line =
     (case split_stat line of
        Inl e \<Rightarrow> Inl e
      | Inr (tid, name, r) \<Rightarrow>
          (let (state, is1) = read_char (Some r) (CHR ''?'');
               (user, is2) = read_bounded 64 (skip_fields 11 is1) 0;
               (system, is3) = read_bounded 64 is2 0 in
           Inr (thread_stats_new\<lparr>ts_tid := tid, ts_name := name, ts_state := state, ts_userTimeTicks := user,
                  ts_systemTimeTicks := system\<rparr>)))"

definition after_colon :: "string \<Rightarrow> string" where
  "after_colon line = (case str_find (CHR '':'') line of None \<Rightarrow> line | Some k \<Rightarrow> drop (k + 1) line)"

text \<open>The lines of the status file in turn; an exception leaves what was stored so far.\<close>

fun parseSwitchLines :: "string list \<Rightarrow> thread_stats \<Rightarrow> exn option \<times> thread_stats" where
  "parseSwitchLines [] st = (None, st)"
| "parseSwitchLines (line # ls) st =
     (if starts_with ''voluntary_ctxt_switches'' line
      then (case stoll (after_colon line) of
              Inl e \<Rightarrow> (Some e, st)
            | Inr v \<Rightarrow> parseSwitchLines ls (st\<lparr>ts_voluntary := v\<rparr>))
      else if starts_with ''nonvoluntary_ctxt_switches'' line
      then (case stoll (after_colon line) of
              Inl e \<Rightarrow> (Some e, st)
            | Inr v \<Rightarrow> parseSwitchLines ls (st\<lparr>ts_involuntary := v\<rparr>))
      else parseSwitchLines ls st)"

definition parseContextSwitches :: "string option \<Rightarrow> thread_stats \<Rightarrow> exn option \<times> thread_stats" where
  "parseContextSwitches file st =
     (case file of None \<Rightarrow> (None, st) | Some text \<Rightarrow> parseSwitchLines (getlines (CHR ''\<newline>'') text) st)"

definition task_path :: "int \<Rightarrow> int \<Rightarrow> string" where
  "task_path pid tid = ''/proc/'' @ show_int pid @ ''/task/'' @ show_int tid"

definition readThreadStats :: "(string \<Rightarrow> string option) \<Rightarrow> int \<Rightarrow> int \<Rightarrow> thread_stats" where
  "readThreadStats files pid tid =
     (case files (task_path pid tid @ ''/stat'') of
        None \<Rightarrow> thread_stats_new\<lparr>ts_tid := -1\<rparr>
      | Some text \<Rightarrow>
          (case parseThreadStatLine text of
             Inl _ \<Rightarrow> thread_stats_new\<lparr>ts_tid := -1\<rparr>
           | Inr st \<Rightarrow>
               (case parseContextSwitches (files (task_path pid tid @ ''/status'')) st of
                  (None, st') \<Rightarrow> st'
                | (Some _, st') \<Rightarrow> st'\<lparr>ts_tid := -1\<rparr>)))"

definition parseProcessStat :: "string \<Rightarrow> process_snapshot result" where
  "parseProcessStat line =
     (case split_stat line of
        Inl e \<Rightarrow> Inl e
      | Inr (pid, name, r) \<Rightarrow>
          (let (state, is1) = read_char (Some r) (CHR ''?'');
               (user, is2) = read_bounded 64 (skip_fields 11 is1) 0;
               (system, is3) = read_bounded 64 is2 0;
               (start, is4) = read_bounded 64 (skip_fields 7 is3) 0 in
           Inr \<lparr>sn_pid = pid, sn_name = name, sn_startTimeTicks = start, sn_userTimeTicks = user,
                sn_systemTimeTicks = system, sn_threads = []\<rparr>))"

definition enumerateThreads :: "(string \<Rightarrow> (string \<times> bool) list option) \<Rightarrow> int \<Rightarrow> int list" where
  "enumerateThreads dirs pid =
     (case dirs (''/proc/'' @ show_int pid @ ''/task'') of
        None \<Rightarrow> []
      | Some entries \<Rightarrow>
          List.map_filter (\<lambda>(name, isDirectory).
            if \<not> isDirectory then None else case stoi name of Inl _ \<Rightarrow> None | Inr tid \<Rightarrow> Some tid) entries)"

definition effectivePid :: "int \<Rightarrow> int \<Rightarrow> int" where
  "effectivePid self pid = (if pid \<le> 0 then self else pid)"

definition snapshotProcess ::
  "(string \<Rightarrow> string option) \<Rightarrow> (string \<Rightarrow> (string \<times> bool) list option) \<Rightarrow> int \<Rightarrow> int \<Rightarrow> process_snapshot result" where
  "snapshotProcess files dirs self pid0 =
     (let pid = effectivePid self pid0 in
      case files (''/proc/'' @ show_int pid @ ''/stat'') of
        None \<Rightarrow> Inl Runtime_error
      | Some text \<Rightarrow>
          (case parseProcessStat text of
             Inl e \<Rightarrow> Inl e
           | Inr sn \<Rightarrow>
               Inr (sn\<lparr>sn_threads :=
                 filter (\<lambda>st. ts_tid st \<ge> 0) (map (readThreadStats files pid) (enumerateThreads dirs pid))\<rparr>)))"

definition snapshotThread :: "(string \<Rightarrow> string option) \<Rightarrow> int \<Rightarrow> int \<Rightarrow> int \<Rightarrow> int \<Rightarrow> thread_stats result" where
  "snapshotThread files self gettid pid tid =
     (let st = readThreadStats files (effectivePid self pid) (if tid \<le> 0 then gettid else tid) in
      if ts_tid st < 0 then Inl Runtime_error else Inr st)"

section \<open>The stat file\<close>

text \<open>
  The line the kernel writes (proc(5)): number, name in parentheses, state, and from field 4 on numbers.
  \<open>stat_field k\<close> is field k; 14 is utime, 15 stime, 22 starttime.
\<close>

definition stat_line :: "int \<Rightarrow> string \<Rightarrow> char \<Rightarrow> int list \<Rightarrow> string" where
  "stat_line i name state nums =
     show_int i @ '' ('' @ name @ '') '' @ [state] @ concat (map (\<lambda>f. CHR '' '' # show_int f) nums) @ [CHR ''\<newline>'']"

definition stat_field :: "nat \<Rightarrow> int list \<Rightarrow> int" where
  "stat_field k nums = nums ! (k - 4)"

definition int64_range :: "int \<Rightarrow> bool" where
  "int64_range v \<longleftrightarrow> - (2 ^ 63) \<le> v \<and> v < 2 ^ 63"

definition int32_range :: "int \<Rightarrow> bool" where
  "int32_range v \<longleftrightarrow> - (2 ^ 31) \<le> v \<and> v < 2 ^ 31"

definition fields_text :: "int list \<Rightarrow> string" where
  "fields_text nums = concat (map (\<lambda>f. CHR '' '' # show_int f) nums) @ [CHR ''\<newline>'']"

lemma fields_text_Cons: "fields_text (f # fs) = [CHR '' ''] @ show_int f @ fields_text fs"
  by (simp add: fields_text_def)

lemma fields_text_hd: "\<not> is_digit (hd (fields_text fs))"
  by (cases fs) (simp_all add: fields_text_def is_digit_def)

lemma read_field: "int64_range f \<Longrightarrow> read_bounded 64 (Some (fields_text (f # fs))) old = (f, Some (fields_text fs))"
  unfolding fields_text_Cons
  by (rule read_bounded_show_int) (simp_all add: int64_range_def is_space_def fields_text_hd)

lemma skip_fields_text:
  "list_all int64_range fs \<Longrightarrow> n \<le> length fs \<Longrightarrow>
    skip_fields n (Some (fields_text fs)) = Some (fields_text (drop n fs))"
proof (induction n arbitrary: fs)
  case (Suc n)
  then show ?case by (cases fs) (simp_all add: read_field)
qed simp

text \<open>The split finds number and name whatever characters the name has.\<close>

lemma split_stat_line:
  assumes "int32_range i" "state \<noteq> CHR '')''"
  shows "split_stat (stat_line i name state nums) = Inr (i, name, state # fields_text nums)"
proof -
  let ?a = "show_int i @ '' ''" and ?z = "CHR '' '' # state # fields_text nums"
  have l: "stat_line i name state nums = ?a @ CHR ''('' # (name @ CHR '')'' # ?z)"
    by (simp add: stat_line_def fields_text_def)
  have a: "CHR ''('' \<notin> set ?a" using show_int_chars [of "CHR ''(''" i] by (auto simp: is_digit_def)
  have "CHR '')'' \<notin> set (fields_text nums)"
    using show_int_chars [of "CHR '')''"] by (auto simp: fields_text_def is_digit_def)
  then have z: "CHR '')'' \<notin> set ?z" using assms(2) by auto
  have f: "str_find (CHR ''('') (stat_line i name state nums) = Some (length ?a)"
    unfolding l by (rule str_find_append [OF a])
  have r: "str_rfind (CHR '')'') (stat_line i name state nums) = Some (length ?a + 1 + length name)"
    using str_rfind_append [OF z, of "?a @ CHR ''('' # name"] unfolding l by simp
  have s: "stoi ?a = Inr i"
    using stoi_show_int [of i "[]" "'' ''"] assms(1) by (simp add: int32_range_def is_digit_def)
  show ?thesis unfolding split_stat_def f r using s by (simp add: l eval_nat_numeral)
qed

lemma read_state: "\<not> is_space c \<Longrightarrow> read_char (Some (c # r)) old = (c, Some r)"
  by (simp add: read_char_def)

lemma stat_reads:
  assumes "list_all int64_range nums" "n < length nums"
  shows "read_bounded 64 (skip_fields n (Some (fields_text nums))) a = (nums ! n, Some (fields_text (drop (n + 1) nums)))"
proof -
  have "drop n nums = nums ! n # drop (n + 1) nums" using assms(2) by (simp add: Cons_nth_drop_Suc)
  then show ?thesis
    using assms read_field [of "nums ! n"] by (simp add: skip_fields_text list_all_length)
qed

text \<open>
  Reading back a stat line. The name may contain blanks and parentheses. The times are read one field late:
  user time is field 15, which is the system time, and system time is field 16, the time of waited-for
  children.
\<close>

lemma parse_thread_stat:
  assumes "int32_range i" "\<not> is_space state" "state \<noteq> CHR '')''" "list_all int64_range nums" "13 \<le> length nums"
  shows "parseThreadStatLine (stat_line i name state nums) =
    Inr (thread_stats_new\<lparr>ts_tid := i, ts_name := name, ts_state := state,
           ts_userTimeTicks := stat_field 15 nums, ts_systemTimeTicks := stat_field 16 nums\<rparr>)"
proof -
  have u: "read_bounded 64 (skip_fields 11 (Some (fields_text nums))) 0 = (nums ! 11, Some (fields_text (drop 12 nums)))"
    using stat_reads [of nums 11 0] assms(4,5) by simp
  have "list_all int64_range (drop 12 nums)" using assms(4) by (auto simp: list_all_iff dest: in_set_dropD)
  then have s: "read_bounded 64 (Some (fields_text (drop 12 nums))) 0 = (nums ! 12, Some (fields_text (drop 13 nums)))"
    using stat_reads [of "drop 12 nums" 0 0] assms(5) by simp
  show ?thesis
    using split_stat_line [OF assms(1,3), of name nums]
    by (simp add: parseThreadStatLine_def read_state [OF assms(2)] u s stat_field_def)
qed

lemma parse_process_stat:
  assumes "int32_range i" "\<not> is_space state" "state \<noteq> CHR '')''" "list_all int64_range nums" "21 \<le> length nums"
  shows "parseProcessStat (stat_line i name state nums) =
    Inr \<lparr>sn_pid = i, sn_name = name, sn_startTimeTicks = stat_field 24 nums, sn_userTimeTicks = stat_field 15 nums,
         sn_systemTimeTicks = stat_field 16 nums, sn_threads = []\<rparr>"
proof -
  have u: "read_bounded 64 (skip_fields 11 (Some (fields_text nums))) 0 = (nums ! 11, Some (fields_text (drop 12 nums)))"
    using stat_reads [of nums 11 0] assms(4,5) by simp
  have r: "list_all int64_range (drop k nums)" for k using assms(4) by (auto simp: list_all_iff dest: in_set_dropD)
  have s: "read_bounded 64 (Some (fields_text (drop 12 nums))) 0 = (nums ! 12, Some (fields_text (drop 13 nums)))"
    using stat_reads [OF r, of 0 12 0] assms(5) by simp
  have t: "read_bounded 64 (skip_fields 7 (Some (fields_text (drop 13 nums)))) 0 = (nums ! 20, Some (fields_text (drop 21 nums)))"
    using stat_reads [OF r, of 7 13 0] assms(5) by simp
  show ?thesis
    using split_stat_line [OF assms(1,3), of name nums]
    by (simp add: parseProcessStat_def read_state [OF assms(2)] u s t stat_field_def)
qed

text \<open>A line without a closing parenthesis after the opening one is refused.\<close>

lemma parse_stat_malformed:
  "CHR ''('' \<notin> set line \<or> CHR '')'' \<notin> set line \<Longrightarrow>
    parseThreadStatLine line = Inl Runtime_error \<and> parseProcessStat line = Inl Runtime_error"
  by (auto simp: parseThreadStatLine_def parseProcessStat_def split_stat_def str_find_def str_rfind_def)

section \<open>Snapshots\<close>

text \<open>
  The status file of a task: lines of other keys, then the two counts of context switches. None of the other
  lines starts like a count (\<open>plain_line\<close>).
\<close>

definition voluntary_line :: "int \<Rightarrow> string" where
  "voluntary_line v = ''voluntary_ctxt_switches'' @ CHR '':'' # CHR 0x09 # show_int v"

definition nonvoluntary_line :: "int \<Rightarrow> string" where
  "nonvoluntary_line v = ''nonvoluntary_ctxt_switches'' @ CHR '':'' # CHR 0x09 # show_int v"

definition plain_line :: "string \<Rightarrow> bool" where
  "plain_line l \<longleftrightarrow> \<not> starts_with ''voluntary_ctxt_switches'' l \<and> \<not> starts_with ''nonvoluntary_ctxt_switches'' l \<and>
     CHR ''\<newline>'' \<notin> set l"

definition status_text :: "string list \<Rightarrow> int \<Rightarrow> int \<Rightarrow> string" where
  "status_text before v n = concat (map (\<lambda>l. l @ [CHR ''\<newline>'']) (before @ [voluntary_line v, nonvoluntary_line n]))"

lemma getlines_lines:
  "list_all (\<lambda>l. d \<notin> set l) ls \<Longrightarrow> getlines d (concat (map (\<lambda>l. l @ [d]) ls)) = ls"
  by (induction ls) (simp_all add: getlines_cons)

lemma stoll_tab: "int64_range k \<Longrightarrow> stoll (CHR 0x09 # show_int k) = Inr k"
  using read_number_show_int [of "[CHR 0x09]" "[]" k] by (simp add: stoll_def int64_range_def is_space_def)

lemma after_colon_append: "CHR '':'' \<notin> set key \<Longrightarrow> after_colon (key @ CHR '':'' # r) = r"
  by (simp add: after_colon_def str_find_append)

lemma parse_switch_lines:
  assumes "list_all plain_line before" "int64_range v" "int64_range n"
  shows "parseSwitchLines (before @ [voluntary_line v, nonvoluntary_line n]) st =
    (None, st\<lparr>ts_voluntary := v, ts_involuntary := n\<rparr>)"
  using assms(1)
proof (induction before)
  case Nil
  have "starts_with ''voluntary_ctxt_switches'' (voluntary_line v)"
    "\<not> starts_with ''voluntary_ctxt_switches'' (nonvoluntary_line n)"
    "starts_with ''nonvoluntary_ctxt_switches'' (nonvoluntary_line n)"
    by (simp_all add: starts_with_def voluntary_line_def nonvoluntary_line_def)
  moreover have "stoll (after_colon (voluntary_line v)) = Inr v" "stoll (after_colon (nonvoluntary_line n)) = Inr n"
    unfolding voluntary_line_def nonvoluntary_line_def
    by (subst after_colon_append; simp add: stoll_tab assms(2,3))+
  ultimately show ?case by simp
qed (simp add: plain_line_def)

lemma newline_not_in_number: "CHR ''\<newline>'' \<notin> set (show_int i)"
  using show_int_no_space [of "CHR ''\<newline>''" i] by (auto simp: is_space_def)

lemma parse_status_text:
  assumes "list_all plain_line before" "int64_range v" "int64_range n"
  shows "parseContextSwitches (Some (status_text before v n)) st = (None, st\<lparr>ts_voluntary := v, ts_involuntary := n\<rparr>)"
proof -
  have "list_all (\<lambda>l. CHR ''\<newline>'' \<notin> set l) (before @ [voluntary_line v, nonvoluntary_line n])"
    using assms(1) newline_not_in_number by (auto simp: list_all_iff plain_line_def voluntary_line_def nonvoluntary_line_def)
  then show ?thesis
    unfolding parseContextSwitches_def status_text_def option.case by (simp only: getlines_lines parse_switch_lines [OF assms])
qed

text \<open>What the kernel says about a task, and that the files of /proc say it.\<close>

record task_info =
  ti_name :: string
  ti_state :: char
  ti_nums :: "int list"
  ti_before :: "string list"
  ti_voluntary :: int
  ti_involuntary :: int

definition task_ok :: "task_info \<Rightarrow> bool" where
  "task_ok i \<longleftrightarrow> \<not> is_space (ti_state i) \<and> ti_state i \<noteq> CHR '')'' \<and> list_all int64_range (ti_nums i) \<and> 21 \<le> length (ti_nums i) \<and>
     list_all plain_line (ti_before i) \<and> int64_range (ti_voluntary i) \<and> int64_range (ti_involuntary i)"

definition task_files :: "(string \<Rightarrow> string option) \<Rightarrow> int \<Rightarrow> int \<Rightarrow> task_info \<Rightarrow> bool" where
  "task_files files pid tid i \<longleftrightarrow>
     files (task_path pid tid @ ''/stat'') = Some (stat_line tid (ti_name i) (ti_state i) (ti_nums i)) \<and>
     files (task_path pid tid @ ''/status'') = Some (status_text (ti_before i) (ti_voluntary i) (ti_involuntary i))"

definition task_stats :: "int \<Rightarrow> task_info \<Rightarrow> thread_stats" where
  "task_stats tid i = \<lparr>ts_tid = tid, ts_name = ti_name i, ts_state = ti_state i, ts_userTimeTicks = stat_field 15 (ti_nums i),
     ts_systemTimeTicks = stat_field 16 (ti_nums i), ts_voluntary = ti_voluntary i, ts_involuntary = ti_involuntary i\<rparr>"

lemma read_thread_stats:
  assumes "task_files files pid tid i" "task_ok i" "int32_range tid"
  shows "readThreadStats files pid tid = task_stats tid i"
proof -
  have "parseThreadStatLine (stat_line tid (ti_name i) (ti_state i) (ti_nums i)) =
    Inr (thread_stats_new\<lparr>ts_tid := tid, ts_name := ti_name i, ts_state := ti_state i,
           ts_userTimeTicks := stat_field 15 (ti_nums i), ts_systemTimeTicks := stat_field 16 (ti_nums i)\<rparr>)"
    by (rule parse_thread_stat) (use assms(2,3) in \<open>auto simp: task_ok_def\<close>)
  moreover have "parseContextSwitches (Some (status_text (ti_before i) (ti_voluntary i) (ti_involuntary i))) st =
      (None, st\<lparr>ts_voluntary := ti_voluntary i, ts_involuntary := ti_involuntary i\<rparr>)" for st
    by (rule parse_status_text) (use assms(2) in \<open>simp_all add: task_ok_def\<close>)
  ultimately show ?thesis
    using assms(1) by (simp add: readThreadStats_def task_files_def task_stats_def thread_stats_new_def)
qed

lemma enumerate_threads:
  assumes "dirs (''/proc/'' @ show_int pid @ ''/task'') = Some (map (\<lambda>t. (show_int t, True)) tids)" "list_all int32_range tids"
  shows "enumerateThreads dirs pid = tids"
proof -
  have "stoi (show_int t) = Inr t" if "t \<in> set tids" for t
    using assms(2) that stoi_show_int [of t "[]" "[]"] by (simp add: list_all_iff int32_range_def)
  then have "List.map_filter (\<lambda>(name, isDirectory). if \<not> isDirectory then None else case stoi name of Inl _ \<Rightarrow> None | Inr tid \<Rightarrow> Some tid)
      (map (\<lambda>t. (show_int t, True)) tids) = tids"
    by (induction tids) (simp_all add: map_filter_simps)
  then show ?thesis using assms(1) by (simp add: enumerateThreads_def)
qed


definition demo_info :: task_info where
  "demo_info = \<lparr>ti_name = ''a) (b'', ti_state = CHR ''S'', ti_nums = map int [4..<26], ti_before = [''Name: a'' ], ti_voluntary = 7, ti_involuntary = 2\<rparr>"

definition demo_files :: "string \<Rightarrow> string option" where
  "demo_files = map_of [(''/proc/'' @ show_int 5 @ ''/stat'', stat_line 5 (ti_name demo_info) (ti_state demo_info) (ti_nums demo_info)),
     (task_path 5 5 @ ''/stat'', stat_line 5 (ti_name demo_info) (ti_state demo_info) (ti_nums demo_info)),
     (task_path 5 5 @ ''/status'', status_text (ti_before demo_info) (ti_voluntary demo_info) (ti_involuntary demo_info))]"


end
