(* ===== verification/Spec2Isabelle.thy ===== *)
theory Spec2Isabelle
  imports Futex_Mutex Recursive_Mutex Futex_Semaphore Futex_Latch Spin_Locks Rw_Mutex Thread_Pool Enhanced_Pool Async_RwLock Async_Actor Async_Stream Async_Combinators Async_Time Timer_Wheel Rate_Limiter Cron_Scheduler Process_Supervisor
    Periodic_Scheduler Process_Health Signals Thread_Control Task_Scope Cpu_Topology Observability
begin

text \<open>
  Verification library for pman, a C++ library of thread, process and coroutine utilities for Linux.

  \<^bold>\<open>The program.\<close> pman has five layers. (1) Synchronisation on futexes: \<open>FutexMutex\<close>, \<open>FutexCondVar\<close>
  (src/src/futex.cpp), \<open>FutexRwMutex\<close> (src/src/rw_mutex.cpp) and more locks built the same way.
  (2) Time: \<open>TimerWheel\<close>, the rate limiters, \<open>CronExpression\<close> and \<open>CronScheduler\<close>, the periodic
  scheduler. (3) Processes: \<open>ProcessHandle\<close>, \<open>launchProcess\<close>, \<open>ProcessBuilder\<close>, groups, supervision and
  health checks. (4) Coroutines (namespace async): an event loop over epoll, and on top of it mutex,
  semaphore, reader/writer lock, channel, streams, combinators and actors. (5) The system around them: control of
  threads (pausing, cancelling, scopes), signals, the processor topology and snapshots from /proc. The rate limiters wait on a
  \<open>FutexCondVar\<close>; the cron scheduler uses the expression's \<open>nextAfter\<close>; the async primitives wake
  coroutines through the event loop's post queue; the supervisor and the groups use process handles; the periodic scheduler
  runs on the timer wheel.

  \<^bold>\<open>How code becomes definitions.\<close> A class is a record, a member function a function on it; exceptions
  are the left summand of \<open>'a result\<close>. Code that several threads run at once is a step function
  \<open>nxt :: 'l \<Rightarrow> 's \<Rightarrow> 's option\<close> with one program counter per thread and one label per atomic access or
  kernel choice, executed over an explicit schedule by \<open>run\<close>. Code that runs under one mutex or on the
  thread of one event loop is sequential. Clock readings, answers of system calls and what user
  callbacks call are inputs: \<open>clock k\<close> is the k-th reading, documented to be monotone. Times are
  integers in nanoseconds; \<open>double\<close> is exact rational arithmetic. Memory orders weaker than sequential
  consistency are not modelled.

  \<^bold>\<open>Theories.\<close>

  \<^item> \<open>Pman_Prelude\<close>: exceptions, \<open>run\<close>, \<open>reachable\<close>, and the interfaces as locales: \<open>step_system\<close> (an
  inductive invariant holds in every run), \<open>lock_system\<close> (mutual exclusion from a holder predicate),
  \<open>guarded_system\<close> (invariants over admissible labels), \<open>rw_lock_system\<close> (readers and writers).

  \<^item> \<open>Futex_Mutex\<close>: \<open>FutexMutex\<close> (\<open>fm_\<close>), an interleaving of the atomic accesses of \<open>lock\<close> (with its spin
  budget of 1000), \<open>try_lock\<close>, \<open>unlock\<close> and the futex queue. Mutual exclusion for any number of threads;
  no lost wake-up for two threads; a schedule of three threads that loses one.

  \<^item> \<open>Rw_Mutex\<close>: \<open>FutexRwMutex\<close> (\<open>rw_\<close>) with upgrade and downgrade on the bits of its lock word.
  Exclusion, the word decodes to the holders, no reader is left asleep, and two schedules in which a
  writer is. At most \<open>2 ^ 29 - 1\<close> threads, the capacity of the reader field.

  \<^item> \<open>Recursive_Mutex\<close>: \<open>FutexRecursiveMutex\<close> (\<open>rm_\<close>), an interpretation of \<open>lock_system\<close>: exclusion, and
  owner and recursion depth are those of the holder. The recursion count is unbounded here, exact
  below \<open>2 ^ 32\<close> nested locks.

  \<^item> \<open>Futex_Semaphore\<close>: \<open>FutexSemaphore\<close> (\<open>sm_\<close>) for any number of threads: conservation of permits and no
  lost wake-up, as long as the count stays within \<open>int\<close>; what happens beyond.

  \<^item> \<open>Futex_Latch\<close>: \<open>FutexLatch\<close> (\<open>la_\<close>) and \<open>FutexOnceFlag\<close> (\<open>on_\<close>): when they open, that they wake every
  waiter, and how an underflow or an exception strands waiters. \<open>Spin_Locks\<close>: \<open>RwSpinLock\<close> (\<open>rs_\<close>),
  \<open>SeqLock\<close> (\<open>sq_\<close>, a read sees one version) and \<open>Barrier\<close> (\<open>br_\<close>, for \<open>threshold_\<close> participants).

  \<^item> \<open>Thread_Pool\<close>: \<open>ThreadPool\<close> (\<open>tp_\<close>): submission order, each job once, no stranded job, the destructor
  drains the queue. \<open>Enhanced_Pool\<close>: \<open>EnhancedThreadPool\<close> (\<open>ep_\<close>): priorities, each task at most once, and
  the interleavings in which the pool hangs or reports idle too early.

  \<^item> \<open>Futex_CondVar\<close>: \<open>FutexCondVar\<close> and \<open>FutexLockGuard\<close> (\<open>cv_\<close>) from the waiting thread's view.

  \<^item> \<open>Rate_Limiter\<close>: token bucket (\<open>tb_\<close>) and sliding window (\<open>sw_\<close>). The rate bound over every period,
  the window bound, exactness of the queries, and that a wait that times out throws.

  \<^item> \<open>Timer_Wheel\<close>: the hierarchical wheel (\<open>tw_\<close>). Exact counting, cascades lose no timer, a slot fires
  when reached, \<open>schedule\<close> on a started wheel deadlocks.

  \<^item> \<open>Calendar\<close>: \<open>localtime_r\<close> and \<open>mktime\<close> for a constant UTC offset, behind the locale \<open>calendar\<close>, with
  the proleptic Gregorian calendar as its interpretation \<open>greg\<close>.

  \<^item> \<open>Cron_Expression\<close>: parsing, printing, builders, \<open>nextAfter\<close> (\<open>cron_\<close>). \<open>nextAfter\<close> is the earliest
  match (proved in the locale \<open>calendar\<close>), it finds a match within 366 days (its loop has
  \<open>366 * 24 * 60\<close> iterations, each of which passes over a minute at least), parse after print is the
  identity.

  \<^item> \<open>Cron_Scheduler\<close>: \<open>CronScheduler\<close> (\<open>cs_\<close>). A pass executes exactly the due tasks; a cancelled task
  never runs; the wake-up timer is in time.

  \<^item> \<open>Process\<close>: the children of a process, \<open>ProcessHandle\<close> (\<open>ph_\<close>), \<open>ProcessConfig\<close> (\<open>pc_\<close>) and
  \<open>launchProcess\<close> with its two launch paths. Termination reaps the child and touches no other process;
  both paths give the child the same descriptors.

  \<^item> \<open>Process_Builder\<close>: \<open>Pipe\<close> (\<open>pp_\<close>) and \<open>ProcessBuilder\<close> (\<open>pb_\<close>), with a well-formedness invariant of every
  builder the interface can produce and the exact list of descriptors a spawn closes.

  \<^item> \<open>Process_Group\<close>: \<open>ProcessGroup\<close> (\<open>pg_\<close>) over kernel process groups: signals reach every member that
  has joined, waiting reaps exactly the members; and the calls that break these contracts.

  \<^item> \<open>Process_Supervisor\<close>: \<open>ProcessSupervisor\<close> (\<open>sup_\<close>) as a step relation with one operation per section
  under its mutex: the restart limits hold in every interleaving, the back-off is exact and bounded
  (its loop multiplies at most 32 times), and the defects that the model shows.

  \<^item> \<open>Process_Health\<close>: the health checks and \<open>HealthMonitor\<close> (\<open>hm_\<close>): the status of a process as a function of the history of its checks, and that
  the monitor thread ends after \<open>stop\<close>.

  \<^item> \<open>Periodic_Scheduler\<close>: \<open>PeriodicScheduler\<close> (\<open>pd_\<close>) on \<open>Timer_Wheel\<close>: running counts and the limit on concurrent executions, and how
  \<open>start\<close>, \<open>resume\<close> and \<open>schedule\<close> deadlock.

  \<^item> \<open>Thread_Control\<close>: \<open>PausableThread\<close> (\<open>pa_\<close>): a paused worker stays parked and no wake-up is lost; \<open>CancellableThread\<close> (\<open>cn_\<close>): every cleanup handler
  runs or is dismissed exactly once. \<open>Task_Scope\<close>: \<open>TaskScope\<close> (\<open>sc_\<close>) and \<open>DeadlineCancel\<close> (\<open>dc_\<close>): all tasks have ended when a scope is left, the first
  exception is rethrown once, and a spawn during \<open>join\<close> terminates the program.

  \<^item> \<open>Signals\<close>: escalation sequences over a kernel that is a parameter, and \<open>SignalDispatcher\<close> (\<open>sd_\<close>) with its thread: what \<open>stop\<close> guarantees, and its races.

  \<^item> \<open>Cpp_Text\<close>: numbers, lines and formatted input as the standard library has them; printing and reading are inverse. \<open>Cpu_Topology\<close>: \<open>CpuSet\<close> (\<open>cpu_\<close>)
  and \<open>SystemTopology\<close> (\<open>topo_\<close>) over a sysfs that is a parameter: lists of processors are read back, and every topology that loads is well formed.
  \<open>Observability\<close>: the parsers of /proc and the snapshots: complete, but with the times read from the wrong fields.

  \<^item> \<open>Async_Sync\<close>: async \<open>Mutex\<close> (\<open>am_\<close>) and \<open>Semaphore\<close> (\<open>as_\<close>) with their guards, as two interpretations
  of the locale \<open>handoff\<close>: exclusion, FIFO hand-over, conservation of permits.

  \<^item> \<open>Async_RwLock\<close>: async \<open>RwLock\<close> (\<open>arw_\<close>): exclusion, and that a waiter only waits for a holder.

  \<^item> \<open>Async_Channel\<close>: the bounded channel (\<open>ch_\<close>) as a FIFO queue; no lost wake-up on one loop.

  \<^item> \<open>Async_Stream\<close>: the stream adaptors (\<open>st_\<close>) as partial functions that are shown to return; they are the
  list functions of their names.

  \<^item> \<open>Event_Loop\<close>: \<open>EpollLoop\<close> and \<open>EventLoop\<close> (\<open>el_\<close>): the two timer indexes agree, due timers fire once
  and in order, the poll timeout is not late, adding and cancelling is a round trip (locale
  \<open>timer_service\<close>).

  \<^item> \<open>Async_Time\<close>: durations and instants with overflow (\<open>du_\<close>, \<open>in_\<close>), sleeping (\<open>sl_\<close>, \<open>su_\<close>), \<open>Interval\<close> (\<open>iv_\<close>),
  \<open>timeout\<close> (\<open>ta_\<close>) and \<open>race\<close> (\<open>ra_\<close>, \<open>rv_\<close>), clients of the locale \<open>timer_service\<close>: timers are neither early nor left
  behind, \<open>timeout\<close> has one outcome, and how \<open>race\<close> fails.

  \<^item> \<open>Async_Combinators\<close>: \<open>all\<close> (\<open>al_\<close>), \<open>any\<close> (\<open>ay_\<close>) and \<open>first\<close>: the order and number of results, and that the
  specialisations for \<open>void\<close> refine the general code.

  \<^item> \<open>Async_Actor\<close>: actors and \<open>ProcessRegistry\<close> (\<open>ac_\<close>, \<open>rg_\<close>) with channels as mailboxes: an exit takes down exactly
  the linked actors (its recursion ends because every call removes an actor), names, messages, and uses of
  destroyed actors.

  \<^bold>\<open>Not modelled.\<close> The synchronisation objects in shared memory, which repeat the futex protocols above between processes; \<open>ManagedThread\<close> and
  \<open>ThreadGroup\<close>, a sequence of pthread calls, whose clients have their threads as steps; descriptors and system calls that only pass data
  through (sockets, files, message queues, shared memory mappings, io_uring submission), NUMA, memory locking and scheduling calls; the diagnostics
  callbacks; coroutine frames and allocation, which the compiler generates; memory orders weaker than sequential consistency; daylight saving; and the tests,
  examples and benchmarks.
\<close>

end
